(* ===== verification/Prelude.thy ===== *)
theory Prelude
  imports Main "HOL-Library.Word"
begin

text \<open>
  The foundations every component of the kernel model shares: machine integers and
  little-endian byte strings, the base machine state (physical memory and the spin-locks held
  by the executing CPU), the result type of a kernel function together with its sequencing
  operator, array scans, and the generic interface of an invariant of a step relation.
  A kernel function is a HOL function from the state to a result: it returns (\<open>Ok\<close>), calls
  \<open>panic\<close> (\<open>Panic\<close> with the message), goes to sleep on a channel (\<open>Block\<close>), gives the CPU to the
  scheduler (\<open>Switch\<close>), never returns (\<open>Spin\<close>), or does what C leaves undefined, such as writing
  beyond the end of an array (\<open>Undef\<close>).
\<close>

unbundle bit_operations_syntax

section \<open>Machine integers and bytes\<close>

type_synonym u8 = "8 word"
type_synonym u16 = "16 word"
type_synonym u32 = "32 word"
type_synonym u64 = "64 word"

text \<open>Collections of the rules that symbolic execution and the bounds proofs use.\<close>

named_theorems kexec \<open>equations that run a kernel function one step\<close>
named_theorems bytes_simps \<open>equations on little-endian byte strings and memory\<close>
named_theorems keeps \<open>rules for what a function leaves alone\<close>
named_theorems klock \<open>equations on the lock list\<close>

definition le_bytes :: "nat \<Rightarrow> 'a::len word \<Rightarrow> u8 list" where
  "le_bytes n v = map (\<lambda>i. ucast (drop_bit (8 * i) v)) [0..<n]"

primrec le_word :: "u8 list \<Rightarrow> 'a::len word" where
  "le_word [] = 0"
| "le_word (b # bs) = ucast b OR push_bit 8 (le_word bs)"

lemma length_le_bytes [simp]: "length (le_bytes n v) = n"
  by (simp add: le_bytes_def)

lemma nth_le_bytes [simp]: "i < n \<Longrightarrow> le_bytes n v ! i = ucast (drop_bit (8 * i) v)"
  by (simp add: le_bytes_def)

lemma bit_le_word:
  "bit (le_word bs :: 'a::len word) k \<longleftrightarrow>
     k < LENGTH('a) \<and> k div 8 < length bs \<and> bit (bs ! (k div 8)) (k mod 8)"
proof (induction bs arbitrary: k)
  case Nil
  then show ?case by simp
next
  case (Cons b bs)
  show ?case
  proof (cases "k < 8")
    case True
    then show ?thesis by (auto simp: bit_or_iff bit_push_bit_iff bit_ucast_iff)
  next
    case False
    then obtain j where j: "k = 8 + j" by (metis add_diff_inverse_nat)
    have hb: "\<not> bit b k" using False by (simp add: not_less bit_imp_le_length [of b k] impossible_bit)
    have "bit (le_word (b # bs) :: 'a word) k \<longleftrightarrow> k < LENGTH('a) \<and> bit (le_word bs :: 'a word) j"
      using hb by (auto simp: j bit_or_iff bit_push_bit_iff bit_ucast_iff)
    moreover have "k div 8 = Suc (j div 8)" "k mod 8 = j mod 8" by (simp_all add: j)
    ultimately show ?thesis by (auto simp: Cons.IH)
  qed
qed

lemma bit_le_bytes:
  "i < n \<Longrightarrow> bit (le_bytes n (v :: 'a::len word) ! i) k \<longleftrightarrow> k < 8 \<and> bit v (8 * i + k)"
  by (auto simp: bit_ucast_iff bit_drop_bit_eq ac_simps)

text \<open>Encoding a word as \<open>n\<close> bytes and decoding it again keeps its low \<open>8 * n\<close> bits.\<close>

lemma le_word_le_bytes [bytes_simps]:
  "le_word (le_bytes n (v :: 'a::len word)) = (take_bit (8 * n) v :: 'a word)"
proof (rule bit_eqI)
  fix k
  assume "possible_bit TYPE('a word) k"
  then have k: "k < LENGTH('a)" by simp
  have "8 * (k div 8) + k mod 8 = k" by simp
  moreover have "k div 8 < n \<longleftrightarrow> k < 8 * n" by (simp add: div_less_iff_less_mult mult.commute)
  ultimately show "bit (le_word (le_bytes n v) :: 'a word) k \<longleftrightarrow> bit (take_bit (8 * n) v) k"
    using k by (auto simp: bit_le_word bit_le_bytes bit_take_bit_iff simp del: nth_le_bytes)
qed

lemma le_bytes_le_word [bytes_simps]:
  assumes "8 * length bs \<le> LENGTH('a::len)"
  shows "le_bytes (length bs) (le_word bs :: 'a word) = bs"
proof (rule nth_equalityI)
  show "length (le_bytes (length bs) (le_word bs :: 'a word)) = length bs" by simp
next
  fix i
  assume "i < length (le_bytes (length bs) (le_word bs :: 'a word))"
  then have i: "i < length bs" by simp
  show "le_bytes (length bs) (le_word bs :: 'a word) ! i = bs ! i"
  proof (rule bit_eqI)
    fix k
    assume "possible_bit TYPE(8 word) k"
    then have k: "k < 8" by simp
    have a: "(8 * i + k) div 8 = i" using k by simp
    have b: "(8 * i + k) mod 8 = k" using k by simp
    have c: "8 * i + k < LENGTH('a)" using i k assms by linarith
    show "bit (le_bytes (length bs) (le_word bs :: 'a word) ! i) k \<longleftrightarrow> bit (bs ! i) k"
      unfolding bit_le_bytes [OF i] bit_le_word a b using i k c by simp
  qed
qed

lemma le_bytes_inject:
  assumes "LENGTH('a::len) \<le> 8 * n" "le_bytes n (v :: 'a word) = le_bytes n w"
  shows "v = w"
proof -
  have "take_bit (8 * n) v = take_bit (8 * n) w"
    using assms(2) by (metis le_word_le_bytes)
  then show ?thesis using assms(1) by (metis take_bit_word_eq_self)
qed

section \<open>Byte-addressed physical memory\<close>

type_synonym memory = "u64 \<Rightarrow> u8"

definition read_bytes :: "memory \<Rightarrow> u64 \<Rightarrow> nat \<Rightarrow> u8 list" where
  "read_bytes m a n = map (\<lambda>i. m (a + of_nat i)) [0..<n]"

definition write_bytes :: "memory \<Rightarrow> u64 \<Rightarrow> u8 list \<Rightarrow> memory" where
  "write_bytes m a bs = (\<lambda>x. if unat (x - a) < length bs then bs ! unat (x - a) else m x)"

definition load64 :: "memory \<Rightarrow> u64 \<Rightarrow> u64" where
  "load64 m a = le_word (read_bytes m a 8)"

definition store64 :: "memory \<Rightarrow> u64 \<Rightarrow> u64 \<Rightarrow> memory" where
  "store64 m a v = write_bytes m a (le_bytes 8 v)"

text \<open>Words inside a byte array that is not in physical memory, such as a cached disk block.\<close>

definition splice :: "u8 list \<Rightarrow> nat \<Rightarrow> u8 list \<Rightarrow> u8 list" where
  "splice d off bs = take off d @ bs @ drop (off + length bs) d"

definition get_word :: "nat \<Rightarrow> u8 list \<Rightarrow> nat \<Rightarrow> 'a::len word" where
  "get_word n d off = le_word (take n (drop off d))"

definition put_word :: "nat \<Rightarrow> u8 list \<Rightarrow> nat \<Rightarrow> 'a::len word \<Rightarrow> u8 list" where
  "put_word n d off v = splice d off (le_bytes n v)"

abbreviation get32 :: "u8 list \<Rightarrow> nat \<Rightarrow> u32" where "get32 \<equiv> get_word 4"
abbreviation put32 :: "u8 list \<Rightarrow> nat \<Rightarrow> u32 \<Rightarrow> u8 list" where "put32 \<equiv> put_word 4"
abbreviation get16 :: "u8 list \<Rightarrow> nat \<Rightarrow> u16" where "get16 \<equiv> get_word 2"
abbreviation put16 :: "u8 list \<Rightarrow> nat \<Rightarrow> u16 \<Rightarrow> u8 list" where "put16 \<equiv> put_word 2"

text \<open>The addresses an access of \<open>n\<close> bytes at \<open>a\<close> touches.\<close>

definition region :: "u64 \<Rightarrow> nat \<Rightarrow> u64 set" where
  "region a n = {x. unat (x - a) < n}"

lemma length_read_bytes [simp]: "length (read_bytes m a n) = n"
  by (simp add: read_bytes_def)

lemma nth_read_bytes [simp]: "i < n \<Longrightarrow> read_bytes m a n ! i = m (a + of_nat i)"
  by (simp add: read_bytes_def)

lemma mem_region [simp]: "x \<in> region a n \<longleftrightarrow> unat (x - a) < n"
  by (simp add: region_def)

lemma write_bytes_in: "x \<in> region a (length bs) \<Longrightarrow> write_bytes m a bs x = bs ! unat (x - a)"
  by (simp add: write_bytes_def)

lemma write_bytes_out: "x \<notin> region a (length bs) \<Longrightarrow> write_bytes m a bs x = m x"
  by (simp add: write_bytes_def)

lemma write_bytes_Nil [simp]: "write_bytes m a [] = m"
  by (simp add: write_bytes_def)

lemma unat_of_nat64: "i < 2 ^ 64 \<Longrightarrow> unat (of_nat i :: u64) = i"
  by (simp add: unat_of_nat take_bit_nat_eq_self)

lemma of_nat_unat64: "(of_nat (unat x) :: u64) = x"
  by simp

lemma unat_u64: "unat (a :: u64) < 2 ^ 64"
  using unsigned_less [of a] by simp

lemma offset_in_region: "i < n \<Longrightarrow> n \<le> 2 ^ 64 \<Longrightarrow> a + of_nat i \<in> region a n"
  by (simp add: unat_of_nat64)

lemma read_write_same [bytes_simps]:
  assumes "length bs \<le> 2 ^ 64"
  shows "read_bytes (write_bytes m a bs) a (length bs) = bs"
  by (rule nth_equalityI) (use assms in \<open>simp_all add: write_bytes_def unat_of_nat64\<close>)

lemma read_write_disjoint:
  assumes "region a (length bs) \<inter> region b n = {}" "n \<le> 2 ^ 64"
  shows "read_bytes (write_bytes m a bs) b n = read_bytes m b n"
proof (rule nth_equalityI)
  fix i
  assume "i < length (read_bytes (write_bytes m a bs) b n)"
  then have i: "i < n" by simp
  then have "b + of_nat i \<in> region b n" using assms(2) by (rule offset_in_region)
  then have "b + of_nat i \<notin> region a (length bs)" using assms(1) by blast
  then show "read_bytes (write_bytes m a bs) b n ! i = read_bytes m b n ! i"
    using i by (simp add: write_bytes_out del: mem_region)
qed simp

lemma load_store_same [simp]: "load64 (store64 m a v) a = v"
  using read_write_same [of "le_bytes 8 v" m a] le_word_le_bytes [of 8 v]
  by (simp add: load64_def store64_def take_bit_word_eq_self)

lemma load_store_disjoint:
  "region a 8 \<inter> region b 8 = {} \<Longrightarrow> load64 (store64 m a v) b = load64 m b"
  by (simp add: load64_def store64_def read_write_disjoint)

lemma load_write_disjoint:
  "region a (length bs) \<inter> region b 8 = {} \<Longrightarrow> load64 (write_bytes m a bs) b = load64 m b"
  by (simp add: load64_def read_write_disjoint)

lemma store64_out: "x \<notin> region a 8 \<Longrightarrow> store64 m a v x = m x"
  by (simp add: store64_def write_bytes_out)

lemma write_bytes_Cons:
  "length xs < 2 ^ 64 \<Longrightarrow> write_bytes m a (x # xs) = write_bytes (m(a := x)) (a + 1) xs"
proof (rule ext)
  fix y
  assume l: "length xs < 2 ^ 64"
  show "write_bytes m a (x # xs) y = write_bytes (m(a := x)) (a + 1) xs y"
  proof (cases "y = a")
    case True
    have "unat (- 1 :: u64) = 2 ^ 64 - 1" by (simp add: unsigned_minus_1_eq_mask mask_eq_exp_minus_1)
    then show ?thesis using l True by (simp add: write_bytes_def)
  next
    case False
    then have n0: "unat (y - a) \<noteq> 0" by (simp add: unat_eq_zero)
    have e: "y - (a + 1) = (y - a) - 1" by simp
    have "unat (y - (a + 1)) = unat (y - a) - 1"
      unfolding e using False by (intro unat_minus_one) simp
    then show ?thesis using n0 False by (cases "unat (y - a)") (simp_all add: write_bytes_def)
  qed
qed

lemma write_bytes_snoc:
  "length xs < 2 ^ 64 \<Longrightarrow>
   write_bytes m a (xs @ [x]) = write_bytes (m(a + of_nat (length xs) := x)) a xs"
proof (rule ext)
  fix y
  assume l: "length xs < 2 ^ 64"
  have "y = a + of_nat (length xs) \<longleftrightarrow> unat (y - a) = length xs"
    using l by (metis add_diff_cancel_left' diff_add_cancel add.commute unat_of_nat64 of_nat_unat64)
  then show "write_bytes m a (xs @ [x]) y = write_bytes (m(a + of_nat (length xs) := x)) a xs y"
    by (auto simp: write_bytes_def nth_append)
qed

lemma read_bytes_Suc: "read_bytes m a (Suc n) = m a # read_bytes m (a + 1) n"
  by (rule nth_equalityI) (auto simp: nth_Cons' algebra_simps)

lemma read_bytes_snoc: "read_bytes m a (Suc n) = read_bytes m a n @ [m (a + of_nat n)]"
  by (simp add: read_bytes_def)

lemma region_nowrap:
  "unat a + n \<le> 2 ^ 64 \<Longrightarrow> x \<in> region a n \<longleftrightarrow> unat a \<le> unat x \<and> unat x < unat a + n"
  using unat_u64 [of x] by (simp add: unat_sub_if') linarith

lemma read_bytes_upd: "b \<notin> region a n \<Longrightarrow> n \<le> 2 ^ 64 \<Longrightarrow>
    read_bytes (m(b := v)) a n = read_bytes m a n"
  by (rule nth_equalityI) (auto dest: offset_in_region simp del: mem_region)

section \<open>Alignment\<close>

text \<open>\<open>aligned k a\<close>: the low \<open>k\<close> bits of \<open>a\<close> are zero.\<close>

definition aligned :: "nat \<Rightarrow> u64 \<Rightarrow> bool" where
  "aligned k a \<longleftrightarrow> take_bit k a = 0"

lemma aligned_dvd: "k < 64 \<Longrightarrow> aligned k a \<longleftrightarrow> 2 ^ k dvd unat a"
proof -
  have "aligned k a \<longleftrightarrow> unat (take_bit k a) = 0" by (simp add: aligned_def unat_eq_zero)
  also have "unat (take_bit k a) = unat a mod 2 ^ k"
    by (subst unsigned_take_bit_eq) (simp add: take_bit_eq_mod)
  finally show ?thesis by (simp add: dvd_eq_mod_eq_0)
qed

lemma aligned_mono: "j \<le> k \<Longrightarrow> aligned k a \<Longrightarrow> aligned j a"
  using take_bit_tightened [of k a 0 j] by (simp add: aligned_def)

lemma region_aligned:
  assumes "aligned k a" "k < 64"
  shows "region a (2 ^ k) = {x. drop_bit k x = drop_bit k a}"
proof (rule set_eqI)
  fix x :: u64
  obtain q where q: "unat a = 2 ^ k * q" using assms by (auto simp: aligned_dvd)
  have e: "(2::nat) ^ 64 = 2 ^ k * 2 ^ (64 - k)" using assms(2) by (simp flip: power_add)
  have "2 ^ k * q < 2 ^ k * 2 ^ (64 - k)" using q unat_u64 [of a, unfolded e] by simp
  then have "Suc q \<le> 2 ^ (64 - k)" by simp
  then have "2 ^ k * Suc q \<le> 2 ^ k * 2 ^ (64 - k)" by (rule mult_le_mono2)
  then have b: "unat a + 2 ^ k \<le> 2 ^ 64" unfolding e q by simp
  have dr: "drop_bit k x = drop_bit k a \<longleftrightarrow> unat x div 2 ^ k = q"
    by (simp only: word_unat_eq_iff unat_drop_bit_eq) (simp add: drop_bit_eq_div q)
  show "x \<in> region a (2 ^ k) \<longleftrightarrow> x \<in> {x. drop_bit k x = drop_bit k a}"
  proof
    assume "x \<in> region a (2 ^ k)"
    then have lt: "unat (x - a) < 2 ^ k" by simp
    have "unat a + unat (x - a) < 2 ^ 64" using b lt by linarith
    then have "unat (a + (x - a)) = unat a + unat (x - a)"
      using unat_add_lem [of a "x - a"] by simp
    then have "unat x = 2 ^ k * q + unat (x - a)" using q by simp
    then have "unat x div 2 ^ k = q" using lt by simp
    then show "x \<in> {x. drop_bit k x = drop_bit k a}" using dr by simp
  next
    assume "x \<in> {x. drop_bit k x = drop_bit k a}"
    then have "unat x div 2 ^ k = q" using dr by simp
    then have x: "unat x = 2 ^ k * q + unat x mod 2 ^ k" by (metis mult_div_mod_eq)
    then have "a \<le> x" using q by (simp add: word_le_nat_alt)
    then have "unat (x - a) = unat x - unat a" by (rule unat_sub)
    also have "\<dots> = unat x mod 2 ^ k" using x q by linarith
    finally show "x \<in> region a (2 ^ k)" by simp
  qed
qed

lemma aligned_drop_eq:
  "aligned k a \<Longrightarrow> aligned k b \<Longrightarrow> drop_bit k a = drop_bit k b \<Longrightarrow> a = b"
  using bits_ident [of k a] bits_ident [of k b] by (simp add: aligned_def)

lemma aligned_disjoint:
  assumes "aligned k a" "aligned k b" "a \<noteq> b" "k < 64"
  shows "region a (2 ^ k) \<inter> region b (2 ^ k) = {}"
  using assms by (auto simp: region_aligned simp del: mem_region dest: aligned_drop_eq)

lemma drop_bit_mono_eq:
  assumes "j \<le> k" "drop_bit j (x :: u64) = drop_bit j y"
  shows "drop_bit k x = drop_bit k y"
proof -
  have "drop_bit (k - j) (drop_bit j x) = drop_bit (k - j) (drop_bit j y)"
    by (simp only: assms(2))
  then show ?thesis using assms(1) by (simp add: drop_bit_drop_bit)
qed

text \<open>An aligned small region lies in the aligned big region that holds its first address.\<close>

lemma region_subset:
  assumes "aligned j a" "aligned k p" "j \<le> k" "k < 64" "a \<in> region p (2 ^ k)"
  shows "region a (2 ^ j) \<subseteq> region p (2 ^ k)"
  using assms by (auto simp: region_aligned simp del: mem_region dest: drop_bit_mono_eq [rotated])

section \<open>Results of kernel functions\<close>

text \<open>Where a process may sleep: the address passed to \<open>sleep\<close> and \<open>wakeup\<close>, named by
  the object it is the address of.\<close>

datatype sleeplock_id = SL_buf nat | SL_inode nat

datatype chan =
    Ch_proc nat            \<comment> \<open>\<open>p\<close> in \<open>wait\<close>\<close>
  | Ch_sleeplock sleeplock_id
  | Ch_log
  | Ch_ticks
  | Ch_pipe_nread u64
  | Ch_pipe_nwrite u64
  | Ch_cons_r
  | Ch_uart_tx_r
  | Ch_buf nat
  | Ch_disk_free

text \<open>The kernel's spin-locks.\<close>

datatype lockid =
    L_pr | L_uart_tx | L_cons | L_kmem | L_pid | L_wait | L_proc nat | L_ticks
  | L_bcache | L_log | L_itable | L_ftable | L_pipe u64 | L_vdisk | L_sleep sleeplock_id

datatype ('a, 's) res = Ok 'a 's | Panic string | Block chan 's | Switch 's | Spin | Undef

type_synonym ('s, 'a) km = "'s \<Rightarrow> ('a, 's) res"

definition kreturn :: "'a \<Rightarrow> ('s, 'a) km" where
  "kreturn a = (\<lambda>s. Ok a s)"

definition kbind :: "('s, 'a) km \<Rightarrow> ('a \<Rightarrow> ('s, 'b) km) \<Rightarrow> ('s, 'b) km" where
  "kbind m f = (\<lambda>s. case m s of Ok a t \<Rightarrow> f a t | Panic e \<Rightarrow> Panic e | Block c t \<Rightarrow> Block c t
     | Switch t \<Rightarrow> Switch t | Spin \<Rightarrow> Spin | Undef \<Rightarrow> Undef)"

definition kseq :: "('s, 'a) km \<Rightarrow> ('s, 'b) km \<Rightarrow> ('s, 'b) km" where
  "kseq m n = kbind m (\<lambda>_. n)"

definition kget :: "('s \<Rightarrow> 'a) \<Rightarrow> ('s, 'a) km" where
  "kget f = (\<lambda>s. Ok (f s) s)"

definition kmodify :: "('s \<Rightarrow> 's) \<Rightarrow> ('s, unit) km" where
  "kmodify f = (\<lambda>s. Ok () (f s))"

definition panic :: "string \<Rightarrow> ('s, 'a) km" where
  "panic e = (\<lambda>s. Panic e)"

definition kblock :: "chan \<Rightarrow> ('s, 'a) km" where
  "kblock c = (\<lambda>s. Block c s)"

definition kspin :: "('s, 'a) km" where
  "kspin = (\<lambda>s. Spin)"

definition kswitch :: "('s, 'a) km" where
  "kswitch = (\<lambda>s. Switch s)"

definition kundef :: "('s, 'a) km" where
  "kundef = (\<lambda>s. Undef)"

text \<open>A C \<open>for\<close> loop over an index range whose body has no early exit.\<close>

primrec kfor :: "('i \<Rightarrow> ('s, unit) km) \<Rightarrow> 'i list \<Rightarrow> ('s, unit) km" where
  "kfor f [] = kreturn ()"
| "kfor f (i # is) = kseq (f i) (kfor f is)"

text \<open>The result of a string routine, undefined if it reads past the end of an array.\<close>

definition kopt :: "'a option \<Rightarrow> ('s, 'a) km" where
  "kopt x = (case x of None \<Rightarrow> kundef | Some a \<Rightarrow> kreturn a)"

text \<open>A block of statements.\<close>

primrec kdo :: "('s, unit) km list \<Rightarrow> ('s, unit) km" where
  "kdo [] = kreturn ()"
| "kdo (m # ms) = kseq m (kdo ms)"

abbreviation kwhen :: "bool \<Rightarrow> ('s, unit) km \<Rightarrow> ('s, unit) km" where
  "kwhen b m \<equiv> if b then m else kreturn ()"

lemma kreturn_run [kexec, simp]: "kreturn a s = Ok a s"
  by (simp add: kreturn_def)

lemma kget_run [kexec, simp]: "kget f s = Ok (f s) s"
  by (simp add: kget_def)

lemma kmodify_run [kexec, simp]: "kmodify f s = Ok () (f s)"
  by (simp add: kmodify_def)

lemma panic_run [kexec, simp]: "panic e s = Panic e"
  by (simp add: panic_def)

lemma kblock_run [kexec, simp]: "kblock c s = Block c s"
  by (simp add: kblock_def)

lemma kspin_run [kexec, simp]: "kspin s = Spin"
  by (simp add: kspin_def)

lemma kswitch_run [kexec, simp]: "kswitch s = Switch s"
  by (simp add: kswitch_def)

lemma kundef_run [kexec, simp]: "kundef s = Undef"
  by (simp add: kundef_def)

lemma kbind_Ok [kexec]: "m s = Ok a t \<Longrightarrow> kbind m f s = f a t"
  by (simp add: kbind_def)

lemma kbind_Panic: "m s = Panic e \<Longrightarrow> kbind m f s = Panic e"
  by (simp add: kbind_def)

lemma kbind_Block: "m s = Block c t \<Longrightarrow> kbind m f s = Block c t"
  by (simp add: kbind_def)

lemma kbind_Spin: "m s = Spin \<Longrightarrow> kbind m f s = Spin"
  by (simp add: kbind_def)

lemma kseq_Ok [kexec]: "m s = Ok a t \<Longrightarrow> kseq m n s = n t"
  by (simp add: kseq_def kbind_def)

lemma kbind_eq_Ok:
  "kbind m f s = Ok b u \<longleftrightarrow> (\<exists>a t. m s = Ok a t \<and> f a t = Ok b u)"
  by (auto simp: kbind_def split: res.splits)

lemma kseq_eq_Ok:
  "kseq m n s = Ok b u \<longleftrightarrow> (\<exists>a t. m s = Ok a t \<and> n t = Ok b u)"
  by (auto simp: kseq_def kbind_eq_Ok)

lemma kbind_kreturn [simp]: "kbind (kreturn a) f = f a"
  by (rule ext) (simp add: kbind_def)

lemma kbind_assoc: "kbind (kbind m f) g = kbind m (\<lambda>a. kbind (f a) g)"
  by (rule ext) (simp add: kbind_def split: res.splits)

lemma kbind_cong [fundef_cong]:
  "m s = m' s' \<Longrightarrow> (\<And>a t. m' s' = Ok a t \<Longrightarrow> f a t = f' a t) \<Longrightarrow> kbind m f s = kbind m' f' s'"
  by (auto simp: kbind_def split: res.splits)

lemma kseq_cong [fundef_cong]:
  "m s = m' s' \<Longrightarrow> (\<And>a t. m' s' = Ok a t \<Longrightarrow> n t = n' t) \<Longrightarrow> kseq m n s = kseq m' n' s'"
  by (auto simp: kseq_def kbind_def split: res.splits)

text \<open>Steps that are not calls run in place.\<close>

lemma kbind_kget [simp]: "kbind (kget f) g s = g (f s) s"
  by (simp add: kbind_def)

lemma kbind_kmodify [simp]: "kbind (kmodify f) g s = g () (f s)"
  by (simp add: kbind_def)

lemma kseq_kmodify [simp]: "kseq (kmodify f) n s = n (f s)"
  by (simp add: kseq_def)

lemma kseq_panic [simp]: "kseq (panic e) n s = Panic e"
  by (simp add: kseq_def kbind_def)

lemma kbind_panic [simp]: "kbind (panic e) f s = Panic e"
  by (simp add: kbind_def)

lemma kbind_if: "kbind (if b then m else n) f = (if b then kbind m f else kbind n f)"
  by simp

lemma kfor_append: "kfor f (is @ js) s = kseq (kfor f is) (kfor f js) s"
  by (induction "is" arbitrary: s) (auto simp: kseq_def kbind_def split: res.splits)

text \<open>\<open>ensures P m Q\<close>: whenever \<open>m\<close> returns from a state with \<open>P\<close>, the result has \<open>Q\<close>.
  \<open>returns P m Q\<close>: from a state with \<open>P\<close>, \<open>m\<close> does return, with \<open>Q\<close>.\<close>

definition ensures :: "('s \<Rightarrow> bool) \<Rightarrow> ('s, 'a) km \<Rightarrow> ('a \<Rightarrow> 's \<Rightarrow> bool) \<Rightarrow> bool" where
  "ensures P m Q \<longleftrightarrow> (\<forall>s a t. P s \<longrightarrow> m s = Ok a t \<longrightarrow> Q a t)"

definition returns :: "('s \<Rightarrow> bool) \<Rightarrow> ('s, 'a) km \<Rightarrow> ('a \<Rightarrow> 's \<Rightarrow> bool) \<Rightarrow> bool" where
  "returns P m Q \<longleftrightarrow> (\<forall>s. P s \<longrightarrow> (\<exists>a t. m s = Ok a t \<and> Q a t))"

lemma ensuresI: "(\<And>s a t. P s \<Longrightarrow> m s = Ok a t \<Longrightarrow> Q a t) \<Longrightarrow> ensures P m Q"
  by (simp add: ensures_def)

lemma ensuresD: "ensures P m Q \<Longrightarrow> P s \<Longrightarrow> m s = Ok a t \<Longrightarrow> Q a t"
  by (simp add: ensures_def)

lemma ensures_bind:
  "ensures P m R \<Longrightarrow> (\<And>a. ensures (R a) (f a) Q) \<Longrightarrow> ensures P (kbind m f) Q"
  by (force simp: ensures_def kbind_eq_Ok)

lemma ensures_seq:
  "ensures P m (\<lambda>_. R) \<Longrightarrow> ensures R n Q \<Longrightarrow> ensures P (kseq m n) Q"
  unfolding kseq_def by (rule ensures_bind)

lemma ensures_kfor:
  "(\<And>i. i \<in> set is \<Longrightarrow> ensures P (f i) (\<lambda>_. P)) \<Longrightarrow> ensures P (kfor f is) (\<lambda>_. P)"
proof (induction "is")
  case Nil
  then show ?case by (simp add: ensures_def)
next
  case (Cons i "is")
  then show ?case by (auto intro!: ensures_seq [where R = P])
qed

text \<open>\<open>keeps f m\<close>: whatever \<open>m\<close> does, when it returns or gives up the hart the component \<open>f\<close> of the state
  is what it was. The collection \<open>keeps\<close> has a rule for each construct and each function.\<close>

definition kept :: "('s \<Rightarrow> 'b) \<Rightarrow> 'b \<Rightarrow> ('a, 's) res \<Rightarrow> bool" where
  "kept f v r \<longleftrightarrow> (case r of Ok a t \<Rightarrow> f t = v | Block c t \<Rightarrow> f t = v | Switch t \<Rightarrow> f t = v | _ \<Rightarrow> True)"

definition keeps :: "('s \<Rightarrow> 'b) \<Rightarrow> ('s, 'a) km \<Rightarrow> bool" where
  "keeps f m \<longleftrightarrow> (\<forall>s. kept f (f s) (m s))"

lemma kept_simps [simp]:
  "kept f v (Ok a t) \<longleftrightarrow> f t = v" "kept f v (Block c t) \<longleftrightarrow> f t = v" "kept f v (Switch t) \<longleftrightarrow> f t = v"
  "kept f v (Panic e)" "kept f v Spin" "kept f v Undef"
  by (simp_all add: kept_def)

lemma keepsD: "keeps f m \<Longrightarrow> m s = Ok a t \<Longrightarrow> f t = f s"
  unfolding keeps_def by (metis kept_simps(1))

lemma kept_bind:
  "kept f v (m s) \<Longrightarrow> (\<And>a t. m s = Ok a t \<Longrightarrow> f t = v \<Longrightarrow> kept f v (g a t)) \<Longrightarrow> kept f v (kbind m g s)"
  by (cases "m s") (simp_all add: kbind_def)

lemma keeps_simple [keeps]:
  "keeps f (kreturn a)" "keeps f (kget g)" "keeps f (panic e)" "keeps f (kblock c)" "keeps f kswitch"
  "keeps f kspin" "keeps f kundef"
  by (simp_all add: keeps_def)

lemma keeps_kmodify [keeps]: "(\<And>s. f (g s) = f s) \<Longrightarrow> keeps f (kmodify g)"
  by (simp add: keeps_def)

lemma keeps_bind [keeps]: "keeps f m \<Longrightarrow> (\<And>a. keeps f (g a)) \<Longrightarrow> keeps f (kbind m g)"
  unfolding keeps_def by (metis kept_bind)

lemma keeps_seq [keeps]: "keeps f m \<Longrightarrow> keeps f n \<Longrightarrow> keeps f (kseq m n)"
  unfolding kseq_def by (rule keeps_bind)

lemma keeps_if [keeps]: "(b \<Longrightarrow> keeps f m) \<Longrightarrow> (\<not> b \<Longrightarrow> keeps f n) \<Longrightarrow> keeps f (if b then m else n)"
  by simp

lemma keeps_let [keeps]: "(\<And>x. keeps f (g x)) \<Longrightarrow> keeps f (Let v g)"
  by (simp add: Let_def)

lemma keeps_option [keeps]:
  "keeps f m \<Longrightarrow> (\<And>a. keeps f (g a)) \<Longrightarrow> keeps f (case x of None \<Rightarrow> m | Some a \<Rightarrow> g a)"
  by (cases x) simp_all

lemma keeps_prod [keeps]: "(\<And>a b. keeps f (g a b)) \<Longrightarrow> keeps f (case x of (a, b) \<Rightarrow> g a b)"
  by (cases x) simp

lemma keeps_sum [keeps]:
  "(\<And>a. keeps f (g a)) \<Longrightarrow> (\<And>b. keeps f (h b)) \<Longrightarrow> keeps f (case x of Inl a \<Rightarrow> g a | Inr b \<Rightarrow> h b)"
  by (cases x) simp_all

lemma keeps_kfor [keeps]: "(\<And>i. keeps f (g i)) \<Longrightarrow> keeps f (kfor g is)"
  by (induction "is") (auto intro: keeps)

lemma keeps_kdo_Nil [keeps]: "keeps f (kdo [])"
  by (simp add: keeps)

lemma keeps_kdo_Cons [keeps]: "keeps f m \<Longrightarrow> keeps f (kdo ms) \<Longrightarrow> keeps f (kdo (m # ms))"
  by (simp add: keeps)

lemma keeps_kopt [keeps]: "keeps f (kopt x)"
  by (cases x) (simp_all add: kopt_def keeps)

section \<open>The base machine state\<close>

text \<open>Physical memory, and the spin-locks the executing CPU holds, most recent first. The
  kernel's own \<open>acquire\<close> and \<open>release\<close>, seen from the CPU that runs them, are these two list
  operations: the theory \<open>Spinlock\<close> models them in detail and proves that they refine these.\<close>

record machine =
  mem :: memory
  held :: "lockid list"

definition acquire :: "lockid \<Rightarrow> ('z machine_scheme, unit) km" where
  "acquire l = (\<lambda>s. if l \<in> set (held s) then Panic ''acquire''
     else Ok () (s\<lparr>held := l # held s\<rparr>))"

definition release :: "lockid \<Rightarrow> ('z machine_scheme, unit) km" where
  "release l = (\<lambda>s. if l \<notin> set (held s) then Panic ''release''
     else Ok () (s\<lparr>held := remove1 l (held s)\<rparr>))"

lemma acquire_run [klock]:
  "l \<notin> set (held s) \<Longrightarrow> acquire l s = Ok () (s\<lparr>held := l # held s\<rparr>)"
  by (simp add: acquire_def)

lemma release_run [klock]:
  "l \<in> set (held s) \<Longrightarrow> release l s = Ok () (s\<lparr>held := remove1 l (held s)\<rparr>)"
  by (simp add: release_def)

lemma acquire_Ok: "acquire l s = Ok u t \<longleftrightarrow> l \<notin> set (held s) \<and> t = s\<lparr>held := l # held s\<rparr>"
  by (auto simp: acquire_def)

lemma release_Ok:
  "release l s = Ok u t \<longleftrightarrow> l \<in> set (held s) \<and> t = s\<lparr>held := remove1 l (held s)\<rparr>"
  by (auto simp: release_def)

section \<open>Scans of fixed-size tables\<close>

primrec first_index :: "('a \<Rightarrow> bool) \<Rightarrow> 'a list \<Rightarrow> nat option" where
  "first_index P [] = None"
| "first_index P (x # xs) = (if P x then Some 0 else map_option Suc (first_index P xs))"

lemma first_index_Some:
  "first_index P xs = Some i \<longleftrightarrow> i < length xs \<and> P (xs ! i) \<and> (\<forall>j < i. \<not> P (xs ! j))"
proof (induction xs arbitrary: i)
  case Nil
  then show ?case by simp
next
  case (Cons x xs)
  show ?case
  proof (cases i)
    case 0
    then show ?thesis by (cases "first_index P xs") auto
  next
    case (Suc j)
    then show ?thesis using Cons.IH [of j] by (auto simp: All_less_Suc2)
  qed
qed

lemma first_index_None: "first_index P xs = None \<longleftrightarrow> (\<forall>x \<in> set xs. \<not> P x)"
  by (induction xs) auto

section \<open>Invariants of step relations\<close>

inductive reach :: "('s \<Rightarrow> bool) \<Rightarrow> ('s \<Rightarrow> 's \<Rightarrow> bool) \<Rightarrow> 's \<Rightarrow> bool"
  for init :: "'s \<Rightarrow> bool" and step :: "'s \<Rightarrow> 's \<Rightarrow> bool" where
  reach_init: "init s \<Longrightarrow> reach init step s"
| reach_step: "reach init step s \<Longrightarrow> step s t \<Longrightarrow> reach init step t"

text \<open>The interface of a system of concurrent steps: an invariant that holds initially and that
  every step keeps holds in every reachable state.\<close>

locale step_system =
  fixes init :: "'s \<Rightarrow> bool" and step :: "'s \<Rightarrow> 's \<Rightarrow> bool" and inv :: "'s \<Rightarrow> bool"
  assumes init_inv: "init s \<Longrightarrow> inv s"
    and step_inv: "inv s \<Longrightarrow> step s t \<Longrightarrow> inv t"
begin

lemma reach_inv: "reach init step s \<Longrightarrow> inv s"
  by (induction rule: reach.induct) (auto intro: init_inv step_inv)

lemma steps_inv: "inv s \<Longrightarrow> step\<^sup>*\<^sup>* s t \<Longrightarrow> inv t"
  by (rotate_tac, induction rule: rtranclp_induct) (auto intro: step_inv)

end

end
