(* ===== verification/Spinlock.thy ===== *)
theory Spinlock
  imports Prelude
begin

text \<open>
  \<open>kernel/spinlock.c\<close> on a machine with several CPUs, with the interrupt-enable bit of each
  hart (\<open>intr_on\<close>, \<open>intr_off\<close>, \<open>intr_get\<close> of \<open>kernel/riscv.h\<close>) and the \<open>noff\<close>/\<open>intena\<close>
  fields of \<open>struct cpu\<close>. The functions take the hart that runs them. Two views are related:
  the functions run without interference refine the lock list of \<open>Prelude\<close>, and the same
  code interleaved instruction by instruction between any number of harts keeps mutual exclusion.
  In the interleaving, \<open>holding\<close> is one step: whether the second of the two fields it reads names this hart changes only
  in steps of this hart. \<open>noff\<close> counts nested locks, and is not bounded to 32 bits.
\<close>

section \<open>State and operations\<close>

record spinlock =
  locked :: u32
  lk_name :: string
  lk_cpu :: "nat option"    \<comment> \<open>\<open>struct cpu *cpu\<close>: the hart holding the lock\<close>

record cpu =
  noff :: int
  intena :: bool

record smp =
  locks :: "lockid \<Rightarrow> spinlock"
  cpus :: "nat \<Rightarrow> cpu"
  sie :: "nat \<Rightarrow> bool"      \<comment> \<open>\<open>SSTATUS_SIE\<close> of each hart\<close>

definition intr_get :: "nat \<Rightarrow> 'z smp_scheme \<Rightarrow> bool" where
  "intr_get c s = sie s c"

definition intr_off :: "nat \<Rightarrow> 'z smp_scheme \<Rightarrow> 'z smp_scheme" where
  "intr_off c s = s\<lparr>sie := (sie s)(c := False)\<rparr>"

definition intr_on :: "nat \<Rightarrow> 'z smp_scheme \<Rightarrow> 'z smp_scheme" where
  "intr_on c s = s\<lparr>sie := (sie s)(c := True)\<rparr>"

definition initlock :: "lockid \<Rightarrow> string \<Rightarrow> 'z smp_scheme \<Rightarrow> 'z smp_scheme" where
  "initlock lk name s =
     s\<lparr>locks := (locks s)(lk := \<lparr>locked = 0, lk_name = name, lk_cpu = None\<rparr>)\<rparr>"

definition push_off :: "nat \<Rightarrow> ('z smp_scheme, unit) km" where
  "push_off c = (\<lambda>s.
     let old = intr_get c s; s = intr_off c s; k = cpus s c;
         k = (if noff k = 0 then k\<lparr>intena := old\<rparr> else k)
     in Ok () (s\<lparr>cpus := (cpus s)(c := k\<lparr>noff := noff k + 1\<rparr>)\<rparr>))"

definition pop_off :: "nat \<Rightarrow> ('z smp_scheme, unit) km" where
  "pop_off c = (\<lambda>s.
     if intr_get c s then Panic ''pop_off - interruptible''
     else if noff (cpus s c) < 1 then Panic ''pop_off''
     else let k = (cpus s c)\<lparr>noff := noff (cpus s c) - 1\<rparr>; s = s\<lparr>cpus := (cpus s)(c := k)\<rparr>
          in Ok () (if noff k = 0 \<and> intena k then intr_on c s else s))"

definition spin_holding :: "nat \<Rightarrow> lockid \<Rightarrow> 'z smp_scheme \<Rightarrow> bool" where
  "spin_holding c lk s \<longleftrightarrow> locked (locks s lk) \<noteq> 0 \<and> lk_cpu (locks s lk) = Some c"

text \<open>\<open>acquire\<close> without interference: the atomic swap succeeds at once when the lock is free and
  otherwise spins for ever.\<close>

definition spin_acquire :: "nat \<Rightarrow> lockid \<Rightarrow> ('z smp_scheme, unit) km" where
  "spin_acquire c lk =
     kseq (push_off c) (\<lambda>s.
       if spin_holding c lk s then Panic ''acquire''
       else if locked (locks s lk) \<noteq> 0 then Spin
       else Ok () (s\<lparr>locks := (locks s)(lk := (locks s lk)\<lparr>locked := 1, lk_cpu := Some c\<rparr>)\<rparr>))"

definition spin_release :: "nat \<Rightarrow> lockid \<Rightarrow> ('z smp_scheme, unit) km" where
  "spin_release c lk = (\<lambda>s.
     if \<not> spin_holding c lk s then Panic ''release''
     else pop_off c (s\<lparr>locks := (locks s)(lk := (locks s lk)\<lparr>lk_cpu := None, locked := 0\<rparr>)\<rparr>))"

lemmas spin_defs = intr_get_def intr_off_def intr_on_def push_off_def pop_off_def
  spin_holding_def spin_acquire_def spin_release_def kseq_def kbind_def Let_def

section \<open>Matched push\_off and pop\_off\<close>

primrec nested :: "nat \<Rightarrow> ('s, unit) km \<Rightarrow> ('s, unit) km" where
  "nested 0 m = kreturn ()"
| "nested (Suc n) m = kseq m (nested n m)"

lemma push_off_Ok: "\<exists>t. push_off c s = Ok () t \<and> \<not> sie t c \<and> noff (cpus t c) = noff (cpus s c) + 1 \<and>
    intena (cpus t c) = (if noff (cpus s c) = 0 then sie s c else intena (cpus s c))"
  by (simp add: spin_defs)

lemma nested_push_off:
  "0 < noff (cpus s c) \<Longrightarrow> \<not> sie s c \<Longrightarrow> \<exists>t. nested n (push_off c) s = Ok () t \<and>
     noff (cpus t c) = noff (cpus s c) + int n \<and> \<not> sie t c \<and> intena (cpus t c) = intena (cpus s c)"
proof (induction n arbitrary: s)
  case 0
  then show ?case by simp
next
  case (Suc n)
  obtain u where u: "push_off c s = Ok () u" "\<not> sie u c" "noff (cpus u c) = noff (cpus s c) + 1"
      "intena (cpus u c) = intena (cpus s c)"
    using push_off_Ok [of c s] Suc.prems by auto
  with Suc.prems obtain t where "nested n (push_off c) u = Ok () t"
      "noff (cpus t c) = noff (cpus u c) + int n" "\<not> sie t c" "intena (cpus t c) = intena (cpus u c)"
    using Suc.IH [of u] by auto
  with u show ?case by (auto simp: kseq_def kbind_def)
qed

lemma nested_pop_off:
  "int n \<le> noff (cpus s c) \<Longrightarrow> \<not> sie s c \<Longrightarrow> 0 < n \<Longrightarrow> \<exists>t. nested n (pop_off c) s = Ok () t \<and>
     noff (cpus t c) = noff (cpus s c) - int n \<and>
     sie t c = (noff (cpus s c) = int n \<and> intena (cpus s c))"
proof (induction n arbitrary: s)
  case 0
  then show ?case by simp
next
  case (Suc n)
  let ?k = "(cpus s c)\<lparr>noff := noff (cpus s c) - 1\<rparr>"
  let ?u = "s\<lparr>cpus := (cpus s)(c := ?k)\<rparr>"
  let ?v = "if noff ?k = 0 \<and> intena ?k then intr_on c ?u else ?u"
  have v: "pop_off c s = Ok () ?v" using Suc.prems by (simp add: spin_defs)
  show ?case
  proof (cases "n = 0")
    case True
    then show ?thesis using v Suc.prems by (auto simp: kseq_def kbind_def intr_on_def)
  next
    case False
    then have nv: "?v = ?u" using Suc.prems by auto
    obtain t where "nested n (pop_off c) ?u = Ok () t"
        "noff (cpus t c) = noff (cpus ?u c) - int n"
        "sie t c = (noff (cpus ?u c) = int n \<and> intena (cpus ?u c))"
      using Suc.IH [of ?u] Suc.prems False by auto
    then show ?thesis using v nv by (auto simp: kseq_def kbind_def)
  qed
qed

text \<open>\<^bold>\<open>push\_off and pop\_off are matched.\<close> From a hart with no pending \<open>push_off\<close>, any
  number \<open>n > 0\<close> of \<open>push_off\<close> calls turns interrupts off, and the same number of \<open>pop_off\<close>
  calls returns without panic, with the nesting depth back to zero and interrupts enabled
  exactly when they were enabled before the first \<open>push_off\<close>.\<close>

lemma push_pop_matched:
  assumes "0 < n" "noff (cpus s c) = 0"
  shows "\<exists>t u. nested n (push_off c) s = Ok () t \<and> \<not> sie t c \<and>
           nested n (pop_off c) t = Ok () u \<and> noff (cpus u c) = 0 \<and> sie u c = sie s c"
proof -
  obtain k where k: "n = Suc k" using assms(1) by (cases n) auto
  obtain v where v: "push_off c s = Ok () v" "\<not> sie v c" "noff (cpus v c) = 1"
      "intena (cpus v c) = sie s c"
    using push_off_Ok [of c s] assms(2) by auto
  obtain t where t: "nested k (push_off c) v = Ok () t" "noff (cpus t c) = 1 + int k" "\<not> sie t c"
      "intena (cpus t c) = sie s c"
    using nested_push_off [of v c k] v by auto
  obtain u where u: "nested n (pop_off c) t = Ok () u" "noff (cpus u c) = 0" "sie u c = sie s c"
    using nested_pop_off [of n t c] t assms(1) k by auto
  from v t have "nested n (push_off c) s = Ok () t" by (simp add: k kseq_def kbind_def)
  with t u show ?thesis by blast
qed

definition smp0 :: smp where
  "smp0 = \<lparr>locks = (\<lambda>_. \<lparr>locked = 0, lk_name = [], lk_cpu = None\<rparr>),
     cpus = (\<lambda>_. \<lparr>noff = 0, intena = False\<rparr>), sie = (\<lambda>_. True)\<rparr>"

section \<open>Refinement of the lock list\<close>

definition lock_rel :: "nat \<Rightarrow> 'z smp_scheme \<Rightarrow> lockid list \<Rightarrow> bool" where
  "lock_rel c s h \<longleftrightarrow> distinct h \<and> (\<forall>l. l \<in> set h \<longleftrightarrow> spin_holding c l s) \<and>
     noff (cpus s c) = int (length h) \<and> (h \<noteq> [] \<longrightarrow> \<not> sie s c)"

lemma holding_local [simp]:
  "spin_holding c l (s\<lparr>cpus := k\<rparr>) = spin_holding c l s"
  "spin_holding c l (s\<lparr>sie := i\<rparr>) = spin_holding c l s"
  by (simp_all add: spin_holding_def)

lemma push_off_holding: "push_off c s = Ok () t \<Longrightarrow> spin_holding d l t = spin_holding d l s"
  by (auto simp: push_off_def Let_def intr_off_def)

lemma push_off_locks: "push_off c s = Ok () t \<Longrightarrow> locks t = locks s"
  by (auto simp: push_off_def Let_def intr_off_def)

lemma spin_acquire_cases:
  assumes rel: "lock_rel c s h"
  shows "case spin_acquire c l s of
      Ok u t \<Rightarrow> l \<notin> set h \<and> lock_rel c t (l # h)
    | Panic e \<Rightarrow> l \<in> set h \<and> e = ''acquire''
    | Spin \<Rightarrow> locked (locks s l) \<noteq> 0 \<and> l \<notin> set h
    | _ \<Rightarrow> False"
proof -
  obtain v where v: "push_off c s = Ok () v" "\<not> sie v c" "noff (cpus v c) = noff (cpus s c) + 1"
    using push_off_Ok [of c s] by auto
  note [simp] = push_off_holding [OF v(1)] push_off_locks [OF v(1)]
  have h: "l \<in> set h \<longleftrightarrow> spin_holding c l s" for l using rel by (simp add: lock_rel_def)
  show ?thesis
  proof (cases "spin_holding c l s \<or> locked (locks s l) \<noteq> 0")
    case True
    then show ?thesis using v h by (auto simp: spin_acquire_def kseq_def kbind_def)
  next
    case False
    let ?t = "v\<lparr>locks := (locks s)(l := (locks s l)\<lparr>locked := 1, lk_cpu := Some c\<rparr>)\<rparr>"
    have "spin_acquire c l s = Ok () ?t" using v False by (simp add: spin_acquire_def kseq_def kbind_def)
    moreover have "spin_holding c k ?t \<longleftrightarrow> k = l \<or> spin_holding c k s" for k
      using False by (auto simp: spin_holding_def)
    ultimately show ?thesis using False v rel h by (auto simp: lock_rel_def)
  qed
qed

lemma spin_release_cases:
  assumes rel: "lock_rel c s h"
  shows "case spin_release c l s of
      Ok u t \<Rightarrow> l \<in> set h \<and> lock_rel c t (remove1 l h)
    | Panic e \<Rightarrow> l \<notin> set h \<and> e = ''release''
    | Spin \<Rightarrow> False
    | _ \<Rightarrow> False"
proof -
  have h: "l \<in> set h \<longleftrightarrow> spin_holding c l s" for l using rel by (simp add: lock_rel_def)
  show ?thesis
  proof (cases "l \<in> set h")
    case False
    then show ?thesis using h by (simp add: spin_release_def)
  next
    case True
    let ?u = "s\<lparr>locks := (locks s)(l := (locks s l)\<lparr>lk_cpu := None, locked := 0\<rparr>)\<rparr>"
    have hu: "spin_holding c k ?u \<longleftrightarrow> k \<noteq> l \<and> spin_holding c k s" for k
      by (auto simp: spin_holding_def)
    have ne: "h \<noteq> []" "\<not> sie s c" using True rel by (auto simp: lock_rel_def)
    obtain t where t: "pop_off c ?u = Ok () t" "noff (cpus t c) = noff (cpus s c) - 1"
        "\<forall>k. spin_holding c k t = spin_holding c k ?u" "noff (cpus s c) \<noteq> 1 \<longrightarrow> \<not> sie t c"
      using ne rel by (auto simp: pop_off_def lock_rel_def intr_get_def Let_def intr_on_def Suc_le_eq)
    have "spin_release c l s = Ok () t" using True h t(1) by (simp add: spin_release_def)
    moreover have "remove1 l h = [] \<longleftrightarrow> length h = 1"
      using True by (metis One_nat_def length_0_conv length_remove1 length_pos_if_in_set
          Suc_pred diff_is_0_eq' le_refl)
    then have "lock_rel c t (remove1 l h)"
      using t rel h hu ne True
      by (auto simp: lock_rel_def length_remove1 of_nat_diff Suc_le_eq dest: length_pos_if_in_set)
    ultimately show ?thesis using True by simp
  qed
qed

text \<open>C5. \<^bold>\<open>The spin-lock code refines the lock list.\<close> When the lock list of the sequential model
  records exactly the locks this hart holds (with \<open>noff\<close> their number and interrupts off while
  there is one), \<open>acquire\<close> and \<open>release\<close> of \<open>spinlock.c\<close> do to the hart's locks what the list
  operations do: they return together, keeping the correspondence, and panic together with the
  same message; the only other outcome is that \<open>acquire\<close> spins on a lock another hart has.\<close>

theorem spinlock_refines_lock_list:
  assumes "lock_rel c s (held m)"
  shows "(case spin_acquire c l s of
            Ok u t \<Rightarrow> (\<exists>m'. acquire l m = Ok () m' \<and> lock_rel c t (held m'))
          | Panic e \<Rightarrow> acquire l m = Panic e
          | Spin \<Rightarrow> locked (locks s l) \<noteq> 0 \<and> \<not> spin_holding c l s
          | _ \<Rightarrow> False) \<and>
         (case spin_release c l s of
            Ok u t \<Rightarrow> (\<exists>m'. release l m = Ok () m' \<and> lock_rel c t (held m'))
          | Panic e \<Rightarrow> release l m = Panic e
          | Spin \<Rightarrow> False
          | _ \<Rightarrow> False)"
proof
  show "case spin_acquire c l s of
            Ok u t \<Rightarrow> (\<exists>m'. acquire l m = Ok () m' \<and> lock_rel c t (held m'))
          | Panic e \<Rightarrow> acquire l m = Panic e
          | Spin \<Rightarrow> locked (locks s l) \<noteq> 0 \<and> \<not> spin_holding c l s
          | _ \<Rightarrow> False"
    using spin_acquire_cases [OF assms, of l] assms
    by (auto simp: acquire_def lock_rel_def split: res.splits)
  show "case spin_release c l s of
            Ok u t \<Rightarrow> (\<exists>m'. release l m = Ok () m' \<and> lock_rel c t (held m'))
          | Panic e \<Rightarrow> release l m = Panic e
          | Spin \<Rightarrow> False
          | _ \<Rightarrow> False"
    using spin_release_cases [OF assms, of l] by (auto simp: release_def split: res.splits)
qed

theorem spinlock_refines_lock_list_witness:
  "case spin_acquire 0 L_kmem smp0 of
      Ok u t \<Rightarrow> (\<exists>m'. acquire L_kmem \<lparr>mem = (\<lambda>_. 0), held = []\<rparr> = Ok () m' \<and> lock_rel 0 t (held m'))
    | Panic e \<Rightarrow> acquire L_kmem \<lparr>mem = (\<lambda>_. 0), held = []\<rparr> = Panic e
    | Spin \<Rightarrow> locked (locks smp0 L_kmem) \<noteq> 0 \<and> \<not> spin_holding 0 L_kmem smp0
    | _ \<Rightarrow> False"
proof -
  have "lock_rel 0 smp0 (held \<lparr>mem = (\<lambda>_. 0), held = []\<rparr>)"
    by (simp add: lock_rel_def smp0_def spin_holding_def)
  then show ?thesis by (rule spinlock_refines_lock_list [THEN conjunct1])
qed

section \<open>Mutual exclusion between harts\<close>

text \<open>One lock, used by any number of harts: the control points of \<open>acquire\<close> and \<open>release\<close>
  between their accesses to shared memory. \<open>Crit\<close> is the critical section, \<open>Panicked\<close> a
  hart that has called \<open>panic\<close>.\<close>

datatype ctl = Out | A_check | A_swap | A_own | Crit | R_check | R_clear | R_unlock | R_pop | Panicked

record harts = smp +
  ctl :: "nat \<Rightarrow> ctl"

definition goto :: "nat \<Rightarrow> ctl \<Rightarrow> harts \<Rightarrow> harts" where
  "goto c p s = s\<lparr>ctl := (ctl s)(c := p)\<rparr>"

definition set_lock :: "lockid \<Rightarrow> (spinlock \<Rightarrow> spinlock) \<Rightarrow> 'z smp_scheme \<Rightarrow> 'z smp_scheme" where
  "set_lock lk f s = s\<lparr>locks := (locks s)(lk := f (locks s lk))\<rparr>"

inductive lock_step :: "lockid \<Rightarrow> harts \<Rightarrow> harts \<Rightarrow> bool" for lk :: lockid where
  acq_push: "ctl s c = Out \<Longrightarrow> push_off c s = Ok () t \<Longrightarrow> lock_step lk s (goto c A_check t)"
| acq_held: "ctl s c = A_check \<Longrightarrow> spin_holding c lk s \<Longrightarrow> lock_step lk s (goto c Panicked s)"
| acq_free: "ctl s c = A_check \<Longrightarrow> \<not> spin_holding c lk s \<Longrightarrow> lock_step lk s (goto c A_swap s)"
| acq_spin: "ctl s c = A_swap \<Longrightarrow> locked (locks s lk) \<noteq> 0 \<Longrightarrow>
    lock_step lk s (set_lock lk (locked_update (\<lambda>_. 1)) s)"
| acq_swap: "ctl s c = A_swap \<Longrightarrow> locked (locks s lk) = 0 \<Longrightarrow>
    lock_step lk s (goto c A_own (set_lock lk (locked_update (\<lambda>_. 1)) s))"
| acq_own: "ctl s c = A_own \<Longrightarrow>
    lock_step lk s (goto c Crit (set_lock lk (lk_cpu_update (\<lambda>_. Some c)) s))"
| rel_begin: "ctl s c = Crit \<Longrightarrow> lock_step lk s (goto c R_check s)"
| rel_held: "ctl s c = R_check \<Longrightarrow> spin_holding c lk s \<Longrightarrow> lock_step lk s (goto c R_clear s)"
| rel_free: "ctl s c = R_check \<Longrightarrow> \<not> spin_holding c lk s \<Longrightarrow> lock_step lk s (goto c Panicked s)"
| rel_clear: "ctl s c = R_clear \<Longrightarrow>
    lock_step lk s (goto c R_unlock (set_lock lk (lk_cpu_update (\<lambda>_. None)) s))"
| rel_unlock: "ctl s c = R_unlock \<Longrightarrow>
    lock_step lk s (goto c R_pop (set_lock lk (locked_update (\<lambda>_. 0)) s))"
| rel_pop: "ctl s c = R_pop \<Longrightarrow> pop_off c s = Ok () t \<Longrightarrow> lock_step lk s (goto c Out t)"
| rel_pop_panic: "ctl s c = R_pop \<Longrightarrow> pop_off c s = Panic e \<Longrightarrow> lock_step lk s (goto c Panicked s)"

definition lock_init :: "lockid \<Rightarrow> harts \<Rightarrow> bool" where
  "lock_init lk s \<longleftrightarrow> locked (locks s lk) = 0 \<and> lk_cpu (locks s lk) = None \<and>
     (\<forall>c. ctl s c = Out \<and> noff (cpus s c) = 0)"

definition owning :: "ctl \<Rightarrow> bool" where
  "owning p \<longleftrightarrow> p \<in> {A_own, Crit, R_check, R_clear, R_unlock}"

definition named :: "ctl \<Rightarrow> bool" where
  "named p \<longleftrightarrow> p \<in> {Crit, R_check, R_clear}"

lemma owning_simps [simp]:
  "\<not> owning Out" "\<not> owning A_check" "\<not> owning A_swap" "owning A_own" "owning Crit"
  "owning R_check" "owning R_clear" "owning R_unlock" "\<not> owning R_pop" "\<not> owning Panicked"
  by (simp_all add: owning_def)

lemma named_simps [simp]:
  "\<not> named Out" "\<not> named A_check" "\<not> named A_swap" "\<not> named A_own" "named Crit"
  "named R_check" "named R_clear" "\<not> named R_unlock" "\<not> named R_pop" "\<not> named Panicked"
  by (simp_all add: named_def)

definition lock_inv :: "lockid \<Rightarrow> harts \<Rightarrow> bool" where
  "lock_inv lk s \<longleftrightarrow>
     (\<forall>c d. owning (ctl s c) \<longrightarrow> owning (ctl s d) \<longrightarrow> c = d) \<and>
     (locked (locks s lk) \<noteq> 0 \<longleftrightarrow> (\<exists>c. owning (ctl s c))) \<and>
     (\<forall>c. lk_cpu (locks s lk) = Some c \<longleftrightarrow> named (ctl s c)) \<and>
     (\<forall>c. ctl s c \<noteq> Panicked \<and>
        (if ctl s c = Out then noff (cpus s c) = 0 else noff (cpus s c) = 1 \<and> \<not> sie s c))"

lemma lock_init_inv: "lock_init lk s \<Longrightarrow> lock_inv lk s"
  by (simp add: lock_init_def lock_inv_def owning_def named_def)

text \<open>Every step moves one hart \<open>c\<close>; the invariant is checked for that hart, the others keep
  their control point, \<open>noff\<close> and interrupt bit.\<close>

lemma lock_inv_move:
  assumes inv: "lock_inv lk s"
    and others: "\<And>d. d \<noteq> c \<Longrightarrow> ctl t d = ctl s d \<and> cpus t d = cpus s d \<and> sie t d = sie s d"
    and own: "owning (ctl t c) \<Longrightarrow> owning (ctl s c) \<or> locked (locks s lk) = 0"
    and lck: "locked (locks t lk) \<noteq> 0 \<longleftrightarrow> owning (ctl t c) \<or> (\<exists>d. d \<noteq> c \<and> owning (ctl s d))"
    and nam: "\<And>d. lk_cpu (locks t lk) = Some d \<longleftrightarrow> (if d = c then named (ctl t c) else named (ctl s d))"
    and lcl: "ctl t c \<noteq> Panicked"
      "if ctl t c = Out then noff (cpus t c) = 0 else noff (cpus t c) = 1 \<and> \<not> sie t c"
  shows "lock_inv lk t"
proof -
  have one: "owning (ctl t x) \<Longrightarrow> owning (ctl t y) \<Longrightarrow> x = y" for x y
    using inv others own unfolding lock_inv_def by metis
  have "locked (locks t lk) \<noteq> 0 \<longleftrightarrow> (\<exists>x. owning (ctl t x))"
    using lck others by metis
  moreover have "\<forall>x. lk_cpu (locks t lk) = Some x \<longleftrightarrow> named (ctl t x)"
    using nam others by metis
  moreover have "ctl t x \<noteq> Panicked \<and>
      (if ctl t x = Out then noff (cpus t x) = 0 else noff (cpus t x) = 1 \<and> \<not> sie t x)" for x
    using inv others lcl unfolding lock_inv_def by (cases "x = c") auto
  ultimately show ?thesis using one unfolding lock_inv_def by blast
qed

lemma push_off_frame:
  assumes "push_off c s = Ok () (t :: harts)"
  shows "locks t = locks s" "ctl t = ctl s" "noff (cpus t c) = noff (cpus s c) + 1" "\<not> sie t c"
    "d \<noteq> c \<Longrightarrow> cpus t d = cpus s d \<and> sie t d = sie s d"
  using assms by (auto simp: push_off_def Let_def intr_off_def)

lemma pop_off_frame:
  assumes "pop_off c s = Ok () (t :: harts)"
  shows "locks t = locks s" "ctl t = ctl s" "noff (cpus t c) = noff (cpus s c) - 1"
    "d \<noteq> c \<Longrightarrow> cpus t d = cpus s d \<and> sie t d = sie s d"
  using assms by (auto simp: pop_off_def Let_def intr_on_def split: if_splits)

lemmas lock_move_simps = goto_def set_lock_def

lemma lock_step_inv:
  assumes inv: "lock_inv lk s" and step: "lock_step lk s t"
  shows "lock_inv lk t"
proof -
  have one: "owning (ctl s x) \<Longrightarrow> d \<noteq> x \<Longrightarrow> \<not> owning (ctl s d)"
    and lck: "locked (locks s lk) \<noteq> 0 \<longleftrightarrow> owning (ctl s x) \<or> (\<exists>d. d \<noteq> x \<and> owning (ctl s d))"
    and nam: "lk_cpu (locks s lk) = Some x \<longleftrightarrow> named (ctl s x)"
    and lcl: "if ctl s x = Out then noff (cpus s x) = 0 else noff (cpus s x) = 1 \<and> \<not> sie s x" for x d
    using inv unfolding lock_inv_def by (metis, metis, metis, metis)
  have nown: "named p \<Longrightarrow> owning p" for p by (auto simp: named_def owning_def)
  have nnam: "owning (ctl s x) \<Longrightarrow> d \<noteq> x \<Longrightarrow> \<not> named (ctl s d)" for x d
    using one nown by blast
  have hold: "spin_holding x lk s \<longleftrightarrow> named (ctl s x)" for x
    using nam [of x] lck [of x] nown by (auto simp: spin_holding_def)
  show ?thesis using step
  proof cases
    case (acq_push c u)
    then show ?thesis using lcl [of c] lck [of c] nam push_off_frame [OF acq_push(3)]
      by (intro lock_inv_move [OF inv, of c]) (simp_all add: lock_move_simps)
  next
    case (acq_held c)
    then show ?thesis using hold [of c] by (simp add: named_def)
  next
    case (acq_free c)
    then show ?thesis using lcl [of c] lck [of c] nam
      by (intro lock_inv_move [OF inv, of c]) (simp_all add: lock_move_simps)
  next
    case (acq_spin c)
    then show ?thesis using lcl [of c] lck [of c] nam
      by (intro lock_inv_move [OF inv, of c]) (simp_all add: lock_move_simps)
  next
    case (acq_swap c)
    then show ?thesis using lcl [of c] lck [of c] nam
      by (intro lock_inv_move [OF inv, of c]) (simp_all add: lock_move_simps)
  next
    case (acq_own c)
    then show ?thesis using lcl [of c] lck [of c] nam one [of c] nnam [of c]
      by (intro lock_inv_move [OF inv, of c]) (simp_all add: lock_move_simps)
  next
    case (rel_begin c)
    then show ?thesis using lcl [of c] lck [of c] nam
      by (intro lock_inv_move [OF inv, of c]) (simp_all add: lock_move_simps)
  next
    case (rel_held c)
    then show ?thesis using lcl [of c] lck [of c] nam
      by (intro lock_inv_move [OF inv, of c]) (simp_all add: lock_move_simps)
  next
    case (rel_free c)
    then show ?thesis using hold [of c] by (simp add: named_def)
  next
    case (rel_clear c)
    then show ?thesis using lcl [of c] lck [of c] nam one [of c] nnam [of c]
      by (intro lock_inv_move [OF inv, of c]) (simp_all add: lock_move_simps)
  next
    case (rel_unlock c)
    then show ?thesis using lcl [of c] lck [of c] nam one [of c] nnam [of c]
      by (intro lock_inv_move [OF inv, of c]) (simp_all add: lock_move_simps, blast)
  next
    case (rel_pop c u)
    then show ?thesis using lcl [of c] lck [of c] nam pop_off_frame [OF rel_pop(3)]
      by (intro lock_inv_move [OF inv, of c]) (simp_all add: lock_move_simps)
  next
    case (rel_pop_panic c e)
    then show ?thesis using lcl [of c] by (simp add: pop_off_def intr_get_def Let_def split: if_splits)
  qed
qed

interpretation spin: step_system "lock_init lk" "lock_step lk" "lock_inv lk"
  by unfold_locales (auto intro: lock_init_inv lock_step_inv)

text \<open>C4. \<^bold>\<open>Spin-locks give mutual exclusion.\<close> However the instructions of \<open>acquire\<close> and
  \<open>release\<close> of any number of harts are interleaved, no two harts are in the critical section of
  a lock at once, a hart in it has interrupts off, and none of the lock code's panics is reached.\<close>

theorem spinlock_mutual_exclusion:
  assumes "reach (lock_init lk) (lock_step lk) s"
  shows "(ctl s c = Crit \<longrightarrow> ctl s d = Crit \<longrightarrow> c = d) \<and> (ctl s c = Crit \<longrightarrow> \<not> sie s c) \<and>
         ctl s c \<noteq> Panicked"
proof -
  have inv: "lock_inv lk s" using assms by (rule spin.reach_inv)
  then have one: "\<forall>x y. owning (ctl s x) \<longrightarrow> owning (ctl s y) \<longrightarrow> x = y"
    and lcl: "\<forall>x. ctl s x \<noteq> Panicked \<and>
      (if ctl s x = Out then noff (cpus s x) = 0 else noff (cpus s x) = 1 \<and> \<not> sie s x)"
    unfolding lock_inv_def by simp_all
  show ?thesis using one [rule_format, of c d] lcl [rule_format, of c] by (auto simp: owning_def)
qed

definition harts0 :: harts where
  "harts0 = smp.extend smp0 (harts.fields (\<lambda>_. Out))"

lemma harts0_reach: "reach (lock_init L_kmem) (lock_step L_kmem) harts0"
  by (rule reach_init) (simp add: lock_init_def harts0_def smp0_def smp.defs harts.defs)

theorem spinlock_mutual_exclusion_witness:
  "\<exists>s. reach (lock_init L_kmem) (lock_step L_kmem) s \<and> ctl s 1 = Crit \<and> ctl s 0 \<noteq> Crit \<and> \<not> sie s 1"
proof -
  obtain t where t: "push_off 1 harts0 = Ok () t" using push_off_Ok by blast
  have ct: "ctl harts0 = (\<lambda>_. Out)" by (simp add: harts0_def smp.defs harts.defs)
  have lt: "locked (locks t L_kmem) = 0" "ctl t = (\<lambda>_. Out)"
    using t by (auto simp: push_off_def Let_def intr_off_def harts0_def smp0_def smp.defs harts.defs)
  let ?a = "goto 1 A_check t"
  let ?b = "goto 1 A_swap ?a"
  let ?c = "goto 1 A_own (set_lock L_kmem (locked_update (\<lambda>_. 1)) ?b)"
  let ?d = "goto 1 Crit (set_lock L_kmem (lk_cpu_update (\<lambda>_. Some 1)) ?c)"
  have "reach (lock_init L_kmem) (lock_step L_kmem) ?a"
    by (rule reach_step [OF harts0_reach]) (rule lock_step.acq_push [OF _ t], simp add: ct)
  then have "reach (lock_init L_kmem) (lock_step L_kmem) ?b"
    by (rule reach_step) (rule lock_step.acq_free, simp_all add: goto_def spin_holding_def lt)
  then have "reach (lock_init L_kmem) (lock_step L_kmem) ?c"
    by (rule reach_step) (rule lock_step.acq_swap, simp_all add: goto_def lt)
  then have r: "reach (lock_init L_kmem) (lock_step L_kmem) ?d"
    by (rule reach_step) (rule lock_step.acq_own, simp add: goto_def)
  have "ctl ?d 1 = Crit" "ctl ?d 0 \<noteq> Crit" by (simp_all add: goto_def set_lock_def lt)
  with spinlock_mutual_exclusion [OF r, of 1 0] r show ?thesis by blast
qed

end
