(* ===== verification/Kstring.thy ===== *)
theory Kstring
  imports Prelude
begin

text \<open>
  \<open>kernel/string.c\<close>. The block operations \<open>memset\<close>, \<open>memcmp\<close> and \<open>memmove\<close> work on
  physical memory, byte by byte in the order of the C loops. The string operations work on the
  kernel's own character arrays, given as byte lists: \<open>None\<close> means that the C code would read
  past the end of the array.
\<close>

unbundle bit_operations_syntax

section \<open>Block operations on memory\<close>

function memset_loop :: "memory \<Rightarrow> u64 \<Rightarrow> u32 \<Rightarrow> nat \<Rightarrow> nat \<Rightarrow> memory" where
  "memset_loop m cdst c i n =
     (if i < n then memset_loop (m(cdst + of_nat i := ucast c)) cdst c (Suc i) n else m)"
  by pat_completeness auto
termination
  by (relation "measure (\<lambda>(m, cdst, c, i, n). n - i)") auto

declare memset_loop.simps [simp del]

definition memset :: "memory \<Rightarrow> u64 \<Rightarrow> u32 \<Rightarrow> nat \<Rightarrow> memory" where
  "memset m dst c n = memset_loop m dst c 0 n"

fun memcmp :: "memory \<Rightarrow> u64 \<Rightarrow> u64 \<Rightarrow> nat \<Rightarrow> int" where
  "memcmp m s1 s2 0 = 0"
| "memcmp m s1 s2 (Suc n) =
     (if m s1 \<noteq> m s2 then uint (m s1) - uint (m s2) else memcmp m (s1 + 1) (s2 + 1) n)"

primrec memmove_bwd :: "memory \<Rightarrow> u64 \<Rightarrow> u64 \<Rightarrow> nat \<Rightarrow> memory" where
  "memmove_bwd m d s 0 = m"
| "memmove_bwd m d s (Suc n) = memmove_bwd (m(d + of_nat n := m (s + of_nat n))) d s n"

primrec memmove_fwd :: "memory \<Rightarrow> u64 \<Rightarrow> u64 \<Rightarrow> nat \<Rightarrow> memory" where
  "memmove_fwd m d s 0 = m"
| "memmove_fwd m d s (Suc n) = memmove_fwd (m(d := m s)) (d + 1) (s + 1) n"

definition memmove :: "memory \<Rightarrow> u64 \<Rightarrow> u64 \<Rightarrow> nat \<Rightarrow> memory" where
  "memmove m dst src n =
     (if n = 0 then m
      else if src < dst \<and> src + of_nat n > dst then memmove_bwd m dst src n
      else memmove_fwd m dst src n)"

definition memcpy :: "memory \<Rightarrow> u64 \<Rightarrow> u64 \<Rightarrow> nat \<Rightarrow> memory" where
  "memcpy m dst src n = memmove m dst src n"

section \<open>Strings in kernel arrays\<close>

fun strncmp :: "u8 list \<Rightarrow> u8 list \<Rightarrow> nat \<Rightarrow> int option" where
  "strncmp p q 0 = Some 0"
| "strncmp (a # p) (b # q) (Suc n) =
     (if a \<noteq> 0 \<and> a = b then strncmp p q n else Some (uint a - uint b))"
| "strncmp p q (Suc n) = None"

text \<open>The bytes \<open>strncpy\<close> and \<open>safestrcpy\<close> write, in order; then the whole destination array.\<close>

fun strncpy_bytes :: "u8 list \<Rightarrow> nat \<Rightarrow> u8 list option" where
  "strncpy_bytes t 0 = Some []"
| "strncpy_bytes (c # t) (Suc n) =
     (if c \<noteq> 0 then map_option ((#) c) (strncpy_bytes t n) else Some (0 # replicate n 0))"
| "strncpy_bytes [] (Suc n) = None"

definition strncpy :: "u8 list \<Rightarrow> u8 list \<Rightarrow> nat \<Rightarrow> u8 list option" where
  "strncpy s t n = map_option (\<lambda>w. w @ drop (length w) s) (strncpy_bytes t n)"

fun safestrcpy_bytes :: "u8 list \<Rightarrow> nat \<Rightarrow> u8 list option" where
  "safestrcpy_bytes t 0 = Some [0]"
| "safestrcpy_bytes (c # t) (Suc k) =
     (if c \<noteq> 0 then map_option ((#) c) (safestrcpy_bytes t k) else Some [c, 0])"
| "safestrcpy_bytes [] (Suc k) = None"

definition safestrcpy :: "u8 list \<Rightarrow> u8 list \<Rightarrow> int \<Rightarrow> u8 list option" where
  "safestrcpy s t n =
     (if n \<le> 0 then Some s
      else map_option (\<lambda>w. w @ drop (length w) s) (safestrcpy_bytes t (nat n - 1)))"

fun strlen :: "u8 list \<Rightarrow> nat option" where
  "strlen [] = None"
| "strlen (c # s) = (if c = 0 then Some 0 else map_option Suc (strlen s))"

text \<open>The C string an array holds: its bytes up to the first NUL.\<close>

definition cstr :: "u8 list \<Rightarrow> u8 list" where
  "cstr s = takeWhile (\<lambda>c. c \<noteq> 0) s"

section \<open>Block operations write the bytes they should\<close>

lemma memset_loop_eq:
  "n \<le> 2 ^ 64 \<Longrightarrow> i \<le> n \<Longrightarrow>
   memset_loop m a c i n =
     (\<lambda>x. if i \<le> unat (x - a) \<and> unat (x - a) < n then ucast c else m x)"
proof (induction m a c i n rule: memset_loop.induct)
  case (1 m a c i n)
  show ?case
  proof (cases "i < n")
    case False
    then show ?thesis by (subst memset_loop.simps) (auto simp: fun_eq_iff)
  next
    case True
    have eq: "x = a + of_nat i \<longleftrightarrow> unat (x - a) = i" for x :: u64
    proof
      assume "x = a + of_nat i"
      then show "unat (x - a) = i" using True "1.prems" by (simp add: unat_of_nat64)
    next
      assume "unat (x - a) = i"
      then have "x - a = of_nat i" by auto
      then show "x = a + of_nat i" by (simp add: algebra_simps)
    qed
    have "memset_loop (m(a + of_nat i := ucast c)) a c (Suc i) n =
        (\<lambda>x. if Suc i \<le> unat (x - a) \<and> unat (x - a) < n then ucast c
             else (m(a + of_nat i := ucast c)) x)"
      by (rule "1.IH" [OF True]) (use True "1.prems" in simp_all)
    then show ?thesis using True by (subst memset_loop.simps) (auto simp: fun_eq_iff eq)
  qed
qed

lemma memset_eq: "n \<le> 2 ^ 64 \<Longrightarrow> memset m a c n = write_bytes m a (replicate n (ucast c))"
  by (simp add: memset_def memset_loop_eq write_bytes_def fun_eq_iff)

lemma memmove_fwd_eq:
  "unat s + n \<le> 2 ^ 64 \<Longrightarrow> unat d + n \<le> 2 ^ 64 \<Longrightarrow> unat d \<le> unat s \<or> unat s + n \<le> unat d \<Longrightarrow>
   memmove_fwd m d s n = write_bytes m d (read_bytes m s n)"
proof (induction n arbitrary: m d s)
  case 0
  then show ?case by (simp add: read_bytes_def)
next
  case (Suc n)
  show ?case
  proof (cases "n = 0")
    case True
    then show ?thesis by (simp add: read_bytes_Suc write_bytes_Cons read_bytes_def)
  next
    case False
    have s1: "unat (s + 1) = Suc (unat s)" and d1: "unat (d + 1) = Suc (unat d)"
      using Suc.prems False by (simp_all add: unat_word_ariths)
    have "d \<notin> region (s + 1) n"
      using Suc.prems s1 by (subst region_nowrap) auto
    then have r: "read_bytes (m(d := m s)) (s + 1) n = read_bytes m (s + 1) n"
      using Suc.prems by (intro read_bytes_upd) auto
    have "memmove_fwd (m(d := m s)) (d + 1) (s + 1) n =
        write_bytes (m(d := m s)) (d + 1) (read_bytes (m(d := m s)) (s + 1) n)"
      by (rule Suc.IH) (use Suc.prems s1 d1 in auto)
    then have "memmove_fwd m d s (Suc n) = write_bytes (m(d := m s)) (d + 1) (read_bytes m (s + 1) n)"
      by (simp only: memmove_fwd.simps r)
    then show ?thesis using Suc.prems by (simp add: read_bytes_Suc write_bytes_Cons)
  qed
qed

lemma memmove_bwd_eq:
  "unat s + n \<le> 2 ^ 64 \<Longrightarrow> unat d + n \<le> 2 ^ 64 \<Longrightarrow> unat s < unat d \<Longrightarrow>
   memmove_bwd m d s n = write_bytes m d (read_bytes m s n)"
proof (induction n arbitrary: m)
  case 0
  then show ?case by (simp add: read_bytes_def)
next
  case (Suc n)
  have "unat (d + of_nat n) = unat d + n"
    using Suc.prems by (simp add: unat_word_ariths unat_of_nat64)
  then have "d + of_nat n \<notin> region s n"
    using Suc.prems by (subst region_nowrap) auto
  then have "read_bytes (m(d + of_nat n := m (s + of_nat n))) s n = read_bytes m s n"
    using Suc.prems by (intro read_bytes_upd) auto
  moreover have "memmove_bwd (m(d + of_nat n := m (s + of_nat n))) d s n =
      write_bytes (m(d + of_nat n := m (s + of_nat n))) d
        (read_bytes (m(d + of_nat n := m (s + of_nat n))) s n)"
    by (rule Suc.IH) (use Suc.prems in auto)
  ultimately have "memmove_bwd m d s (Suc n) =
      write_bytes (m(d + of_nat n := m (s + of_nat n))) d (read_bytes m s n)"
    by (simp only: memmove_bwd.simps)
  then show ?case using Suc.prems by (simp add: read_bytes_snoc write_bytes_snoc)
qed

text \<open>\<open>memmove\<close> copies correctly whatever the overlap of source and destination.\<close>

lemma memmove_eq:
  assumes "unat src + n \<le> 2 ^ 64" "unat dst + n \<le> 2 ^ 64"
  shows "memmove m dst src n = write_bytes m dst (read_bytes m src n)"
proof (cases "n = 0")
  case True
  then show ?thesis by (simp add: memmove_def read_bytes_def)
next
  case n: False
  show ?thesis
  proof (cases "src < dst \<and> src + of_nat n > dst")
    case True
    then show ?thesis
      using assms n memmove_bwd_eq [of src n dst m] by (simp add: memmove_def word_less_nat_alt)
  next
    case False
    have "unat dst \<le> unat src \<or> unat src + n \<le> unat dst"
    proof (cases "unat src + n = 2 ^ 64")
      case True
      then show ?thesis using assms n unat_u64 [of dst] by linarith
    next
      case False
      then have "unat (src + of_nat n) = unat src + n"
        using assms by (simp add: unat_word_ariths unat_of_nat64)
      then show ?thesis
        using \<open>\<not> (src < dst \<and> src + of_nat n > dst)\<close> by (auto simp: word_less_nat_alt not_less)
    qed
    then show ?thesis
      using memmove_fwd_eq [OF assms] n False by (auto simp: memmove_def)
  qed
qed

text \<open>C6. \<^bold>\<open>memmove is correct for overlapping buffers.\<close> For source and destination ranges that do
  not wrap around the address space, in any position relative to each other, byte \<open>i\<close> of the
  destination holds after the call what byte \<open>i\<close> of the source held before it, and every byte
  outside the destination is unchanged.\<close>

theorem memmove_overlap:
  assumes "unat src + n \<le> 2 ^ 64" "unat dst + n \<le> 2 ^ 64"
  shows "(\<forall>i < n. memmove m dst src n (dst + of_nat i) = m (src + of_nat i)) \<and>
         (\<forall>x. x \<notin> region dst n \<longrightarrow> memmove m dst src n x = m x)"
proof (intro conjI allI impI)
  fix i
  assume i: "i < n"
  then have "unat (of_nat i :: u64) = i" using assms(1) by (intro unat_of_nat64) linarith
  then show "memmove m dst src n (dst + of_nat i) = m (src + of_nat i)"
    using i assms by (simp add: memmove_eq write_bytes_def)
next
  fix x
  assume "x \<notin> region dst n"
  then show "memmove m dst src n x = m x" using assms by (simp add: memmove_eq write_bytes_def)
qed

theorem memmove_overlap_witness:
  "memmove (\<lambda>x. ucast x) 0x1002 0x1000 4 0x1005 = 0x03 \<and>
   memmove (\<lambda>x. ucast x) 0x1002 0x1000 4 0x1002 = 0x00"
proof -
  have h: "unat (0x1000 :: u64) + 4 \<le> 2 ^ 64" "unat (0x1002 :: u64) + 4 \<le> 2 ^ 64" by simp_all
  have all: "\<forall>i < 4. memmove (\<lambda>x. ucast x) 0x1002 0x1000 4 (0x1002 + of_nat i) =
      ucast (0x1000 + of_nat i :: u64)"
    using memmove_overlap [OF h, of "\<lambda>x. ucast x"] by blast
  from all [rule_format, of 3] all [rule_format, of 0] show ?thesis by simp
qed

section \<open>String operations\<close>

lemma cstr_simps [simp]:
  "cstr [] = []" "cstr (c # s) = (if c = 0 then [] else c # cstr s)"
  by (simp_all add: cstr_def)

lemma strncmp_eq_iff:
  "strncmp p q n = Some r \<Longrightarrow> r = 0 \<longleftrightarrow> cstr (take n p) = cstr (take n q)"
  by (induction p q n rule: strncmp.induct)
    (auto simp: uint_0_iff word_uint_eq_iff [symmetric] split: if_splits)

lemma strncmp_reads:
  "n \<le> length p \<Longrightarrow> n \<le> length q \<Longrightarrow> \<exists>r. strncmp p q n = Some r"
  by (induction p q n rule: strncmp.induct) auto

lemma strncmp_refl: "n \<le> length p \<Longrightarrow> strncmp p p n = Some 0"
  using strncmp_reads [of n p p] strncmp_eq_iff [of p p n] by auto

lemma length_strncpy_bytes: "strncpy_bytes t n = Some w \<Longrightarrow> length w = n"
  by (induction t n arbitrary: w rule: strncpy_bytes.induct) (auto split: if_splits)

lemma cstr_replicate_0 [simp]: "cstr (replicate n 0) = []"
  by (cases n) auto

lemma cstr_strncpy_bytes: "strncpy_bytes t n = Some w \<Longrightarrow> cstr w = cstr (take n t)"
  by (induction t n arbitrary: w rule: strncpy_bytes.induct) (auto split: if_splits)

lemma safestrcpy_bytes_cstr:
  "safestrcpy_bytes t k = Some w \<Longrightarrow> cstr (w @ r) = take k (cstr t) \<and> 0 < length w \<and> length w \<le> Suc k"
  by (induction t k arbitrary: w rule: safestrcpy_bytes.induct) (auto split: if_splits)

lemma safestrcpy_bytes_reads: "0 \<in> set t \<or> k \<le> length t \<Longrightarrow> \<exists>w. safestrcpy_bytes t k = Some w"
  by (induction t k rule: safestrcpy_bytes.induct) auto

lemma safestrcpy_bytes_nul: "safestrcpy_bytes t k = Some w \<Longrightarrow> 0 \<in> set w"
  by (induction t k arbitrary: w rule: safestrcpy_bytes.induct) (auto split: if_splits)

text \<open>\<^bold>\<open>safestrcpy truncates and always terminates.\<close> Copying a NUL-terminated string into an
  array of at least \<open>n > 0\<close> bytes succeeds, keeps the array's length and leaves in it the
  source string cut to \<open>n - 1\<close> bytes, with a NUL inside the first \<open>n\<close> bytes.\<close>

lemma safestrcpy_terminates:
  assumes "0 \<in> set t" "0 < n" "nat n \<le> length s"
  shows "\<exists>s'. safestrcpy s t n = Some s' \<and> length s' = length s \<and>
           cstr s' = take (nat n - 1) (cstr t) \<and> 0 \<in> set (take (nat n) s')"
proof -
  obtain w where w: "safestrcpy_bytes t (nat n - 1) = Some w"
    using safestrcpy_bytes_reads assms(1) by blast
  note spec = safestrcpy_bytes_cstr [OF w]
  have lw: "length w \<le> nat n" using spec assms(2) by simp
  have "0 \<in> set w" using w by (rule safestrcpy_bytes_nul)
  then have "0 \<in> set (take (nat n) (w @ drop (length w) s))" using lw by simp
  then show ?thesis using spec w lw assms by (simp add: safestrcpy_def)
qed

end
