(* ===== verification/Kalloc.thy ===== *)
theory Kalloc
  imports Kstring
begin

text \<open>
  \<open>kernel/kalloc.c\<close>: the physical page allocator. The free list is the linked list the C code
  keeps inside the free pages themselves: the first eight bytes of a free page hold the address
  of the next one. The build defines \<open>LAB_SYSCALL\<close> (\<open>conf/lab.mk\<close>), so freed and allocated
  pages are not filled with junk. The symbol \<open>end\<close>, placed by the linker, is a field of the
  state that no operation changes. The allocator is shown to implement a list of pages, the
  interface \<open>page_allocator\<close> its clients rely on.
\<close>

unbundle bit_operations_syntax

section \<open>Page arithmetic and layout\<close>

definition PGSIZE :: u64 where "PGSIZE = 4096"
definition KERNBASE :: u64 where "KERNBASE = 0x80000000"
definition PHYSTOP :: u64 where "PHYSTOP = KERNBASE + 128 * 1024 * 1024"

definition PGROUNDUP :: "u64 \<Rightarrow> u64" where
  "PGROUNDUP sz = (sz + PGSIZE - 1) AND NOT (PGSIZE - 1)"

definition PGROUNDDOWN :: "u64 \<Rightarrow> u64" where
  "PGROUNDDOWN a = a AND NOT (PGSIZE - 1)"

section \<open>State and operations\<close>

record kmem = machine +
  kend :: u64               \<comment> \<open>\<open>end\<close>: first address after the kernel\<close>
  freelist :: u64           \<comment> \<open>\<open>kmem.freelist\<close>\<close>

definition kfree :: "u64 \<Rightarrow> ('z kmem_scheme, unit) km" where
  "kfree pa = (\<lambda>s.
     if pa mod PGSIZE \<noteq> 0 \<or> pa < kend s \<or> pa \<ge> PHYSTOP then Panic ''kfree''
     else kseq (acquire L_kmem)
         (kseq (kmodify (\<lambda>s. s\<lparr>mem := store64 (mem s) pa (freelist s)\<rparr>))
         (kseq (kmodify (\<lambda>s. s\<lparr>freelist := pa\<rparr>))
         (release L_kmem))) s)"

definition kalloc :: "('z kmem_scheme, u64) km" where
  "kalloc =
     kseq (acquire L_kmem)
     (kbind (kget freelist) (\<lambda>r.
      kseq (if r \<noteq> 0 then kmodify (\<lambda>s. s\<lparr>freelist := load64 (mem s) r\<rparr>) else kreturn ())
     (kseq (release L_kmem)
     (kreturn r))))"

text \<open>\<open>freerange\<close>: the fuel bounds the number of pages below \<open>pa_end\<close>; \<open>freerange_loop_run\<close> shows that it is enough.\<close>

primrec freerange_loop :: "nat \<Rightarrow> u64 \<Rightarrow> u64 \<Rightarrow> ('z kmem_scheme, unit) km" where
  "freerange_loop 0 p pa_end = kspin"
| "freerange_loop (Suc k) p pa_end =
     (if p + PGSIZE \<le> pa_end then kseq (kfree p) (freerange_loop k (p + PGSIZE) pa_end)
      else kreturn ())"

definition freerange :: "u64 \<Rightarrow> u64 \<Rightarrow> ('z kmem_scheme, unit) km" where
  "freerange pa_start pa_end =
     freerange_loop (Suc (unat pa_end div 4096)) (PGROUNDUP pa_start) pa_end"

text \<open>The \<open>initlock\<close> of \<open>kinit\<close> leaves a lock free that is free in the model from the start.\<close>

definition kinit :: "('z kmem_scheme, unit) km" where
  "kinit = (\<lambda>s. freerange (kend s) PHYSTOP s)"

text \<open>The counter is an \<open>int\<close> in C as well; there are fewer than \<open>2 ^ 15\<close> pages.\<close>

partial_function (option) freemem_loop :: "memory \<Rightarrow> u64 \<Rightarrow> int \<Rightarrow> int option" where
  "freemem_loop m r n = (if r = 0 then Some n else freemem_loop m (load64 m r) (n + 1))"

definition freemem :: "('z kmem_scheme, int) km" where
  "freemem =
     kseq (acquire L_kmem)
     (kbind (\<lambda>s. case freemem_loop (mem s) (freelist s) 0 of None \<Rightarrow> Spin | Some n \<Rightarrow> Ok n s) (\<lambda>n.
      kseq (release L_kmem)
     (kreturn (n * 4096))))"

section \<open>The free list as a list of pages\<close>

primrec free_chain :: "memory \<Rightarrow> u64 \<Rightarrow> u64 list \<Rightarrow> bool" where
  "free_chain m r [] \<longleftrightarrow> r = 0"
| "free_chain m r (p # ps) \<longleftrightarrow> r = p \<and> p \<noteq> 0 \<and> free_chain m (load64 m p) ps"

definition page_ok :: "'z kmem_scheme \<Rightarrow> u64 \<Rightarrow> bool" where
  "page_ok s p \<longleftrightarrow> aligned 12 p \<and> kend s \<le> p \<and> p < PHYSTOP"

definition kmem_inv :: "'z kmem_scheme \<Rightarrow> u64 list \<Rightarrow> bool" where
  "kmem_inv s ps \<longleftrightarrow> free_chain (mem s) (freelist s) ps \<and> distinct ps \<and>
     (\<forall>p \<in> set ps. page_ok s p) \<and> KERNBASE \<le> kend s \<and> L_kmem \<notin> set (held s)"

lemma mod_PGSIZE: "x mod PGSIZE = 0 \<longleftrightarrow> aligned 12 x"
  by (simp add: PGSIZE_def aligned_def take_bit_eq_mod)

lemma page_ok_nonzero: "page_ok s p \<Longrightarrow> KERNBASE \<le> kend s \<Longrightarrow> p \<noteq> 0"
  by (auto simp: page_ok_def KERNBASE_def word_le_nat_alt)

lemma aligned_page_disjoint:
  assumes "aligned 12 p" "aligned 12 q" "p \<noteq> q"
  shows "region p 4096 \<inter> region q 4096 = {}"
  using aligned_disjoint [OF assms] by simp

lemma region_mono: "n \<le> k \<Longrightarrow> region a n \<subseteq> region a k"
  by auto

lemma page_first_word: "region p 8 \<subseteq> region p 4096"
  by (rule region_mono) simp

lemma free_chain_write:
  assumes "free_chain m r ps" "\<forall>p \<in> set ps. region p 8 \<inter> region a (length bs) = {}"
  shows "free_chain (write_bytes m a bs) r ps"
  using assms
proof (induction ps arbitrary: r)
  case Nil
  then show ?case by simp
next
  case (Cons p ps)
  then have "load64 (write_bytes m a bs) p = load64 m p"
    by (intro load_write_disjoint) (simp add: Int_commute)
  with Cons show ?case by simp
qed

text \<open>A write into a page that is not free keeps the free list.\<close>

lemma kmem_inv_write:
  assumes inv: "kmem_inv s ps" and p: "aligned 12 p" "p \<notin> set ps"
    and sub: "region a (length bs) \<subseteq> region p 4096"
  shows "kmem_inv (s\<lparr>mem := write_bytes (mem s) a bs\<rparr>) ps"
proof -
  have "region q 8 \<inter> region a (length bs) = {}" if "q \<in> set ps" for q
  proof -
    have "region q 4096 \<inter> region p 4096 = {}"
      using inv p that by (intro aligned_page_disjoint) (auto simp: kmem_inv_def page_ok_def)
    then show ?thesis using sub page_first_word [of q] by blast
  qed
  then show ?thesis using inv by (auto simp: kmem_inv_def page_ok_def intro: free_chain_write)
qed

lemma kmem_inv_store64:
  assumes "kmem_inv s ps" "aligned 12 p" "p \<notin> set ps" "region a 8 \<subseteq> region p 4096"
  shows "kmem_inv (s\<lparr>mem := store64 (mem s) a v\<rparr>) ps"
  unfolding store64_def using assms by (intro kmem_inv_write [where p = p]) auto

section \<open>The operations implement it\<close>

lemma kalloc_empty: "kmem_inv s [] \<Longrightarrow> kalloc s = Ok 0 s"
  by (simp add: kmem_inv_def kalloc_def kseq_def kbind_def acquire_def release_def)

lemma kalloc_run:
  "kmem_inv s (p # ps) \<Longrightarrow> kalloc s = Ok p (s\<lparr>freelist := load64 (mem s) p\<rparr>)"
  by (simp add: kmem_inv_def kalloc_def kseq_def kbind_def acquire_def release_def)

lemma kmem_inv_tail: "kmem_inv s (p # ps) \<Longrightarrow> kmem_inv (s\<lparr>freelist := load64 (mem s) p\<rparr>) ps"
  by (simp add: kmem_inv_def page_ok_def)

lemma kfree_run:
  assumes "page_ok s p" "L_kmem \<notin> set (held s)"
  shows "kfree p s = Ok () (s\<lparr>mem := store64 (mem s) p (freelist s), freelist := p\<rparr>)"
  using assms mod_PGSIZE [of p]
  by (simp add: kfree_def page_ok_def kseq_def kbind_def acquire_def release_def not_less not_le)

lemma kfree_panics: "\<not> page_ok s p \<Longrightarrow> kfree p s = Panic ''kfree''"
  using mod_PGSIZE [of p] by (auto simp: kfree_def page_ok_def not_less not_le)

lemma kmem_inv_kfree:
  assumes inv: "kmem_inv s ps" and p: "page_ok s p" "p \<notin> set ps"
  shows "kmem_inv (s\<lparr>mem := store64 (mem s) p (freelist s), freelist := p\<rparr>) (p # ps)"
proof -
  have "kmem_inv (s\<lparr>mem := store64 (mem s) p (freelist s)\<rparr>) ps"
    using inv p by (intro kmem_inv_store64 [where p = p] page_first_word) (simp_all add: page_ok_def)
  moreover have "p \<noteq> 0" using inv p page_ok_nonzero by (auto simp: kmem_inv_def)
  ultimately show ?thesis using p by (auto simp: kmem_inv_def page_ok_def)
qed

lemma freemem_loop_chain: "free_chain m r ps \<Longrightarrow> freemem_loop m r n = Some (n + int (length ps))"
proof (induction ps arbitrary: r n)
  case Nil
  then show ?case by (simp add: freemem_loop.simps)
next
  case (Cons p ps)
  then show ?case by (subst freemem_loop.simps) simp
qed

lemma freemem_run: "kmem_inv s ps \<Longrightarrow> freemem s = Ok (4096 * int (length ps)) s"
  using freemem_loop_chain [of "mem s" "freelist s" ps 0]
  by (simp add: kmem_inv_def freemem_def kseq_def kbind_def acquire_def release_def mult.commute)

section \<open>Rounding to pages\<close>

lemma and_not_mask_eq: "(a :: u64) AND NOT (mask n) = a - take_bit n a"
proof -
  have "a AND NOT (mask n) = push_bit n (drop_bit n a)"
    by (rule bit_eqI) (auto simp: bit_simps)
  then show ?thesis using bits_ident [of n a] by (simp add: algebra_simps)
qed

lemma unat_and_not_mask: "unat ((a :: u64) AND NOT (mask n)) = unat a div 2 ^ n * 2 ^ n"
proof -
  have t: "unat (take_bit n a) = unat a mod 2 ^ n"
    by (subst unsigned_take_bit_eq) (simp add: take_bit_eq_mod)
  have "take_bit n a \<le> a" unfolding word_le_nat_alt t by simp
  then have "unat (a - take_bit n a) = unat a - unat a mod 2 ^ n" by (simp add: unat_sub t)
  then show ?thesis by (simp add: and_not_mask_eq minus_mod_eq_div_mult)
qed

lemma mask_12: "PGSIZE - 1 = mask 12"
  by (simp add: PGSIZE_def mask_eq_exp_minus_1)

lemma unat_PGROUNDDOWN: "unat (PGROUNDDOWN a) = unat a div 4096 * 4096"
  unfolding PGROUNDDOWN_def mask_12 unat_and_not_mask by simp

lemma aligned_PGROUNDDOWN: "aligned 12 (PGROUNDDOWN a)"
  by (simp add: aligned_dvd unat_PGROUNDDOWN)

lemma PGROUNDDOWN_le: "PGROUNDDOWN a \<le> a"
  by (simp add: word_le_nat_alt unat_PGROUNDDOWN)

lemma PGROUNDUP_eq: "PGROUNDUP a = PGROUNDDOWN (a + 4095)"
  by (simp add: PGROUNDUP_def PGROUNDDOWN_def PGSIZE_def add.commute)

lemma unat_PGROUNDUP:
  "unat a \<le> 2 ^ 64 - 4096 \<Longrightarrow> unat (PGROUNDUP a) = (unat a + 4095) div 4096 * 4096"
  by (simp add: PGROUNDUP_eq unat_PGROUNDDOWN unat_word_ariths)

lemma aligned_PGROUNDUP: "aligned 12 (PGROUNDUP a)"
  by (simp add: PGROUNDUP_eq aligned_PGROUNDDOWN)

lemma PGROUNDUP_ge: "unat a \<le> 2 ^ 64 - 4096 \<Longrightarrow> a \<le> PGROUNDUP a"
  unfolding word_le_nat_alt by (simp add: unat_PGROUNDUP)

lemma PGROUNDUP_least:
  "unat a \<le> 2 ^ 64 - 4096 \<Longrightarrow> aligned 12 p \<Longrightarrow> a \<le> p \<Longrightarrow> PGROUNDUP a \<le> p"
  unfolding word_le_nat_alt by (auto simp: unat_PGROUNDUP aligned_dvd dvd_def)

lemma unat_PHYSTOP: "unat PHYSTOP = 0x88000000"
  by (simp add: PHYSTOP_def KERNBASE_def)

section \<open>The interface of a page allocator\<close>

text \<open>What the clients of \<open>kalloc\<close> and \<open>kfree\<close> rely on: \<open>frees s ps\<close> says that the free pages
  of \<open>s\<close> are \<open>ps\<close>, in the order they will be handed out.\<close>

locale page_allocator =
  fixes alloc :: "('s, u64) km" and free :: "u64 \<Rightarrow> ('s, unit) km"
    and frees :: "'s \<Rightarrow> u64 list \<Rightarrow> bool" and valid :: "'s \<Rightarrow> u64 \<Rightarrow> bool"
  assumes alloc_none: "frees s [] \<Longrightarrow> alloc s = Ok 0 s"
    and alloc_some: "frees s (p # ps) \<Longrightarrow> \<exists>t. alloc s = Ok p t \<and> frees t ps \<and> valid t = valid s"
    and free_page: "frees s ps \<Longrightarrow> valid s p \<Longrightarrow> p \<notin> set ps \<Longrightarrow>
      \<exists>t. free p s = Ok () t \<and> frees t (p # ps) \<and> valid t = valid s"
    and free_invalid: "\<not> valid s p \<Longrightarrow> \<exists>e. free p s = Panic e"
    and frees_distinct: "frees s ps \<Longrightarrow> distinct ps"
    and frees_valid: "frees s ps \<Longrightarrow> p \<in> set ps \<Longrightarrow> valid s p"
    and valid_nonzero: "frees s ps \<Longrightarrow> valid s p \<Longrightarrow> p \<noteq> 0"
begin

text \<open>\<open>alloc\<close> called \<open>n\<close> times, keeping the results.\<close>

primrec allocs :: "nat \<Rightarrow> ('s, u64 list) km" where
  "allocs 0 = kreturn []"
| "allocs (Suc n) = kbind alloc (\<lambda>p. kbind (allocs n) (\<lambda>ps. kreturn (p # ps)))"

lemma allocs_take:
  "frees s ps \<Longrightarrow> n \<le> length ps \<Longrightarrow> \<exists>t. allocs n s = Ok (take n ps) t \<and> frees t (drop n ps)"
proof (induction n arbitrary: s ps)
  case 0
  then show ?case by simp
next
  case (Suc n)
  then obtain p qs where ps: "ps = p # qs" by (cases ps) auto
  with Suc.prems obtain t where t: "alloc s = Ok p t" "frees t qs" using alloc_some by blast
  with Suc ps obtain u where "allocs n t = Ok (take n qs) u" "frees u (drop n qs)" by fastforce
  with t ps show ?case by (simp add: kbind_def)
qed

lemma allocs_distinct:
  assumes "frees s ps" "n \<le> length ps"
  shows "\<exists>qs t. allocs n s = Ok qs t \<and> length qs = n \<and> distinct qs \<and> 0 \<notin> set qs \<and>
           set qs \<subseteq> set ps \<and> (\<exists>rs. frees t rs \<and> set rs \<inter> set qs = {} \<and> length rs + n = length ps)"
proof -
  obtain t where t: "allocs n s = Ok (take n ps) t" "frees t (drop n ps)"
    using allocs_take [OF assms] by blast
  have d: "distinct ps" using assms(1) by (rule frees_distinct)
  have "0 \<notin> set (take n ps)"
    using assms(1) frees_valid valid_nonzero by (metis in_set_takeD)
  moreover have "set (drop n ps) \<inter> set (take n ps) = {}"
    using d by (metis Int_commute set_take_disj_set_drop_if_distinct order_refl)
  ultimately show ?thesis using t d assms(2) by (auto dest: in_set_takeD)
qed

lemma alloc_free:
  assumes "frees s (p # ps)"
  shows "\<exists>t u. alloc s = Ok p t \<and> free p t = Ok () u \<and> frees u (p # ps)"
proof -
  obtain t where t: "alloc s = Ok p t" "frees t ps" "valid t = valid s"
    using alloc_some [OF assms] by blast
  have "valid t p" "p \<notin> set ps"
    using t frees_valid [OF assms] frees_distinct [OF assms] by auto
  with t show ?thesis using free_page [of t ps p] by blast
qed

end

interpretation kpages: page_allocator kalloc kfree kmem_inv page_ok
proof
  fix s :: "'z kmem_scheme" and p ps
  show "kmem_inv s [] \<Longrightarrow> kalloc s = Ok 0 s" by (rule kalloc_empty)
  show "\<exists>t. kalloc s = Ok p t \<and> kmem_inv t ps \<and> page_ok t = page_ok s" if "kmem_inv s (p # ps)"
    using kalloc_run [OF that] kmem_inv_tail [OF that] by (auto simp: page_ok_def fun_eq_iff)
  show "\<exists>t. kfree p s = Ok () t \<and> kmem_inv t (p # ps) \<and> page_ok t = page_ok s"
    if "kmem_inv s ps" "page_ok s p" "p \<notin> set ps"
    using kfree_run [of s p] kmem_inv_kfree [OF that] that
    by (auto simp: kmem_inv_def page_ok_def fun_eq_iff)
  show "\<exists>e. kfree p s = Panic e" if "\<not> page_ok s p" using kfree_panics [OF that] by blast
  show "kmem_inv s ps \<Longrightarrow> distinct ps" by (simp add: kmem_inv_def)
  show "kmem_inv s ps \<Longrightarrow> p \<in> set ps \<Longrightarrow> page_ok s p" by (simp add: kmem_inv_def)
  show "kmem_inv s ps \<Longrightarrow> page_ok s p \<Longrightarrow> p \<noteq> 0" using page_ok_nonzero by (auto simp: kmem_inv_def)
qed

section \<open>Boot: every page of RAM above the kernel becomes free\<close>

lemma aligned_12_dvd: "aligned 12 p \<longleftrightarrow> 4096 dvd unat p"
  by (simp add: aligned_dvd)

lemma next_page:
  assumes "aligned 12 p" "p < PHYSTOP"
  shows "unat (p + PGSIZE) = unat p + 4096" "p + PGSIZE \<le> PHYSTOP" "aligned 12 (p + PGSIZE)"
proof -
  have lt: "unat p < 0x88000000" using assms(2) by (simp add: word_less_nat_alt unat_PHYSTOP)
  then show u: "unat (p + PGSIZE) = unat p + 4096" by (simp add: PGSIZE_def unat_word_ariths)
  obtain q where q: "unat p = 4096 * q" using assms(1) by (auto simp: aligned_12_dvd)
  show "p + PGSIZE \<le> PHYSTOP" using lt q by (simp add: word_le_nat_alt unat_PHYSTOP u)
  show "aligned 12 (p + PGSIZE)" using q by (simp add: aligned_12_dvd u)
qed

lemma page_before_next:
  assumes "aligned 12 p" "p < PHYSTOP" "aligned 12 q"
  shows "q < p + PGSIZE \<longleftrightarrow> q < p \<or> q = p"
proof -
  obtain i where i: "unat p = 4096 * i" using assms(1) by (auto simp: aligned_12_dvd)
  obtain j where j: "unat q = 4096 * j" using assms(3) by (auto simp: aligned_12_dvd)
  show ?thesis
    using next_page(1) [OF assms(1,2)] i j by (auto simp: word_less_nat_alt word_unat_eq_iff)
qed

lemma freerange_loop_run:
  assumes "kmem_inv s ps" "aligned 12 p" "p \<le> PHYSTOP" "kend s \<le> p"
    "set ps = {q. page_ok s q \<and> q < p}" "(unat PHYSTOP - unat p) div 4096 < k"
  shows "\<exists>t qs. freerange_loop k p PHYSTOP s = Ok () t \<and> kmem_inv t qs \<and> set qs = {q. page_ok s q} \<and>
           length qs = length ps + (unat PHYSTOP - unat p) div 4096 \<and> kend t = kend s"
  using assms
proof (induction k arbitrary: p s ps)
  case 0
  then show ?case by simp
next
  case (Suc k)
  show ?case
  proof (cases "p < PHYSTOP")
    case True
    note np = next_page [OF Suc.prems(2) True]
    have ok: "page_ok s p" using Suc.prems True by (simp add: page_ok_def)
    let ?s = "s\<lparr>mem := store64 (mem s) p (freelist s), freelist := p\<rparr>"
    have run: "kfree p s = Ok () ?s" using ok Suc.prems(1) by (intro kfree_run) (auto simp: kmem_inv_def)
    have inv: "kmem_inv ?s (p # ps)" using Suc.prems(1,5) ok by (intro kmem_inv_kfree) auto
    have pk: "page_ok ?s = page_ok s" by (simp add: page_ok_def fun_eq_iff)
    have set: "set (p # ps) = {q. page_ok ?s q \<and> q < p + PGSIZE}"
      using Suc.prems(5) ok page_before_next [OF Suc.prems(2) True]
      by (auto simp: pk) (auto simp: page_ok_def)
    have ge: "kend ?s \<le> p + PGSIZE" using Suc.prems(4) np(1) by (simp add: word_le_nat_alt)
    have lt: "unat p < unat PHYSTOP" using True by (simp add: word_less_nat_alt)
    have n: "(unat PHYSTOP - unat p) div 4096 = Suc ((unat PHYSTOP - unat (p + PGSIZE)) div 4096)"
      using np(2) lt unfolding np(1) word_le_nat_alt by (simp add: div_if)
    obtain t qs where "freerange_loop k (p + PGSIZE) PHYSTOP ?s = Ok () t" "kmem_inv t qs"
        "set qs = {q. page_ok ?s q}" "kend t = kend ?s"
        "length qs = length (p # ps) + (unat PHYSTOP - unat (p + PGSIZE)) div 4096"
      using Suc.IH [OF inv np(3,2) ge set] Suc.prems(6) n by auto
    then show ?thesis using run np(2) n pk by (auto simp: kseq_def kbind_def intro!: exI [of _ qs])
  next
    case False
    then have p: "p = PHYSTOP" using Suc.prems(3) by simp
    have "\<not> PHYSTOP + PGSIZE \<le> PHYSTOP" by (simp add: PHYSTOP_def KERNBASE_def PGSIZE_def)
    moreover have "{q. page_ok s q \<and> q < PHYSTOP} = {q. page_ok s q}" by (auto simp: page_ok_def)
    ultimately show ?thesis using Suc.prems(1,5) p by auto
  qed
qed

text \<open>C1. \<^bold>\<open>kinit frees exactly the RAM above the kernel.\<close> Started with an empty free list, on a
  kernel image that ends inside RAM, \<open>kinit\<close> returns, and the free list then holds every page
  that is page-aligned and lies between \<open>end\<close> and \<open>PHYSTOP\<close>, each once, and nothing else;
  \<open>freemem\<close> reports their number times 4096.\<close>

theorem kinit_frees_all:
  assumes "freelist s = 0" "L_kmem \<notin> set (held s)" "KERNBASE \<le> kend s" "kend s \<le> PHYSTOP"
  shows "\<exists>t ps. kinit s = Ok () t \<and> kmem_inv t ps \<and> set ps = {p. page_ok s p} \<and>
           freemem t = Ok (int (unat PHYSTOP - unat (PGROUNDUP (kend s)))) t"
proof -
  let ?b = "PGROUNDUP (kend s)"
  have small: "unat (kend s) \<le> 2 ^ 64 - 4096"
    using assms(4) by (simp add: word_le_nat_alt unat_PHYSTOP)
  have stop: "aligned 12 PHYSTOP" by (simp add: aligned_12_dvd unat_PHYSTOP)
  have b: "aligned 12 ?b" "kend s \<le> ?b" "?b \<le> PHYSTOP"
    using aligned_PGROUNDUP PGROUNDUP_ge [OF small] PGROUNDUP_least [OF small stop assms(4)] by auto
  have inv: "kmem_inv s []" using assms by (simp add: kmem_inv_def)
  have none: "set [] = {q. page_ok s q \<and> q < ?b}"
    using PGROUNDUP_least [OF small] by (auto simp: page_ok_def not_less)
  have fuel: "(unat PHYSTOP - unat ?b) div 4096 < Suc (unat PHYSTOP div 4096)"
    by (simp add: less_Suc_eq_le div_le_mono)
  obtain t ps where t: "freerange_loop (Suc (unat PHYSTOP div 4096)) ?b PHYSTOP s = Ok () t"
      "kmem_inv t ps" "set ps = {q. page_ok s q}"
      "length ps = (unat PHYSTOP - unat ?b) div 4096"
    using freerange_loop_run [OF inv b(1,3,2) none fuel] by auto
  have "4096 dvd unat PHYSTOP - unat ?b" using stop b(1) by (simp add: aligned_12_dvd dvd_diff_nat)
  then have "4096 * int (length ps) = int (unat PHYSTOP - unat ?b)"
    using t(4) by (metis dvd_mult_div_cancel of_nat_mult of_nat_numeral)
  with t(1-3) freemem_run [OF t(2)] show ?thesis by (auto simp: kinit_def freerange_def)
qed

definition boot_kmem :: kmem where
  "boot_kmem = \<lparr>mem = (\<lambda>_. 0), held = [], kend = PHYSTOP - 0x1800, freelist = 0\<rparr>"

theorem kinit_frees_all_witness:
  "\<exists>t ps. kinit boot_kmem = Ok () t \<and> kmem_inv t ps \<and> set ps = {p. page_ok boot_kmem p} \<and>
     freemem t = Ok 4096 t"
proof -
  have h: "freelist boot_kmem = 0" "L_kmem \<notin> set (held boot_kmem)" "KERNBASE \<le> kend boot_kmem"
      "kend boot_kmem \<le> PHYSTOP"
    by (simp_all add: boot_kmem_def PHYSTOP_def KERNBASE_def)
  have "int (unat PHYSTOP - unat (PGROUNDUP (kend boot_kmem))) = 4096"
    by (simp add: boot_kmem_def PGROUNDUP_def PHYSTOP_def KERNBASE_def PGSIZE_def)
  then show ?thesis using kinit_frees_all [OF h] by simp
qed

text \<open>C2. \<^bold>\<open>Pages handed out are distinct and unused.\<close> With the free pages \<open>ps\<close>, \<open>n\<close> calls of
  \<open>kalloc\<close> for any \<open>n\<close> up to their number return \<open>n\<close> distinct non-null pages of \<open>ps\<close>; none of
  them is on the free list afterwards, and \<open>freemem\<close> has gone down by exactly \<open>n\<close> pages.\<close>

theorem kalloc_never_shares:
  assumes "kmem_inv s ps" "n \<le> length ps"
  shows "\<exists>qs t rs. kpages.allocs n s = Ok qs t \<and> length qs = n \<and> distinct qs \<and> 0 \<notin> set qs \<and>
           set qs \<subseteq> set ps \<and> kmem_inv t rs \<and> set rs \<inter> set qs = {} \<and>
           freemem t = Ok (4096 * int (length ps) - 4096 * int n) t"
proof -
  obtain qs t rs where q: "kpages.allocs n s = Ok qs t" "length qs = n" "distinct qs" "0 \<notin> set qs"
      "set qs \<subseteq> set ps" "kmem_inv t rs" "set rs \<inter> set qs = {}" "length rs + n = length ps"
    using kpages.allocs_distinct [OF assms] by blast
  then have "freemem t = Ok (4096 * int (length ps) - 4096 * int n) t"
    using freemem_run [OF q(6)] by (simp flip: q(8))
  with q show ?thesis by blast
qed

definition two_pages :: kmem where
  "two_pages = \<lparr>mem = store64 (\<lambda>_. 0) 0x87fff000 0x87ffe000, held = [], kend = 0x87ffe000,
     freelist = 0x87fff000\<rparr>"

lemma two_pages_inv: "kmem_inv two_pages [0x87fff000, 0x87ffe000]"
proof -
  have "load64 (store64 (\<lambda>_. 0) 0x87fff000 0x87ffe000) 0x87ffe000 = load64 (\<lambda>_. 0) 0x87ffe000"
    using aligned_disjoint [of 3 "0x87fff000" "0x87ffe000"]
    by (intro load_store_disjoint) (simp add: aligned_def take_bit_eq_mod del: mem_region)
  then have "load64 (mem two_pages) 0x87ffe000 = 0"
    by (simp add: two_pages_def load64_def read_bytes_def numeral_eq_Suc)
  then show ?thesis
    by (simp add: kmem_inv_def two_pages_def page_ok_def aligned_def PHYSTOP_def KERNBASE_def
        take_bit_eq_mod)
qed

theorem kalloc_never_shares_witness:
  "\<exists>qs t rs. kpages.allocs 2 two_pages = Ok qs t \<and> length qs = 2 \<and> distinct qs \<and> 0 \<notin> set qs \<and>
     kmem_inv t rs \<and> set rs \<inter> set qs = {} \<and> freemem t = Ok 0 t"
  using kalloc_never_shares [OF two_pages_inv, of 2] by auto

text \<open>C3. \<^bold>\<open>kfree undoes kalloc and refuses bad pointers.\<close> A page just taken with \<open>kalloc\<close> can be
  given back, after which the free list is what it was; and \<open>kfree\<close> of an address that is not
  page-aligned, or below \<open>end\<close>, or at or above \<open>PHYSTOP\<close>, panics.\<close>

theorem kfree_restores:
  assumes "kmem_inv s (p # ps)"
  shows "(\<exists>t u. kalloc s = Ok p t \<and> kfree p t = Ok () u \<and> kmem_inv u (p # ps)) \<and>
         (\<forall>q. \<not> (aligned 12 q \<and> kend s \<le> q \<and> q < PHYSTOP) \<longrightarrow> kfree q s = Panic ''kfree'')"
  using kpages.alloc_free [OF assms] kfree_panics [of s] by (simp add: page_ok_def)

theorem kfree_restores_witness:
  "(\<exists>t u. kalloc two_pages = Ok 0x87fff000 t \<and> kfree 0x87fff000 t = Ok () u \<and>
      kmem_inv u [0x87fff000, 0x87ffe000]) \<and> kfree 0x87fff001 two_pages = Panic ''kfree''"
proof -
  have "\<not> (aligned 12 (0x87fff001 :: u64) \<and> kend two_pages \<le> 0x87fff001 \<and> (0x87fff001 :: u64) < PHYSTOP)"
    by (simp add: aligned_def take_bit_eq_mod)
  then show ?thesis using kfree_restores [OF two_pages_inv] by blast
qed

end
