(* ===== verification/Vm.thy ===== *)
theory Vm
  imports Kalloc
begin

text \<open>
  \<open>kernel/vm.c\<close>: Sv39 page tables held in physical memory, and the copies between user and
  kernel space. A page table is the physical address of its root page, as in the C code, and a
  page-table entry is eight bytes of memory, so that \<open>walk\<close> returns the address of an entry and
  0 stands for the null pointer. Buffers in kernel memory that are not pages of the allocator
  (structs, stack variables, cached blocks) are byte lists. The \<open>LAB_PGTBL\<close> and \<open>LAB_NET\<close>
  branches are not compiled.
\<close>

unbundle bit_operations_syntax

section \<open>Page-table entries\<close>

definition PTE_V :: u64 where "PTE_V = 1"
definition PTE_R :: u64 where "PTE_R = 2"
definition PTE_W :: u64 where "PTE_W = 4"
definition PTE_X :: u64 where "PTE_X = 8"
definition PTE_U :: u64 where "PTE_U = 16"

definition PA2PTE :: "u64 \<Rightarrow> u64" where "PA2PTE pa = push_bit 10 (drop_bit 12 pa)"
definition PTE2PA :: "u64 \<Rightarrow> u64" where "PTE2PA pte = push_bit 12 (drop_bit 10 pte)"
definition PTE_FLAGS :: "u64 \<Rightarrow> u64" where "PTE_FLAGS pte = pte AND 0x3FF"

definition PXSHIFT :: "nat \<Rightarrow> nat" where "PXSHIFT level = 12 + 9 * level"
definition PX :: "nat \<Rightarrow> u64 \<Rightarrow> u64" where "PX level va = drop_bit (PXSHIFT level) va AND 0x1FF"

definition MAXVA :: u64 where "MAXVA = 0x4000000000"
definition TRAMPOLINE :: u64 where "TRAMPOLINE = MAXVA - PGSIZE"
definition TRAPFRAME :: u64 where "TRAPFRAME = TRAMPOLINE - PGSIZE"
definition KSTACK :: "nat \<Rightarrow> u64" where "KSTACK p = TRAMPOLINE - of_nat (p + 1) * 2 * PGSIZE"
definition UART0 :: u64 where "UART0 = 0x10000000"
definition VIRTIO0 :: u64 where "VIRTIO0 = 0x10001000"
definition PLIC :: u64 where "PLIC = 0x0c000000"
definition NPROC :: nat where "NPROC = 64"
definition SATP_SV39 :: u64 where "SATP_SV39 = push_bit 60 8"
definition MAKE_SATP :: "u64 \<Rightarrow> u64" where "MAKE_SATP pagetable = SATP_SV39 OR drop_bit 12 pagetable"

text \<open>\<open>&pagetable[i]\<close>\<close>

definition pte_at :: "u64 \<Rightarrow> u64 \<Rightarrow> u64" where "pte_at pagetable i = pagetable + 8 * i"

section \<open>State\<close>

record vm = kmem +
  kernel_pagetable :: u64
  etext :: u64              \<comment> \<open>placed by the linker\<close>
  trampoline :: u64         \<comment> \<open>placed by the linker\<close>
  satp :: u64               \<comment> \<open>the CSR of the executing hart\<close>

abbreviation put64 :: "u64 \<Rightarrow> u64 \<Rightarrow> ('z machine_scheme, unit) km" where
  "put64 a v \<equiv> kmodify (\<lambda>s. s\<lparr>mem := store64 (mem s) a v\<rparr>)"

abbreviation get64 :: "u64 \<Rightarrow> ('z machine_scheme, u64) km" where
  "get64 a \<equiv> kget (\<lambda>s. load64 (mem s) a)"

abbreviation zero_page :: "u64 \<Rightarrow> ('z machine_scheme, unit) km" where
  "zero_page p \<equiv> kmodify (\<lambda>s. s\<lparr>mem := memset (mem s) p 0 4096\<rparr>)"

section \<open>Walking and mapping\<close>

text \<open>The loop of \<open>walk\<close>, from level \<open>level\<close> down.\<close>

primrec walk_loop :: "nat \<Rightarrow> u64 \<Rightarrow> u64 \<Rightarrow> bool \<Rightarrow> ('z kmem_scheme, u64) km" where
  "walk_loop 0 pagetable va alloc = kreturn (pte_at pagetable (PX 0 va))"
| "walk_loop (Suc l) pagetable va alloc =
     (let pte = pte_at pagetable (PX (Suc l) va) in
      kbind (get64 pte) (\<lambda>v.
      if v AND PTE_V \<noteq> 0 then walk_loop l (PTE2PA v) va alloc
      else if \<not> alloc then kreturn 0
      else kbind kalloc (\<lambda>pg.
        if pg = 0 then kreturn 0
        else kseq (zero_page pg)
            (kseq (put64 pte (PA2PTE pg OR PTE_V))
            (walk_loop l pg va alloc)))))"

definition walk :: "u64 \<Rightarrow> u64 \<Rightarrow> bool \<Rightarrow> ('z kmem_scheme, u64) km" where
  "walk pagetable va alloc = (if va \<ge> MAXVA then panic ''walk'' else walk_loop 2 pagetable va alloc)"

definition walkaddr :: "u64 \<Rightarrow> u64 \<Rightarrow> ('z kmem_scheme, u64) km" where
  "walkaddr pagetable va =
     (if va \<ge> MAXVA then kreturn 0
      else kbind (walk pagetable va False) (\<lambda>pte.
        if pte = 0 then kreturn 0
        else kbind (get64 pte) (\<lambda>v.
          if v AND PTE_V = 0 then kreturn 0
          else if v AND PTE_U = 0 then kreturn 0
          else kreturn (PTE2PA v))))"

text \<open>\<open>mappages\<close>: its loop runs \<open>size / PGSIZE\<close> times, which is the fuel it is given.\<close>

primrec mappages_loop :: "nat \<Rightarrow> u64 \<Rightarrow> u64 \<Rightarrow> u64 \<Rightarrow> u64 \<Rightarrow> u64 \<Rightarrow> ('z kmem_scheme, int) km" where
  "mappages_loop 0 pagetable a last_va pa perm = kspin"
| "mappages_loop (Suc k) pagetable a last_va pa perm =
     kbind (walk pagetable a True) (\<lambda>pte.
     if pte = 0 then kreturn (- 1)
     else kbind (get64 pte) (\<lambda>v.
       if v AND PTE_V \<noteq> 0 then panic ''mappages: remap''
       else kseq (put64 pte (PA2PTE pa OR perm OR PTE_V))
         (if a = last_va then kreturn 0
          else mappages_loop k pagetable (a + PGSIZE) last_va (pa + PGSIZE) perm)))"

definition mappages :: "u64 \<Rightarrow> u64 \<Rightarrow> u64 \<Rightarrow> u64 \<Rightarrow> u64 \<Rightarrow> ('z kmem_scheme, int) km" where
  "mappages pagetable va sz pa perm =
     (if va mod PGSIZE \<noteq> 0 then panic ''mappages: va not aligned''
      else if sz mod PGSIZE \<noteq> 0 then panic ''mappages: size not aligned''
      else if sz = 0 then panic ''mappages: size''
      else mappages_loop (unat sz div 4096) pagetable va (va + sz - PGSIZE) pa perm)"

definition kvmmap :: "u64 \<Rightarrow> u64 \<Rightarrow> u64 \<Rightarrow> u64 \<Rightarrow> u64 \<Rightarrow> ('z kmem_scheme, unit) km" where
  "kvmmap kpgtbl va pa sz perm =
     kbind (mappages kpgtbl va sz pa perm) (\<lambda>r. if r \<noteq> 0 then panic ''kvmmap'' else kreturn ())"

text \<open>\<open>proc_mapstacks\<close> of \<open>kernel/proc.c\<close>: a kernel stack for each slot of the process table.\<close>

definition proc_mapstacks :: "u64 \<Rightarrow> ('z kmem_scheme, unit) km" where
  "proc_mapstacks kpgtbl = kfor (\<lambda>p.
     kbind kalloc (\<lambda>pa.
     if pa = 0 then panic ''kalloc''
     else kvmmap kpgtbl (KSTACK p) pa PGSIZE (PTE_R OR PTE_W))) [0..<NPROC]"

definition kvmmake :: "('z vm_scheme, u64) km" where
  "kvmmake =
     kbind kalloc (\<lambda>kpgtbl.
     kseq (zero_page kpgtbl)
    (kseq (kvmmap kpgtbl UART0 UART0 PGSIZE (PTE_R OR PTE_W))
    (kseq (kvmmap kpgtbl VIRTIO0 VIRTIO0 PGSIZE (PTE_R OR PTE_W))
    (kseq (kvmmap kpgtbl PLIC PLIC 0x4000000 (PTE_R OR PTE_W))
    (kbind (kget etext) (\<lambda>text_end.
     kseq (kvmmap kpgtbl KERNBASE KERNBASE (text_end - KERNBASE) (PTE_R OR PTE_X))
    (kseq (kvmmap kpgtbl text_end text_end (PHYSTOP - text_end) (PTE_R OR PTE_W))
    (kbind (kget trampoline) (\<lambda>tramp.
     kseq (kvmmap kpgtbl TRAMPOLINE tramp PGSIZE (PTE_R OR PTE_X))
    (kseq (proc_mapstacks kpgtbl)
    (kreturn kpgtbl)))))))))))"

definition kvminit :: "('z vm_scheme, unit) km" where
  "kvminit = kbind kvmmake (\<lambda>p. kmodify (\<lambda>s. s\<lparr>kernel_pagetable := p\<rparr>))"

definition kvminithart :: "('z vm_scheme, unit) km" where
  "kvminithart = kmodify (\<lambda>s. s\<lparr>satp := MAKE_SATP (kernel_pagetable s)\<rparr>)"

section \<open>User address spaces\<close>

text \<open>\<open>uvmunmap\<close>: the loop ends after at most \<open>(end - va) / PGSIZE\<close> rounds, \<open>end\<close> being
  \<open>va + npages*PGSIZE\<close> in 64-bit arithmetic. Its diagnostic \<open>printf\<close> just before a panic is left out.\<close>

primrec uvmunmap_loop :: "nat \<Rightarrow> u64 \<Rightarrow> u64 \<Rightarrow> u64 \<Rightarrow> bool \<Rightarrow> ('z kmem_scheme, unit) km" where
  "uvmunmap_loop 0 pagetable a e do_free = kspin"
| "uvmunmap_loop (Suc k) pagetable a e do_free =
     (if a < e then
        kbind (walk pagetable a False) (\<lambda>pte.
        if pte = 0 then panic ''uvmunmap: walk''
        else kbind (get64 pte) (\<lambda>v.
          if v AND PTE_V = 0 then panic ''uvmunmap: not mapped''
          else if PTE_FLAGS v = PTE_V then panic ''uvmunmap: not a leaf''
          else kseq (if do_free then kfree (PTE2PA v) else kreturn ())
              (kseq (put64 pte 0)
              (uvmunmap_loop k pagetable (a + PGSIZE) e do_free))))
      else kreturn ())"

definition uvmunmap :: "u64 \<Rightarrow> u64 \<Rightarrow> u64 \<Rightarrow> bool \<Rightarrow> ('z kmem_scheme, unit) km" where
  "uvmunmap pagetable va npages do_free =
     (if va mod PGSIZE \<noteq> 0 then panic ''uvmunmap: not aligned''
      else let e = va + npages * PGSIZE in
        uvmunmap_loop (Suc (unat (e - va) div 4096)) pagetable va e do_free)"

definition uvmcreate :: "('z kmem_scheme, u64) km" where
  "uvmcreate = kbind kalloc (\<lambda>pagetable.
     if pagetable = 0 then kreturn 0 else kseq (zero_page pagetable) (kreturn pagetable))"

definition uvmfirst :: "u64 \<Rightarrow> u8 list \<Rightarrow> ('z kmem_scheme, unit) km" where
  "uvmfirst pagetable src =
     (if length src \<ge> 4096 then panic ''uvmfirst: more than a page''
      else kbind kalloc (\<lambda>pg.
        kseq (zero_page pg)
       (kseq (mappages pagetable 0 PGSIZE pg (PTE_W OR PTE_R OR PTE_X OR PTE_U))
       (kmodify (\<lambda>s. s\<lparr>mem := write_bytes (mem s) pg src\<rparr>)))))"

text \<open>\<open>int npages\<close> keeps the low 32 bits of the quotient, sign-extended again at the call.\<close>

definition uvmdealloc :: "u64 \<Rightarrow> u64 \<Rightarrow> u64 \<Rightarrow> ('z kmem_scheme, u64) km" where
  "uvmdealloc pagetable oldsz newsz =
     (if newsz \<ge> oldsz then kreturn oldsz
      else kseq (if PGROUNDUP newsz < PGROUNDUP oldsz
          then let npages = (PGROUNDUP oldsz - PGROUNDUP newsz) div PGSIZE in
            uvmunmap pagetable (PGROUNDUP newsz) (scast (ucast npages :: 32 word)) True
          else kreturn ())
        (kreturn newsz))"

primrec uvmalloc_loop :: "nat \<Rightarrow> u64 \<Rightarrow> u64 \<Rightarrow> u64 \<Rightarrow> u64 \<Rightarrow> u64 \<Rightarrow> ('z kmem_scheme, u64) km" where
  "uvmalloc_loop 0 pagetable a oldsz newsz xperm = kspin"
| "uvmalloc_loop (Suc k) pagetable a oldsz newsz xperm =
     (if a < newsz then
        kbind kalloc (\<lambda>pg.
        if pg = 0 then kseq (uvmdealloc pagetable a oldsz) (kreturn 0)
        else kbind (mappages pagetable a PGSIZE pg (PTE_R OR PTE_U OR xperm)) (\<lambda>r.
          if r \<noteq> 0 then kseq (kfree pg) (kseq (uvmdealloc pagetable a oldsz) (kreturn 0))
          else uvmalloc_loop k pagetable (a + PGSIZE) oldsz newsz xperm))
      else kreturn newsz)"

text \<open>The loop of \<open>uvmalloc\<close> makes at most \<open>newsz / PGSIZE + 1\<close> rounds: beyond \<open>MAXVA\<close> it has
  panicked.\<close>

definition uvmalloc :: "u64 \<Rightarrow> u64 \<Rightarrow> u64 \<Rightarrow> u64 \<Rightarrow> ('z kmem_scheme, u64) km" where
  "uvmalloc pagetable oldsz newsz xperm =
     (if newsz < oldsz then kreturn oldsz
      else uvmalloc_loop (Suc (Suc (unat newsz div 4096))) pagetable (PGROUNDUP oldsz)
             (PGROUNDUP oldsz) newsz xperm)"

text \<open>\<open>freewalk\<close>: the first argument bounds the depth of the recursion. A page table has three levels,
  so that the depth 3 is enough; only an entry of the last level that is valid without permissions
  would be followed further.\<close>

primrec freewalk :: "nat \<Rightarrow> u64 \<Rightarrow> ('z kmem_scheme, unit) km" where
  "freewalk 0 pagetable = kspin"
| "freewalk (Suc level) pagetable =
     kseq (kfor (\<lambda>i.
       kbind (get64 (pte_at pagetable i)) (\<lambda>pte.
       if pte AND PTE_V \<noteq> 0 \<and> pte AND (PTE_R OR PTE_W OR PTE_X) = 0
       then kseq (freewalk level (PTE2PA pte)) (put64 (pte_at pagetable i) 0)
       else if pte AND PTE_V \<noteq> 0 then panic ''freewalk: leaf''
       else kreturn ())) (map of_nat [0..<512]))
     (kfree pagetable)"

definition uvmfree :: "u64 \<Rightarrow> u64 \<Rightarrow> ('z kmem_scheme, unit) km" where
  "uvmfree pagetable sz =
     kseq (if sz > 0 then uvmunmap pagetable 0 (PGROUNDUP sz div PGSIZE) True else kreturn ())
     (freewalk 3 pagetable)"

text \<open>The loop of \<open>uvmcopy\<close>; its error path unmaps what has been copied so far. As for
  \<open>uvmalloc\<close>, \<open>walk\<close> panics beyond \<open>MAXVA\<close>, so that the fuel is enough.\<close>

definition uvmcopy_err :: "u64 \<Rightarrow> u64 \<Rightarrow> ('z kmem_scheme, int) km" where
  "uvmcopy_err new i = kseq (uvmunmap new 0 (i div PGSIZE) True) (kreturn (- 1))"

primrec uvmcopy_loop :: "nat \<Rightarrow> u64 \<Rightarrow> u64 \<Rightarrow> u64 \<Rightarrow> u64 \<Rightarrow> ('z kmem_scheme, int) km" where
  "uvmcopy_loop 0 old new i sz = kspin"
| "uvmcopy_loop (Suc k) old new i sz =
     (if i < sz then
        kbind (walk old i False) (\<lambda>pte.
        if pte = 0 then panic ''uvmcopy: pte should exist''
        else kbind (get64 pte) (\<lambda>v.
          if v AND PTE_V = 0 then panic ''uvmcopy: page not present''
          else kbind kalloc (\<lambda>pg.
            if pg = 0 then uvmcopy_err new i
            else kseq (kmodify (\<lambda>s. s\<lparr>mem := memmove (mem s) pg (PTE2PA v) 4096\<rparr>))
              (kbind (mappages new i PGSIZE pg (PTE_FLAGS v)) (\<lambda>r.
               if r \<noteq> 0 then kseq (kfree pg) (uvmcopy_err new i)
               else uvmcopy_loop k old new (i + PGSIZE) sz)))))
      else kreturn 0)"

definition uvmcopy :: "u64 \<Rightarrow> u64 \<Rightarrow> u64 \<Rightarrow> ('z kmem_scheme, int) km" where
  "uvmcopy old new sz = uvmcopy_loop (Suc (Suc (unat sz div 4096))) old new 0 sz"

definition uvmclear :: "u64 \<Rightarrow> u64 \<Rightarrow> ('z kmem_scheme, unit) km" where
  "uvmclear pagetable va =
     kbind (walk pagetable va False) (\<lambda>pte.
     if pte = 0 then panic ''uvmclear''
     else kbind (get64 pte) (\<lambda>v. put64 pte (v AND NOT PTE_U)))"

section \<open>Copies between user and kernel space\<close>

text \<open>The bytes from \<open>va\<close> to the end of its page, \<open>PGSIZE - (va - va0)\<close>.\<close>

definition page_rest :: "u64 \<Rightarrow> nat" where
  "page_rest va = unat (PGSIZE - (va - PGROUNDDOWN va))"

lemma page_rest_eq: "page_rest va = 4096 - unat va mod 4096"
proof -
  have le: "PGROUNDDOWN va \<le> va" by (rule PGROUNDDOWN_le)
  have u: "unat (va - PGROUNDDOWN va) = unat va mod 4096"
    by (simp add: unat_sub [OF le] unat_PGROUNDDOWN minus_div_mult_eq_mod)
  have "va - PGROUNDDOWN va \<le> PGSIZE" by (simp add: word_le_nat_alt u PGSIZE_def less_imp_le)
  then show ?thesis by (simp add: page_rest_def unat_sub u) (simp add: PGSIZE_def)
qed

lemma page_rest_pos [simp]: "0 < page_rest va"
  by (simp add: page_rest_eq)

function copyout :: "u64 \<Rightarrow> u64 \<Rightarrow> u8 list \<Rightarrow> ('z kmem_scheme, int) km" where
  "copyout pagetable dstva src s =
     (if src = [] then kreturn 0 s
      else let va0 = PGROUNDDOWN dstva in
        if va0 \<ge> MAXVA then kreturn (- 1) s
        else kbind (walk pagetable va0 False) (\<lambda>pte s.
          if pte = 0 then kreturn (- 1) s
          else if load64 (mem s) pte AND PTE_W = 0 then kreturn (- 1) s
          else kbind (walkaddr pagetable va0) (\<lambda>pa0 s.
            if pa0 = 0 then kreturn (- 1) s
            else let n = min (page_rest dstva) (length src) in
              copyout pagetable (va0 + PGSIZE) (drop n src)
                (s\<lparr>mem := write_bytes (mem s) (pa0 + (dstva - va0)) (take n src)\<rparr>)) s) s)"
  by auto

termination by (relation "measure (\<lambda>(p, d, src, s). length src)") (auto simp: min_def)

text \<open>\<open>copyin\<close> and \<open>copyinstr\<close> return what they have written to \<open>dst\<close> with their status.\<close>

function copyin :: "u64 \<Rightarrow> u64 \<Rightarrow> nat \<Rightarrow> ('z kmem_scheme, int \<times> u8 list) km" where
  "copyin pagetable srcva len s =
     (if len = 0 then kreturn (0, []) s
      else let va0 = PGROUNDDOWN srcva in
        kbind (walkaddr pagetable va0) (\<lambda>pa0 s.
        if pa0 = 0 then kreturn (- 1, []) s
        else let n = min (page_rest srcva) len; bs = read_bytes (mem s) (pa0 + (srcva - va0)) n in
          kbind (copyin pagetable (va0 + PGSIZE) (len - n)) (\<lambda>(r, cs) s. kreturn (r, bs @ cs) s) s) s)"
  by auto

termination by (relation "measure (\<lambda>(p, a, len, s). len)") (auto simp: min_def)

text \<open>The inner loop of \<open>copyinstr\<close>: the bytes copied, and whether the last one is the NUL.\<close>

primrec copy_until_nul :: "memory \<Rightarrow> u64 \<Rightarrow> nat \<Rightarrow> u8 list \<times> bool" where
  "copy_until_nul m p 0 = ([], False)"
| "copy_until_nul m p (Suc n) =
     (if m p = 0 then ([0], True)
      else let (bs, got_null) = copy_until_nul m (p + 1) n in (m p # bs, got_null))"

function copyinstr :: "u64 \<Rightarrow> u64 \<Rightarrow> nat \<Rightarrow> ('z kmem_scheme, int \<times> u8 list) km" where
  "copyinstr pagetable srcva max_len s =
     (if max_len = 0 then kreturn (- 1, []) s
      else let va0 = PGROUNDDOWN srcva in
        kbind (walkaddr pagetable va0) (\<lambda>pa0 s.
        if pa0 = 0 then kreturn (- 1, []) s
        else let n = min (page_rest srcva) max_len;
                 (bs, got_null) = copy_until_nul (mem s) (pa0 + (srcva - va0)) n in
          if got_null then kreturn (0, bs) s
          else kbind (copyinstr pagetable (va0 + PGSIZE) (max_len - n))
                 (\<lambda>(r, cs) s. kreturn (r, bs @ cs) s) s) s)"
  by auto

termination by (relation "measure (\<lambda>(p, a, n, s). n)") (auto simp: min_def)

declare copyout.simps [simp del] copyin.simps [simp del] copyinstr.simps [simp del]

end
