(* ===== verification/PageTable.thy ===== *)
theory PageTable
  imports Vm
begin

text \<open>
  The page tables of \<open>kernel/vm.c\<close> as trees in memory: which pages hold a table (\<open>tabs\<close>), when
  the tree is well formed (\<open>wf_pt\<close>), and the entry a virtual address selects (\<open>pte_of\<close>). The
  lemmas say what \<open>walk\<close>, with and without allocation, and a store to a leaf entry do to them.
\<close>

unbundle bit_operations_syntax

section \<open>Arithmetic of entries\<close>

abbreviation pte_valid :: "u64 \<Rightarrow> bool" where "pte_valid v \<equiv> v AND PTE_V \<noteq> 0"

lemma and_0x3FF: "(x :: u64) AND 0x3FF = take_bit 10 x"
  by (simp add: take_bit_eq_mask mask_eq_exp_minus_1)

lemma and_0x1FF: "(x :: u64) AND 0x1FF = take_bit 9 x"
  by (simp add: take_bit_eq_mask mask_eq_exp_minus_1)

lemma bit_small:
  assumes "unat (f :: u64) < 2 ^ k" "k \<le> n"
  shows "\<not> bit f n"
proof -
  have "take_bit k (unat f) = unat f" using assms(1) by (simp add: take_bit_nat_eq_self)
  then have "take_bit k f = f" by (metis unsigned_take_bit_eq word_unat_eq_iff)
  then show ?thesis using assms(2) by (metis bit_take_bit_iff not_less)
qed

lemma bit_flags: "(f :: u64) < 1024 \<Longrightarrow> 10 \<le> n \<Longrightarrow> \<not> bit f n"
  by (rule bit_small [where k = 10]) (simp_all add: word_less_nat_alt)

lemma bit_aligned: "aligned k a \<Longrightarrow> n < k \<Longrightarrow> \<not> bit a n"
  unfolding aligned_def by (metis bit_0_eq bit_take_bit_iff bot_apply bot_bool_def)

lemma PTE2PA_PA2PTE [simp]:
  assumes "aligned 12 pa" "f < 1024"
  shows "PTE2PA (PA2PTE pa OR f) = pa"
proof (rule bit_word_eqI)
  fix n :: nat
  assume n: "n < LENGTH(64)"
  have "\<not> bit f k" if "10 \<le> k" for k using bit_flags assms(2) that by blast
  then show "bit (PTE2PA (PA2PTE pa OR f)) n \<longleftrightarrow> bit pa n"
    using n bit_aligned [OF assms(1), of n]
    by (cases "n < 12") (auto simp: PTE2PA_def PA2PTE_def bit_simps)
qed

lemma aligned_PTE2PA [simp]: "aligned 12 (PTE2PA v)"
  unfolding aligned_def PTE2PA_def by (rule bit_word_eqI) (auto simp: bit_simps)

lemma low_bits_PA2PTE: "k < 10 \<Longrightarrow> bit (PA2PTE pa OR f) k \<longleftrightarrow> bit f k"
  by (simp add: PA2PTE_def bit_simps)

lemma PTE_FLAGS_PA2PTE [simp]: "f < 1024 \<Longrightarrow> PTE_FLAGS (PA2PTE pa OR f) = f"
proof (rule bit_word_eqI)
  fix n :: nat
  assume "f < 1024"
  then show "bit (PTE_FLAGS (PA2PTE pa OR f)) n \<longleftrightarrow> bit f n"
    using low_bits_PA2PTE [of n pa f] bit_flags [of f n]
    by (cases "n < 10") (simp_all add: PTE_FLAGS_def and_0x3FF bit_take_bit_iff del: take_bit_or)
qed

lemma and_PA2PTE: "g < 1024 \<Longrightarrow> (PA2PTE pa OR f) AND g = f AND g"
proof (rule bit_word_eqI)
  fix n :: nat
  assume "g < 1024"
  then show "bit ((PA2PTE pa OR f) AND g) n \<longleftrightarrow> bit (f AND g) n"
    using low_bits_PA2PTE [of n pa f] bit_flags [of g n]
    by (cases "n < 10") (auto simp: bit_and_iff)
qed

lemma PX_less: "PX l va < 512"
proof -
  have "unat (PX l va) < 512"
    unfolding PX_def and_0x1FF by (subst unsigned_take_bit_eq) (simp add: take_bit_eq_mod)
  then show ?thesis by (simp add: word_less_nat_alt)
qed

lemma unat_8_mult: "(i :: u64) < 512 \<Longrightarrow> unat (8 * i) = 8 * unat i"
  by (simp add: word_less_nat_alt unat_word_ariths)

lemma pte_at_region:
  assumes "i < 512"
  shows "pte_at pt i \<in> region pt 4096"
  using assms unat_8_mult [OF assms] by (simp add: pte_at_def word_less_nat_alt)

lemma aligned_pte_at:
  assumes "aligned 12 pt" "i < 512"
  shows "aligned 3 (pte_at pt i)"
proof -
  have "8 dvd unat pt" using aligned_mono [of 3 12 pt] assms(1) by (simp add: aligned_dvd)
  then have "8 dvd (unat pt + 8 * unat i) mod 2 ^ 64" by (intro dvd_mod) auto
  then show ?thesis
    using unat_8_mult [OF assms(2)] by (simp add: aligned_dvd pte_at_def unat_word_ariths)
qed

lemma pte_at_subset:
  assumes "aligned 12 pt" "i < 512"
  shows "region (pte_at pt i) 8 \<subseteq> region pt 4096"
  using region_subset [of 3 "pte_at pt i" 12 pt] aligned_pte_at [OF assms] assms(1)
    pte_at_region [OF assms(2), of pt]
  by (simp del: mem_region)

lemma pte_at_inj: "i < 512 \<Longrightarrow> j < 512 \<Longrightarrow> pte_at pt i = pte_at pt j \<longleftrightarrow> i = j"
  using unat_8_mult [of i] unat_8_mult [of j] word_unat_eq_iff [of i j]
  by (auto simp: pte_at_def)

lemma pte_at_disjoint:
  assumes "aligned 12 pt" "i < 512" "j < 512" "i \<noteq> j"
  shows "region (pte_at pt i) 8 \<inter> region (pte_at pt j) 8 = {}"
  using aligned_disjoint [of 3 "pte_at pt i" "pte_at pt j"] aligned_pte_at [OF assms(1)] assms
    pte_at_inj [of i j pt]
  by (simp del: mem_region)

lemma in_own_region: "0 < n \<Longrightarrow> a \<in> region a n"
  by simp

lemma pte_at_page:
  assumes "aligned 12 p" "aligned 12 q" "i < 512" "j < 512" "pte_at p i = pte_at q j"
  shows "p = q"
proof (rule ccontr)
  assume "p \<noteq> q"
  then have "region p 4096 \<inter> region q 4096 = {}" using assms by (intro aligned_page_disjoint)
  moreover have "pte_at p i \<in> region p 4096 \<inter> region q 4096"
    using pte_at_region [OF assms(3), of p] pte_at_region [OF assms(4), of q] assms(5)
    by (simp del: mem_region)
  ultimately show False by simp
qed

section \<open>Memories that agree on pages\<close>

definition agree :: "memory \<Rightarrow> memory \<Rightarrow> u64 set \<Rightarrow> bool" where
  "agree m m' P \<longleftrightarrow> (\<forall>p \<in> P. \<forall>x \<in> region p 4096. m' x = m x)"

lemma read_bytes_cong:
  "\<forall>x \<in> region a n. m' x = m x \<Longrightarrow> n \<le> 2 ^ 64 \<Longrightarrow> read_bytes m' a n = read_bytes m a n"
  by (rule nth_equalityI) (auto dest: offset_in_region simp del: mem_region)

lemma load64_cong: "\<forall>x \<in> region a 8. m' x = m x \<Longrightarrow> load64 m' a = load64 m a"
  unfolding load64_def by (subst read_bytes_cong) auto

lemma load64_zero:
  assumes "\<forall>x \<in> region a 8. m x = 0"
  shows "load64 m a = 0"
proof -
  have "load64 m a = load64 (\<lambda>_. 0) a" using assms by (intro load64_cong) simp
  also have "\<dots> = 0" by (simp add: load64_def read_bytes_def numeral_eq_Suc)
  finally show ?thesis .
qed

lemma agree_mono: "agree m m' P \<Longrightarrow> Q \<subseteq> P \<Longrightarrow> agree m m' Q"
  unfolding agree_def by blast

lemma agree_load: "agree m m' P \<Longrightarrow> p \<in> P \<Longrightarrow> region a 8 \<subseteq> region p 4096 \<Longrightarrow> load64 m' a = load64 m a"
  unfolding agree_def by (intro load64_cong) blast

lemma agree_trans: "agree m m' P \<Longrightarrow> agree m' m'' P \<Longrightarrow> agree m m'' P"
  unfolding agree_def by simp

lemma agree_refl [simp]: "agree m m P"
  by (simp add: agree_def)

declare mem_region [simp del]

section \<open>Page tables as trees\<close>

definition child :: "memory \<Rightarrow> u64 \<Rightarrow> u64 \<Rightarrow> u64 option" where
  "child m pt i = (let v = load64 m (pte_at pt i) in if pte_valid v then Some (PTE2PA v) else None)"

text \<open>The pages that hold the tables of levels \<open>l\<close> to 0 under \<open>pt\<close>.\<close>

primrec tabs :: "memory \<Rightarrow> nat \<Rightarrow> u64 \<Rightarrow> u64 set" where
  "tabs m 0 pt = {pt}"
| "tabs m (Suc l) pt = insert pt (\<Union>c \<in> {c. \<exists>i < 512. child m pt i = Some c}. tabs m l c)"

text \<open>Well-formed: tables are on distinct pages, and entries that point to a table carry no
  permissions.\<close>

primrec wf_pt :: "memory \<Rightarrow> nat \<Rightarrow> u64 \<Rightarrow> bool" where
  "wf_pt m 0 pt \<longleftrightarrow> aligned 12 pt \<and> pt \<noteq> 0"
| "wf_pt m (Suc l) pt \<longleftrightarrow> aligned 12 pt \<and> pt \<noteq> 0 \<and>
     (\<forall>i c. i < 512 \<longrightarrow> child m pt i = Some c \<longrightarrow> wf_pt m l c \<and> pt \<notin> tabs m l c \<and>
        load64 m (pte_at pt i) AND (PTE_R OR PTE_W OR PTE_X) = 0) \<and>
     (\<forall>i j c d. i < 512 \<longrightarrow> j < 512 \<longrightarrow> i \<noteq> j \<longrightarrow> child m pt i = Some c \<longrightarrow> child m pt j = Some d \<longrightarrow>
        tabs m l c \<inter> tabs m l d = {})"

text \<open>The address of the last-level entry of \<open>va\<close>, if all its tables exist, and its contents.\<close>

primrec leaf :: "memory \<Rightarrow> nat \<Rightarrow> u64 \<Rightarrow> u64 \<Rightarrow> u64 option" where
  "leaf m 0 pt va = Some (pte_at pt (PX 0 va))"
| "leaf m (Suc l) pt va = (case child m pt (PX (Suc l) va) of None \<Rightarrow> None | Some c \<Rightarrow> leaf m l c va)"

definition pte_of :: "memory \<Rightarrow> nat \<Rightarrow> u64 \<Rightarrow> u64 \<Rightarrow> u64" where
  "pte_of m l pt va = (case leaf m l pt va of None \<Rightarrow> 0 | Some a \<Rightarrow> load64 m a)"

lemma root_in_tabs [simp]: "pt \<in> tabs m l pt"
  by (cases l) auto

lemma child_cong: "load64 m' (pte_at pt i) = load64 m (pte_at pt i) \<Longrightarrow> child m' pt i = child m pt i"
  by (simp add: child_def)

lemma wf_pt_root: "wf_pt m l pt \<Longrightarrow> aligned 12 pt \<and> pt \<noteq> 0"
  by (cases l) auto

lemma wf_pt_child:
  "wf_pt m (Suc l) pt \<Longrightarrow> i < 512 \<Longrightarrow> child m pt i = Some c \<Longrightarrow> wf_pt m l c \<and> pt \<notin> tabs m l c \<and>
   load64 m (pte_at pt i) AND (PTE_R OR PTE_W OR PTE_X) = 0"
  by simp

lemma wf_pt_children:
  "wf_pt m (Suc l) pt \<Longrightarrow> i < 512 \<Longrightarrow> j < 512 \<Longrightarrow> child m pt i = Some c \<Longrightarrow> child m pt j = Some d \<Longrightarrow>
   p \<in> tabs m l c \<Longrightarrow> p \<in> tabs m l d \<Longrightarrow> i = j"
  by simp (metis disjoint_iff)

lemma tabs_aligned: "wf_pt m l pt \<Longrightarrow> p \<in> tabs m l pt \<Longrightarrow> aligned 12 p \<and> p \<noteq> 0"
proof (induction l arbitrary: pt)
  case 0
  then show ?case by simp
next
  case (Suc l)
  then show ?case by auto
qed

lemma tabs_frame:
  assumes "wf_pt m l pt" "agree m m' (tabs m l pt)"
  shows "tabs m' l pt = tabs m l pt \<and> wf_pt m' l pt \<and> (\<forall>va. leaf m' l pt va = leaf m l pt va)"
  using assms
proof (induction l arbitrary: pt)
  case 0
  then show ?case by simp
next
  case (Suc l)
  have ld: "load64 m' (pte_at pt i) = load64 m (pte_at pt i)" if "i < 512" for i
    using Suc.prems that by (intro agree_load [where p = pt] pte_at_subset) auto
  then have ch: "child m' pt i = child m pt i" if "i < 512" for i
    using that by (intro child_cong) auto
  have sub: "tabs m' l c = tabs m l c \<and> wf_pt m' l c \<and> (\<forall>va. leaf m' l c va = leaf m l c va)"
    if "i < 512" "child m pt i = Some c" for i c
  proof (rule Suc.IH)
    show "wf_pt m l c" using Suc.prems(1) that by auto
    show "agree m m' (tabs m l c)" using Suc.prems(2) that by (auto elim!: agree_mono)
  qed
  have t: "tabs m' (Suc l) pt = tabs m (Suc l) pt"
  proof -
    have "{c. \<exists>i < 512. child m' pt i = Some c} = {c. \<exists>i < 512. child m pt i = Some c}" using ch by auto
    moreover have "(\<Union>c \<in> {c. \<exists>i < 512. child m pt i = Some c}. tabs m' l c) =
        (\<Union>c \<in> {c. \<exists>i < 512. child m pt i = Some c}. tabs m l c)"
      using sub by (intro SUP_cong) auto
    ultimately show ?thesis by simp
  qed
  have "leaf m' (Suc l) pt va = leaf m (Suc l) pt va" for va
    using sub [of "PX (Suc l) va"] ch PX_less by (auto split: option.splits)
  moreover have "wf_pt m' (Suc l) pt"
    using Suc.prems(1) sub ch ld by simp
  ultimately show ?case using t by blast
qed

text \<open>One child is replaced or changed, and the others are left alone.\<close>

lemma wf_pt_update_child:
  assumes wf: "wf_pt m (Suc l) pt" and i: "i < 512" and c: "child m' pt i = Some c" "wf_pt m' l c"
    and pt: "pt \<notin> tabs m' l c" and fl: "load64 m' (pte_at pt i) AND (PTE_R OR PTE_W OR PTE_X) = 0"
    and oth': "\<forall>j < 512. j \<noteq> i \<longrightarrow> load64 m' (pte_at pt j) = load64 m (pte_at pt j)"
    and fr': "\<forall>j d. j < 512 \<longrightarrow> j \<noteq> i \<longrightarrow> child m pt j = Some d \<longrightarrow>
      agree m m' (tabs m l d) \<and> tabs m l d \<inter> tabs m' l c = {}"
  shows "wf_pt m' (Suc l) pt"
    and "tabs m' (Suc l) pt =
      insert pt (tabs m' l c \<union> (\<Union>d \<in> {d. \<exists>j < 512. j \<noteq> i \<and> child m pt j = Some d}. tabs m l d))"
    and "\<And>va. leaf m' (Suc l) pt va =
      (if PX (Suc l) va = i then leaf m' l c va else leaf m (Suc l) pt va)"
proof -
  note oth = oth' [rule_format] and fr = fr' [rule_format]
  have ch: "child m' pt j = child m pt j" if "j < 512" "j \<noteq> i" for j
    using oth [OF that] by (rule child_cong)
  have sub: "tabs m' l d = tabs m l d \<and> wf_pt m' l d \<and> (\<forall>va. leaf m' l d va = leaf m l d va)"
    if "j < 512" "j \<noteq> i" "child m pt j = Some d" for j d
    using wf that fr [OF that] by (intro tabs_frame) auto
  show "leaf m' (Suc l) pt va =
      (if PX (Suc l) va = i then leaf m' l c va else leaf m (Suc l) pt va)" for va
    using c(1) ch [of "PX (Suc l) va"] sub [of "PX (Suc l) va"] PX_less [of "Suc l" va]
    by (auto split: option.splits)
  let ?D = "{d. \<exists>j < 512. j \<noteq> i \<and> child m pt j = Some d}"
  have "{d. \<exists>j < 512. child m' pt j = Some d} = insert c ?D"
    using i c(1) ch by (auto, metis option.inject)
  moreover have "(\<Union>d \<in> ?D. tabs m' l d) = (\<Union>d \<in> ?D. tabs m l d)"
    using sub by (intro SUP_cong) auto
  ultimately show "tabs m' (Suc l) pt = insert pt (tabs m' l c \<union> (\<Union>d \<in> ?D. tabs m l d))" by simp
  have one: "wf_pt m' l d \<and> pt \<notin> tabs m' l d \<and>
      load64 m' (pte_at pt j) AND (PTE_R OR PTE_W OR PTE_X) = 0"
    if "j < 512" "child m' pt j = Some d" for j d
  proof (cases "j = i")
    case True
    then show ?thesis using that c pt fl by simp
  next
    case False
    then have "child m pt j = Some d" using ch that by simp
    then show ?thesis using sub [OF that(1) False] oth [OF that(1) False] wf that(1) by auto
  qed
  have two: "tabs m' l d \<inter> tabs m' l e = {}"
    if "j < 512" "k < 512" "j \<noteq> k" "child m' pt j = Some d" "child m' pt k = Some e" for j k d e
  proof -
    note jk = that
    have other: "tabs m' l d \<inter> tabs m' l c = {} \<and> child m pt j = Some d \<and> tabs m' l d = tabs m l d"
      if "j < 512" "j \<noteq> i" "child m' pt j = Some d" for j d
    proof -
      have "child m pt j = Some d" using ch that by simp
      then show ?thesis using sub [OF that(1,2)] fr [OF that(1,2)] by simp
    qed
    consider "j = i" "k \<noteq> i" | "k = i" "j \<noteq> i" | "j \<noteq> i" "k \<noteq> i" using jk(3) by blast
    then show ?thesis
    proof cases
      case 1
      then show ?thesis using other [OF jk(2) _ jk(5)] jk(4) c(1) by auto
    next
      case 2
      then show ?thesis using other [OF jk(1) _ jk(4)] jk(5) c(1) by auto
    next
      case 3
      then show ?thesis
        using other [OF jk(1) _ jk(4)] other [OF jk(2) _ jk(5)] wf jk by simp
    qed
  qed
  show "wf_pt m' (Suc l) pt" using wf one two by simp
qed

section \<open>Stores to leaf entries\<close>

lemma tabs_split:
  assumes "i < 512"
  shows "tabs m (Suc l) pt = insert pt ((\<Union>c \<in> set_option (child m pt i). tabs m l c) \<union>
    (\<Union>d \<in> {d. \<exists>j < 512. j \<noteq> i \<and> child m pt j = Some d}. tabs m l d))"
proof -
  have "{d. \<exists>j < 512. child m pt j = Some d} =
      set_option (child m pt i) \<union> {d. \<exists>j < 512. j \<noteq> i \<and> child m pt j = Some d}"
  proof (rule set_eqI)
    fix d
    show "d \<in> {d. \<exists>j < 512. child m pt j = Some d} \<longleftrightarrow>
        d \<in> set_option (child m pt i) \<union> {d. \<exists>j < 512. j \<noteq> i \<and> child m pt j = Some d}"
      using assms by (cases "child m pt i = Some d") auto
  qed
  then show ?thesis by simp
qed

lemma tabs_child: "child m pt i = Some c \<Longrightarrow> i < 512 \<Longrightarrow> tabs m l c \<subseteq> tabs m (Suc l) pt"
  by auto


lemma leaf_page:
  assumes "wf_pt m l pt" "leaf m l pt va = Some a"
  shows "\<exists>p i. p \<in> tabs m l pt \<and> aligned 12 p \<and> i < 512 \<and> a = pte_at p i"
  using assms
proof (induction l arbitrary: pt)
  case 0
  then show ?case using PX_less by auto
next
  case (Suc l)
  then obtain c where c: "child m pt (PX (Suc l) va) = Some c" "leaf m l c va = Some a"
    by (auto split: option.splits)
  have "wf_pt m l c" using Suc.prems(1) c(1) PX_less by auto
  with Suc.IH [OF this c(2)] tabs_child [OF c(1) PX_less, of l] show ?case by blast
qed

lemma leaf_addr:
  assumes "wf_pt m l pt" "leaf m l pt va = Some a"
  shows "aligned 3 a" "a \<noteq> 0" "\<exists>p \<in> tabs m l pt. region a 8 \<subseteq> region p 4096"
proof -
  obtain p i where p: "p \<in> tabs m l pt" "aligned 12 p" "i < 512" "a = pte_at p i"
    using leaf_page [OF assms] by blast
  show "aligned 3 a" using p aligned_pte_at by simp
  show "\<exists>p \<in> tabs m l pt. region a 8 \<subseteq> region p 4096" using p pte_at_subset by blast
  have "p \<noteq> 0" using tabs_aligned [OF assms(1) p(1)] by simp
  then have "0 \<notin> region p 4096"
    using aligned_page_disjoint [of p 0] p(2) in_own_region [of 4096 0] by (auto simp: aligned_def)
  then show "a \<noteq> 0" using pte_at_region [OF p(3), of p] p(4) by auto
qed

lemma agree_store:
  assumes "region a 8 \<subseteq> region p 4096" "aligned 12 p" "\<forall>q \<in> P. aligned 12 q" "p \<notin> P"
  shows "agree m (store64 m a v) P"
  unfolding agree_def
proof (intro ballI)
  fix q x
  assume "q \<in> P" "x \<in> region q 4096"
  then have "x \<notin> region a 8" using assms aligned_page_disjoint [of p q] by blast
  then show "store64 m a v x = m x" by (rule store64_out)
qed

lemma store_leaf:
  assumes "wf_pt m l pt" "leaf m l pt va = Some a"
  shows "tabs (store64 m a v) l pt = tabs m l pt" "wf_pt (store64 m a v) l pt"
    "leaf (store64 m a v) l pt va' = leaf m l pt va'"
proof -
  let ?m = "store64 m a v"
  have "tabs ?m l pt = tabs m l pt \<and> wf_pt ?m l pt \<and> (\<forall>va'. leaf ?m l pt va' = leaf m l pt va')"
    using assms
  proof (induction l arbitrary: pt)
    case 0
    then show ?case by simp
  next
    case (Suc l)
    let ?i = "PX (Suc l) va"
    obtain c where c: "child m pt ?i = Some c" "leaf m l c va = Some a"
      using Suc.prems(2) by (auto split: option.splits)
    note i = PX_less [of "Suc l" va]
    have wc: "wf_pt m l c" "pt \<notin> tabs m l c" "aligned 12 pt" using Suc.prems(1) c(1) i by auto
    note ih = Suc.IH [OF wc(1) c(2)]
    obtain p where p: "p \<in> tabs m l c" "region a 8 \<subseteq> region p 4096"
      using leaf_addr(3) [OF wc(1) c(2)] by blast
    have ap: "aligned 12 p" using tabs_aligned [OF wc(1) p(1)] by simp
    have ld: "load64 ?m (pte_at pt j) = load64 m (pte_at pt j)" if "j < 512" for j
    proof (rule agree_load [where P = "{pt}" and p = pt])
      show "agree m ?m {pt}" using p ap wc by (intro agree_store [where p = p]) auto
      show "region (pte_at pt j) 8 \<subseteq> region pt 4096" using wc(3) that by (rule pte_at_subset)
    qed simp
    have ch: "child ?m pt ?i = Some c" using child_cong [OF ld [OF i]] c(1) by simp
    have fl: "load64 ?m (pte_at pt ?i) AND (PTE_R OR PTE_W OR PTE_X) = 0"
      using Suc.prems(1) c(1) i ld [OF i] by simp
    have fr: "agree m ?m (tabs m l d) \<and> tabs m l d \<inter> tabs ?m l c = {}"
      if "j < 512" "j \<noteq> ?i" "child m pt j = Some d" for j d
    proof -
      have wd: "wf_pt m l d" and dis: "tabs m l d \<inter> tabs m l c = {}"
        using Suc.prems(1) that c(1) i by auto
      have "agree m ?m (tabs m l d)"
        using p ap dis tabs_aligned [OF wd] by (intro agree_store [where p = p]) auto
      then show ?thesis using dis ih by simp
    qed
    have pt: "pt \<notin> tabs ?m l c" and wm: "wf_pt ?m l c" using ih wc(2) by auto
    have "\<forall>j < 512. j \<noteq> ?i \<longrightarrow> load64 ?m (pte_at pt j) = load64 m (pte_at pt j)"
      "\<forall>j d. j < 512 \<longrightarrow> j \<noteq> ?i \<longrightarrow> child m pt j = Some d \<longrightarrow>
        agree m ?m (tabs m l d) \<and> tabs m l d \<inter> tabs ?m l c = {}"
      using ld fr by blast+
    note upd = wf_pt_update_child [OF Suc.prems(1) i ch wm pt fl this]
    have "tabs ?m (Suc l) pt = tabs m (Suc l) pt"
      using upd(2) tabs_split [OF i, of m l pt] ih c(1) by simp
    moreover have "leaf ?m (Suc l) pt va' = leaf m (Suc l) pt va'" for va'
      using upd(3) [of va'] ih c(1) by auto
    ultimately show ?case using upd(1) by blast
  qed
  then show "tabs ?m l pt = tabs m l pt" "wf_pt ?m l pt" "leaf ?m l pt va' = leaf m l pt va'" by auto
qed

lemma leaf_inj:
  assumes "wf_pt m l pt" "leaf m l pt va = Some a" "leaf m l pt va' = Some a" "k \<le> l"
  shows "PX k va = PX k va'"
  using assms
proof (induction l arbitrary: pt)
  case 0
  then show ?case using pte_at_inj [OF PX_less [of 0 va] PX_less [of 0 va'], of pt] by simp
next
  case (Suc l)
  let ?i = "PX (Suc l) va" and ?j = "PX (Suc l) va'"
  obtain c d where c: "child m pt ?i = Some c" "leaf m l c va = Some a"
      and d: "child m pt ?j = Some d" "leaf m l d va' = Some a"
    using Suc.prems(2,3) by (auto split: option.splits)
  have w: "wf_pt m l c" "wf_pt m l d" using Suc.prems(1) c(1) d(1) PX_less by auto
  obtain p x where p: "p \<in> tabs m l c" "aligned 12 p" "x < 512" "a = pte_at p x"
    using leaf_page [OF w(1) c(2)] by blast
  obtain q y where q: "q \<in> tabs m l d" "aligned 12 q" "y < 512" "a = pte_at q y"
    using leaf_page [OF w(2) d(2)] by blast
  have "p = q" using pte_at_page [OF p(2) q(2) p(3) q(3)] p(4) q(4) by simp
  then have "?i = ?j"
    using wf_pt_children [OF Suc.prems(1) PX_less PX_less c(1) d(1) p(1)] q(1) by simp
  with c d have cd: "c = d" by simp
  show ?case
  proof (cases "k = Suc l")
    case True
    then show ?thesis using \<open>?i = ?j\<close> by simp
  next
    case False
    then show ?thesis using Suc.IH [OF w(1) c(2)] d(2) cd Suc.prems(4) by simp
  qed
qed

lemma same_page_PX: "drop_bit 12 va = drop_bit 12 va' \<Longrightarrow> PX l va = PX l va'"
  using drop_bit_mono_eq [of 12 "PXSHIFT l" va va'] by (simp add: PX_def PXSHIFT_def)

lemma same_page_leaf: "drop_bit 12 va = drop_bit 12 va' \<Longrightarrow> leaf m l pt va = leaf m l pt va'"
proof (induction l arbitrary: pt)
  case 0
  then show ?case using same_page_PX [of va va' 0] by simp
next
  case (Suc l)
  then show ?case using same_page_PX [of va va' "Suc l"] by (simp split: option.splits)
qed

text \<open>One beyond the highest virtual address a three-level table can translate. \<open>walk\<close> only accepts
  addresses below \<open>MAXVA\<close>, half of it.\<close>

definition SV39 :: u64 where "SV39 = 0x8000000000"

lemma MAXVA_SV39: "va < MAXVA \<Longrightarrow> va < SV39"
  by (simp add: MAXVA_def SV39_def word_less_nat_alt)

lemma PX_same_page:
  assumes "va < SV39" "va' < SV39" "\<And>k. k \<le> 2 \<Longrightarrow> PX k va = PX k va'"
  shows "drop_bit 12 va = drop_bit 12 va'"
proof (rule bit_word_eqI)
  fix n :: nat
  have hi: "\<not> bit va n \<and> \<not> bit va' n" if "39 \<le> n" for n
    using bit_small [of va 39 n] bit_small [of va' 39 n] that assms(1,2)
    by (simp add: SV39_def word_less_nat_alt)
  have px: "bit va (12 + 9 * k + j) \<longleftrightarrow> bit va' (12 + 9 * k + j)" if "k \<le> 2" "j < 9" for k j
  proof -
    have "bit (PX k va) j \<longleftrightarrow> bit (PX k va') j" using assms(3) [OF that(1)] by simp
    then show ?thesis using that(2)
      by (simp add: PX_def PXSHIFT_def and_0x1FF bit_take_bit_iff bit_drop_bit_eq add.assoc)
  qed
  show "bit (drop_bit 12 va) n \<longleftrightarrow> bit (drop_bit 12 va') n"
  proof (cases "n < 27")
    case True
    then have "n div 9 \<le> 2" "n mod 9 < 9" by auto
    from px [OF this] show ?thesis by (simp add: bit_drop_bit_eq add.assoc)
  next
    case False
    then show ?thesis using hi [of "12 + n"] by (simp add: bit_drop_bit_eq)
  qed
qed

lemma pte_of_store:
  assumes "wf_pt m l pt" "leaf m l pt va = Some a"
  shows "pte_of (store64 m a v) l pt va' = (if leaf m l pt va' = Some a then v else pte_of m l pt va')"
proof -
  have "load64 (store64 m a v) b = load64 m b" if "leaf m l pt va' = Some b" "b \<noteq> a" for b
    using aligned_disjoint [of 3 a b] leaf_addr(1) [OF assms] leaf_addr(1) [OF assms(1) that(1)] that(2)
    by (intro load_store_disjoint) auto
  then show ?thesis by (auto simp: pte_of_def store_leaf(3) [OF assms] split: option.splits)
qed

text \<open>A store to the entry of one page changes the mapping of that page only.\<close>

lemma pte_of_store_page:
  assumes "wf_pt m 2 pt" "leaf m 2 pt va = Some a" "va < SV39" "va' < SV39"
  shows "pte_of (store64 m a v) 2 pt va' =
    (if drop_bit 12 va' = drop_bit 12 va then v else pte_of m 2 pt va')"
proof -
  have "leaf m 2 pt va' = Some a \<longleftrightarrow> drop_bit 12 va' = drop_bit 12 va"
    using same_page_leaf [of va' va m 2 pt] assms(2)
      PX_same_page [OF assms(4,3)] leaf_inj [OF assms(1) _ assms(2), of va'] by auto
  then show ?thesis by (simp add: pte_of_store [OF assms(1,2)])
qed

lemma pte_of_frame:
  assumes "wf_pt m l pt" "agree m m' (tabs m l pt)"
  shows "pte_of m' l pt va = pte_of m l pt va"
proof (cases "leaf m l pt va")
  case None
  then show ?thesis using tabs_frame [OF assms] by (simp add: pte_of_def)
next
  case (Some a)
  then have "load64 m' a = load64 m a"
    using leaf_addr(3) [OF assms(1)] agree_load [OF assms(2)] by blast
  then show ?thesis using tabs_frame [OF assms] Some by (simp add: pte_of_def)
qed

section \<open>Walks\<close>

lemma zero_table:
  assumes z: "\<forall>x \<in> region pg 4096. m x = 0" and pg: "aligned 12 pg" "pg \<noteq> 0"
  shows "tabs m l pg = {pg}" "wf_pt m l pg" "pte_of m l pg va = 0"
proof -
  have ld: "load64 m (pte_at pg i) = 0" if "i < 512" for i
    using z pte_at_subset [OF pg(1) that] by (intro load64_zero) blast
  then have ch: "child m pg i = None" if "i < 512" for i using that by (simp add: child_def)
  then have "{c. \<exists>i < 512. child m pg i = Some c} = {}" by auto
  then show "tabs m l pg = {pg}" by (cases l) (simp_all del: Collect_empty_eq)
  show "wf_pt m l pg" using ch pg by (cases l) auto
  show "pte_of m l pg va = 0"
    using ld ch PX_less by (cases l) (simp_all add: pte_of_def)
qed

lemma walk_loop_find:
  "walk_loop l pt va False s = Ok (case leaf (mem s) l pt va of None \<Rightarrow> 0 | Some a \<Rightarrow> a) s"
  by (induction l arbitrary: pt) (simp_all add: child_def Let_def)

lemma walk_find:
  "va < MAXVA \<Longrightarrow> walk pt va False s = Ok (case leaf (mem s) 2 pt va of None \<Rightarrow> 0 | Some a \<Rightarrow> a) s"
  by (simp add: walk_def walk_loop_find)

lemma pte_of_Suc:
  "pte_of m (Suc l) pt va = (case child m pt (PX (Suc l) va) of None \<Rightarrow> 0 | Some c \<Rightarrow> pte_of m l c va)"
  by (simp add: pte_of_def split: option.splits)

text \<open>The tables under \<open>pt\<close> have grown by the pages \<open>N\<close>: nothing else in memory has changed,
  and no mapping has.\<close>

definition pt_grow :: "memory \<Rightarrow> memory \<Rightarrow> nat \<Rightarrow> u64 \<Rightarrow> u64 set \<Rightarrow> bool" where
  "pt_grow m m' l pt N \<longleftrightarrow> wf_pt m' l pt \<and> tabs m' l pt = tabs m l pt \<union> N \<and>
     (\<forall>q. aligned 12 q \<longrightarrow> q \<notin> tabs m' l pt \<longrightarrow> agree m m' {q}) \<and>
     (\<forall>va. pte_of m' l pt va = pte_of m l pt va)"

lemma agree_pages: "(\<And>q. q \<in> P \<Longrightarrow> agree m m' {q}) \<Longrightarrow> agree m m' P"
  by (simp add: agree_def)

lemma pt_grow_child:
  assumes wf: "wf_pt m (Suc l) pt" and i: "i < 512" and c: "child m' pt i = Some c" "wf_pt m' l c"
    and fl: "load64 m' (pte_at pt i) AND (PTE_R OR PTE_W OR PTE_X) = 0"
    and fr: "\<forall>q. aligned 12 q \<longrightarrow> q \<notin> insert pt (tabs m' l c) \<longrightarrow> agree m m' {q}"
    and oth: "\<forall>j < 512. j \<noteq> i \<longrightarrow> load64 m' (pte_at pt j) = load64 m (pte_at pt j)"
    and tb: "tabs m' l c = (\<Union>c \<in> set_option (child m pt i). tabs m l c) \<union> N"
    and N: "N \<inter> tabs m (Suc l) pt = {}"
    and pte: "\<forall>va. PX (Suc l) va = i \<longrightarrow> pte_of m' l c va = pte_of m (Suc l) pt va"
  shows "pt_grow m m' (Suc l) pt N"
proof -
  have pt: "pt \<notin> tabs m' l c"
    using wf i N unfolding tb by (cases "child m pt i") (auto dest: wf_pt_child)
  have other: "wf_pt m l d \<and> agree m m' (tabs m l d) \<and> tabs m l d \<inter> tabs m' l c = {}"
    if "j < 512" "j \<noteq> i" "child m pt j = Some d" for j d
  proof -
    have wd: "wf_pt m l d" "pt \<notin> tabs m l d" using wf_pt_child [OF wf that(1,3)] by auto
    have "tabs m l d \<inter> N = {}" using N tabs_child [OF that(3,1), of l] by blast
    moreover have "tabs m l d \<inter> (\<Union>c \<in> set_option (child m pt i). tabs m l c) = {}"
      using wf_pt_children [OF wf that(1) i that(3)] that(2) by (cases "child m pt i") auto
    ultimately have dis: "tabs m l d \<inter> tabs m' l c = {}" unfolding tb by blast
    have "agree m m' (tabs m l d)"
    proof (rule agree_pages)
      fix q
      assume q: "q \<in> tabs m l d"
      then have "aligned 12 q" "q \<notin> insert pt (tabs m' l c)"
        using tabs_aligned [OF wd(1)] dis wd(2) by auto
      then show "agree m m' {q}" using fr by simp
    qed
    then show ?thesis using wd dis by blast
  qed
  then have "\<forall>j d. j < 512 \<longrightarrow> j \<noteq> i \<longrightarrow> child m pt j = Some d \<longrightarrow>
      agree m m' (tabs m l d) \<and> tabs m l d \<inter> tabs m' l c = {}" by blast
  note upd = wf_pt_update_child [OF wf i c pt fl oth this]
  have t: "tabs m' (Suc l) pt = tabs m (Suc l) pt \<union> N"
    unfolding upd(2) tb tabs_split [OF i, of m l pt] by blast
  have "pte_of m' (Suc l) pt va = pte_of m (Suc l) pt va" for va
  proof (cases "PX (Suc l) va = i")
    case True
    then show ?thesis using pte c(1) by (simp add: pte_of_Suc)
  next
    case False
    have "child m' pt (PX (Suc l) va) = child m pt (PX (Suc l) va)"
      using oth False PX_less by (intro child_cong) blast
    then show ?thesis
      using other [OF PX_less False] pte_of_frame
      by (auto simp: pte_of_Suc split: option.splits)
  qed
  moreover have "agree m m' {q}" if "aligned 12 q" "q \<notin> tabs m' (Suc l) pt" for q
    using fr that unfolding upd(2) by blast
  ultimately show ?thesis unfolding pt_grow_def using upd(1) t by blast
qed

lemma agree_write:
  assumes "region a (length bs) \<subseteq> region p 4096" "aligned 12 p" "aligned 12 q" "p \<noteq> q"
  shows "agree m (write_bytes m a bs) {q}"
  unfolding agree_def
proof (intro ballI)
  fix p' x
  assume "p' \<in> {q}" "x \<in> region p' 4096"
  then have "x \<notin> region a (length bs)" using assms aligned_page_disjoint [of p q] by blast
  then show "write_bytes m a bs x = m x" by (rule write_bytes_out)
qed

lemma zeroed_page: "x \<in> region pg 4096 \<Longrightarrow> memset m pg 0 4096 x = 0"
  by (simp add: memset_eq write_bytes_def mem_region)

lemma agree_zeroed: "aligned 12 pg \<Longrightarrow> aligned 12 q \<Longrightarrow> pg \<noteq> q \<Longrightarrow> agree m (memset m pg 0 4096) {q}"
  unfolding memset_eq [of 4096, simplified] by (rule agree_write) auto

lemma new_table:
  fixes m :: memory and pt pg i :: u64
  assumes pt: "aligned 12 pt" and i: "i < 512" and pg: "aligned 12 pg" "pg \<noteq> pt"
  defines "m2 \<equiv> store64 (memset m pg 0 4096) (pte_at pt i) (PA2PTE pg OR PTE_V)"
  shows "\<forall>x \<in> region pg 4096. m2 x = 0" "child m2 pt i = Some pg"
    "load64 m2 (pte_at pt i) AND (PTE_R OR PTE_W OR PTE_X) = 0"
    "\<forall>j < 512. j \<noteq> i \<longrightarrow> load64 m2 (pte_at pt j) = load64 m (pte_at pt j)"
    "\<forall>q. aligned 12 q \<longrightarrow> q \<noteq> pt \<longrightarrow> q \<noteq> pg \<longrightarrow> agree m m2 {q}"
proof -
  let ?m1 = "memset m pg 0 4096"
  have st: "agree ?m1 m2 {q}" if "aligned 12 q" "q \<noteq> pt" for q
    unfolding m2_def using that pt pte_at_subset [OF pt i] by (intro agree_store [where p = pt]) auto
  show "\<forall>x \<in> region pg 4096. m2 x = 0"
    using st [of pg] pg zeroed_page [of _ pg m] by (auto simp: agree_def)
  have ld: "load64 m2 (pte_at pt i) = PA2PTE pg OR PTE_V" by (simp add: m2_def)
  have V: "PTE_V < 1024" "(PA2PTE pg OR PTE_V) AND PTE_V = PTE_V AND PTE_V"
      "(PA2PTE pg OR PTE_V) AND (PTE_R OR PTE_W OR PTE_X) = PTE_V AND (PTE_R OR PTE_W OR PTE_X)"
    by (rule and_PA2PTE | simp add: PTE_V_def PTE_R_def PTE_W_def PTE_X_def)+
  show "child m2 pt i = Some pg" using ld V(1,2) pg by (simp add: child_def PTE_V_def)
  show "load64 m2 (pte_at pt i) AND (PTE_R OR PTE_W OR PTE_X) = 0"
    unfolding ld V(3) by (simp add: PTE_V_def PTE_R_def PTE_W_def PTE_X_def)
  show "\<forall>j < 512. j \<noteq> i \<longrightarrow> load64 m2 (pte_at pt j) = load64 m (pte_at pt j)"
  proof (intro allI impI)
    fix j :: u64
    assume j: "j < 512" "j \<noteq> i"
    have "load64 m2 (pte_at pt j) = load64 ?m1 (pte_at pt j)"
      unfolding m2_def using pte_at_disjoint [OF pt i j(1)] j(2) by (intro load_store_disjoint) simp
    also have "\<dots> = load64 m (pte_at pt j)"
      using agree_zeroed [OF pg(1) pt pg(2)] pte_at_subset [OF pt j(1)] by (intro agree_load) auto
    finally show "load64 m2 (pte_at pt j) = load64 m (pte_at pt j)" .
  qed
  show "\<forall>q. aligned 12 q \<longrightarrow> q \<noteq> pt \<longrightarrow> q \<noteq> pg \<longrightarrow> agree m m2 {q}"
  proof (intro allI impI)
    fix q
    assume "aligned 12 q" "q \<noteq> pt" "q \<noteq> pg"
    then show "agree m m2 {q}" using agree_zeroed [OF pg(1), of q m] st [of q] agree_trans by blast
  qed
qed

lemma pt_grow_refl: "wf_pt m l pt \<Longrightarrow> pt_grow m m l pt {}"
  by (simp add: pt_grow_def)

text \<open>\<open>walk\<close> with allocation: \<open>n\<close> pages of the free list have become tables. It fails only when
  the free list has run out.\<close>

definition walked :: "'z kmem_scheme \<Rightarrow> u64 list \<Rightarrow> nat \<Rightarrow> u64 \<Rightarrow> u64 \<Rightarrow> u64 \<Rightarrow> 'z kmem_scheme \<Rightarrow> nat \<Rightarrow> bool" where
  "walked s fs l pt va a t n \<longleftrightarrow>
     t = s\<lparr>mem := mem t, freelist := freelist t\<rparr> \<and> n \<le> l \<and> n \<le> length fs \<and>
     kmem_inv t (drop n fs) \<and> pt_grow (mem s) (mem t) l pt (set (take n fs)) \<and>
     (if a = 0 then drop n fs = [] \<and> n < l else leaf (mem t) l pt va = Some a)"

lemma new_table_inv:
  assumes inv: "kmem_inv s (pg # fs)" and pt: "aligned 12 pt" "pt \<notin> set (pg # fs)" and i: "i < 512"
  shows "kmem_inv (s\<lparr>freelist := load64 (mem s) pg,
    mem := store64 (memset (mem s) pg 0 4096) (pte_at pt i) v\<rparr>) fs"
proof -
  let ?s1 = "s\<lparr>freelist := load64 (mem s) pg\<rparr>"
  have pg: "aligned 12 pg" "pg \<notin> set fs" using inv by (auto simp: kmem_inv_def page_ok_def)
  have "kmem_inv (?s1\<lparr>mem := write_bytes (mem ?s1) pg (replicate 4096 0)\<rparr>) fs"
    using kmem_inv_tail [OF inv] pg by (intro kmem_inv_write [where p = pg]) auto
  then have "kmem_inv (?s1\<lparr>mem := memset (mem s) pg 0 4096\<rparr>) fs" by (simp add: memset_eq)
  from kmem_inv_store64 [OF this pt(1) _ pte_at_subset [OF pt(1) i]] show ?thesis
    using pt(2) by simp
qed

lemma pt_grow_new:
  fixes m :: memory
  assumes wf: "wf_pt m (Suc l) pt" and i: "i < 512" and none: "child m pt i = None"
    and pt: "pt \<notin> set (pg # N)" and al: "aligned 12 pg"
    and g: "pt_grow (store64 (memset m pg 0 4096) (pte_at pt i) (PA2PTE pg OR PTE_V)) m' l pg (set N)"
    and pg: "pg \<noteq> 0" "set (pg # N) \<inter> tabs m (Suc l) pt = {}"
  shows "pt_grow m m' (Suc l) pt (set (pg # N)) \<and> child m' pt i = Some pg"
proof -
  let ?m2 = "store64 (memset m pg 0 4096) (pte_at pt i) (PA2PTE pg OR PTE_V)"
  have ap: "aligned 12 pt" using wf_pt_root [OF wf] by simp
  have ne: "pg \<noteq> pt" using pt by auto
  note nt = new_table [OF ap i al ne, of m]
  have tb2: "tabs ?m2 l pg = {pg}" "wf_pt ?m2 l pg" "\<And>va. pte_of ?m2 l pg va = 0"
    using zero_table [OF nt(1) al pg(1)] by auto
  have tb: "tabs m' l pg = set (pg # N)" and wt: "wf_pt m' l pg"
    and fr: "\<And>q. aligned 12 q \<Longrightarrow> q \<notin> set (pg # N) \<Longrightarrow> agree ?m2 m' {q}"
    using g tb2(1) by (auto simp: pt_grow_def)
  have ag: "agree ?m2 m' {pt}" using fr ap pt by blast
  have ld: "load64 m' (pte_at pt j) = load64 ?m2 (pte_at pt j)" if "j < 512" for j
    using agree_load [OF ag] pte_at_subset [OF ap that] by simp
  have ch: "child m' pt i = Some pg" using child_cong [OF ld [OF i]] nt(2) by simp
  have "pt_grow m m' (Suc l) pt (set (pg # N))"
  proof (rule pt_grow_child [OF wf i ch wt])
    show "load64 m' (pte_at pt i) AND (PTE_R OR PTE_W OR PTE_X) = 0" using ld i nt(3) by simp
    show "\<forall>q. aligned 12 q \<longrightarrow> q \<notin> insert pt (tabs m' l pg) \<longrightarrow> agree m m' {q}"
    proof (intro allI impI)
      fix q
      assume q: "aligned 12 q" "q \<notin> insert pt (tabs m' l pg)"
      then have "agree m ?m2 {q}" using nt(5) tb by auto
      moreover have "agree ?m2 m' {q}" using fr q tb by blast
      ultimately show "agree m m' {q}" by (rule agree_trans)
    qed
    show "\<forall>j < 512. j \<noteq> i \<longrightarrow> load64 m' (pte_at pt j) = load64 m (pte_at pt j)"
      using ld nt(4) by simp
    show "tabs m' l pg = (\<Union>c \<in> set_option (child m pt i). tabs m l c) \<union> set (pg # N)"
      using tb none by simp
    show "set (pg # N) \<inter> tabs m (Suc l) pt = {}" by (rule pg(2))
    show "\<forall>va'. PX (Suc l) va' = i \<longrightarrow> pte_of m' l pg va' = pte_of m (Suc l) pt va'"
      using g none tb2(3) by (simp add: pte_of_Suc pt_grow_def)
  qed
  then show ?thesis using ch by blast
qed

lemma walk_loop_alloc:
  assumes "kmem_inv s fs" "wf_pt (mem s) l pt" "tabs (mem s) l pt \<inter> set fs = {}"
  shows "\<exists>a t n. walk_loop l pt va True s = Ok a t \<and> walked s fs l pt va a t n"
  using assms
proof (induction l arbitrary: pt s fs)
  case 0
  have "leaf (mem s) 0 pt va = Some (pte_at pt (PX 0 va))" by simp
  moreover have "pte_at pt (PX 0 va) \<noteq> 0" using leaf_addr(2) [OF 0(2)] by simp
  ultimately show ?case using 0 pt_grow_refl [OF 0(2)]
    by (auto simp: walked_def intro!: exI [of _ "0::nat"])
next
  case (Suc l)
  let ?i = "PX (Suc l) va"
  note i = PX_less [of "Suc l" va]
  have pt: "aligned 12 pt" "pt \<notin> set fs"
    using wf_pt_root [OF Suc.prems(2)] Suc.prems(3) root_in_tabs [of pt "mem s" "Suc l"] by blast+
  show ?case
  proof (cases "child (mem s) pt ?i")
    case (Some c)
    then have run: "walk_loop (Suc l) pt va True s = walk_loop l c va True s"
      by (auto simp: child_def Let_def split: if_splits)
    have wc: "wf_pt (mem s) l c" "pt \<notin> tabs (mem s) l c"
        "load64 (mem s) (pte_at pt ?i) AND (PTE_R OR PTE_W OR PTE_X) = 0"
      using wf_pt_child [OF Suc.prems(2) i Some] by auto
    have "tabs (mem s) l c \<inter> set fs = {}" using Suc.prems(3) tabs_child [OF Some i, of l] by blast
    from Suc.IH [OF Suc.prems(1) wc(1) this] obtain a t n
      where t: "walk_loop l c va True s = Ok a t" "walked s fs l c va a t n" by blast
    then have g: "pt_grow (mem s) (mem t) l c (set (take n fs))" by (simp add: walked_def)
    have sub: "set (take n fs) \<subseteq> set fs" by (rule set_take_subset)
    have tb: "tabs (mem t) l c = tabs (mem s) l c \<union> set (take n fs)" and wt: "wf_pt (mem t) l c"
      and fr: "\<And>q. aligned 12 q \<Longrightarrow> q \<notin> tabs (mem t) l c \<Longrightarrow> agree (mem s) (mem t) {q}"
      using g by (auto simp: pt_grow_def)
    have "pt \<notin> tabs (mem t) l c" using tb wc(2) pt(2) sub by auto
    then have ag: "agree (mem s) (mem t) {pt}" using fr pt(1) by simp
    have ld: "load64 (mem t) (pte_at pt j) = load64 (mem s) (pte_at pt j)" if "j < 512" for j
      using agree_load [OF ag] pte_at_subset [OF pt(1) that] by simp
    have ch: "child (mem t) pt ?i = Some c" using child_cong [OF ld [OF i]] Some by simp
    have "pt_grow (mem s) (mem t) (Suc l) pt (set (take n fs))"
    proof (rule pt_grow_child [OF Suc.prems(2) i ch wt])
      show "load64 (mem t) (pte_at pt ?i) AND (PTE_R OR PTE_W OR PTE_X) = 0" using ld i wc(3) by simp
      show "\<forall>q. aligned 12 q \<longrightarrow> q \<notin> insert pt (tabs (mem t) l c) \<longrightarrow> agree (mem s) (mem t) {q}"
        using fr by simp
      show "\<forall>j < 512. j \<noteq> ?i \<longrightarrow> load64 (mem t) (pte_at pt j) = load64 (mem s) (pte_at pt j)"
        using ld by simp
      show "tabs (mem t) l c = (\<Union>c \<in> set_option (child (mem s) pt ?i). tabs (mem s) l c) \<union> set (take n fs)"
        using tb Some by simp
      show "set (take n fs) \<inter> tabs (mem s) (Suc l) pt = {}" using Suc.prems(3) sub by blast
      show "\<forall>va'. PX (Suc l) va' = ?i \<longrightarrow> pte_of (mem t) l c va' = pte_of (mem s) (Suc l) pt va'"
        using g Some by (simp add: pte_of_Suc pt_grow_def)
    qed
    then have "walked s fs (Suc l) pt va a t n" using t(2) ch by (auto simp: walked_def split: if_splits)
    then show ?thesis using run t(1) by metis
  next
    case None
    then have nv: "load64 (mem s) (pte_at pt ?i) AND PTE_V = 0"
      by (simp add: child_def Let_def split: if_splits)
    show ?thesis
    proof (cases fs)
      case Nil
      then have "walk_loop (Suc l) pt va True s = Ok 0 s"
        using kalloc_empty [of s] Suc.prems(1) nv by (simp add: Let_def) (simp add: kbind_def)
      then show ?thesis
        using Nil Suc.prems(1) pt_grow_refl [OF Suc.prems(2)]
        by (auto simp: walked_def intro!: exI [of _ "0::nat"])
    next
      case (Cons pg fs')
      let ?m2 = "store64 (memset (mem s) pg 0 4096) (pte_at pt ?i) (PA2PTE pg OR PTE_V)"
      let ?s2 = "s\<lparr>freelist := load64 (mem s) pg, mem := ?m2\<rparr>"
      note inv = Suc.prems(1) [unfolded Cons]
      have pg: "aligned 12 pg" "pg \<noteq> pt" "pg \<noteq> 0" "pg \<notin> set fs'" "pg \<notin> tabs (mem s) (Suc l) pt"
        using inv pt(2) Suc.prems(3) Cons kpages.valid_nonzero [OF inv]
        by (auto simp: kmem_inv_def page_ok_def)
      note nt = new_table [OF pt(1) i pg(1,2), of "mem s"]
      have run: "walk_loop (Suc l) pt va True s = walk_loop l pg va True ?s2"
        using kalloc_run [OF inv] nv pg(3) by (simp add: Let_def) (simp add: kbind_def)
      have inv2: "kmem_inv ?s2 fs'" by (rule new_table_inv [OF inv pt(1)]) (use pt(2) Cons i in auto)
      have tb2: "tabs ?m2 l pg = {pg}" "wf_pt ?m2 l pg" "\<And>va. pte_of ?m2 l pg va = 0"
        using zero_table [OF nt(1) pg(1,3)] by auto
      have "wf_pt (mem ?s2) l pg" "tabs (mem ?s2) l pg \<inter> set fs' = {}" using tb2 pg(4) by simp_all
      from Suc.IH [OF inv2 this] obtain a t n
        where t: "walk_loop l pg va True ?s2 = Ok a t" "walked ?s2 fs' l pg va a t n" by blast
      then have g: "pt_grow ?m2 (mem t) l pg (set (take n fs'))" by (simp add: walked_def)
      have "pt_grow (mem s) (mem t) (Suc l) pt (set (take (Suc n) fs)) \<and> child (mem t) pt ?i = Some pg"
        unfolding Cons take_Suc_Cons
        by (rule pt_grow_new [OF Suc.prems(2) i None _ pg(1) g]) (use Suc.prems(3) pg Cons in \<open>auto dest: in_set_takeD\<close>)
      then have "walked s fs (Suc l) pt va a t (Suc n)" using t(2) Cons by (simp add: walked_def)
      then show ?thesis using run t(1) by metis
    qed
  qed
qed

end
