(* ===== verification/Uvm.thy ===== *)
theory Uvm
  imports PageTable
begin

text \<open>
  What the operations of \<open>kernel/vm.c\<close> do to address spaces: mapping, growing, shrinking, copying
  and freeing user memory, and copying bytes across the user boundary. An address space is the
  function from virtual addresses to page-table entries that a page table stands for.
\<close>

unbundle bit_operations_syntax

section \<open>Updates of an address space\<close>

definition pt_inv :: "'z kmem_scheme \<Rightarrow> u64 list \<Rightarrow> u64 \<Rightarrow> bool" where
  "pt_inv s fs pt \<longleftrightarrow> kmem_inv s fs \<and> wf_pt (mem s) 2 pt \<and>
     (\<forall>p \<in> tabs (mem s) 2 pt. page_ok s p \<and> p \<notin> set fs)"

text \<open>From \<open>s\<close> to \<open>t\<close>, \<open>n\<close> pages of the free list have become tables of \<open>pt\<close>, and the address
  space is now \<open>f\<close>; pages other than tables are as they were.\<close>

definition pt_upd :: "'z kmem_scheme \<Rightarrow> u64 list \<Rightarrow> u64 \<Rightarrow> 'z kmem_scheme \<Rightarrow> nat \<Rightarrow> (u64 \<Rightarrow> u64) \<Rightarrow> bool" where
  "pt_upd s fs pt t n f \<longleftrightarrow> t = s\<lparr>mem := mem t, freelist := freelist t\<rparr> \<and> n \<le> length fs \<and>
     pt_inv t (drop n fs) pt \<and> tabs (mem t) 2 pt = tabs (mem s) 2 pt \<union> set (take n fs) \<and>
     (\<forall>q. aligned 12 q \<longrightarrow> q \<notin> tabs (mem t) 2 pt \<longrightarrow> agree (mem s) (mem t) {q}) \<and>
     (\<forall>va. va < SV39 \<longrightarrow> pte_of (mem t) 2 pt va = f va)"

lemma page_ok_frame [simp]:
  "page_ok (s\<lparr>mem := m\<rparr>) = page_ok s" "page_ok (s\<lparr>freelist := fl\<rparr>) = page_ok s"
  by (simp_all add: page_ok_def fun_eq_iff)

lemma pt_upd_frame: "pt_upd s fs pt t n f \<Longrightarrow> page_ok t = page_ok s \<and> held t = held s \<and> kend t = kend s"
proof -
  assume "pt_upd s fs pt t n f"
  then have e: "t = s\<lparr>mem := mem t, freelist := freelist t\<rparr>" by (simp add: pt_upd_def)
  show ?thesis by (subst e, simp, subst e, simp, subst e, simp)
qed

lemma pt_upd_trans:
  assumes "pt_upd s fs pt t n f" "pt_upd t (drop n fs) pt u k g"
  shows "pt_upd s fs pt u (n + k) g"
proof -
  have e: "t = s\<lparr>mem := mem t, freelist := freelist t\<rparr>" "u = t\<lparr>mem := mem u, freelist := freelist u\<rparr>"
    using assms by (auto simp: pt_upd_def)
  have "u = s\<lparr>mem := mem u, freelist := freelist u\<rparr>" by (subst e(2), subst e(1)) simp
  moreover have tb: "tabs (mem u) 2 pt = tabs (mem s) 2 pt \<union> set (take (n + k) fs)"
    using assms by (auto simp: pt_upd_def take_add)
  moreover have "agree (mem s) (mem u) {q}" if "aligned 12 q" "q \<notin> tabs (mem u) 2 pt" for q
  proof -
    have "q \<notin> tabs (mem t) 2 pt" using assms(2) that(2) by (auto simp: pt_upd_def)
    then have "agree (mem s) (mem t) {q}" "agree (mem t) (mem u) {q}"
      using assms that by (simp_all add: pt_upd_def)
    then show ?thesis by (rule agree_trans)
  qed
  moreover have "n + k \<le> length fs" "pt_inv u (drop (n + k) fs) pt"
    using assms by (auto simp: pt_upd_def add.commute)
  moreover have "\<forall>va. va < SV39 \<longrightarrow> pte_of (mem u) 2 pt va = g va" using assms(2) by (simp add: pt_upd_def)
  ultimately show ?thesis unfolding pt_upd_def by blast
qed

lemma pt_inv_store:
  assumes inv: "pt_inv s fs pt" and l: "leaf (mem s) 2 pt va = Some a" and va: "va < SV39"
  shows "pt_upd s fs pt (s\<lparr>mem := store64 (mem s) a v\<rparr>) 0
    (\<lambda>va'. if drop_bit 12 va' = drop_bit 12 va then v else pte_of (mem s) 2 pt va')"
proof -
  have wf: "wf_pt (mem s) 2 pt" and k: "kmem_inv s fs" using inv by (auto simp: pt_inv_def)
  obtain p where p: "p \<in> tabs (mem s) 2 pt" "region a 8 \<subseteq> region p 4096"
    using leaf_addr(3) [OF wf l] by blast
  have ap: "aligned 12 p" using tabs_aligned [OF wf p(1)] by simp
  have "kmem_inv (s\<lparr>mem := store64 (mem s) a v\<rparr>) fs"
    using inv p by (intro kmem_inv_store64 [OF k ap]) (auto simp: pt_inv_def)
  moreover have "agree (mem s) (store64 (mem s) a v) {q}"
    if "aligned 12 q" "q \<notin> tabs (mem s) 2 pt" for q
    using that p ap by (intro agree_store [where p = p]) auto
  ultimately show ?thesis
    using inv store_leaf [OF wf l] pte_of_store_page [OF wf l va]
    by (simp add: pt_upd_def pt_inv_def)
qed

text \<open>One round of \<open>mappages\<close>.\<close>

lemma walk_map:
  assumes inv: "pt_inv s fs pt" and a: "a < MAXVA"
  shows "\<exists>pte t n. walk pt a True s = Ok pte t \<and> pt_upd s fs pt t n (pte_of (mem s) 2 pt) \<and> n \<le> 2 \<and>
     (if pte = 0 then drop n fs = [] \<and> n < 2
      else load64 (mem t) pte = pte_of (mem s) 2 pt a \<and> leaf (mem t) 2 pt a = Some pte)"
proof -
  have k: "kmem_inv s fs" and wf: "wf_pt (mem s) 2 pt" and d: "tabs (mem s) 2 pt \<inter> set fs = {}"
    using inv by (auto simp: pt_inv_def)
  obtain pte t n where run: "walk_loop 2 pt a True s = Ok pte t" and w: "walked s fs 2 pt a pte t n"
    using walk_loop_alloc [OF k wf d] by blast
  then have e: "t = s\<lparr>mem := mem t, freelist := freelist t\<rparr>"
      and g: "pt_grow (mem s) (mem t) 2 pt (set (take n fs))" and kt: "kmem_inv t (drop n fs)"
      and n: "n \<le> 2" "n \<le> length fs"
    by (auto simp: walked_def)
  have pk: "page_ok t = page_ok s" by (subst e) simp
  have dis: "distinct fs" and pf: "\<forall>p \<in> set fs. page_ok s p" using k by (auto simp: kmem_inv_def)
  have "\<forall>p \<in> tabs (mem t) 2 pt. page_ok t p \<and> p \<notin> set (drop n fs)"
  proof
    fix p
    assume "p \<in> tabs (mem t) 2 pt"
    then consider "p \<in> tabs (mem s) 2 pt" | "p \<in> set (take n fs)" using g by (auto simp: pt_grow_def)
    then show "page_ok t p \<and> p \<notin> set (drop n fs)"
    proof cases
      case 1
      then show ?thesis using inv pk by (auto simp: pt_inv_def dest: in_set_dropD)
    next
      case 2
      then show ?thesis
        using pf pk dis set_take_disj_set_drop_if_distinct [of fs n n] by (auto dest: in_set_takeD)
    qed
  qed
  then have "pt_upd s fs pt t n (pte_of (mem s) 2 pt)"
    using e n kt g by (simp add: pt_upd_def pt_inv_def pt_grow_def)
  moreover have "load64 (mem t) pte = pte_of (mem s) 2 pt a \<and> leaf (mem t) 2 pt a = Some pte" if "pte \<noteq> 0"
  proof -
    have l: "leaf (mem t) 2 pt a = Some pte" using w that by (simp add: walked_def)
    then have "load64 (mem t) pte = pte_of (mem t) 2 pt a" by (simp add: pte_of_def)
    with l g show ?thesis by (simp add: pt_grow_def)
  qed
  moreover have "drop n fs = [] \<and> n < 2" if "pte = 0" using w that by (simp add: walked_def)
  ultimately show ?thesis using run a n by (intro exI [of _ pte] exI [of _ t] exI [of _ n]) (auto simp: walk_def)
qed

section \<open>Mapping\<close>

definition in_pages :: "u64 \<Rightarrow> nat \<Rightarrow> u64 \<Rightarrow> bool" where
  "in_pages a k va \<longleftrightarrow> unat a \<le> unat va \<and> unat va < unat a + k * 4096"

definition map_range :: "u64 \<Rightarrow> nat \<Rightarrow> u64 \<Rightarrow> u64 \<Rightarrow> (u64 \<Rightarrow> u64) \<Rightarrow> u64 \<Rightarrow> u64" where
  "map_range a k pa perm f va =
     (if in_pages a k va then PA2PTE (pa + (va - a)) OR perm OR PTE_V else f va)"

lemma unat_MAXVA: "unat MAXVA = 2 ^ 38"
  by (simp add: MAXVA_def)

lemma page_bound: "aligned 12 a \<Longrightarrow> unat a + 4096 \<le> 2 ^ 64"
proof -
  assume "aligned 12 a"
  then obtain q where q: "unat a = 4096 * q" by (auto simp: aligned_12_dvd)
  then have "4096 * q < 4096 * 2 ^ 52" using unat_u64 [of a] by simp
  then have "q < 2 ^ 52" by simp
  then show ?thesis using q by simp
qed

lemma same_page_iff: "aligned 12 a \<Longrightarrow> drop_bit 12 va = drop_bit 12 a \<longleftrightarrow> in_pages a 1 va"
  using region_aligned [of 12 a] region_nowrap [OF page_bound] by (auto simp: in_pages_def)

lemma in_pages_Suc:
  assumes "aligned 12 a" "unat a + 4096 < 2 ^ 64"
  shows "in_pages a (Suc k) va \<longleftrightarrow> drop_bit 12 va = drop_bit 12 a \<or> in_pages (a + PGSIZE) k va"
proof -
  have "unat (a + PGSIZE) = unat a + 4096"
    using assms(2) by (simp add: PGSIZE_def unat_word_ariths)
  then show ?thesis unfolding same_page_iff [OF assms(1)] by (auto simp: in_pages_def)
qed

lemma PA2PTE_offset:
  assumes "aligned 12 pa" "unat x < 4096"
  shows "PA2PTE (pa + x) = PA2PTE pa"
proof -
  have "pa + x \<in> region pa (2 ^ 12)" using assms(2) by (simp add: mem_region)
  then have "drop_bit 12 (pa + x) = drop_bit 12 pa" using region_aligned [of 12 pa] assms(1) by simp
  then show ?thesis by (simp add: PA2PTE_def)
qed

lemma drop_bit_PGROUNDDOWN: "drop_bit 12 (PGROUNDDOWN x) = drop_bit 12 x"
  unfolding PGROUNDDOWN_def mask_12 by (rule bit_word_eqI) (auto simp: bit_simps dest: bit_imp_le_length)

lemma map_range_0: "map_range a 0 pa perm f = f"
  by (auto simp: map_range_def in_pages_def fun_eq_iff)

lemma map_range_Suc:
  assumes "aligned 12 a" "aligned 12 pa" "unat a + 4096 < 2 ^ 64"
  shows "map_range a (Suc k) pa perm f va = map_range (a + PGSIZE) k (pa + PGSIZE) perm
    (\<lambda>va. if drop_bit 12 va = drop_bit 12 a then PA2PTE pa OR perm OR PTE_V else f va) va"
proof (cases "drop_bit 12 va = drop_bit 12 a")
  case True
  then have "in_pages a 1 va" using same_page_iff [OF assms(1)] by simp
  then have "unat (va - a) < 4096" "\<not> in_pages (a + PGSIZE) k va"
    using assms(3) by (auto simp: in_pages_def unat_sub_if' PGSIZE_def unat_word_ariths)
  then show ?thesis using True in_pages_Suc [OF assms(1,3)] PA2PTE_offset [OF assms(2)]
    by (simp add: map_range_def)
next
  case False
  then show ?thesis using in_pages_Suc [OF assms(1,3)]
    by (simp add: map_range_def algebra_simps)
qed

lemma aligned_add_PGSIZE: "aligned 12 a \<Longrightarrow> aligned 12 (a + PGSIZE)"
proof -
  assume "aligned 12 a"
  then have "4096 dvd (unat a + 4096) mod 2 ^ 64" by (intro dvd_mod) (auto simp: aligned_12_dvd)
  then show ?thesis by (simp add: aligned_12_dvd unat_word_ariths PGSIZE_def)
qed

lemma pt_upd_inv: "pt_upd s fs pt t n f \<Longrightarrow> pt_inv t (drop n fs) pt"
  by (simp add: pt_upd_def)

lemma pt_upd_pte: "pt_upd s fs pt t n f \<Longrightarrow> va < SV39 \<Longrightarrow> pte_of (mem t) 2 pt va = f va"
  by (simp add: pt_upd_def)

lemma pt_upd_cong:
  "pt_upd s fs pt t n f \<Longrightarrow> (\<And>va. va < SV39 \<Longrightarrow> f va = g va) \<Longrightarrow> pt_upd s fs pt t n g"
  by (simp add: pt_upd_def)

lemma mappages_loop_run:
  assumes "pt_inv s fs pt" "aligned 12 a" "aligned 12 pa" "unat a + k * 4096 \<le> 2 ^ 38" "0 < k"
    "\<forall>va. in_pages a k va \<longrightarrow> \<not> pte_valid (pte_of (mem s) 2 pt va)"
  shows "\<exists>r t n j. mappages_loop k pt a (a + of_nat (k - 1) * PGSIZE) pa perm s = Ok r t \<and>
    pt_upd s fs pt t n (map_range a j pa perm (pte_of (mem s) 2 pt)) \<and> n \<le> 2 * k \<and>
    (r = 0 \<and> j = k \<or> r = - 1 \<and> j < k \<and> drop n fs = [] \<and> n < 2 * k)"
  using assms
proof (induction k arbitrary: s fs a pa)
  case 0
  then show ?case by simp
next
  case (Suc k)
  have a: "a < MAXVA" using Suc.prems(4) by (simp add: word_less_nat_alt unat_MAXVA)
  have a2: "unat a + 4096 < 2 ^ 64" using Suc.prems(4) by simp
  let ?f = "pte_of (mem s) 2 pt"
  obtain pte t n where w: "walk pt a True s = Ok pte t" "pt_upd s fs pt t n ?f" "n \<le> 2"
      "if pte = 0 then drop n fs = [] \<and> n < 2 else load64 (mem t) pte = ?f a \<and> leaf (mem t) 2 pt a = Some pte"
    using walk_map [OF Suc.prems(1) a] by blast
  have nv: "\<not> pte_valid (?f a)" using Suc.prems(6) by (simp add: in_pages_def)
  show ?case
  proof (cases "pte = 0")
    case True
    then have "mappages_loop (Suc k) pt a (a + of_nat (Suc k - 1) * PGSIZE) pa perm s = Ok (- 1) t"
      using w(1) by (simp add: kbind_def)
    then show ?thesis using w True
      by (intro exI [of _ "- 1"] exI [of _ t] exI [of _ n] exI [of _ "0 :: nat"]) (auto simp: map_range_0)
  next
    case False
    let ?v = "PA2PTE pa OR perm OR PTE_V"
    let ?u = "t\<lparr>mem := store64 (mem t) pte ?v\<rparr>"
    let ?g = "\<lambda>va. if drop_bit 12 va = drop_bit 12 a then ?v else ?f va"
    have lf: "load64 (mem t) pte = ?f a" "leaf (mem t) 2 pt a = Some pte" using w(4) False by auto
    have "pt_upd t (drop n fs) pt ?u 0 (\<lambda>va'. if drop_bit 12 va' = drop_bit 12 a then ?v else pte_of (mem t) 2 pt va')"
      using pt_inv_store [OF pt_upd_inv [OF w(2)] lf(2) MAXVA_SV39 [OF a]] .
    then have "pt_upd t (drop n fs) pt ?u 0 ?g"
      by (rule pt_upd_cong) (simp add: pt_upd_pte [OF w(2)])
    from pt_upd_trans [OF w(2) this] have u: "pt_upd s fs pt ?u n ?g" by simp
    have run: "mappages_loop (Suc k) pt a e pa perm s =
        (if a = e then Ok 0 ?u else mappages_loop k pt (a + PGSIZE) e (pa + PGSIZE) perm ?u)" for e
      using w(1) False lf(1) nv by (simp add: kbind_def)
    show ?thesis
    proof (cases k)
      case 0
      then show ?thesis
        using run u w(3) map_range_Suc [OF Suc.prems(2,3) a2, of 0 perm ?f]
        by (intro exI [of _ "0 :: int"] exI [of _ ?u] exI [of _ n] exI [of _ "Suc 0"])
          (auto simp: map_range_0 elim: pt_upd_cong)
    next
      case (Suc k')
      have up: "unat (a + PGSIZE) = unat a + 4096" using a2 by (simp add: PGSIZE_def unat_word_ariths)
      have "unat (of_nat k * PGSIZE) = k * 4096"
        using Suc.prems(4) by (simp add: PGSIZE_def unat_word_ariths unat_of_nat)
      then have ne: "a \<noteq> a + of_nat k * PGSIZE" using Suc by (auto simp: unat_eq_zero)
      have last: "a + of_nat k * PGSIZE = (a + PGSIZE) + of_nat (k - 1) * PGSIZE"
        using Suc by (simp add: algebra_simps)
      have "\<forall>va. in_pages (a + PGSIZE) k va \<longrightarrow> \<not> pte_valid (pte_of (mem ?u) 2 pt va)"
      proof (intro allI impI)
        fix va
        assume va: "in_pages (a + PGSIZE) k va"
        then have "va < SV39" "drop_bit 12 va \<noteq> drop_bit 12 a"
          using Suc.prems(4) up same_page_iff [OF Suc.prems(2), of va]
          by (auto simp: in_pages_def word_less_nat_alt SV39_def)
        then show "\<not> pte_valid (pte_of (mem ?u) 2 pt va)"
          using Suc.prems(6) in_pages_Suc [OF Suc.prems(2) a2, of k va] va pt_upd_pte [OF u, of va] by auto
      qed
      with Suc.IH [OF pt_upd_inv [OF u] aligned_add_PGSIZE [OF Suc.prems(2)] aligned_add_PGSIZE [OF Suc.prems(3)]]
        Suc.prems(4) up Suc
      obtain r v n' j where ih: "mappages_loop k pt (a + PGSIZE) (a + PGSIZE + of_nat (k - 1) * PGSIZE) (pa + PGSIZE) perm ?u = Ok r v"
          "pt_upd ?u (drop n fs) pt v n' (map_range (a + PGSIZE) j (pa + PGSIZE) perm (pte_of (mem ?u) 2 pt))"
          "n' \<le> 2 * k" "r = 0 \<and> j = k \<or> r = - 1 \<and> j < k \<and> drop n' (drop n fs) = [] \<and> n' < 2 * k"
        by auto
      have "pt_upd s fs pt v (n + n') (map_range a (Suc j) pa perm ?f)"
      proof (rule pt_upd_cong [OF pt_upd_trans [OF u ih(2)]])
        fix va
        assume "va < SV39"
        then show "map_range (a + PGSIZE) j (pa + PGSIZE) perm (pte_of (mem ?u) 2 pt) va = map_range a (Suc j) pa perm ?f va"
          unfolding map_range_Suc [OF Suc.prems(2,3) a2]
          using pt_upd_pte [OF u, of va] by (simp add: map_range_def)
      qed
      moreover have "mappages_loop (Suc k) pt a (a + of_nat (Suc k - 1) * PGSIZE) pa perm s = Ok r v"
        using ih(1) ne unfolding run diff_Suc_1 last [symmetric] by simp
      ultimately show ?thesis using ih(3,4) w(3)
        by (intro exI [of _ r] exI [of _ v] exI [of _ "n + n'"] exI [of _ "Suc j"]) (auto simp: add.commute)
    qed
  qed
qed

text \<open>\<open>mappages\<close> maps a range that is not mapped yet, or runs out of memory after a part of it.\<close>

lemma mappages_run:
  assumes "pt_inv s fs pt" "aligned 12 va" "aligned 12 pa" "unat va + k * 4096 \<le> 2 ^ 38" "0 < k"
    "\<forall>a. in_pages va k a \<longrightarrow> \<not> pte_valid (pte_of (mem s) 2 pt a)"
  shows "\<exists>r t n j. mappages pt va (of_nat k * PGSIZE) pa perm s = Ok r t \<and>
    pt_upd s fs pt t n (map_range va j pa perm (pte_of (mem s) 2 pt)) \<and> n \<le> 2 * k \<and>
    (r = 0 \<and> j = k \<or> r = - 1 \<and> j < k \<and> drop n fs = [] \<and> n < 2 * k)"
proof -
  have u: "unat (of_nat k * PGSIZE) = k * 4096"
    using assms(4) by (simp add: PGSIZE_def unat_word_ariths unat_of_nat)
  have al: "of_nat k * PGSIZE mod PGSIZE = 0" unfolding mod_PGSIZE using u by (simp add: aligned_12_dvd)
  have nz: "of_nat k * PGSIZE \<noteq> 0" using u assms(5) by (metis mult_is_0 neq0_conv unsigned_0 zero_neq_numeral)
  have e: "va + of_nat k * PGSIZE - PGSIZE = va + of_nat (k - 1) * PGSIZE"
    using assms(5) by (cases k) (simp_all add: algebra_simps)
  have "mappages pt va (of_nat k * PGSIZE) pa perm s =
      mappages_loop k pt va (va + of_nat (k - 1) * PGSIZE) pa perm s"
    unfolding e [symmetric] using assms(2) mod_PGSIZE [of va] al nz u by (simp add: mappages_def)
  then show ?thesis using mappages_loop_run [OF assms] by simp
qed

lemma mappages_page:
  assumes "pt_inv s fs pt" "aligned 12 va" "aligned 12 pa" "va < MAXVA"
    "\<not> pte_valid (pte_of (mem s) 2 pt va)"
  shows "\<exists>r t n. mappages pt va PGSIZE pa perm s = Ok r t \<and> n \<le> 2 \<and>
    (r = 0 \<and> pt_upd s fs pt t n (\<lambda>a. if drop_bit 12 a = drop_bit 12 va then PA2PTE pa OR perm OR PTE_V
       else pte_of (mem s) 2 pt a) \<or>
     r = - 1 \<and> pt_upd s fs pt t n (pte_of (mem s) 2 pt) \<and> drop n fs = [] \<and> n < 2)"
proof -
  have b: "unat va + 1 * 4096 \<le> 2 ^ 38"
  proof -
    obtain q where q: "unat va = 4096 * q" using assms(2) by (auto simp: aligned_12_dvd)
    have "unat va < 2 ^ 38" using assms(4) by (simp add: word_less_nat_alt unat_MAXVA)
    then show ?thesis using q by simp
  qed
  have f: "\<forall>a. in_pages va 1 a \<longrightarrow> \<not> pte_valid (pte_of (mem s) 2 pt a)"
    using same_page_iff [OF assms(2)] same_page_leaf [of _ va "mem s" 2 pt] assms(5)
    by (simp add: pte_of_def)
  obtain r t n j where m: "mappages pt va (of_nat 1 * PGSIZE) pa perm s = Ok r t"
      "pt_upd s fs pt t n (map_range va j pa perm (pte_of (mem s) 2 pt))" "n \<le> 2 * 1"
      "r = 0 \<and> j = 1 \<or> r = - 1 \<and> j < 1 \<and> drop n fs = [] \<and> n < 2 * 1"
    using mappages_run [OF assms(1-3) b zero_less_one f, of perm] by blast
  have "map_range va 1 pa perm g = (\<lambda>a. if drop_bit 12 a = drop_bit 12 va then PA2PTE pa OR perm OR PTE_V
       else g a)" for g
    using map_range_Suc [OF assms(2,3), of 0 perm g] b by (auto simp: map_range_0 fun_eq_iff)
  then show ?thesis using m by (auto simp: map_range_0)
qed

section \<open>User pages\<close>

definition vpage :: "nat \<Rightarrow> u64" where "vpage i = of_nat i * PGSIZE"
definition upte :: "memory \<Rightarrow> u64 \<Rightarrow> nat \<Rightarrow> u64" where "upte m pt i = pte_of m 2 pt (vpage i)"
definition upage :: "memory \<Rightarrow> u64 \<Rightarrow> nat \<Rightarrow> u64" where "upage m pt i = PTE2PA (upte m pt i)"

text \<open>The address space owns the user pages numbered \<open>S\<close>, each on a page of its own, and has
  nothing mapped at the pages \<open>Z\<close>.\<close>

definition uvm :: "'z kmem_scheme \<Rightarrow> u64 list \<Rightarrow> u64 \<Rightarrow> nat set \<Rightarrow> nat set \<Rightarrow> bool" where
  "uvm s fs pt S Z \<longleftrightarrow> pt_inv s fs pt \<and> S \<subseteq> {..<2 ^ 26} \<and> Z \<subseteq> {..<2 ^ 27} \<and>
     (\<forall>i \<in> S. pte_valid (upte (mem s) pt i) \<and> PTE_FLAGS (upte (mem s) pt i) \<noteq> PTE_V \<and>
        page_ok s (upage (mem s) pt i) \<and> upage (mem s) pt i \<notin> set fs \<union> tabs (mem s) 2 pt) \<and>
     inj_on (upage (mem s) pt) S \<and> (\<forall>i \<in> Z. \<not> pte_valid (upte (mem s) pt i))"

text \<open>The entries of all pages but those numbered \<open>C\<close>, and the contents of the pages \<open>S\<close>, are kept.\<close>

definition ukeep :: "memory \<Rightarrow> memory \<Rightarrow> u64 \<Rightarrow> nat set \<Rightarrow> nat set \<Rightarrow> bool" where
  "ukeep m m' pt S C \<longleftrightarrow> (\<forall>i < 2 ^ 27. i \<notin> C \<longrightarrow> upte m' pt i = upte m pt i) \<and>
     (\<forall>i \<in> S. agree m m' {upage m pt i})"

lemma unat_vpage: "i \<le> 2 ^ 27 \<Longrightarrow> unat (vpage i) = i * 4096"
  by (simp add: vpage_def PGSIZE_def unat_word_ariths unat_of_nat)

lemma vpage_MAXVA: "i < 2 ^ 26 \<Longrightarrow> vpage i < MAXVA"
  by (simp add: word_less_nat_alt unat_vpage unat_MAXVA)

lemma vpage_SV39: "i < 2 ^ 27 \<Longrightarrow> vpage i < SV39"
  by (simp add: word_less_nat_alt unat_vpage SV39_def)

lemma aligned_vpage: "i \<le> 2 ^ 27 \<Longrightarrow> aligned 12 (vpage i)"
  by (simp add: aligned_12_dvd unat_vpage)

lemma vpage_Suc: "vpage i + PGSIZE = vpage (Suc i)"
  by (simp add: vpage_def algebra_simps)

lemma vpage_same:
  assumes "i < 2 ^ 27" "j < 2 ^ 27"
  shows "drop_bit 12 (vpage i) = drop_bit 12 (vpage j) \<longleftrightarrow> i = j"
  using same_page_iff [of "vpage j" "vpage i"] aligned_vpage [of j] unat_vpage [of i] unat_vpage [of j] assms
  by (auto simp: in_pages_def)

lemma vpage_less: "i \<le> 2 ^ 27 \<Longrightarrow> j \<le> 2 ^ 27 \<Longrightarrow> vpage i < vpage j \<longleftrightarrow> i < j"
  by (simp add: word_less_nat_alt unat_vpage)

lemma ukeep_refl: "ukeep m m pt S C"
  by (simp add: ukeep_def)

lemma ukeep_trans:
  assumes "ukeep m m' pt S C" "ukeep m' m'' pt S D" "S \<subseteq> {..<2 ^ 26}" "S \<inter> C = {}"
  shows "ukeep m m'' pt S (C \<union> D)"
proof -
  have "upage m' pt i = upage m pt i" if "i \<in> S" for i
  proof -
    have "i < 2 ^ 26" "i \<notin> C" using assms(3,4) that by auto
    then show ?thesis using assms(1) by (simp add: ukeep_def upage_def)
  qed
  then have "agree m m'' {upage m pt i}" if "i \<in> S" for i
    using assms(1,2) that agree_trans by (fastforce simp: ukeep_def)
  then show ?thesis using assms(1,2) by (simp add: ukeep_def)
qed

lemma ukeep_mono: "ukeep m m' pt S C \<Longrightarrow> T \<subseteq> S \<Longrightarrow> C \<subseteq> D \<Longrightarrow> ukeep m m' pt T D"
  by (auto simp: ukeep_def)

text \<open>Giving a page that holds no table back to the allocator.\<close>

lemma pt_inv_kfree:
  assumes inv: "pt_inv s fs pt" and pg: "page_ok s pg" "pg \<notin> set fs" "pg \<notin> tabs (mem s) 2 pt"
  defines "t \<equiv> s\<lparr>mem := store64 (mem s) pg (freelist s), freelist := pg\<rparr>"
  shows "kfree pg s = Ok () t" "pt_inv t (pg # fs) pt" "tabs (mem t) 2 pt = tabs (mem s) 2 pt"
    "leaf (mem t) 2 pt va = leaf (mem s) 2 pt va" "pte_of (mem t) 2 pt va = pte_of (mem s) 2 pt va"
    "aligned 12 q \<Longrightarrow> q \<noteq> pg \<Longrightarrow> agree (mem s) (mem t) {q}"
proof -
  have k: "kmem_inv s fs" and wf: "wf_pt (mem s) 2 pt" using inv by (auto simp: pt_inv_def)
  have ap: "aligned 12 pg" using pg(1) by (simp add: page_ok_def)
  have ag: "agree (mem s) (mem t) P" if "\<forall>q \<in> P. aligned 12 q" "pg \<notin> P" for P
    unfolding t_def using that ap page_first_word [of pg] by (simp add: agree_store)
  have at: "agree (mem s) (mem t) (tabs (mem s) 2 pt)" using ag pg(3) tabs_aligned [OF wf] by blast
  note fr = tabs_frame [OF wf at]
  show "kfree pg s = Ok () t" using kfree_run [OF pg(1)] k by (simp add: t_def kmem_inv_def)
  show tb: "tabs (mem t) 2 pt = tabs (mem s) 2 pt" using fr by blast
  show "leaf (mem t) 2 pt va = leaf (mem s) 2 pt va" using fr by blast
  show "pte_of (mem t) 2 pt va = pte_of (mem s) 2 pt va" by (rule pte_of_frame [OF wf at])
  have "kmem_inv t (pg # fs)" unfolding t_def by (rule kmem_inv_kfree [OF k pg(1,2)])
  then show "pt_inv t (pg # fs) pt"
    using inv pg fr tb by (auto simp: pt_inv_def t_def)
  show "aligned 12 q \<Longrightarrow> q \<noteq> pg \<Longrightarrow> agree (mem s) (mem t) {q}" using ag [of "{q}"] by simp
qed

section \<open>Unmapping\<close>

lemma uvm_leaf:
  assumes "uvm s fs pt S Z" "i \<in> S"
  shows "\<exists>a. leaf (mem s) 2 pt (vpage i) = Some a \<and> a \<noteq> 0 \<and> load64 (mem s) a = upte (mem s) pt i \<and>
    walk pt (vpage i) False s = Ok a s"
proof -
  have i: "i < 2 ^ 26" and wf: "wf_pt (mem s) 2 pt" and v: "pte_valid (upte (mem s) pt i)"
    using assms by (auto simp: uvm_def pt_inv_def)
  then obtain a where a: "leaf (mem s) 2 pt (vpage i) = Some a"
    by (cases "leaf (mem s) 2 pt (vpage i)") (auto simp: upte_def pte_of_def)
  then show ?thesis
    using leaf_addr(2) [OF wf a] walk_find [OF vpage_MAXVA [OF i], of pt s]
    by (simp add: upte_def pte_of_def)
qed

lemma uvm_unmap1:
  assumes uvm: "uvm s fs pt (insert i S) Z" and iS: "i \<notin> S" "i \<notin> Z"
    and a: "leaf (mem s) 2 pt (vpage i) = Some a"
  defines "pg \<equiv> upage (mem s) pt i"
  shows "\<exists>t. kfree pg s = Ok () t \<and> uvm (t\<lparr>mem := store64 (mem t) a 0\<rparr>) (pg # fs) pt S (insert i Z) \<and>
    ukeep (mem s) (store64 (mem t) a 0) pt S {i} \<and> tabs (store64 (mem t) a 0) 2 pt = tabs (mem s) 2 pt \<and>
    (\<forall>q. aligned 12 q \<longrightarrow> q \<notin> tabs (mem s) 2 pt \<longrightarrow> q \<noteq> pg \<longrightarrow> agree (mem s) (store64 (mem t) a 0) {q}) \<and>
    t = s\<lparr>mem := mem t, freelist := freelist t\<rparr>"
proof -
  have inv: "pt_inv s fs pt" and S: "S \<subseteq> {..<2 ^ 26}" "i < 2 ^ 26" "Z \<subseteq> {..<2 ^ 27}"
    and pg: "page_ok s pg" "pg \<notin> set fs" "pg \<notin> tabs (mem s) 2 pt"
    and pS: "\<And>j. j \<in> S \<Longrightarrow> page_ok s (upage (mem s) pt j) \<and> upage (mem s) pt j \<noteq> pg"
    using uvm iS unfolding pg_def by (auto simp: uvm_def inj_on_def)
  obtain t where t: "kfree pg s = Ok () t" "pt_inv t (pg # fs) pt" "tabs (mem t) 2 pt = tabs (mem s) 2 pt"
      "leaf (mem t) 2 pt (vpage i) = Some a" "\<And>va. pte_of (mem t) 2 pt va = pte_of (mem s) 2 pt va"
      "\<And>q. aligned 12 q \<Longrightarrow> q \<noteq> pg \<Longrightarrow> agree (mem s) (mem t) {q}"
      "t = s\<lparr>mem := mem t, freelist := freelist t\<rparr>"
    using pt_inv_kfree [OF inv pg] a by auto
  let ?u = "t\<lparr>mem := store64 (mem t) a 0\<rparr>"
  have i27: "i < 2 ^ 27" using S(2) by simp
  note u = pt_inv_store [OF t(2,4) vpage_SV39 [OF i27], of 0]
  have upte: "upte (store64 (mem t) a 0) pt j = (if j = i then 0 else upte (mem s) pt j)"
    if "j < 2 ^ 27" for j
    using pt_upd_pte [OF u vpage_SV39 [OF that]] vpage_same [OF that i27] t(5) by (simp add: upte_def)
  have tb: "tabs (store64 (mem t) a 0) 2 pt = tabs (mem s) 2 pt" using u t(3) by (simp add: pt_upd_def)
  have kp: "ukeep (mem s) (store64 (mem t) a 0) pt S {i}"
  proof -
    have "agree (mem s) (store64 (mem t) a 0) {upage (mem s) pt j}" if "j \<in> S" for j
    proof -
      have q: "aligned 12 (upage (mem s) pt j)" "upage (mem s) pt j \<notin> tabs (mem s) 2 pt"
        using uvm that pS by (auto simp: uvm_def upage_def)
      then have "agree (mem t) (store64 (mem t) a 0) {upage (mem s) pt j}"
        using u tb by (simp add: pt_upd_def)
      then show ?thesis using t(6) [OF q(1)] pS [OF that] agree_trans by blast
    qed
    then show ?thesis using upte by (auto simp: ukeep_def)
  qed
  have up: "upte (store64 (mem t) a 0) pt j = upte (mem s) pt j"
      "upage (store64 (mem t) a 0) pt j = upage (mem s) pt j" if "j \<in> S" for j
    using upte [of j] that subsetD [OF S(1), of j] iS(1) by (auto simp: upage_def)
  have pk: "page_ok t = page_ok s" by (subst t(7)) simp
  have "uvm ?u (pg # fs) pt S (insert i Z)"
    unfolding uvm_def
  proof (intro conjI)
    show "pt_inv ?u (pg # fs) pt" using pt_upd_inv [OF u] by simp
    show "inj_on (upage (mem ?u) pt) S"
      using uvm up(2) by (auto simp: uvm_def inj_on_def)
    show "\<forall>j \<in> S. pte_valid (upte (mem ?u) pt j) \<and> PTE_FLAGS (upte (mem ?u) pt j) \<noteq> PTE_V \<and>
        page_ok ?u (upage (mem ?u) pt j) \<and> upage (mem ?u) pt j \<notin> set (pg # fs) \<union> tabs (mem ?u) 2 pt"
      using uvm up pS tb pk by (simp add: uvm_def)
    show "\<forall>j \<in> insert i Z. \<not> pte_valid (upte (mem ?u) pt j)"
      using uvm upte S iS(2) by (auto simp: uvm_def)
  qed (use S in auto)
  moreover have "agree (mem s) (store64 (mem t) a 0) {q}"
    if "aligned 12 q" "q \<notin> tabs (mem s) 2 pt" "q \<noteq> pg" for q
  proof (rule agree_trans [OF t(6) [OF that(1,3)]])
    show "agree (mem t) (store64 (mem t) a 0) {q}" using u that tb by (simp add: pt_upd_def)
  qed
  ultimately show ?thesis using t kp tb by blast
qed

lemma uvmunmap_loop_run:
  assumes "uvm s fs pt (S \<union> {i..<j}) Z" "S \<inter> {i..<j} = {}" "Z \<inter> {i..<j} = {}" "i \<le> j" "j \<le> 2 ^ 26" "j - i < k"
  shows "\<exists>t. uvmunmap_loop k pt (vpage i) (vpage j) True s = Ok () t \<and>
    uvm t (rev (map (upage (mem s) pt) [i..<j]) @ fs) pt S (Z \<union> {i..<j}) \<and>
    ukeep (mem s) (mem t) pt S {i..<j} \<and> tabs (mem t) 2 pt = tabs (mem s) 2 pt \<and>
    (\<forall>q. aligned 12 q \<longrightarrow> q \<notin> tabs (mem s) 2 pt \<union> upage (mem s) pt ` {i..<j} \<longrightarrow> agree (mem s) (mem t) {q}) \<and>
    t = s\<lparr>mem := mem t, freelist := freelist t\<rparr>"
  using assms
proof (induction k arbitrary: s fs i Z)
  case 0
  then show ?case by simp
next
  case (Suc k)
  show ?case
  proof (cases "i = j")
    case True
    then show ?thesis using Suc.prems by (auto simp: vpage_less intro: ukeep_refl)
  next
    case False
    let ?T = "S \<union> {Suc i..<j}" and ?pg = "upage (mem s) pt i"
    have ij: "i < j" "{i..<j} = insert i {Suc i..<j}" using False Suc.prems(4) by auto
    then have e: "S \<union> {i..<j} = insert i ?T" "i \<notin> ?T" "i \<notin> Z" using Suc.prems(2,3) by auto
    note uvm = Suc.prems(1) [unfolded e(1)]
    obtain a where a: "leaf (mem s) 2 pt (vpage i) = Some a" "a \<noteq> 0" "load64 (mem s) a = upte (mem s) pt i"
        "walk pt (vpage i) False s = Ok a s"
      using uvm_leaf [OF uvm] by blast
    have v: "pte_valid (upte (mem s) pt i)" "PTE_FLAGS (upte (mem s) pt i) \<noteq> PTE_V"
      using uvm by (auto simp: uvm_def)
    obtain t where t: "kfree ?pg s = Ok () t" "uvm (t\<lparr>mem := store64 (mem t) a 0\<rparr>) (?pg # fs) pt ?T (insert i Z)"
        "ukeep (mem s) (store64 (mem t) a 0) pt ?T {i}" "tabs (store64 (mem t) a 0) 2 pt = tabs (mem s) 2 pt"
        "t = s\<lparr>mem := mem t, freelist := freelist t\<rparr>"
        "\<And>q. aligned 12 q \<Longrightarrow> q \<notin> tabs (mem s) 2 pt \<Longrightarrow> q \<noteq> ?pg \<Longrightarrow> agree (mem s) (store64 (mem t) a 0) {q}"
      using uvm_unmap1 [OF uvm e(2,3) a(1)] by blast
    let ?u = "t\<lparr>mem := store64 (mem t) a 0\<rparr>"
    have run: "uvmunmap_loop (Suc k) pt (vpage i) (vpage j) True s = uvmunmap_loop k pt (vpage (Suc i)) (vpage j) True ?u"
      using a v t(1) vpage_less [of i j] ij(1) Suc.prems(5)
      by (simp add: kbind_def kseq_def vpage_Suc upage_def)
    have "S \<inter> {Suc i..<j} = {}" "insert i Z \<inter> {Suc i..<j} = {}" "Suc i \<le> j" "j - Suc i < k"
      using Suc.prems ij by auto
    from Suc.IH [OF t(2) this(1-3) Suc.prems(5) this(4)]
    obtain w where w: "uvmunmap_loop k pt (vpage (Suc i)) (vpage j) True ?u = Ok () w"
        "uvm w (rev (map (upage (mem ?u) pt) [Suc i..<j]) @ ?pg # fs) pt S (insert i Z \<union> {Suc i..<j})"
        "ukeep (mem ?u) (mem w) pt S {Suc i..<j}" "tabs (mem w) 2 pt = tabs (mem ?u) 2 pt"
        "w = ?u\<lparr>mem := mem w, freelist := freelist w\<rparr>"
        "\<And>q. aligned 12 q \<Longrightarrow> q \<notin> tabs (mem ?u) 2 pt \<union> upage (mem ?u) pt ` {Suc i..<j} \<Longrightarrow> agree (mem ?u) (mem w) {q}"
      by blast
    have S26: "?T \<subseteq> {..<2 ^ 26}" using uvm by (auto simp: uvm_def)
    have "upage (mem ?u) pt l = upage (mem s) pt l" if "l \<in> {Suc i..<j}" for l
      using t(3) that S26 by (auto simp: ukeep_def upage_def)
    then have im: "upage (mem ?u) pt ` {Suc i..<j} = upage (mem s) pt ` {Suc i..<j}"
      and "map (upage (mem ?u) pt) [Suc i..<j] = map (upage (mem s) pt) [Suc i..<j]" by simp_all
    then have fl: "rev (map (upage (mem ?u) pt) [Suc i..<j]) @ ?pg # fs = rev (map (upage (mem s) pt) [i..<j]) @ fs"
      using ij(1) by (simp add: upt_conv_Cons)
    have "ukeep (mem s) (mem w) pt S ({i} \<union> {Suc i..<j})"
      using t(3) w(3) S26 e(2) by (intro ukeep_trans [of _ "mem ?u"]) (auto elim: ukeep_mono)
    moreover have "w = s\<lparr>mem := mem w, freelist := freelist w\<rparr>" by (subst w(5), subst t(5)) simp
    moreover have "uvm w (rev (map (upage (mem s) pt) [i..<j]) @ fs) pt S (Z \<union> {i..<j})"
      using w(2) unfolding fl ij(2) by simp
    moreover have "agree (mem s) (mem w) {q}"
      if "aligned 12 q" "q \<notin> tabs (mem s) 2 pt \<union> upage (mem s) pt ` {i..<j}" for q
    proof (rule agree_trans [of "mem s" "mem ?u"])
      show "agree (mem s) (mem ?u) {q}" using t(6) [OF that(1)] that(2) ij(2) by simp
      show "agree (mem ?u) (mem w) {q}" using w(6) [OF that(1)] that(2) ij(2) t(4) im by simp
    qed
    ultimately show ?thesis using run w(1,4) t(4) ij(2) by simp
  qed
qed

text \<open>The number of pages that \<open>sz\<close> bytes take.\<close>

definition npg :: "u64 \<Rightarrow> nat" where "npg sz = (unat sz + 4095) div 4096"

lemma npg_le: "unat sz \<le> 2 ^ 38 \<Longrightarrow> npg sz \<le> 2 ^ 26"
proof -
  assume "unat sz \<le> 2 ^ 38"
  then have "unat sz + 4095 < (2 ^ 26 + 1) * 4096" by simp
  then have "npg sz < 2 ^ 26 + 1" unfolding npg_def by (rule less_mult_imp_div_less)
  then show ?thesis by simp
qed

lemma PGROUNDUP_vpage: "unat sz \<le> 2 ^ 38 \<Longrightarrow> PGROUNDUP sz = vpage (npg sz)"
  using unat_vpage [of "npg sz"] npg_le [of sz] unat_PGROUNDUP [of sz] by (simp add: word_unat_eq_iff npg_def)

lemma npg_mono: "a \<le> b \<Longrightarrow> npg a \<le> npg b"
  by (simp add: npg_def word_le_nat_alt div_le_mono)

lemma vpage_diff: "i \<le> j \<Longrightarrow> j \<le> 2 ^ 26 \<Longrightarrow> vpage j - vpage i = of_nat (j - i) * PGSIZE"
  by (simp add: vpage_def of_nat_diff algebra_simps)

lemma pages_div: "n \<le> 2 ^ 26 \<Longrightarrow> (of_nat n * PGSIZE) div PGSIZE = (of_nat n :: u64)"
proof -
  assume n: "n \<le> 2 ^ 26"
  have u: "unat (of_nat n * PGSIZE) = n * 4096" using unat_vpage [of n] n by (simp add: vpage_def)
  have "unat ((of_nat n * PGSIZE) div PGSIZE) = n" by (simp add: unat_div u) (simp add: PGSIZE_def)
  moreover have "unat (of_nat n :: u64) = n" using n by (simp add: unat_of_nat64)
  ultimately show ?thesis by (simp add: word_unat_eq_iff)
qed

lemma scast_pages:
  assumes "n \<le> 2 ^ 26"
  shows "scast (ucast (of_nat n :: u64) :: 32 word) = (of_nat n :: u64)"
proof -
  have s: "sint (of_nat n :: 32 word) = int n"
    using assms by (simp add: signed_of_nat signed_take_bit_int_eq_self_iff take_bit_int_eq_self_iff)
  have "(ucast (of_nat n :: u64) :: 32 word) = of_nat n"
    using assms by (intro word_unat_eq_iff [THEN iffD2]) (simp add: unat_of_nat take_bit_nat_eq_self unsigned_ucast_eq)
  moreover have "scast (of_nat n :: 32 word) = (of_int (sint (of_nat n :: 32 word)) :: u64)" by simp
  ultimately show ?thesis unfolding s by simp
qed

lemma uvmunmap_run:
  assumes "uvm s fs pt (S \<union> {i..<j}) Z" "S \<inter> {i..<j} = {}" "Z \<inter> {i..<j} = {}" "i \<le> j" "j \<le> 2 ^ 26"
  shows "\<exists>t. uvmunmap pt (vpage i) (of_nat (j - i)) True s = Ok () t \<and>
    uvm t (rev (map (upage (mem s) pt) [i..<j]) @ fs) pt S (Z \<union> {i..<j}) \<and>
    ukeep (mem s) (mem t) pt S {i..<j} \<and> tabs (mem t) 2 pt = tabs (mem s) 2 pt \<and>
    (\<forall>q. aligned 12 q \<longrightarrow> q \<notin> tabs (mem s) 2 pt \<union> upage (mem s) pt ` {i..<j} \<longrightarrow> agree (mem s) (mem t) {q}) \<and>
    t = s\<lparr>mem := mem t, freelist := freelist t\<rparr>"
proof -
  have e: "vpage i + of_nat (j - i) * PGSIZE = vpage j" using vpage_diff [OF assms(4,5)] by (simp add: algebra_simps)
  have d: "unat (vpage j - vpage i) div 4096 = j - i"
    using unat_vpage [of "j - i"] vpage_diff [OF assms(4,5)] assms(4,5) by (simp add: vpage_def)
  have "vpage i mod PGSIZE = 0" using aligned_vpage [of i] assms(4,5) by (simp add: mod_PGSIZE)
  then have "uvmunmap pt (vpage i) (of_nat (j - i)) True s = uvmunmap_loop (Suc (j - i)) pt (vpage i) (vpage j) True s"
    unfolding uvmunmap_def e d Let_def by (simp del: uvmunmap_loop.simps)
  then show ?thesis using uvmunmap_loop_run [OF assms, of "Suc (j - i)"] by simp
qed

lemma uvmdealloc_run:
  assumes uvm: "uvm s fs pt (S \<union> {npg newsz..<npg oldsz}) Z" and "S \<inter> {npg newsz..<npg oldsz} = {}"
    "Z \<inter> {npg newsz..<npg oldsz} = {}" and le: "newsz \<le> oldsz" "unat oldsz \<le> 2 ^ 38"
  shows "\<exists>t. uvmdealloc pt oldsz newsz s = Ok newsz t \<and>
    uvm t (rev (map (upage (mem s) pt) [npg newsz..<npg oldsz]) @ fs) pt S (Z \<union> {npg newsz..<npg oldsz}) \<and>
    ukeep (mem s) (mem t) pt S {npg newsz..<npg oldsz} \<and> tabs (mem t) 2 pt = tabs (mem s) 2 pt \<and>
    t = s\<lparr>mem := mem t, freelist := freelist t\<rparr>"
proof -
  let ?i = "npg newsz" and ?j = "npg oldsz"
  have ij: "?i \<le> ?j" "?j \<le> 2 ^ 26" using npg_mono [OF le(1)] npg_le [OF le(2)] .
  have nz: "unat newsz \<le> 2 ^ 38" using le by (simp add: word_le_nat_alt)
  show ?thesis
  proof (cases "?i = ?j")
    case True
    have "uvmdealloc pt oldsz newsz s = Ok newsz s"
      using True le nz by (auto simp: uvmdealloc_def PGROUNDUP_vpage kseq_def kbind_def)
    then show ?thesis using uvm True by (auto intro: ukeep_refl)
  next
    case False
    then have lt: "newsz < oldsz" "vpage ?i < vpage ?j" using le(1) ij vpage_less [of ?i ?j] by (auto simp: order.strict_iff_order)
    have "(vpage ?j - vpage ?i) div PGSIZE = of_nat (?j - ?i)"
      using vpage_diff [OF ij] pages_div [of "?j - ?i"] ij by simp
    then have "uvmdealloc pt oldsz newsz s = kseq (uvmunmap pt (vpage ?i) (of_nat (?j - ?i)) True) (kreturn newsz) s"
      using lt(2) nz le(2) scast_pages [of "?j - ?i"] ij
      unfolding uvmdealloc_def if_not_P [OF not_le [THEN iffD2, OF lt(1)]] by (simp add: PGROUNDUP_vpage Let_def)
    then show ?thesis using uvmunmap_run [OF assms(1-3) ij] by (auto simp: kseq_def kbind_def)
  qed
qed

section \<open>Mapping a new user page\<close>

lemma uvm_upage:
  "uvm s fs pt S Z \<Longrightarrow> i \<in> S \<Longrightarrow> aligned 12 (upage (mem s) pt i) \<and> page_ok s (upage (mem s) pt i) \<and>
   upage (mem s) pt i \<notin> set fs \<and> upage (mem s) pt i \<notin> tabs (mem s) 2 pt"
  by (simp add: uvm_def upage_def)

text \<open>A state in which only the page \<open>pg\<close>, just taken from the free list, has changed.\<close>

lemma uvm_alloc:
  assumes uvm: "uvm s (pg # fs) pt S Z" and k: "kmem_inv s' fs"
    and e: "s' = s\<lparr>mem := mem s', freelist := freelist s'\<rparr>"
    and ag: "\<And>q. aligned 12 q \<Longrightarrow> q \<noteq> pg \<Longrightarrow> agree (mem s) (mem s') {q}"
  shows "uvm s' fs pt S Z" "page_ok s' pg" "pg \<notin> set fs \<union> tabs (mem s') 2 pt \<union> upage (mem s') pt ` S"
    "tabs (mem s') 2 pt = tabs (mem s) 2 pt" "ukeep (mem s) (mem s') pt S {}"
proof -
  have inv: "pt_inv s (pg # fs) pt" and wf: "wf_pt (mem s) 2 pt" using uvm by (auto simp: uvm_def pt_inv_def)
  have at: "agree (mem s) (mem s') (tabs (mem s) 2 pt)"
  proof (rule agree_pages)
    fix q
    assume "q \<in> tabs (mem s) 2 pt"
    then show "agree (mem s) (mem s') {q}"
      using ag tabs_aligned [OF wf] inv by (auto simp: pt_inv_def)
  qed
  note fr = tabs_frame [OF wf at]
  have pk: "page_ok s' = page_ok s" by (subst e) simp
  have up: "upte (mem s') pt i = upte (mem s) pt i" "upage (mem s') pt i = upage (mem s) pt i" for i
    using pte_of_frame [OF wf at] by (simp_all add: upte_def upage_def)
  show tb: "tabs (mem s') 2 pt = tabs (mem s) 2 pt" using fr by blast
  have d: "pg \<notin> set fs" "page_ok s pg" using inv by (auto simp: pt_inv_def kmem_inv_def)
  show "page_ok s' pg" using d pk by simp
  show "pg \<notin> set fs \<union> tabs (mem s') 2 pt \<union> upage (mem s') pt ` S"
    using uvm inv d tb up by (auto simp: uvm_def pt_inv_def)
  show "uvm s' fs pt S Z"
    using uvm k fr pk up tb by (auto simp: uvm_def pt_inv_def inj_on_def)
  show "ukeep (mem s) (mem s') pt S {}"
    using up uvm_upage [OF uvm] ag by (auto simp: ukeep_def)
qed

text \<open>All pages the address space and the allocator have between them.\<close>

definition uvm_pages :: "memory \<Rightarrow> u64 list \<Rightarrow> u64 \<Rightarrow> nat set \<Rightarrow> u64 set" where
  "uvm_pages m fs pt S = set fs \<union> tabs m 2 pt \<union> upage m pt ` S"

lemma ukeep_upage: "ukeep m m' pt S C \<Longrightarrow> i < 2 ^ 27 \<Longrightarrow> i \<notin> C \<Longrightarrow> upage m' pt i = upage m pt i"
  by (simp add: ukeep_def upage_def)

lemma uvm_fewer: "uvm s fs pt S Z \<Longrightarrow> Z' \<subseteq> Z \<Longrightarrow> uvm s fs pt S Z'"
  by (auto simp: uvm_def)

lemma uvm_range: "uvm s fs pt S Z \<Longrightarrow> S \<subseteq> {..<2 ^ 26}"
  by (simp add: uvm_def)

lemma ukeep_image:
  assumes "ukeep m m' pt S C" "T \<subseteq> {..<2 ^ 26}" "T \<inter> C = {}"
  shows "upage m' pt ` T = upage m pt ` T"
proof (rule image_cong [OF refl])
  fix i
  assume "i \<in> T"
  then have "i < 2 ^ 27" "i \<notin> C" using assms(2,3) by auto
  then show "upage m' pt i = upage m pt i" by (rule ukeep_upage [OF assms(1)])
qed

lemma uvm_map1:
  assumes uvm: "uvm s fs pt S (insert i Z)" and i: "i \<notin> S" "i \<notin> Z" and i26: "i < 2 ^ 26"
    and pg: "page_ok s pg" "pg \<notin> set fs \<union> tabs (mem s) 2 pt \<union> upage (mem s) pt ` S"
    and perm: "perm OR PTE_V < 1024" "perm OR PTE_V \<noteq> PTE_V"
  shows "\<exists>r t n. mappages pt (vpage i) PGSIZE pg perm s = Ok r t \<and> n \<le> length fs \<and> n \<le> 2 \<and>
    t = s\<lparr>mem := mem t, freelist := freelist t\<rparr> \<and> tabs (mem t) 2 pt = tabs (mem s) 2 pt \<union> set (take n fs) \<and>
    agree (mem s) (mem t) {pg} \<and> (\<forall>q. aligned 12 q \<longrightarrow> q \<notin> tabs (mem t) 2 pt \<longrightarrow> agree (mem s) (mem t) {q}) \<and>
    (r = 0 \<and> uvm t (drop n fs) pt (insert i S) Z \<and> upte (mem t) pt i = PA2PTE pg OR perm OR PTE_V \<and>
       ukeep (mem s) (mem t) pt S {i} \<or>
     r = - 1 \<and> uvm t (drop n fs) pt S (insert i Z) \<and> pg \<notin> tabs (mem t) 2 pt \<and> length fs < 2 \<and>
       ukeep (mem s) (mem t) pt S {})"
proof -
  have inv: "pt_inv s fs pt" and nv: "\<not> pte_valid (upte (mem s) pt i)"
    and S: "S \<subseteq> {..<2 ^ 26}" "Z \<subseteq> {..<2 ^ 27}" and i27: "i < 2 ^ 27" using uvm by (auto simp: uvm_def)
  have ap: "aligned 12 pg" using pg(1) by (simp add: page_ok_def)
  have av: "aligned 12 (vpage i)" using aligned_vpage i26 by simp
  let ?f = "pte_of (mem s) 2 pt" and ?v = "PA2PTE pg OR perm OR PTE_V"
  obtain r t n where m: "mappages pt (vpage i) PGSIZE pg perm s = Ok r t"
    and c: "r = 0 \<and> pt_upd s fs pt t n (\<lambda>a. if drop_bit 12 a = drop_bit 12 (vpage i) then ?v else ?f a) \<or>
       r = - 1 \<and> pt_upd s fs pt t n ?f \<and> drop n fs = [] \<and> n < 2"
      and n2: "n \<le> 2"
    using mappages_page [OF inv av ap vpage_MAXVA [OF i26]] nv unfolding upte_def by blast
  obtain g where u: "pt_upd s fs pt t n g" using c by blast
  have tb: "tabs (mem t) 2 pt = tabs (mem s) 2 pt \<union> set (take n fs)" and n: "n \<le> length fs"
    and e: "t = s\<lparr>mem := mem t, freelist := freelist t\<rparr>"
    and fr: "\<And>q. aligned 12 q \<Longrightarrow> q \<notin> tabs (mem t) 2 pt \<Longrightarrow> agree (mem s) (mem t) {q}"
    using u by (auto simp: pt_upd_def)
  have pk: "page_ok t = page_ok s" by (subst e) simp
  have pgt: "pg \<notin> tabs (mem t) 2 pt" using pg(2) tb by (auto dest: in_set_takeD)
  have Sp: "upage (mem s) pt j \<notin> tabs (mem t) 2 pt" "agree (mem s) (mem t) {upage (mem s) pt j}" if "j \<in> S" for j
    using uvm_upage [OF uvm that] tb fr by (auto dest: in_set_takeD)
  have res: "uvm t (drop n fs) pt (insert i S) Z \<and> upte (mem t) pt i = ?v \<and> ukeep (mem s) (mem t) pt S {i}"
    if r: "pt_upd s fs pt t n (\<lambda>a. if drop_bit 12 a = drop_bit 12 (vpage i) then ?v else ?f a)"
  proof -
    have up: "upte (mem t) pt j = (if j = i then ?v else upte (mem s) pt j)" if "j < 2 ^ 27" for j
      using pt_upd_pte [OF r vpage_SV39 [OF that]] vpage_same [OF that i27] by (simp add: upte_def)
    have upi: "upte (mem t) pt i = ?v" "upage (mem t) pt i = pg"
      using up [OF i27] PTE2PA_PA2PTE [OF ap perm(1)] by (simp_all add: upage_def)
    have upS: "upte (mem t) pt j = upte (mem s) pt j" "upage (mem t) pt j = upage (mem s) pt j" if "j \<in> S" for j
      using up [of j] that subsetD [OF S(1), of j] i(1) by (auto simp: upage_def)
    have vi: "pte_valid ?v" "PTE_FLAGS ?v \<noteq> PTE_V"
      using and_PA2PTE [of PTE_V pg "perm OR PTE_V"] PTE_FLAGS_PA2PTE [OF perm(1)] perm(2)
      by (simp_all add: PTE_V_def and.commute [of _ 1] bit.conj_disj_distrib)
    have "uvm t (drop n fs) pt (insert i S) Z"
      unfolding uvm_def
    proof (intro conjI ballI)
      show "pt_inv t (drop n fs) pt" by (rule pt_upd_inv [OF r])
      have "inj_on (upage (mem t) pt) S"
        using uvm inj_on_cong [of S "upage (mem t) pt" "upage (mem s) pt"] upS(2) by (simp add: uvm_def)
      moreover have "upage (mem t) pt ` S = upage (mem s) pt ` S" using upS(2) by (rule image_cong [OF refl])
      ultimately show "inj_on (upage (mem t) pt) (insert i S)"
        using upi(2) pg(2) i(1) by (simp add: inj_on_insert)
      fix j
      assume j: "j \<in> insert i S"
      then show "pte_valid (upte (mem t) pt j)" "PTE_FLAGS (upte (mem t) pt j) \<noteq> PTE_V"
        "page_ok t (upage (mem t) pt j)"
        using uvm upS upi vi pg(1) pk by (auto simp: uvm_def)
      show "upage (mem t) pt j \<notin> set (drop n fs) \<union> tabs (mem t) 2 pt"
        using j upi(2) upS(2) pg(2) pgt Sp(1) uvm_upage [OF uvm] by (auto dest: in_set_dropD)
    next
      fix j
      assume "j \<in> Z"
      then show "\<not> pte_valid (upte (mem t) pt j)" using uvm up [of j] subsetD [OF S(2), of j] i(2) by (auto simp: uvm_def)
    qed (use S i26 i27 in auto)
    then show ?thesis using upi up Sp(2) by (auto simp: ukeep_def)
  qed
  have err: "uvm t (drop n fs) pt S (insert i Z) \<and> ukeep (mem s) (mem t) pt S {}" if r: "pt_upd s fs pt t n ?f"
  proof -
    have up: "upte (mem t) pt j = upte (mem s) pt j" "upage (mem t) pt j = upage (mem s) pt j" if "j < 2 ^ 27" for j
      using pt_upd_pte [OF r vpage_SV39 [OF that]] by (simp_all add: upte_def upage_def)
    have "uvm t (drop n fs) pt S (insert i Z)"
      unfolding uvm_def
    proof (intro conjI)
      show "pt_inv t (drop n fs) pt" by (rule pt_upd_inv [OF r])
      have "upage (mem t) pt j = upage (mem s) pt j" if "j \<in> S" for j
        using up(2) [of j] subsetD [OF S(1) that] by simp
      then show "inj_on (upage (mem t) pt) S"
        using uvm inj_on_cong [of S "upage (mem t) pt" "upage (mem s) pt"] by (simp add: uvm_def)
      show "\<forall>j \<in> S. pte_valid (upte (mem t) pt j) \<and> PTE_FLAGS (upte (mem t) pt j) \<noteq> PTE_V \<and>
          page_ok t (upage (mem t) pt j) \<and> upage (mem t) pt j \<notin> set (drop n fs) \<union> tabs (mem t) 2 pt"
      proof
        fix j
        assume j: "j \<in> S"
        then have "j < 2 ^ 27" using S(1) by auto
        then have e: "upte (mem t) pt j = upte (mem s) pt j" "upage (mem t) pt j = upage (mem s) pt j"
          using up by auto
        then show "pte_valid (upte (mem t) pt j) \<and> PTE_FLAGS (upte (mem t) pt j) \<noteq> PTE_V \<and>
          page_ok t (upage (mem t) pt j) \<and> upage (mem t) pt j \<notin> set (drop n fs) \<union> tabs (mem t) 2 pt"
          unfolding e pk using uvm j Sp(1) [OF j] by (auto simp: uvm_def dest: in_set_dropD)
      qed
      show "\<forall>j \<in> insert i Z. \<not> pte_valid (upte (mem t) pt j)"
        using uvm up(1) i27 S(2) by (auto simp: uvm_def)
    qed (use S i26 i27 in auto)
    then show ?thesis using up Sp(2) by (auto simp: ukeep_def)
  qed
  have agp: "agree (mem s) (mem t) {pg}" using fr ap pgt by blast
  have short: "length fs < 2" if "drop n fs = []" "n < 2" using that by simp
  show ?thesis using short n2 c m n e tb agp fr pgt res err by blast
qed

lemma uvm_kfree:
  assumes uvm: "uvm s fs pt S Z" and pg: "page_ok s pg" "pg \<notin> set fs \<union> tabs (mem s) 2 pt \<union> upage (mem s) pt ` S"
  shows "\<exists>t. kfree pg s = Ok () t \<and> uvm t (pg # fs) pt S Z \<and> ukeep (mem s) (mem t) pt S {} \<and>
    tabs (mem t) 2 pt = tabs (mem s) 2 pt \<and> (\<forall>q. aligned 12 q \<longrightarrow> q \<noteq> pg \<longrightarrow> agree (mem s) (mem t) {q}) \<and> t = s\<lparr>mem := mem t, freelist := freelist t\<rparr>"
proof -
  have inv: "pt_inv s fs pt" using uvm by (simp add: uvm_def)
  obtain t where t: "kfree pg s = Ok () t" "pt_inv t (pg # fs) pt" "tabs (mem t) 2 pt = tabs (mem s) 2 pt"
      "\<And>va. pte_of (mem t) 2 pt va = pte_of (mem s) 2 pt va"
      "\<And>q. aligned 12 q \<Longrightarrow> q \<noteq> pg \<Longrightarrow> agree (mem s) (mem t) {q}"
      "t = s\<lparr>mem := mem t, freelist := freelist t\<rparr>"
    using pt_inv_kfree [OF inv pg(1)] pg(2) by auto
  have pk: "page_ok t = page_ok s" by (subst t(6)) simp
  have up: "upte (mem t) pt i = upte (mem s) pt i" "upage (mem t) pt i = upage (mem s) pt i" for i
    using t(4) by (simp_all add: upte_def upage_def)
  have "uvm t (pg # fs) pt S Z"
    unfolding uvm_def up pk t(3)
    using uvm t(2) pg(2) inj_on_cong [of S "upage (mem t) pt" "upage (mem s) pt"] up by (auto simp: uvm_def)
  moreover have "ukeep (mem s) (mem t) pt S {}"
    using up t(5) uvm_upage [OF uvm] pg(2) by (force simp: ukeep_def)
  ultimately show ?thesis using t by blast
qed

lemma npg_vpage [simp]: "i \<le> 2 ^ 26 \<Longrightarrow> npg (vpage i) = i"
  by (simp add: npg_def unat_vpage)

lemma vpage_less_npg: "i \<le> 2 ^ 26 \<Longrightarrow> vpage i < sz \<longleftrightarrow> i < npg sz"
  by (simp add: word_less_nat_alt unat_vpage npg_def less_Suc_eq_le [symmetric] del: less_Suc_eq_le) linarith

text \<open>Undoing a growth from page \<open>b\<close> to page \<open>i\<close>.\<close>

lemma uvmdealloc_pages:
  assumes "uvm s fs pt (S \<union> {b..<i}) Z" "S \<inter> {b..<i} = {}" "Z \<inter> {b..<i} = {}" "b \<le> i" "i \<le> 2 ^ 26"
  shows "\<exists>t gs. uvmdealloc pt (vpage i) (vpage b) s = Ok (vpage b) t \<and> uvm t gs pt S (Z \<union> {b..<i}) \<and>
    ukeep (mem s) (mem t) pt S {b..<i} \<and> uvm_pages (mem t) gs pt S = uvm_pages (mem s) fs pt (S \<union> {b..<i}) \<and>
    t = s\<lparr>mem := mem t, freelist := freelist t\<rparr>"
proof -
  have n: "npg (vpage i) = i" "npg (vpage b) = b" "vpage b \<le> vpage i" "unat (vpage i) \<le> 2 ^ 38"
    using assms(4,5) unat_vpage [of i] unat_vpage [of b] by (simp_all add: word_le_nat_alt)
  obtain t where t: "uvmdealloc pt (vpage i) (vpage b) s = Ok (vpage b) t"
      "uvm t (rev (map (upage (mem s) pt) [b..<i]) @ fs) pt S (Z \<union> {b..<i})"
      "ukeep (mem s) (mem t) pt S {b..<i}" "tabs (mem t) 2 pt = tabs (mem s) 2 pt"
      "t = s\<lparr>mem := mem t, freelist := freelist t\<rparr>"
    using uvmdealloc_run [of s fs pt S "vpage b" "vpage i" Z, unfolded n(1,2), OF assms(1-3) n(3,4)] by blast
  have "upage (mem t) pt ` S = upage (mem s) pt ` S"
    using ukeep_image [OF t(3)] uvm_range [OF assms(1)] assms(2) by simp
  then have "uvm_pages (mem t) (rev (map (upage (mem s) pt) [b..<i]) @ fs) pt S = uvm_pages (mem s) fs pt (S \<union> {b..<i})"
    using t(4) by (auto simp: uvm_pages_def)
  with t show ?thesis by blast
qed

lemma user_perm: "(PTE_R OR PTE_U OR x) OR PTE_V \<noteq> PTE_V"
proof -
  have "bit ((PTE_R OR PTE_U OR x) OR PTE_V) 1" by (simp add: bit_or_iff PTE_R_def)
  moreover have "\<not> bit PTE_V 1" by (simp add: PTE_V_def)
  ultimately show ?thesis by metis
qed

lemma uvmalloc_loop_run:
  assumes "uvm s fs pt (S \<union> {b..<i}) (Z \<union> {i..<npg newsz})" "S \<inter> {b..<npg newsz} = {}" "Z \<inter> {b..<npg newsz} = {}"
    "b \<le> i" "i \<le> npg newsz" "npg newsz \<le> 2 ^ 26" "npg newsz - i < k"
    and perm: "(PTE_R OR PTE_U OR xperm) OR PTE_V < 1024"
  defines "c \<equiv> npg newsz"
  shows "\<exists>r t gs. uvmalloc_loop k pt (vpage i) (vpage b) newsz xperm s = Ok r t \<and>
    t = s\<lparr>mem := mem t, freelist := freelist t\<rparr> \<and>
    (r = newsz \<and> uvm t gs pt (S \<union> {b..<c}) Z \<and> ukeep (mem s) (mem t) pt (S \<union> {b..<i}) {i..<c} \<and>
       uvm_pages (mem t) gs pt (S \<union> {b..<c}) = uvm_pages (mem s) fs pt (S \<union> {b..<i}) \<and>
       (\<forall>j \<in> {i..<c}. upage (mem t) pt j \<in> set fs \<and> PTE_FLAGS (upte (mem t) pt j) = (PTE_R OR PTE_U OR xperm) OR PTE_V) \<or>
     r = 0 \<and> uvm t gs pt S (Z \<union> {b..<c}) \<and> ukeep (mem s) (mem t) pt S {b..<c} \<and>
       uvm_pages (mem t) gs pt S = uvm_pages (mem s) fs pt (S \<union> {b..<i}) \<and> length fs < 3 * (c - i))"
  using assms(1-7) unfolding c_def [symmetric]
proof (induction k arbitrary: s fs i)
  case 0
  then show ?case by simp
next
  case (Suc k)
  let ?f = "PTE_R OR PTE_U OR xperm"
  show ?case
  proof (cases "i = c")
    case True
    then have "uvmalloc_loop (Suc k) pt (vpage i) (vpage b) newsz xperm s = Ok newsz s"
      using vpage_less_npg [of i newsz] Suc.prems(6) by (simp add: c_def)
    then show ?thesis using True Suc.prems(1) by (auto intro: ukeep_refl)
  next
    case False
    then have ic: "i < c" "{i..<c} = insert i {Suc i..<c}" "vpage i < newsz"
      using Suc.prems(5,6) vpage_less_npg [of i newsz] by (auto simp: c_def)
    have i26: "i < 2 ^ 26" using ic Suc.prems(6) by simp
    let ?S = "S \<union> {b..<i}" and ?Z = "Z \<union> {Suc i..<c}"
    have iS: "i \<notin> ?S" "i \<notin> ?Z" using Suc.prems(2,3,4) ic by auto
    have uvm: "uvm s fs pt ?S (insert i ?Z)" using Suc.prems(1) ic by simp
    have undo: "\<exists>t gs. uvmdealloc pt (vpage i) (vpage b) w = Ok (vpage b) t \<and> uvm t gs pt S (Z \<union> {b..<c}) \<and>
        ukeep (mem w) (mem t) pt S {b..<c} \<and> uvm_pages (mem t) gs pt S = uvm_pages (mem w) hs pt ?S \<and>
        t = w\<lparr>mem := mem t, freelist := freelist t\<rparr>" if "uvm w hs pt ?S (insert i ?Z)" for w hs
    proof -
      have "S \<inter> {b..<i} = {}" "insert i ?Z \<inter> {b..<i} = {}" using Suc.prems(2,3) ic by auto
      moreover have "insert i ?Z \<union> {b..<i} = Z \<union> {b..<c}"
      proof -
        have "{b..<i} \<union> insert i {Suc i..<c} = {b..<c}"
          using ivl_disj_un_two(3) [OF Suc.prems(4), of c] ic(1) unfolding ic(2) by simp
        then show ?thesis by blast
      qed
      moreover have "{b..<i} \<subseteq> {b..<c}" using ic(1) by simp
      ultimately show ?thesis
        using uvmdealloc_pages [OF that _ _ Suc.prems(4)] i26 ukeep_mono [OF _ order_refl] by fastforce
    qed
    show ?thesis
    proof (cases fs)
      case Nil
      then have "kalloc s = Ok 0 s" using uvm kalloc_empty [of s] by (simp add: uvm_def pt_inv_def)
      then have "uvmalloc_loop (Suc k) pt (vpage i) (vpage b) newsz xperm s =
          kseq (uvmdealloc pt (vpage i) (vpage b)) (kreturn 0) s" using ic(3) by (simp add: kbind_def)
      then show ?thesis using undo [OF uvm] Nil ic(1) by (auto simp: kseq_def kbind_def)
    next
      case (Cons pg fs')
      let ?s1 = "s\<lparr>freelist := load64 (mem s) pg\<rparr>"
      have k: "kmem_inv s (pg # fs')" using uvm Cons by (simp add: uvm_def pt_inv_def)
      note al = uvm_alloc [OF uvm [unfolded Cons] kmem_inv_tail [OF k], simplified]
      have pg0: "pg \<noteq> 0" using kpages.valid_nonzero [OF k] k by (simp add: kmem_inv_def)
      have f: "?f OR PTE_V < 1024" "?f OR PTE_V \<noteq> PTE_V" using perm user_perm by auto
      have ms: "mem ?s1 = mem s" by simp
      have pgs: "page_ok ?s1 pg" "pg \<notin> set fs' \<union> tabs (mem ?s1) 2 pt \<union> upage (mem ?s1) pt ` ?S"
        using al(2,3) by auto
      obtain r t n where m: "mappages pt (vpage i) PGSIZE pg ?f ?s1 = Ok r t" "n \<le> length fs'" "n \<le> 2"
          "t = ?s1\<lparr>mem := mem t, freelist := freelist t\<rparr>" "tabs (mem t) 2 pt = tabs (mem s) 2 pt \<union> set (take n fs')"
        and rc: "r = 0 \<and> uvm t (drop n fs') pt (insert i ?S) ?Z \<and> upte (mem t) pt i = PA2PTE pg OR ?f OR PTE_V \<and>
             ukeep (mem s) (mem t) pt ?S {i} \<or>
           r = - 1 \<and> uvm t (drop n fs') pt ?S (insert i ?Z) \<and> pg \<notin> tabs (mem t) 2 pt \<and> length fs' < 2 \<and> ukeep (mem s) (mem t) pt ?S {}"
        using uvm_map1 [OF al(1) iS i26 pgs f, unfolded ms] by blast
      have e: "t = s\<lparr>mem := mem t, freelist := freelist t\<rparr>" by (subst m(4)) simp
      have S26: "?S \<subseteq> {..<2 ^ 26}" by (rule uvm_range [OF uvm])
      have fs': "set fs' = set (take n fs') \<union> set (drop n fs')" by (metis append_take_drop_id set_append)
      from rc show ?thesis
      proof (elim disjE conjE)
        assume r: "r = 0" and u: "uvm t (drop n fs') pt (insert i ?S) ?Z" and pi: "upte (mem t) pt i = PA2PTE pg OR ?f OR PTE_V"
          and kp: "ukeep (mem s) (mem t) pt ?S {i}"
        have Si: "insert i ?S = S \<union> {b..<Suc i}" using Suc.prems(4) by auto
        have run: "uvmalloc_loop (Suc k) pt (vpage i) (vpage b) newsz xperm s =
            uvmalloc_loop k pt (vpage (Suc i)) (vpage b) newsz xperm t"
          using kalloc_run [OF k] m(1) r ic(3) pg0 by (simp add: kbind_def vpage_Suc)
        have upi: "upage (mem t) pt i = pg"
          using pi PTE2PA_PA2PTE [OF _ f(1), of pg] k by (simp add: upage_def kmem_inv_def page_ok_def)
        have pgs: "uvm_pages (mem t) (drop n fs') pt (S \<union> {b..<Suc i}) = uvm_pages (mem s) fs pt ?S"
          unfolding Si [symmetric] Cons using ukeep_image [OF kp S26] iS(1) upi m(5) fs'
          by (auto simp: uvm_pages_def)
        have le: "b \<le> Suc i" "Suc i \<le> c" and lt: "c - Suc i < k" using Suc.prems(4,7) ic(1) by auto
        obtain r' w gs where w: "uvmalloc_loop k pt (vpage (Suc i)) (vpage b) newsz xperm t = Ok r' w"
            "w = t\<lparr>mem := mem w, freelist := freelist w\<rparr>"
          and wc: "r' = newsz \<and> uvm w gs pt (S \<union> {b..<c}) Z \<and> ukeep (mem t) (mem w) pt (S \<union> {b..<Suc i}) {Suc i..<c} \<and>
              uvm_pages (mem w) gs pt (S \<union> {b..<c}) = uvm_pages (mem t) (drop n fs') pt (S \<union> {b..<Suc i}) \<and>
              (\<forall>j \<in> {Suc i..<c}. upage (mem w) pt j \<in> set (drop n fs') \<and>
                 PTE_FLAGS (upte (mem w) pt j) = ?f OR PTE_V) \<or>
            r' = 0 \<and> uvm w gs pt S (Z \<union> {b..<c}) \<and> ukeep (mem t) (mem w) pt S {b..<c} \<and>
              uvm_pages (mem w) gs pt S = uvm_pages (mem t) (drop n fs') pt (S \<union> {b..<Suc i}) \<and>
              length (drop n fs') < 3 * (c - Suc i)"
          using Suc.IH [OF u [unfolded Si] Suc.prems(2,3) le Suc.prems(6) lt] by blast
        have ew: "w = s\<lparr>mem := mem w, freelist := freelist w\<rparr>" by (subst w(2), subst e) simp
        from wc show ?thesis
        proof (elim disjE conjE)
          assume rw: "r' = newsz" and uw: "uvm w gs pt (S \<union> {b..<c}) Z"
            and kw: "ukeep (mem t) (mem w) pt (S \<union> {b..<Suc i}) {Suc i..<c}"
            and pw: "uvm_pages (mem w) gs pt (S \<union> {b..<c}) = uvm_pages (mem t) (drop n fs') pt (S \<union> {b..<Suc i})"
            and nw: "\<forall>j \<in> {Suc i..<c}. upage (mem w) pt j \<in> set (drop n fs') \<and> PTE_FLAGS (upte (mem w) pt j) = ?f OR PTE_V"
          have "ukeep (mem t) (mem w) pt ?S {Suc i..<c}" using kw by (rule ukeep_mono) auto
          with kp have ks: "ukeep (mem s) (mem w) pt ?S {i..<c}"
            unfolding ic(2) using ukeep_trans [OF kp _ S26] iS(1) by auto
          have wi: "upte (mem w) pt i = upte (mem t) pt i" using kw i26 by (simp add: ukeep_def)
          have "\<forall>j \<in> {i..<c}. upage (mem w) pt j \<in> set fs \<and> PTE_FLAGS (upte (mem w) pt j) = ?f OR PTE_V"
            unfolding ic(2) using nw wi upi pi Cons PTE_FLAGS_PA2PTE [OF f(1)]
            by (auto simp: upage_def dest: in_set_dropD)
          then show ?thesis using run w(1) ew rw uw ks pw pgs by metis
        next
          assume rw: "r' = 0" and uw: "uvm w gs pt S (Z \<union> {b..<c})" and kw: "ukeep (mem t) (mem w) pt S {b..<c}"
            and pw: "uvm_pages (mem w) gs pt S = uvm_pages (mem t) (drop n fs') pt (S \<union> {b..<Suc i})"
            and lw: "length (drop n fs') < 3 * (c - Suc i)"
          have short: "length fs < 3 * (c - i)" using lw m(2,3) ic(1) Cons by simp
          have "ukeep (mem s) (mem t) pt S {i}" using kp by (rule ukeep_mono) auto
          then have "ukeep (mem s) (mem w) pt S ({i} \<union> {b..<c})"
            using kw S26 iS(1) by (intro ukeep_trans) auto
          then have "ukeep (mem s) (mem w) pt S {b..<c}" by (rule ukeep_mono) (use Suc.prems(4) ic(1) in auto)
          then show ?thesis using run w(1) ew rw uw pw pgs short by metis
        qed
      next
        assume r: "r = - 1" and u: "uvm t (drop n fs') pt ?S (insert i ?Z)" and pt: "pg \<notin> tabs (mem t) 2 pt"
          and kp: "ukeep (mem s) (mem t) pt ?S {}" and sh: "length fs' < 2"
        have short: "length fs < 3 * (c - i)" using sh ic(1) Cons by simp
        have im: "upage (mem t) pt ` ?S = upage (mem s) pt ` ?S" using ukeep_image [OF kp S26] by simp
        have "page_ok t = page_ok ?s1" by (subst m(4)) simp
        then have "page_ok t pg" "pg \<notin> set (drop n fs') \<union> tabs (mem t) 2 pt \<union> upage (mem t) pt ` ?S"
          using al pt im by (auto dest: in_set_dropD)
        from uvm_kfree [OF u this] obtain v where v: "kfree pg t = Ok () v" "uvm v (pg # drop n fs') pt ?S (insert i ?Z)"
            "ukeep (mem t) (mem v) pt ?S {}" "tabs (mem v) 2 pt = tabs (mem t) 2 pt"
            "v = t\<lparr>mem := mem v, freelist := freelist v\<rparr>" by blast
        from undo [OF v(2)] obtain w gs where w: "uvmdealloc pt (vpage i) (vpage b) v = Ok (vpage b) w"
            "uvm w gs pt S (Z \<union> {b..<c})" "ukeep (mem v) (mem w) pt S {b..<c}"
            "uvm_pages (mem w) gs pt S = uvm_pages (mem v) (pg # drop n fs') pt ?S"
            "w = v\<lparr>mem := mem w, freelist := freelist w\<rparr>" by blast
        have run: "uvmalloc_loop (Suc k) pt (vpage i) (vpage b) newsz xperm s = Ok 0 w"
          using kalloc_run [OF k] m(1) r ic(3) pg0 v(1) w(1) by (simp add: kbind_def kseq_def)
        have "uvm_pages (mem v) (pg # drop n fs') pt ?S = uvm_pages (mem s) fs pt ?S"
          using ukeep_image [OF v(3) S26] im v(4) m(5) Cons fs' by (auto simp: uvm_pages_def)
        moreover have "ukeep (mem s) (mem w) pt S {b..<c}"
        proof -
          have "ukeep (mem s) (mem t) pt S {}" "ukeep (mem t) (mem v) pt S {}"
            using ukeep_mono [OF kp, of S "{}"] ukeep_mono [OF v(3), of S "{}"] by auto
          then have "ukeep (mem s) (mem w) pt S ({} \<union> {} \<union> {b..<c})"
            using w(3) S26 by (intro ukeep_trans [of _ "mem v"] ukeep_trans [of _ "mem t" _ _ "{}" "mem v" "{}"]) auto
          then show ?thesis by simp
        qed
        moreover have "w = s\<lparr>mem := mem w, freelist := freelist w\<rparr>" by (subst w(5), subst v(5), subst e) simp
        ultimately show ?thesis using run w(2,4) short by metis
      qed
    qed
  qed
qed

section \<open>Growing and shrinking a process\<close>

text \<open>A process with \<open>sz\<close> bytes of user memory, and nothing mapped between it and page \<open>lim\<close>.\<close>

definition addr_space :: "'z kmem_scheme \<Rightarrow> u64 list \<Rightarrow> u64 \<Rightarrow> u64 \<Rightarrow> nat \<Rightarrow> bool" where
  "addr_space s fs pt sz lim \<longleftrightarrow> uvm s fs pt {..<npg sz} {npg sz..<lim} \<and> npg sz \<le> lim \<and> lim \<le> 2 ^ 26"

lemma npg_bound: "npg sz \<le> 2 ^ 26 \<Longrightarrow> unat sz \<le> 2 ^ 38"
proof -
  assume "npg sz \<le> 2 ^ 26"
  then have "npg sz \<le> 67108864" by simp
  moreover have "unat sz + 4095 = 4096 * npg sz + (unat sz + 4095) mod 4096" by (simp add: npg_def)
  moreover have "(unat sz + 4095) mod 4096 < 4096" by simp
  ultimately have "unat sz \<le> 274877906944" by linarith
  then show ?thesis by simp
qed

lemma upto_pages: "i \<le> j \<Longrightarrow> {..<i} \<union> {i..<j} = {..<j :: nat}" "i \<le> j \<Longrightarrow> j \<le> k \<Longrightarrow> {i..<j} \<union> {j..<k} = {i..<k}"
  by (auto simp: ivl_disj_un)

text \<open>The state after \<open>kfree p\<close>, used to build example states.\<close>

definition freed :: "u64 \<Rightarrow> 'z kmem_scheme \<Rightarrow> 'z kmem_scheme" where
  "freed p s = s\<lparr>mem := store64 (mem s) p (freelist s), freelist := p\<rparr>"

lemma uvm_freed:
  assumes "uvm s fs pt {} Z" "page_ok s p" "p \<notin> set fs" "p \<noteq> pt" "tabs (mem s) 2 pt = {pt}"
  shows "uvm (freed p s) (p # fs) pt {} Z \<and> tabs (mem (freed p s)) 2 pt = {pt}"
proof -
  have "kfree p s = Ok () (freed p s)"
    using kfree_run [OF assms(2)] assms(1) by (simp add: freed_def uvm_def pt_inv_def kmem_inv_def)
  moreover obtain t where "kfree p s = Ok () t" "uvm t (p # fs) pt {} Z" "tabs (mem t) 2 pt = tabs (mem s) 2 pt"
    using uvm_kfree [OF assms(1,2)] assms(3-5) by auto
  ultimately show ?thesis using assms(5) by simp
qed

definition space0 :: kmem where
  "space0 = freed 0x87fff000 (freed 0x87ffe000 (freed 0x87ffd000
     \<lparr>mem = \<lambda>_. 0, held = [], kend = 0x87ff0000, freelist = 0\<rparr>))"

lemma space0_uvm:
  assumes "lim \<le> 2 ^ 26"
  shows "addr_space space0 [0x87fff000, 0x87ffe000, 0x87ffd000] 0x87ff0000 0 lim"
    "tabs (mem space0) 2 0x87ff0000 = {0x87ff0000}"
    "uvm space0 [0x87fff000, 0x87ffe000, 0x87ffd000] 0x87ff0000 {} {..<2 ^ 27}"
proof -
  let ?s = "\<lparr>mem = \<lambda>_. 0, held = [], kend = 0x87ff0000, freelist = 0\<rparr> :: kmem" and ?pt = "0x87ff0000 :: u64"
  have al: "aligned 12 ?pt" "aligned 12 (0x87fff000 :: u64)" "aligned 12 (0x87ffe000 :: u64)" "aligned 12 (0x87ffd000 :: u64)"
    by (simp_all add: aligned_def take_bit_eq_mod)
  note z = zero_table [of ?pt "\<lambda>_. 0", OF _ al(1), simplified]
  have a: "kmem_inv ?s []" "\<And>p. page_ok (freed p s) = page_ok s" for s :: kmem
    by (simp_all add: kmem_inv_def KERNBASE_def freed_def)
  have 0: "uvm ?s [] ?pt {} {..<2 ^ 27} \<and> tabs (mem ?s) 2 ?pt = {?pt}"
    using z a(1) al(1) by (auto simp: uvm_def pt_inv_def page_ok_def upte_def PHYSTOP_def KERNBASE_def)
  have p: "page_ok ?s 0x87ffd000" "page_ok ?s 0x87ffe000" "page_ok ?s 0x87fff000"
    using al by (simp_all add: page_ok_def PHYSTOP_def KERNBASE_def)
  note 1 = uvm_freed [OF conjunct1 [OF 0] p(1) _ _ conjunct2 [OF 0], simplified]
  note 2 = uvm_freed [OF conjunct1 [OF 1], unfolded a(2), OF p(2) _ _ conjunct2 [OF 1], simplified]
  note 3 = uvm_freed [OF conjunct1 [OF 2], unfolded a(2), OF p(3) _ _ conjunct2 [OF 2], simplified]
  then have u: "uvm space0 [0x87fff000, 0x87ffe000, 0x87ffd000] ?pt {} {..<2 ^ 27}" "tabs (mem space0) 2 ?pt = {?pt}"
    by (simp_all add: space0_def)
  then show "uvm space0 [0x87fff000, 0x87ffe000, 0x87ffd000] ?pt {} {..<2 ^ 27}" "tabs (mem space0) 2 ?pt = {?pt}" by simp_all
  have "{..<lim} \<subseteq> {..<2 ^ 27 :: nat}" using assms by (simp add: lessThan_subset_iff)
  then have "uvm space0 [0x87fff000, 0x87ffe000, 0x87ffd000] ?pt {} {..<lim}" by (rule uvm_fewer [OF u(1)])
  then show "addr_space space0 [0x87fff000, 0x87ffe000, 0x87ffd000] ?pt 0 lim"
    using assms by (simp add: addr_space_def npg_def atLeast0LessThan)
qed

text \<open>C7. \<^bold>\<open>Growing a process.\<close> \<open>uvmalloc\<close> on a process of \<open>oldsz\<close> bytes always returns. Either it
  returns the new size, the process then owns every page below it, each new one on a page of its
  own that was free, mapped readable and for the user with the extra permissions asked for; or it
  returns 0, which it only does when fewer than three free pages per page wanted are left, and
  the process has the size it had. In both cases the entries and contents of the old pages are
  unchanged, and no page is lost: those free, in tables or mapped are the same as before.\<close>

theorem uvmalloc_grows:
  assumes sp: "addr_space s fs pt oldsz lim" and le: "oldsz \<le> newsz" "npg newsz \<le> lim"
    and perm: "(PTE_R OR PTE_U OR xperm) OR PTE_V < 1024"
  shows "\<exists>r t gs. uvmalloc pt oldsz newsz xperm s = Ok r t \<and>
    ukeep (mem s) (mem t) pt {..<npg oldsz} {npg oldsz..<npg newsz} \<and>
    (r = newsz \<and> addr_space t gs pt newsz lim \<and>
       (\<forall>j \<in> {npg oldsz..<npg newsz}. upage (mem t) pt j \<in> set fs \<and>
          PTE_FLAGS (upte (mem t) pt j) = (PTE_R OR PTE_U OR xperm) OR PTE_V) \<and>
       uvm_pages (mem t) gs pt {..<npg newsz} = uvm_pages (mem s) fs pt {..<npg oldsz} \<or>
     r = 0 \<and> addr_space t gs pt oldsz lim \<and> length fs < 3 * (npg newsz - npg oldsz) \<and>
       uvm_pages (mem t) gs pt {..<npg oldsz} = uvm_pages (mem s) fs pt {..<npg oldsz})"
proof -
  let ?b = "npg oldsz" and ?c = "npg newsz"
  have bc: "?b \<le> ?c" "?c \<le> 2 ^ 26" "lim \<le> 2 ^ 26" using npg_mono [OF le(1)] le(2) sp by (auto simp: addr_space_def)
  have fuel: "?c - ?b < Suc (Suc (unat newsz div 4096))" by (simp add: npg_def)
  have "PGROUNDUP oldsz = vpage ?b" using npg_bound [of oldsz] bc by (intro PGROUNDUP_vpage) simp
  then have run: "uvmalloc pt oldsz newsz xperm s =
      uvmalloc_loop (Suc (Suc (unat newsz div 4096))) pt (vpage ?b) (vpage ?b) newsz xperm s"
    unfolding uvmalloc_def if_not_P [OF not_less [THEN iffD2, OF le(1)]] by (simp only:)
  have "uvm s fs pt ({..<?b} \<union> {?b..<?b}) ({?c..<lim} \<union> {?b..<?c})"
    using sp upto_pages(2) [OF bc(1) le(2)] by (simp add: addr_space_def Un_commute)
  moreover have "{..<?b} \<inter> {?b..<?c} = {}" "{?c..<lim} \<inter> {?b..<?c} = {}" by auto
  ultimately obtain r t gs where "uvmalloc pt oldsz newsz xperm s = Ok r t"
    and rc: "r = newsz \<and> uvm t gs pt ({..<?b} \<union> {?b..<?c}) {?c..<lim} \<and>
        ukeep (mem s) (mem t) pt ({..<?b} \<union> {?b..<?b}) {?b..<?c} \<and>
        uvm_pages (mem t) gs pt ({..<?b} \<union> {?b..<?c}) = uvm_pages (mem s) fs pt ({..<?b} \<union> {?b..<?b}) \<and>
        (\<forall>j \<in> {?b..<?c}. upage (mem t) pt j \<in> set fs \<and> PTE_FLAGS (upte (mem t) pt j) = (PTE_R OR PTE_U OR xperm) OR PTE_V) \<or>
      r = 0 \<and> uvm t gs pt {..<?b} ({?c..<lim} \<union> {?b..<?c}) \<and> ukeep (mem s) (mem t) pt {..<?b} {?b..<?c} \<and>
        uvm_pages (mem t) gs pt {..<?b} = uvm_pages (mem s) fs pt ({..<?b} \<union> {?b..<?b}) \<and> length fs < 3 * (?c - ?b)"
    using uvmalloc_loop_run [OF _ _ _ order_refl bc(1,2) fuel perm] unfolding run by blast
  then show ?thesis
    using upto_pages(1) [OF bc(1)] upto_pages(2) [OF bc(1) le(2)] bc le(2)
    by (intro exI [of _ r] exI [of _ t] exI [of _ gs]) (auto simp: addr_space_def Un_commute)
qed

theorem uvmalloc_grows_witness:
  "\<exists>t gs. uvmalloc 0x87ff0000 0 4000 PTE_W space0 = Ok 4000 t \<and> addr_space t gs 0x87ff0000 4000 100 \<and>
     upage (mem t) 0x87ff0000 0 \<in> {0x87fff000, 0x87ffe000, 0x87ffd000}"
proof -
  have p: "(PTE_R OR PTE_U OR PTE_W) OR PTE_V < 1024" by (simp add: PTE_R_def PTE_U_def PTE_W_def PTE_V_def)
  have n: "npg 4000 = 1" "npg 0 = 0" by (simp_all add: npg_def)
  show ?thesis
    using uvmalloc_grows [OF space0_uvm(1) _ _ p, of 100 4000] n by auto
qed

text \<open>C8. \<^bold>\<open>Shrinking a process.\<close> \<open>uvmdealloc\<close> from \<open>oldsz\<close> to a size not above it returns the new
  size; the pages above it are unmapped and back on the free list, in front of those that were
  free before, and the remaining pages keep their entries and contents.\<close>

theorem uvmdealloc_shrinks:
  assumes sp: "addr_space s fs pt oldsz lim" and le: "newsz \<le> oldsz"
  shows "\<exists>t. uvmdealloc pt oldsz newsz s = Ok newsz t \<and>
    addr_space t (rev (map (upage (mem s) pt) [npg newsz..<npg oldsz]) @ fs) pt newsz lim \<and>
    ukeep (mem s) (mem t) pt {..<npg newsz} {npg newsz..<npg oldsz}"
proof -
  let ?b = "npg newsz" and ?c = "npg oldsz"
  have bc: "?b \<le> ?c" "?c \<le> lim" "lim \<le> 2 ^ 26" using npg_mono [OF le] sp by (auto simp: addr_space_def)
  have "uvm s fs pt ({..<?b} \<union> {?b..<?c}) {?c..<lim}"
    using sp upto_pages(1) [OF bc(1)] by (simp add: addr_space_def)
  moreover have "{..<?b} \<inter> {?b..<?c} = {}" "{?c..<lim} \<inter> {?b..<?c} = {}" "unat oldsz \<le> 2 ^ 38"
    using npg_bound [of oldsz] bc by auto
  ultimately obtain t where t: "uvmdealloc pt oldsz newsz s = Ok newsz t"
      "uvm t (rev (map (upage (mem s) pt) [?b..<?c]) @ fs) pt {..<?b} ({?c..<lim} \<union> {?b..<?c})"
      "ukeep (mem s) (mem t) pt {..<?b} {?b..<?c}"
    using uvmdealloc_run [OF _ _ _ le] by blast
  then show ?thesis using upto_pages(2) [OF bc(1,2)] bc by (auto simp: addr_space_def Un_commute)
qed

theorem uvmdealloc_shrinks_witness:
  "\<exists>t gs u hs. uvmalloc 0x87ff0000 0 4000 PTE_W space0 = Ok 4000 t \<and> addr_space t gs 0x87ff0000 4000 100 \<and>
     uvmdealloc 0x87ff0000 4000 0 t = Ok 0 u \<and> addr_space u (hs @ gs) 0x87ff0000 0 100"
proof -
  have p: "(PTE_R OR PTE_U OR PTE_W) OR PTE_V < 1024" by (simp add: PTE_R_def PTE_U_def PTE_W_def PTE_V_def)
  have n: "npg 4000 = 1" "npg 0 = 0" by (simp_all add: npg_def)
  have "uvm space0 [0x87fff000, 0x87ffe000, 0x87ffd000] 0x87ff0000 ({} \<union> {0..<0}) ({1..<100} \<union> {0..<npg 4000})"
    using space0_uvm(1) [of 100] upto_pages(2) [of 0 1 100] n by (simp add: addr_space_def Un_commute)
  from uvmalloc_loop_run [OF this _ _ _ _ _ _ p, of "Suc (Suc 0)"] n
  obtain t gs where t: "uvmalloc_loop (Suc (Suc 0)) 0x87ff0000 (vpage 0) (vpage 0) 4000 PTE_W space0 = Ok 4000 t"
      "uvm t gs 0x87ff0000 ({} \<union> {0..<1}) {1..<100}"
    by (auto simp del: uvmalloc_loop.simps)
  have "PGROUNDUP 0 = vpage 0" by (simp add: PGROUNDUP_def vpage_def)
  then have "uvmalloc 0x87ff0000 0 4000 PTE_W space0 = Ok 4000 t"
    using t(1) by (simp add: uvmalloc_def del: uvmalloc_loop.simps)
  moreover have a: "addr_space t gs 0x87ff0000 4000 100"
    using t(2) n by (simp add: addr_space_def lessThan_atLeast0)
  ultimately show ?thesis using uvmdealloc_shrinks [OF a, of 0] by (metis word_zero_le)
qed

text \<open>C9. \<^bold>\<open>mappages installs exactly the mapping asked for.\<close> On a page table with nothing mapped in
  the \<open>k\<close> pages from the page-aligned \<open>va\<close>, below \<open>MAXVA\<close>, \<open>mappages\<close> returns, without a panic: 0
  when each address of the range translates to the matching address from \<open>pa\<close> with the permissions
  asked for, and \<open>-1\<close> after a proper prefix of the range when the free list has run out. All other
  translations, and all memory but the page tables, are unchanged, and tables are made only of
  free pages, at most two for each page mapped.\<close>

theorem mappages_exact:
  assumes "pt_inv s fs pt" "aligned 12 va" "aligned 12 pa" "unat va + k * 4096 \<le> unat MAXVA" "0 < k"
    "perm OR PTE_V < 1024" "\<forall>a. in_pages va k a \<longrightarrow> \<not> pte_valid (pte_of (mem s) 2 pt a)"
  shows "\<exists>r t n j. mappages pt va (of_nat k * PGSIZE) pa perm s = Ok r t \<and>
    (r = 0 \<and> j = k \<or> r = - 1 \<and> j < k \<and> drop n fs = []) \<and> n \<le> 2 * k \<and> pt_inv t (drop n fs) pt \<and>
    (\<forall>a. a < MAXVA \<longrightarrow> \<not> in_pages va j a \<longrightarrow> pte_of (mem t) 2 pt a = pte_of (mem s) 2 pt a) \<and>
    (\<forall>a. in_pages va j a \<longrightarrow> PTE2PA (pte_of (mem t) 2 pt a) = PGROUNDDOWN (pa + (a - va)) \<and>
       PTE_FLAGS (pte_of (mem t) 2 pt a) = perm OR PTE_V) \<and>
    tabs (mem t) 2 pt = tabs (mem s) 2 pt \<union> set (take n fs) \<and>
    (\<forall>q. aligned 12 q \<longrightarrow> q \<notin> tabs (mem t) 2 pt \<longrightarrow> agree (mem s) (mem t) {q})"
proof -
  have b: "unat va + k * 4096 \<le> 2 ^ 38" using assms(4) by (simp add: unat_MAXVA)
  obtain r t n j where m: "mappages pt va (of_nat k * PGSIZE) pa perm s = Ok r t"
      "pt_upd s fs pt t n (map_range va j pa perm (pte_of (mem s) 2 pt))" "n \<le> 2 * k"
      "r = 0 \<and> j = k \<or> r = - 1 \<and> j < k \<and> drop n fs = [] \<and> n < 2 * k"
    using mappages_run [OF assms(1-3) b assms(5,7)] by blast
  have "PTE2PA (pte_of (mem t) 2 pt a) = PGROUNDDOWN (pa + (a - va)) \<and>
      PTE_FLAGS (pte_of (mem t) 2 pt a) = perm OR PTE_V" if a: "in_pages va j a" for a
  proof -
    have "j * 4096 \<le> k * 4096" using m(4) by auto
    then have "unat a < 2 ^ 38" using a b by (simp add: in_pages_def)
    then have "a < MAXVA" by (simp add: word_less_nat_alt unat_MAXVA)
    then have "pte_of (mem t) 2 pt a = PA2PTE (pa + (a - va)) OR perm OR PTE_V"
      using pt_upd_pte [OF m(2) MAXVA_SV39] a by (simp add: map_range_def)
    moreover have "PA2PTE (pa + (a - va)) = PA2PTE (PGROUNDDOWN (pa + (a - va)))"
      by (simp add: PA2PTE_def drop_bit_PGROUNDDOWN)
    ultimately show ?thesis
      using PTE2PA_PA2PTE [OF aligned_PGROUNDDOWN assms(6)] PTE_FLAGS_PA2PTE [OF assms(6)] by simp
  qed
  moreover have "\<forall>a. a < MAXVA \<longrightarrow> \<not> in_pages va j a \<longrightarrow> pte_of (mem t) 2 pt a = pte_of (mem s) 2 pt a"
    using pt_upd_pte [OF m(2) MAXVA_SV39] by (simp add: map_range_def)
  ultimately show ?thesis using m
    by (intro exI [of _ r] exI [of _ t] exI [of _ n] exI [of _ j]) (auto simp: pt_upd_def)
qed

theorem mappages_exact_witness:
  "\<exists>r t. mappages 0x87ff0000 0x1000 PGSIZE 0x80000000 PTE_R space0 = Ok r t \<and>
     pte_of (mem t) 2 0x87ff0000 0 = pte_of (mem space0) 2 0x87ff0000 0"
proof -
  have inv: "pt_inv space0 [0x87fff000, 0x87ffe000, 0x87ffd000] 0x87ff0000"
    using space0_uvm(1) [of 100] by (simp add: addr_space_def uvm_def)
  have al: "aligned 12 (0x1000 :: u64)" "aligned 12 (0x80000000 :: u64)" by (simp_all add: aligned_def take_bit_eq_mod)
  have f: "\<forall>a. in_pages 0x1000 1 a \<longrightarrow> \<not> pte_valid (pte_of (mem space0) 2 0x87ff0000 a)"
  proof (intro allI impI)
    fix a
    assume "in_pages 0x1000 1 a"
    then have e: "drop_bit 12 a = drop_bit 12 0x1000" using same_page_iff [OF al(1)] by simp
    have "leaf (mem space0) 2 0x87ff0000 a = leaf (mem space0) 2 0x87ff0000 0x1000"
      by (rule same_page_leaf [OF e])
    then have "pte_of (mem space0) 2 0x87ff0000 a = upte (mem space0) 0x87ff0000 1"
      by (simp add: pte_of_def upte_def vpage_def PGSIZE_def)
    then show "\<not> pte_valid (pte_of (mem space0) 2 0x87ff0000 a)"
      using space0_uvm(1) [of 100] by (simp add: addr_space_def uvm_def npg_def)
  qed
  have "\<not> in_pages 0x1000 j 0" for j by (simp add: in_pages_def)
  moreover have "(0 :: u64) < MAXVA" by (simp add: MAXVA_def)
  moreover have "unat (0x1000 :: u64) + 1 * 4096 \<le> unat MAXVA" "PTE_R OR PTE_V < 1024"
    by (simp_all add: MAXVA_def PTE_R_def PTE_V_def)
  ultimately show ?thesis using mappages_exact [OF inv al _ zero_less_one _ f, of PTE_R] by auto
qed

end
