(* ===== verification/Ucopy.thy ===== *)
theory Ucopy
  imports Uvm
begin

text \<open>
  \<open>copyin\<close>, \<open>copyout\<close> and \<open>copyinstr\<close> of \<open>kernel/vm.c\<close> in terms of user memory: the bytes a
  process sees at its virtual addresses. They are total, and they succeed exactly when every byte
  of the range is mapped for the user (and writable, for \<open>copyout\<close>).
\<close>

unbundle bit_operations_syntax

section \<open>User memory\<close>

text \<open>The physical address and the byte at a user address; whether the user may access it.\<close>

definition uaddr :: "memory \<Rightarrow> u64 \<Rightarrow> u64 \<Rightarrow> u64" where
  "uaddr m pt va = PTE2PA (pte_of m 2 pt va) + (va - PGROUNDDOWN va)"

definition uget :: "memory \<Rightarrow> u64 \<Rightarrow> u64 \<Rightarrow> u8" where
  "uget m pt va = m (uaddr m pt va)"

definition uok :: "memory \<Rightarrow> u64 \<Rightarrow> u64 \<Rightarrow> bool" where
  "uok m pt va \<longleftrightarrow> va < MAXVA \<and> pte_valid (pte_of m 2 pt va) \<and> pte_of m 2 pt va AND PTE_U \<noteq> 0 \<and>
     PTE2PA (pte_of m 2 pt va) \<noteq> 0"

definition uwok :: "memory \<Rightarrow> u64 \<Rightarrow> u64 \<Rightarrow> bool" where
  "uwok m pt va \<longleftrightarrow> uok m pt va \<and> pte_of m 2 pt va AND PTE_W \<noteq> 0"

definition ubytes :: "memory \<Rightarrow> u64 \<Rightarrow> u64 \<Rightarrow> nat \<Rightarrow> u8 list" where
  "ubytes m pt va n = map (\<lambda>i. uget m pt (va + of_nat i)) [0..<n]"

lemma walkaddr_run:
  assumes "wf_pt (mem s) 2 pt"
  shows "walkaddr pt va s = Ok (if uok (mem s) pt va then PTE2PA (pte_of (mem s) 2 pt va) else 0) s"
proof (cases "leaf (mem s) 2 pt va")
  case None
  then show ?thesis
    by (auto simp: walkaddr_def walk_find not_le kbind_def uok_def pte_of_def)
next
  case (Some a)
  then show ?thesis using leaf_addr(2) [OF assms Some]
    by (auto simp: walkaddr_def walk_find not_le kbind_def uok_def pte_of_def)
qed

lemma page_next: "PGROUNDDOWN va + PGSIZE = va + of_nat (page_rest va)"
proof -
  have "of_nat (page_rest va) = PGSIZE - (va - PGROUNDDOWN va)" by (simp add: page_rest_def)
  then show ?thesis by (simp add: algebra_simps)
qed

lemma unat_drop12: "unat (drop_bit 12 (x :: u64)) = unat x div 4096"
  by (subst unat_drop_bit_eq) (simp add: drop_bit_eq_div)

lemma in_page_same:
  assumes "i < page_rest va"
  shows "drop_bit 12 (va + of_nat i) = drop_bit 12 va"
proof -
  have i: "unat va mod 4096 + i < 4096" using assms by (simp add: page_rest_eq)
  have b: "unat va + i < 2 ^ 64"
  proof -
    have "unat va div 4096 < 2 ^ 52" using unat_u64 [of va] by (simp add: less_mult_imp_div_less)
    then have "unat va div 4096 * 4096 + 4096 \<le> 2 ^ 64" by simp
    moreover have "unat va = unat va div 4096 * 4096 + unat va mod 4096" by simp
    ultimately show ?thesis using i by linarith
  qed
  then have u: "unat (va + of_nat i) = unat va + i"
    by (simp add: unat_word_ariths unat_of_nat)
  have "(q * 4096 + r) div 4096 = q" if "r < 4096" for q r :: nat using that by simp
  then have "(unat va div 4096 * 4096 + (unat va mod 4096 + i)) div 4096 = unat va div 4096" using i .
  moreover have "unat va + i = unat va div 4096 * 4096 + (unat va mod 4096 + i)" by simp
  ultimately have "(unat va + i) div 4096 = unat va div 4096" by (simp only:)
  then show ?thesis by (simp only: word_unat_eq_iff unat_drop12 u)
qed

lemma same_page_pte: "drop_bit 12 a = drop_bit 12 b \<Longrightarrow> pte_of m 2 pt a = pte_of m 2 pt b"
  using same_page_leaf [of a b m 2 pt] by (simp add: pte_of_def)

lemma same_page_down: "drop_bit 12 a = drop_bit 12 b \<Longrightarrow> PGROUNDDOWN a = PGROUNDDOWN b"
  using aligned_drop_eq [OF aligned_PGROUNDDOWN aligned_PGROUNDDOWN] drop_bit_PGROUNDDOWN by metis

lemma same_page_MAXVA: "drop_bit 12 a = drop_bit 12 b \<Longrightarrow> a < MAXVA \<longleftrightarrow> b < MAXVA"
proof -
  have "x < MAXVA \<longleftrightarrow> unat (drop_bit 12 x) < 2 ^ 26" for x
    by (simp only: word_less_nat_alt unat_MAXVA unat_drop12) (simp add: div_less_iff_less_mult)
  then show "drop_bit 12 a = drop_bit 12 b \<Longrightarrow> a < MAXVA \<longleftrightarrow> b < MAXVA" by simp
qed

lemma same_page_uok:
  assumes "drop_bit 12 a = drop_bit 12 b"
  shows "uok m pt a \<longleftrightarrow> uok m pt b" "uwok m pt a \<longleftrightarrow> uwok m pt b"
  using same_page_pte [OF assms] same_page_MAXVA [OF assms] by (auto simp: uok_def uwok_def)

lemma uaddr_in_page:
  assumes "i < page_rest va"
  shows "uaddr m pt (va + of_nat i) = PTE2PA (pte_of m 2 pt va) + (va - PGROUNDDOWN va) + of_nat i"
  using same_page_pte [OF in_page_same [OF assms]] same_page_down [OF in_page_same [OF assms]]
  by (simp add: uaddr_def algebra_simps)

lemma ubytes_in_page:
  "n \<le> page_rest va \<Longrightarrow>
   read_bytes m (PTE2PA (pte_of m 2 pt va) + (va - PGROUNDDOWN va)) n = ubytes m pt va n"
  by (rule nth_equalityI) (simp_all add: ubytes_def uget_def uaddr_in_page)

lemma ubytes_split: "ubytes m pt va (n + k) = ubytes m pt va n @ ubytes m pt (va + of_nat n) k"
  by (rule nth_equalityI) (auto simp: ubytes_def nth_append algebra_simps of_nat_diff)

lemma all_bytes_split:
  "(\<forall>i < n + k. P (va + of_nat i)) \<longleftrightarrow> (\<forall>i < n. P (va + of_nat i)) \<and> (\<forall>i < k. P (va + of_nat n + of_nat i :: u64))"
proof (intro iffI conjI allI impI)
  fix i
  assume a: "\<forall>i < n + k. P (va + of_nat i)" "i < k"
  then have "P (va + of_nat (n + i))" by (meson add_less_cancel_left)
  then show "P (va + of_nat n + of_nat i)" by (simp add: add.assoc)
next
  fix i
  assume a: "(\<forall>i < n. P (va + of_nat i)) \<and> (\<forall>i < k. P (va + of_nat n + of_nat i))" "i < n + k"
  show "P (va + of_nat i)"
  proof (cases "i < n")
    case True
    then show ?thesis using a(1) by blast
  next
    case False
    then have "i - n < k" using a(2) by simp
    then have "P (va + of_nat n + of_nat (i - n))" using a(1) by blast
    moreover have "va + of_nat n + of_nat (i - n) = va + of_nat i" using False by (simp add: of_nat_diff)
    ultimately show ?thesis by simp
  qed
qed simp

lemma PGROUNDDOWN_page [simp]: "pte_of m 2 pt (PGROUNDDOWN va) = pte_of m 2 pt va"
  by (rule same_page_pte) (rule drop_bit_PGROUNDDOWN)

lemma uok_PGROUNDDOWN [simp]: "uok m pt (PGROUNDDOWN va) = uok m pt va" "uwok m pt (PGROUNDDOWN va) = uwok m pt va"
  using same_page_uok [OF drop_bit_PGROUNDDOWN] by blast+

section \<open>Reading user memory\<close>

lemma copyin_run:
  assumes "wf_pt (mem s) 2 pt"
  shows "\<exists>bs. copyin pt srcva len s = Ok (if \<forall>i < len. uok (mem s) pt (srcva + of_nat i) then 0 else - 1, bs) s \<and>
    ((\<forall>i < len. uok (mem s) pt (srcva + of_nat i)) \<longrightarrow> bs = ubytes (mem s) pt srcva len)"
proof (induction len arbitrary: srcva rule: less_induct)
  case (less len)
  show ?case
  proof (cases "len = 0")
    case True
    then show ?thesis by (subst copyin.simps) (simp add: ubytes_def)
  next
    case False
    let ?n = "min (page_rest srcva) len" and ?va = "PGROUNDDOWN srcva + PGSIZE"
    have ok: "(\<forall>i < ?n. uok (mem s) pt (srcva + of_nat i)) \<longleftrightarrow> uok (mem s) pt srcva"
      using same_page_uok(1) [OF in_page_same] False by (auto intro!: exI [of _ 0])
    show ?thesis
    proof (cases "uok (mem s) pt srcva")
      case True
      then have nz: "PTE2PA (pte_of (mem s) 2 pt srcva) \<noteq> 0" by (simp add: uok_def)
      obtain bs where ih: "copyin pt ?va (len - ?n) s =
          Ok (if \<forall>i < len - ?n. uok (mem s) pt (?va + of_nat i) then 0 else - 1, bs) s"
          "(\<forall>i < len - ?n. uok (mem s) pt (?va + of_nat i)) \<longrightarrow> bs = ubytes (mem s) pt ?va (len - ?n)"
        using less.IH [of "len - ?n" ?va] False by auto
      have run: "copyin pt srcva len s = Ok (if \<forall>i < len - ?n. uok (mem s) pt (?va + of_nat i) then 0 else - 1,
          ubytes (mem s) pt srcva ?n @ bs) s"
        using False True nz ih(1) walkaddr_run [OF assms, of "PGROUNDDOWN srcva"] ubytes_in_page [of ?n srcva "mem s" pt]
        by (subst copyin.simps) (simp add: kbind_def Let_def)
      have nx: "len - ?n = 0 \<or> ?va = srcva + of_nat ?n" by (auto simp: page_next min_def)
      have e: "len = ?n + (len - ?n)" by simp
      show ?thesis
      proof (cases "len - ?n = 0")
        case True
        then have "?n = len" by simp
        then show ?thesis using run ih ok \<open>uok (mem s) pt srcva\<close> by (simp add: ubytes_def)
      next
        case False
        then have v: "?va = srcva + of_nat ?n" using nx by metis
        have "(\<forall>i < len. uok (mem s) pt (srcva + of_nat i)) \<longleftrightarrow> (\<forall>i < len - ?n. uok (mem s) pt (?va + of_nat i))"
          using all_bytes_split [of ?n "len - ?n" "uok (mem s) pt" srcva] ok True v e by simp
        moreover have "ubytes (mem s) pt srcva len = ubytes (mem s) pt srcva ?n @ ubytes (mem s) pt ?va (len - ?n)"
          using ubytes_split [of "mem s" pt srcva ?n "len - ?n"] v e by simp
        ultimately show ?thesis using run ih(2) by auto
      qed
    next
      case False
      then have "copyin pt srcva len s = Ok (- 1, []) s"
        using \<open>len \<noteq> 0\<close> walkaddr_run [OF assms, of "PGROUNDDOWN srcva"]
        by (subst copyin.simps) (simp add: kbind_def Let_def)
      moreover have "\<not> (\<forall>i < len. uok (mem s) pt (srcva + of_nat i))"
        using False \<open>len \<noteq> 0\<close> by (auto intro!: exI [of _ 0])
      ultimately show ?thesis by auto
    qed
  qed
qed

section \<open>Writing user memory\<close>

definition vpn :: "u64 \<Rightarrow> nat" where "vpn va = unat va div 4096"

lemma vpn_same: "vpn a = vpn b \<longleftrightarrow> drop_bit 12 a = drop_bit 12 b"
  by (simp only: vpn_def word_unat_eq_iff unat_drop12)

lemma vpage_vpn: "va < MAXVA \<Longrightarrow> vpage (vpn va) = PGROUNDDOWN va \<and> vpn va < 2 ^ 26"
proof -
  assume "va < MAXVA"
  then have "unat va < 2 ^ 38" by (simp add: word_less_nat_alt unat_MAXVA)
  then have "vpn va < 2 ^ 26" by (simp add: vpn_def div_less_iff_less_mult)
  then show ?thesis using unat_vpage [of "vpn va"] by (simp add: word_unat_eq_iff unat_PGROUNDDOWN vpn_def)
qed

lemma upte_vpn: "va < MAXVA \<Longrightarrow> upte m pt (vpn va) = pte_of m 2 pt va"
  using vpage_vpn [of va] by (simp add: upte_def)

text \<open>Every page the user can access is one the process owns.\<close>

definition user_owned :: "memory \<Rightarrow> u64 \<Rightarrow> nat set \<Rightarrow> bool" where
  "user_owned m pt S \<longleftrightarrow> (\<forall>va. uok m pt va \<longrightarrow> vpn va \<in> S)"

lemma offset_small: "unat (va - PGROUNDDOWN va) = unat va mod 4096"
  by (simp add: unat_sub [OF PGROUNDDOWN_le] unat_PGROUNDDOWN minus_div_mult_eq_mod)

lemma unat_add_le_sum: "unat (a + b :: u64) \<le> unat a + unat b"
  by (simp add: unat_word_ariths)

lemma write_in_page:
  assumes "aligned 12 p" "n \<le> page_rest va"
  shows "region (p + (va - PGROUNDDOWN va)) n \<subseteq> region p 4096"
proof
  fix x
  assume x: "x \<in> region (p + (va - PGROUNDDOWN va)) n"
  let ?o = "va - PGROUNDDOWN va"
  have "unat (x - (p + ?o)) < n" using x by (simp add: mem_region)
  then have "unat ?o + unat (x - (p + ?o)) < 4096"
    using assms(2) by (simp add: offset_small page_rest_eq)
  moreover have "x - p = ?o + (x - (p + ?o))" by simp
  ultimately show "x \<in> region p 4096"
    unfolding mem_region using unat_add_le_sum [of ?o "x - (p + ?o)"] by simp
qed

lemma uvm_write:
  assumes uvm: "uvm s fs pt S Z" and i: "i \<in> S" and sub: "region a (length bs) \<subseteq> region (upage (mem s) pt i) 4096"
  defines "t \<equiv> s\<lparr>mem := write_bytes (mem s) a bs\<rparr>"
  shows "uvm t fs pt S Z" "pte_of (mem t) 2 pt va = pte_of (mem s) 2 pt va" "tabs (mem t) 2 pt = tabs (mem s) 2 pt"
proof -
  have inv: "pt_inv s fs pt" and wf: "wf_pt (mem s) 2 pt" and k: "kmem_inv s fs"
    using uvm by (auto simp: uvm_def pt_inv_def)
  have p: "aligned 12 (upage (mem s) pt i)" "upage (mem s) pt i \<notin> set fs" "upage (mem s) pt i \<notin> tabs (mem s) 2 pt"
    using uvm_upage [OF uvm i] by auto
  have ag: "agree (mem s) (mem t) (tabs (mem s) 2 pt)"
  proof (rule agree_pages)
    fix q
    assume "q \<in> tabs (mem s) 2 pt"
    then show "agree (mem s) (mem t) {q}"
      unfolding t_def using tabs_aligned [OF wf] p sub by (auto intro!: agree_write)
  qed
  note fr = tabs_frame [OF wf ag] and pf = pte_of_frame [OF wf ag]
  show "pte_of (mem t) 2 pt va = pte_of (mem s) 2 pt va" by (rule pf)
  show tb: "tabs (mem t) 2 pt = tabs (mem s) 2 pt" using fr by blast
  have up: "upte (mem t) pt = upte (mem s) pt" "upage (mem t) pt = upage (mem s) pt"
    using pf by (simp_all add: upte_def upage_def fun_eq_iff)
  have "kmem_inv t fs" unfolding t_def by (rule kmem_inv_write [OF k p(1,2) sub])
  then have "pt_inv t fs pt" using inv fr tb by (auto simp: pt_inv_def t_def)
  moreover have "page_ok t = page_ok s" by (simp add: t_def)
  ultimately show "uvm t fs pt S Z" using uvm tb by (simp add: uvm_def up)
qed

lemma uget_write:
  assumes uvm: "uvm s fs pt S Z" and ow: "user_owned (mem s) pt S" and d: "uok (mem s) pt d"
    and n: "length bs \<le> page_rest d" and a: "uok (mem s) pt a"
  shows "uget (write_bytes (mem s) (uaddr (mem s) pt d) bs) pt a =
    (if unat (a - d) < length bs then bs ! unat (a - d) else uget (mem s) pt a)"
proof -
  let ?m = "write_bytes (mem s) (uaddr (mem s) pt d) bs"
  have S: "vpn d \<in> S" "vpn a \<in> S" using ow d a by (auto simp: user_owned_def)
  have M: "d < MAXVA" "a < MAXVA" using d a by (auto simp: uok_def)
  have u: "upage (mem s) pt (vpn d) = PTE2PA (pte_of (mem s) 2 pt d)" "upage (mem s) pt (vpn a) = PTE2PA (pte_of (mem s) 2 pt a)"
    using M by (simp_all add: upage_def upte_vpn)
  have sub: "region (uaddr (mem s) pt d) (length bs) \<subseteq> region (upage (mem s) pt (vpn d)) 4096"
    unfolding uaddr_def u(1) by (rule write_in_page [OF _ n]) simp
  have pte: "pte_of ?m 2 pt a = pte_of (mem s) 2 pt a" using uvm_write(2) [OF uvm S(1) sub] by simp
  then have ua: "uaddr ?m pt a = uaddr (mem s) pt a" by (simp add: uaddr_def)
  show ?thesis
  proof (cases "vpn a = vpn d")
    case True
    then have "drop_bit 12 a = drop_bit 12 d" by (simp add: vpn_same)
    then have "uaddr (mem s) pt a - uaddr (mem s) pt d = a - d"
      using same_page_pte [of a d] same_page_down [of a d] by (simp add: uaddr_def)
    then show ?thesis unfolding uget_def ua by (simp add: write_bytes_def)
  next
    case False
    then have ne: "upage (mem s) pt (vpn a) \<noteq> upage (mem s) pt (vpn d)"
      using uvm S by (auto simp: uvm_def inj_on_def)
    have "uaddr (mem s) pt a \<in> region (upage (mem s) pt (vpn a)) 4096"
      using write_in_page [of "PTE2PA (pte_of (mem s) 2 pt a)" 1 a] page_rest_pos [of a] in_own_region [of 1]
      unfolding uaddr_def u(2) by (simp add: Suc_leI) blast
    then have "uaddr (mem s) pt a \<notin> region (uaddr (mem s) pt d) (length bs)"
      using sub aligned_page_disjoint [OF _ _ ne] uvm_upage [OF uvm S(1)] uvm_upage [OF uvm S(2)] by blast
    moreover have "\<not> unat (a - d) < length bs"
    proof
      assume "unat (a - d) < length bs"
      then have "drop_bit 12 (d + of_nat (unat (a - d))) = drop_bit 12 d" using n by (intro in_page_same) simp
      then show False using False by (simp add: vpn_same)
    qed
    ultimately show ?thesis unfolding uget_def ua by (simp add: write_bytes_out)
  qed
qed

lemma split_offset:
  assumes "n \<le> len" "len \<le> 2 ^ 64" "n \<le> 4096"
  shows "unat (x - of_nat n :: u64) < len - n \<longleftrightarrow> n \<le> unat x \<and> unat x < len"
    "n \<le> unat x \<Longrightarrow> unat (x - of_nat n :: u64) = unat x - n"
proof -
  have n: "unat (of_nat n :: u64) = n" using assms(3) by (simp add: unat_of_nat64)
  show e: "n \<le> unat x \<Longrightarrow> unat (x - of_nat n :: u64) = unat x - n"
    using n by (simp add: unat_sub word_le_nat_alt)
  show "unat (x - of_nat n :: u64) < len - n \<longleftrightarrow> n \<le> unat x \<and> unat x < len"
  proof (cases "n \<le> unat x")
    case True
    then show ?thesis using e assms(1) by auto
  next
    case False
    then have "unat (x - of_nat n :: u64) = 2 ^ 64 + unat x - n" using n by (simp add: unat_sub_if' word_le_nat_alt)
    then show ?thesis using False assms by auto
  qed
qed

lemma copyout_step:
  assumes wf: "wf_pt (mem s) 2 pt" and src: "src \<noteq> []"
  shows "copyout pt d src s = (if uwok (mem s) pt d
    then let n = min (page_rest d) (length src) in
      copyout pt (PGROUNDDOWN d + PGSIZE) (drop n src) (s\<lparr>mem := write_bytes (mem s) (uaddr (mem s) pt d) (take n src)\<rparr>)
    else Ok (- 1) s)"
proof -
  let ?va = "PGROUNDDOWN d"
  have m: "?va < MAXVA \<longleftrightarrow> d < MAXVA" by (rule same_page_MAXVA) (rule drop_bit_PGROUNDDOWN)
  have l: "leaf (mem s) 2 pt ?va = leaf (mem s) 2 pt d" by (rule same_page_leaf) (rule drop_bit_PGROUNDDOWN)
  show ?thesis
  proof (cases "d < MAXVA")
    case False
    then show ?thesis using src m by (subst copyout.simps) (simp add: Let_def uwok_def uok_def not_le)
  next
    case True
    then have w: "walk pt ?va False s = Ok (case leaf (mem s) 2 pt d of None \<Rightarrow> 0 | Some a \<Rightarrow> a) s"
      using walk_find [of ?va pt s] m l by simp
    have wa: "walkaddr pt ?va s = Ok (if uok (mem s) pt d then PTE2PA (pte_of (mem s) 2 pt d) else 0) s"
      using walkaddr_run [OF wf, of ?va] by simp
    have mv: "\<not> MAXVA \<le> ?va" using m True by (simp add: not_le)
    show ?thesis
    proof (cases "leaf (mem s) 2 pt d")
      case None
      then show ?thesis using src mv w
        by (subst copyout.simps) (simp add: Let_def kbind_def uwok_def uok_def pte_of_def)
    next
      case (Some a)
      have a: "a \<noteq> 0" "pte_of (mem s) 2 pt d = load64 (mem s) a"
        using leaf_addr(2) [OF wf Some] Some by (simp_all add: pte_of_def)
      show ?thesis using src mv w wa Some a
        by (subst copyout.simps) (auto simp: Let_def kbind_def uwok_def uok_def uaddr_def)
    qed
  qed
qed

definition copied_out :: "'z kmem_scheme \<Rightarrow> u64 list \<Rightarrow> u64 \<Rightarrow> nat set \<Rightarrow> nat set \<Rightarrow> 'z kmem_scheme \<Rightarrow> bool" where
  "copied_out s fs pt S Z t \<longleftrightarrow> t = s\<lparr>mem := mem t\<rparr> \<and> uvm t fs pt S Z \<and>
     (\<forall>va. pte_of (mem t) 2 pt va = pte_of (mem s) 2 pt va) \<and>
     (\<forall>q. aligned 12 q \<longrightarrow> q \<notin> upage (mem s) pt ` S \<longrightarrow> agree (mem s) (mem t) {q})"

lemma copied_out_refl: "uvm s fs pt S Z \<Longrightarrow> copied_out s fs pt S Z s"
  by (simp add: copied_out_def)

lemma copied_out_same:
  assumes "copied_out s fs pt S Z t"
  shows "uok (mem t) pt a = uok (mem s) pt a" "uwok (mem t) pt a = uwok (mem s) pt a"
    "uaddr (mem t) pt a = uaddr (mem s) pt a" "upage (mem t) pt i = upage (mem s) pt i"
  using assms by (simp_all add: copied_out_def uok_def uwok_def uaddr_def upage_def upte_def)

lemma copied_out_trans:
  assumes "copied_out s fs pt S Z t" "copied_out t fs pt S Z u"
  shows "copied_out s fs pt S Z u"
proof -
  have e: "t = s\<lparr>mem := mem t\<rparr>" "u = t\<lparr>mem := mem u\<rparr>" using assms by (auto simp: copied_out_def)
  have "u = s\<lparr>mem := mem u\<rparr>" by (subst e(2), subst e(1)) simp
  moreover have "upage (mem t) pt ` S = upage (mem s) pt ` S" using copied_out_same(4) [OF assms(1)] by simp
  ultimately show ?thesis
    using assms agree_trans [of "mem s" "mem t" _ "mem u"] by (simp add: copied_out_def)
qed

lemma copied_out_write:
  assumes uvm: "uvm s fs pt S Z" and ow: "user_owned (mem s) pt S" and d: "uok (mem s) pt d"
    and n: "length bs \<le> page_rest d"
  shows "copied_out s fs pt S Z (s\<lparr>mem := write_bytes (mem s) (uaddr (mem s) pt d) bs\<rparr>)"
proof -
  have S: "vpn d \<in> S" and M: "d < MAXVA" using ow d by (auto simp: user_owned_def uok_def)
  have u: "upage (mem s) pt (vpn d) = PTE2PA (pte_of (mem s) 2 pt d)" using M by (simp add: upage_def upte_vpn)
  have sub: "region (uaddr (mem s) pt d) (length bs) \<subseteq> region (upage (mem s) pt (vpn d)) 4096"
    unfolding uaddr_def u by (rule write_in_page [OF _ n]) simp
  have "agree (mem s) (write_bytes (mem s) (uaddr (mem s) pt d) bs) {q}"
    if "aligned 12 q" "q \<notin> upage (mem s) pt ` S" for q
    using that S sub uvm_upage [OF uvm S] by (intro agree_write [where p = "upage (mem s) pt (vpn d)"]) auto
  then show ?thesis using uvm_write [OF uvm S sub] by (simp add: copied_out_def)
qed

lemma copyout_run:
  assumes "uvm s fs pt S Z" "user_owned (mem s) pt S" "length src \<le> 2 ^ 64"
  shows "\<exists>r t. copyout pt d src s = Ok r t \<and> copied_out s fs pt S Z t \<and>
    (if \<forall>i < length src. uwok (mem s) pt (d + of_nat i)
     then r = 0 \<and> (\<forall>a. uok (mem s) pt a \<longrightarrow> uget (mem t) pt a =
       (if unat (a - d) < length src then src ! unat (a - d) else uget (mem s) pt a))
     else r = - 1)"
  using assms
proof (induction "length src" arbitrary: src d s rule: less_induct)
  case less
  have wf: "wf_pt (mem s) 2 pt" using less.prems(1) by (simp add: uvm_def pt_inv_def)
  show ?case
  proof (cases "src = []")
    case True
    then show ?thesis using copied_out_refl [OF less.prems(1)] by (subst copyout.simps) simp
  next
    case False
    note step = copyout_step [OF wf False, of d]
    show ?thesis
    proof (cases "uwok (mem s) pt d")
      case nw: False
      then have "\<not> (\<forall>i < length src. uwok (mem s) pt (d + of_nat i))"
        using False by (auto intro!: exI [of _ 0])
      then show ?thesis using step nw copied_out_refl [OF less.prems(1)] by auto
    next
      case True
      then have ok: "uok (mem s) pt d" by (simp add: uwok_def)
      let ?n = "min (page_rest d) (length src)" and ?d = "PGROUNDDOWN d + PGSIZE"
      let ?t = "s\<lparr>mem := write_bytes (mem s) (uaddr (mem s) pt d) (take ?n src)\<rparr>"
      have n: "?n \<le> length src" "?n \<le> 4096" "length (take ?n src) \<le> page_rest d" "0 < ?n"
        using False by (auto simp: page_rest_eq)
      have co: "copied_out s fs pt S Z ?t" by (rule copied_out_write [OF less.prems(1,2) ok n(3)])
      note same = copied_out_same [OF co]
      have ut: "uvm ?t fs pt S Z" "user_owned (mem ?t) pt S"
        using co less.prems(2) same(1) by (auto simp: copied_out_def user_owned_def)
      have shorter: "length (drop ?n src) < length src" "length (drop ?n src) \<le> 2 ^ 64"
        using False less.prems(3) by auto
      obtain r u where ih: "copyout pt ?d (drop ?n src) ?t = Ok r u" "copied_out ?t fs pt S Z u"
          "if \<forall>i < length (drop ?n src). uwok (mem ?t) pt (?d + of_nat i)
           then r = 0 \<and> (\<forall>a. uok (mem ?t) pt a \<longrightarrow> uget (mem u) pt a =
             (if unat (a - ?d) < length (drop ?n src) then drop ?n src ! unat (a - ?d) else uget (mem ?t) pt a))
           else r = - 1"
        using less.hyps [OF shorter(1) ut shorter(2)] by blast
      have run: "copyout pt d src s = Ok r u" unfolding step Let_def if_P [OF True] by (rule ih(1))
      have first: "\<forall>i < ?n. uwok (mem s) pt (d + of_nat i)"
        using same_page_uok(2) [OF in_page_same] True by auto
      have get: "uget (mem ?t) pt a = (if unat (a - d) < ?n then take ?n src ! unat (a - d) else uget (mem s) pt a)"
        if "uok (mem s) pt a" for a
        using uget_write [OF less.prems(1,2) ok n(3) that] n(1) by simp
      show ?thesis
      proof (cases "?n = length src")
        case whole: True
        then have "r = 0" "u = ?t" using ih(1) by (simp_all add: copyout.simps)
        then show ?thesis using run co first get whole by auto
      next
        case part: False
        then have d: "?d = d + of_nat ?n" using page_next [of d] by (auto simp: min_def split: if_splits)
        have e: "?n + length (drop ?n src) = length src" by simp
        have "(\<forall>i < length src. uwok (mem s) pt (d + of_nat i)) \<longleftrightarrow>
            (\<forall>i < length (drop ?n src). uwok (mem ?t) pt (?d + of_nat i))"
          unfolding d same(2) using all_bytes_split [of ?n "length (drop ?n src)" "uwok (mem s) pt" d, unfolded e] first
          by (simp only:) blast
        moreover have "(if unat (a - ?d) < length (drop ?n src) then drop ?n src ! unat (a - ?d) else uget (mem ?t) pt a) =
            (if unat (a - d) < length src then src ! unat (a - d) else uget (mem s) pt a)"
          if "uok (mem s) pt a" for a
        proof -
          have ad: "a - ?d = (a - d) - of_nat ?n" by (simp add: d)
          note so = split_offset [OF n(1) less.prems(3) n(2), of "a - d"]
          show ?thesis unfolding ad get [OF that] using so n(1)
            by (cases "?n \<le> unat (a - d)") auto
        qed
        ultimately show ?thesis using run ih(3) copied_out_trans [OF co ih(2)] same(1)
          by (intro exI [of _ r] exI [of _ u]) (auto split: if_splits)
      qed
    qed
  qed
qed

section \<open>Reading strings\<close>

text \<open>A NUL-terminated string of length \<open>k\<close> at the user address \<open>va\<close>.\<close>

definition ustr :: "memory \<Rightarrow> u64 \<Rightarrow> u64 \<Rightarrow> nat \<Rightarrow> bool" where
  "ustr m pt va k \<longleftrightarrow> (\<forall>i \<le> k. uok m pt (va + of_nat i)) \<and> (\<forall>i < k. uget m pt (va + of_nat i) \<noteq> 0) \<and>
     uget m pt (va + of_nat k) = 0"

lemma ustr_unique: "ustr m pt va k \<Longrightarrow> ustr m pt va j \<Longrightarrow> k = j"
  unfolding ustr_def by (metis linorder_neqE_nat)

lemma copy_until_nul_eq:
  "copy_until_nul m p n = (case first_index ((=) 0) (read_bytes m p n) of
     None \<Rightarrow> (read_bytes m p n, False) | Some k \<Rightarrow> (read_bytes m p (Suc k), True))"
proof (induction n arbitrary: p)
  case 0
  then show ?case by (simp add: read_bytes_def)
next
  case (Suc n)
  have "read_bytes m a 0 = []" for a by (simp add: read_bytes_def)
  with Suc show ?case by (auto simp: read_bytes_Suc split: option.splits)
qed

lemma ustr_shift:
  assumes "\<forall>i < n. uok m pt (va + of_nat i) \<and> uget m pt (va + of_nat i) \<noteq> 0"
  shows "ustr m pt va k \<longleftrightarrow> n \<le> k \<and> ustr m pt (va + of_nat n) (k - n)"
proof (cases "n \<le> k")
  case True
  then obtain j where j: "k = n + j" using le_Suc_ex by blast
  have "(\<forall>i \<le> n + j. uok m pt (va + of_nat i)) \<longleftrightarrow> (\<forall>i \<le> j. uok m pt (va + of_nat n + of_nat i))"
    using all_bytes_split [of n "Suc j" "uok m pt" va] assms by (simp add: less_Suc_eq_le)
  moreover have "(\<forall>i < n + j. uget m pt (va + of_nat i) \<noteq> 0) \<longleftrightarrow> (\<forall>i < j. uget m pt (va + of_nat n + of_nat i) \<noteq> 0)"
    using all_bytes_split [of n j "\<lambda>a. uget m pt a \<noteq> 0" va] assms by simp
  ultimately show ?thesis using j by (simp add: ustr_def add.assoc)
next
  case False
  then show ?thesis using assms by (auto simp: ustr_def)
qed

lemma copyinstr_run:
  assumes wf: "wf_pt (mem s) 2 pt"
  shows "\<exists>r bs. copyinstr pt va n s = Ok (r, bs) s \<and>
    (if \<exists>k < n. ustr (mem s) pt va k
     then r = 0 \<and> (\<forall>k. ustr (mem s) pt va k \<longrightarrow> bs = ubytes (mem s) pt va (Suc k)) else r = - 1)"
proof (induction n arbitrary: va rule: less_induct)
  case (less n)
  show ?case
  proof (cases "n \<noteq> 0 \<and> uok (mem s) pt va")
    case False
    have "\<not> ustr (mem s) pt va k" if "\<not> uok (mem s) pt va" for k
      using that by (auto simp: ustr_def intro!: exI [of _ 0])
    moreover have "copyinstr pt va n s = Ok (- 1, []) s"
      using False walkaddr_run [OF wf, of "PGROUNDDOWN va"] by (subst copyinstr.simps) (auto simp: kbind_def Let_def)
    ultimately show ?thesis using False by auto
  next
    case True
    let ?m = "min (page_rest va) n" and ?va = "PGROUNDDOWN va + PGSIZE" and ?p = "uaddr (mem s) pt va"
    have nz: "PTE2PA (pte_of (mem s) 2 pt va) \<noteq> 0" using True by (simp add: uok_def)
    have rd: "read_bytes (mem s) ?p j = ubytes (mem s) pt va j" if "j \<le> ?m" for j
      using ubytes_in_page [of j va "mem s" pt] that by (simp add: uaddr_def)
    have ok: "\<forall>i < ?m. uok (mem s) pt (va + of_nat i)"
      using same_page_uok(1) [OF in_page_same] True by auto
    have run: "copyinstr pt va n s = (case copy_until_nul (mem s) ?p ?m of (bs, g) \<Rightarrow>
        if g then Ok (0, bs) s else kbind (copyinstr pt ?va (n - ?m)) (\<lambda>(r, cs) s. kreturn (r, bs @ cs) s) s)"
      using True nz walkaddr_run [OF wf, of "PGROUNDDOWN va"]
      by (subst copyinstr.simps) (simp add: kbind_def Let_def uaddr_def split: prod.splits)
    show ?thesis
    proof (cases "first_index ((=) 0) (ubytes (mem s) pt va ?m)")
      case (Some k)
      then have k: "k < ?m" "uget (mem s) pt (va + of_nat k) = 0" "\<forall>j < k. uget (mem s) pt (va + of_nat j) \<noteq> 0"
        by (auto simp: first_index_Some ubytes_def)
      then have u: "ustr (mem s) pt va k" using ok by (auto simp: ustr_def)
      have "copy_until_nul (mem s) ?p ?m = (ubytes (mem s) pt va (Suc k), True)"
        unfolding copy_until_nul_eq rd [OF order_refl] Some using rd [of "Suc k"] k(1) by simp
      then have "copyinstr pt va n s = Ok (0, ubytes (mem s) pt va (Suc k)) s" unfolding run by simp
      moreover have "\<exists>k < n. ustr (mem s) pt va k" using u k(1) by auto
      moreover have "j = k" if "ustr (mem s) pt va j" for j using ustr_unique [OF that u] .
      ultimately show ?thesis by fastforce
    next
      case None
      then have nn: "\<forall>i < ?m. uget (mem s) pt (va + of_nat i) \<noteq> 0"
        by (auto simp: first_index_None ubytes_def)
      have cu: "copy_until_nul (mem s) ?p ?m = (ubytes (mem s) pt va ?m, False)"
        unfolding copy_until_nul_eq rd [OF order_refl] None by simp
      obtain r bs where ih: "copyinstr pt ?va (n - ?m) s = Ok (r, bs) s"
          "if \<exists>k < n - ?m. ustr (mem s) pt ?va k
           then r = 0 \<and> (\<forall>k. ustr (mem s) pt ?va k \<longrightarrow> bs = ubytes (mem s) pt ?va (Suc k)) else r = - 1"
        using less.IH [of "n - ?m" ?va] True by auto
      have res: "copyinstr pt va n s = Ok (r, ubytes (mem s) pt va ?m @ bs) s"
        using run cu ih(1) by (simp add: kbind_def)
      have sh: "ustr (mem s) pt va k \<longleftrightarrow> ?m \<le> k \<and> ustr (mem s) pt (va + of_nat ?m) (k - ?m)" for k
        using ok nn by (intro ustr_shift) blast
      show ?thesis
      proof (cases "?m = n")
        case True
        then have "\<not> (\<exists>k < n. ustr (mem s) pt va k)" "r = - 1" using sh ih(2) by auto
        then show ?thesis using res by auto
      next
        case False
        then have v: "?va = va + of_nat ?m" using page_next [of va] by (auto simp: min_def split: if_splits)
        have ex: "(\<exists>k < n. ustr (mem s) pt va k) \<longleftrightarrow> (\<exists>k < n - ?m. ustr (mem s) pt ?va k)"
        proof
          assume "\<exists>k < n. ustr (mem s) pt va k"
          then show "\<exists>k < n - ?m. ustr (mem s) pt ?va k" unfolding sh v by (auto intro: diff_less_mono)
        next
          assume "\<exists>k < n - ?m. ustr (mem s) pt ?va k"
          then obtain k where "k < n - ?m" "ustr (mem s) pt ?va k" by blast
          then have "?m + k < n" "ustr (mem s) pt va (?m + k)" using sh [of "?m + k"] v by auto
          then show "\<exists>k < n. ustr (mem s) pt va k" by blast
        qed
        show ?thesis
        proof (cases "\<exists>k < n - ?m. ustr (mem s) pt ?va k")
          case True
          then have r: "r = 0" "\<And>k. ustr (mem s) pt ?va k \<Longrightarrow> bs = ubytes (mem s) pt ?va (Suc k)"
            using ih(2) by auto
          have "ubytes (mem s) pt va ?m @ bs = ubytes (mem s) pt va (Suc k)" if "ustr (mem s) pt va k" for k
          proof -
            have k: "?m \<le> k" "ustr (mem s) pt ?va (k - ?m)" using sh [of k] that unfolding v by auto
            have "?m + Suc (k - ?m) = Suc k" using k(1) by simp
            then show ?thesis using ubytes_split [of "mem s" pt va ?m "Suc (k - ?m)"] r(2) [OF k(2)] unfolding v by simp
          qed
          then show ?thesis using res r(1) True ex by auto
        next
          case False
          then show ?thesis using res ih(2) ex by auto
        qed
      qed
    qed
  qed
qed

section \<open>The properties\<close>

text \<open>An example process with one page of memory.\<close>

definition space1 :: kmem where
  "space1 = (case uvmalloc 0x87ff0000 0 4000 PTE_W space0 of Ok _ t \<Rightarrow> t | _ \<Rightarrow> space0)"

lemma flag_and: "f < 1024 \<Longrightarrow> v AND f = PTE_FLAGS v AND f"
proof (rule bit_word_eqI)
  fix n :: nat
  assume "f < 1024"
  then show "bit (v AND f) n \<longleftrightarrow> bit (PTE_FLAGS v AND f) n"
    using bit_flags [of f n] by (cases "n < 10") (auto simp: PTE_FLAGS_def and_0x3FF bit_and_iff bit_take_bit_iff)
qed

lemma space1_uvm:
  "\<exists>gs. uvm space1 gs 0x87ff0000 {0} {1..<2 ^ 27} \<and>
     uvm_pages (mem space1) gs 0x87ff0000 {0} = {0x87ff0000, 0x87fff000, 0x87ffe000, 0x87ffd000}" "user_owned (mem space1) 0x87ff0000 {0}"
  "va < PGSIZE \<Longrightarrow> uwok (mem space1) 0x87ff0000 va"
proof -
  let ?pt = "0x87ff0000 :: u64"
  have p: "(PTE_R OR PTE_U OR PTE_W) OR PTE_V < 1024" by (simp add: PTE_R_def PTE_U_def PTE_W_def PTE_V_def)
  have n: "npg 4000 = 1" "npg 0 = 0" by (simp_all add: npg_def)
  have "uvm space0 [0x87fff000, 0x87ffe000, 0x87ffd000] ?pt ({} \<union> {0..<0}) ({1..<2 ^ 27} \<union> {0..<npg 4000})"
    using space0_uvm(3) [of 0] upto_pages(2) [of 0 1 "2 ^ 27"] n by (simp add: Un_commute lessThan_atLeast0)
  from uvmalloc_loop_run [OF this _ _ _ _ _ _ p, of "Suc (Suc 0)"] n
  obtain t gs where t: "uvmalloc_loop (Suc (Suc 0)) ?pt (vpage 0) (vpage 0) 4000 PTE_W space0 = Ok 4000 t"
      "uvm t gs ?pt ({} \<union> {0..<1}) {1..<2 ^ 27}"
      "uvm_pages (mem t) gs ?pt ({} \<union> {0..<1}) = uvm_pages (mem space0) [0x87fff000, 0x87ffe000, 0x87ffd000] ?pt ({} \<union> {0..<0})" "PTE_FLAGS (upte (mem t) ?pt 0) = (PTE_R OR PTE_U OR PTE_W) OR PTE_V"
    by (auto simp del: uvmalloc_loop.simps)
  have "PGROUNDUP 0 = vpage 0" by (simp add: PGROUNDUP_def vpage_def)
  then have "uvmalloc ?pt 0 4000 PTE_W space0 = Ok 4000 t"
    using t(1) by (simp add: uvmalloc_def del: uvmalloc_loop.simps)
  then have s1: "space1 = t" by (simp add: space1_def)
  have u: "uvm t gs ?pt {0} {1..<2 ^ 27}" using t(2) by simp
  have "uvm_pages (mem t) gs ?pt {0} = {?pt, 0x87fff000, 0x87ffe000, 0x87ffd000}"
    using t(3) space0_uvm(2) [of 0] by (simp add: uvm_pages_def)
  then show "\<exists>gs. uvm space1 gs ?pt {0} {1..<2 ^ 27} \<and>
     uvm_pages (mem space1) gs ?pt {0} = {?pt, 0x87fff000, 0x87ffe000, 0x87ffd000}" using u s1 by blast
  show "user_owned (mem space1) ?pt {0}"
    unfolding user_owned_def s1
  proof (intro allI impI)
    fix va
    assume ok: "uok (mem t) ?pt va"
    then have m: "va < MAXVA" by (simp add: uok_def)
    have "pte_valid (upte (mem t) ?pt (vpn va))" using ok upte_vpn [OF m] by (simp add: uok_def)
    then have "vpn va \<notin> {1..<2 ^ 27}" using u unfolding uvm_def by blast
    then show "vpn va \<in> {0}" using vpage_vpn [OF m] by auto
  qed
  assume va: "va < PGSIZE"
  then have v: "unat va < 4096" by (simp add: word_less_nat_alt PGSIZE_def)
  then have m: "va < MAXVA" by (simp add: word_less_nat_alt MAXVA_def)
  have pte: "pte_of (mem t) 2 ?pt va = upte (mem t) ?pt 0" using upte_vpn [OF m, of "mem t" ?pt] v by (simp add: vpn_def)
  have fl: "upte (mem t) ?pt 0 AND PTE_U \<noteq> 0" "upte (mem t) ?pt 0 AND PTE_W \<noteq> 0" "pte_valid (upte (mem t) ?pt 0)"
    by (subst flag_and; simp add: t(4) PTE_R_def PTE_U_def PTE_W_def PTE_V_def)+
  have "KERNBASE \<le> kend t" using u by (simp add: uvm_def pt_inv_def kmem_inv_def)
  then have "PTE2PA (upte (mem t) ?pt 0) \<noteq> 0" using u page_ok_nonzero [of t] by (auto simp: uvm_def upage_def)
  then show "uwok (mem space1) ?pt va" using fl m by (simp add: uwok_def uok_def pte s1)
qed

lemma copyout_reads_back:
  assumes "copied_out s fs pt S Z t" and w: "\<forall>i < length src. uwok (mem s) pt (d + of_nat i)"
    and g: "\<forall>a. uok (mem s) pt a \<longrightarrow> uget (mem t) pt a =
      (if unat (a - d) < length src then src ! unat (a - d) else uget (mem s) pt a)" and "length src \<le> 2 ^ 64"
  shows "copyin pt d (length src) t = Ok (0, src) t"
proof -
  have wf: "wf_pt (mem t) 2 pt" using assms(1) by (auto simp: copied_out_def uvm_def pt_inv_def)
  have ok: "\<forall>i < length src. uok (mem s) pt (d + of_nat i)" using w by (simp add: uwok_def)
  have "ubytes (mem t) pt d (length src) = src"
    using g ok assms(4) by (intro nth_equalityI) (auto simp: ubytes_def unat_of_nat64)
  then show ?thesis using copyin_run [OF wf, of d "length src"] ok copied_out_same(1) [OF assms(1)] by auto
qed

text \<open>C12. \<^bold>\<open>copyout and copyin agree.\<close> On a process's address space, \<open>copyout\<close> returns 0 exactly when
  every byte of the range is mapped writable for the user, and otherwise \<open>-1\<close>; it never panics.
  After success \<open>copyin\<close> of the same range returns the same bytes, every other user byte is as
  before, and in every case memory outside the user's own pages is untouched and the address
  space is still well formed.\<close>

theorem copyout_then_copyin:
  assumes "uvm s fs pt S Z" "user_owned (mem s) pt S" "length src \<le> 2 ^ 64"
  shows "\<exists>r t. copyout pt d src s = Ok r t \<and> (r = 0 \<or> r = - 1) \<and> uvm t fs pt S Z \<and>
    (r = 0 \<longleftrightarrow> (\<forall>i < length src. uwok (mem s) pt (d + of_nat i))) \<and>
    (r = 0 \<longrightarrow> copyin pt d (length src) t = Ok (0, src) t \<and>
       (\<forall>a. uok (mem s) pt a \<longrightarrow> \<not> unat (a - d) < length src \<longrightarrow> uget (mem t) pt a = uget (mem s) pt a)) \<and>
    (\<forall>q. aligned 12 q \<longrightarrow> q \<notin> upage (mem s) pt ` S \<longrightarrow> agree (mem s) (mem t) {q})"
proof -
  obtain r t where t: "copyout pt d src s = Ok r t" "copied_out s fs pt S Z t"
      "if \<forall>i < length src. uwok (mem s) pt (d + of_nat i)
       then r = 0 \<and> (\<forall>a. uok (mem s) pt a \<longrightarrow> uget (mem t) pt a =
         (if unat (a - d) < length src then src ! unat (a - d) else uget (mem s) pt a))
       else r = - 1"
    using copyout_run [OF assms] by blast
  have ut: "uvm t fs pt S Z" using t(2) by (simp add: copied_out_def)
  have "copyin pt d (length src) t = Ok (0, src) t" if "r = 0"
    using copyout_reads_back [OF t(2) _ _ assms(3), of d] t(3) that by (auto split: if_splits)
  then show ?thesis using t ut by (intro exI [of _ r] exI [of _ t]) (auto simp: copied_out_def split: if_splits)
qed

theorem copyout_then_copyin_witness:
  "\<exists>t. copyout 0x87ff0000 8 [1, 2, 3] space1 = Ok 0 t \<and> copyin 0x87ff0000 8 3 t = Ok (0, [1, 2, 3]) t"
proof -
  obtain gs where u: "uvm space1 gs 0x87ff0000 {0} {1..<2 ^ 27}" using space1_uvm(1) by blast
  have "\<forall>i < length [1 :: u8, 2, 3]. uwok (mem space1) 0x87ff0000 (8 + of_nat i)"
    by (auto simp: less_Suc_eq PGSIZE_def intro!: space1_uvm(3))
  then show ?thesis using copyout_then_copyin [OF u space1_uvm(2), of "[1, 2, 3]" 8] by (auto simp: numeral_3_eq_3)
qed

text \<open>C13. \<^bold>\<open>copyinstr reads a terminated string or fails.\<close> It returns 0 exactly when a NUL-terminated
  string of fewer than \<open>max\<close> bytes that the user can read lies at the address, in which case
  what it has copied is that string with its NUL; in every other case it returns \<open>-1\<close>. It changes
  nothing and never panics.\<close>

theorem copyinstr_exact:
  assumes "wf_pt (mem s) 2 pt"
  shows "\<exists>r bs. copyinstr pt va n s = Ok (r, bs) s \<and> (r = 0 \<or> r = - 1) \<and>
    (r = 0 \<longleftrightarrow> (\<exists>k < n. ustr (mem s) pt va k)) \<and>
    (\<forall>k < n. ustr (mem s) pt va k \<longrightarrow> bs = ubytes (mem s) pt va (Suc k))"
  using copyinstr_run [OF assms, of va n] by (auto split: if_splits)

theorem copyinstr_exact_witness:
  "\<exists>t bs. copyout 0x87ff0000 8 [104, 105, 0] space1 = Ok 0 t \<and> copyinstr 0x87ff0000 8 10 t = Ok (0, bs) t \<and>
     bs = ubytes (mem t) 0x87ff0000 8 3"
proof -
  obtain gs where u: "uvm space1 gs 0x87ff0000 {0} {1..<2 ^ 27}" using space1_uvm(1) by blast
  have w: "\<forall>i < length [104 :: u8, 105, 0]. uwok (mem space1) 0x87ff0000 (8 + of_nat i)"
    by (auto simp: less_Suc_eq PGSIZE_def intro!: space1_uvm(3))
  then obtain t where t: "copyout 0x87ff0000 8 [104, 105, 0] space1 = Ok 0 t" "copied_out space1 gs 0x87ff0000 {0} {1..<2 ^ 27} t"
      "\<forall>a. uok (mem space1) 0x87ff0000 a \<longrightarrow> uget (mem t) 0x87ff0000 a =
         (if unat (a - 8) < 3 then [104, 105, 0] ! unat (a - 8) else uget (mem space1) 0x87ff0000 a)"
    using copyout_run [OF u space1_uvm(2), of "[104, 105, 0]" 8] by (auto simp: numeral_3_eq_3)
  have ok: "uok (mem space1) 0x87ff0000 (8 + of_nat i)" if "i < 3" for i
    using w that by (simp add: uwok_def)
  have g: "uget (mem t) 0x87ff0000 (8 + of_nat i) = [104, 105, 0] ! i" if "i < 3" for i
    using t(3) ok [OF that] that by (auto simp: unat_of_nat64)
  have nz: "[104, 105, 0] ! i \<noteq> (0 :: u8)" if "i < 2" for i using less_2_cases [OF that] by auto
  have us: "ustr (mem t) 0x87ff0000 8 2"
    unfolding ustr_def copied_out_same(1) [OF t(2)]
  proof (intro conjI allI impI)
    fix i :: nat
    show "i \<le> 2 \<Longrightarrow> uok (mem space1) 0x87ff0000 (8 + of_nat i)" using ok [of i] by simp
    show "i < 2 \<Longrightarrow> uget (mem t) 0x87ff0000 (8 + of_nat i) \<noteq> 0" using g [of i] nz [of i] by simp
  next
    show "uget (mem t) 0x87ff0000 (8 + of_nat 2) = 0" unfolding g [of 2, simplified] using g [of 2] by simp
  qed
  have wf: "wf_pt (mem t) 2 0x87ff0000" using t(2) by (auto simp: copied_out_def uvm_def pt_inv_def)
  have ten: "(2 :: nat) < 10" by simp
  obtain r bs where c: "copyinstr 0x87ff0000 8 10 t = Ok (r, bs) t"
      "r = 0 \<longleftrightarrow> (\<exists>k < 10. ustr (mem t) 0x87ff0000 8 k)"
      "\<forall>k < 10. ustr (mem t) 0x87ff0000 8 k \<longrightarrow> bs = ubytes (mem t) 0x87ff0000 8 (Suc k)"
    using copyinstr_exact [OF wf, of 8 10] by blast
  have "r = 0" using c(2) us ten by blast
  moreover have "bs = ubytes (mem t) 0x87ff0000 8 (Suc 2)" using c(3) us ten by blast
  ultimately show ?thesis using t(1) c(1) by simp
qed

end
