(* ===== verification/Ufork.thy ===== *)
theory Ufork
  imports Ucopy
begin

text \<open>
  Whole address spaces: \<open>uvmcopy\<close>, which \<open>fork\<close> uses to duplicate the parent's memory, and
  \<open>freewalk\<close> and \<open>uvmfree\<close>, which give all of it back.
\<close>

unbundle bit_operations_syntax

section \<open>Two address spaces\<close>

text \<open>The pages an address space is made of.\<close>

definition own_pages :: "memory \<Rightarrow> u64 \<Rightarrow> nat set \<Rightarrow> u64 set" where
  "own_pages m pt S = tabs m 2 pt \<union> upage m pt ` S"

lemma uvm_transfer:
  assumes uvm: "uvm s fs pt S Z" and k: "kmem_inv t gs" and pk: "page_ok t = page_ok s"
    and ag: "agree (mem s) (mem t) (own_pages (mem s) pt S)" and g: "set gs \<inter> own_pages (mem s) pt S = {}"
  shows "uvm t gs pt S Z" "tabs (mem t) 2 pt = tabs (mem s) 2 pt" "upte (mem t) pt = upte (mem s) pt"
    "own_pages (mem t) pt S = own_pages (mem s) pt S"
proof -
  have wf: "wf_pt (mem s) 2 pt" using uvm by (simp add: uvm_def pt_inv_def)
  have at: "agree (mem s) (mem t) (tabs (mem s) 2 pt)" using ag by (rule agree_mono) (simp add: own_pages_def)
  note fr = tabs_frame [OF wf at] and pf = pte_of_frame [OF wf at]
  show tb: "tabs (mem t) 2 pt = tabs (mem s) 2 pt" using fr by blast
  show up: "upte (mem t) pt = upte (mem s) pt" using pf by (simp add: upte_def fun_eq_iff)
  then have ug: "upage (mem t) pt = upage (mem s) pt" by (simp add: upage_def fun_eq_iff)
  show "own_pages (mem t) pt S = own_pages (mem s) pt S" by (simp add: own_pages_def tb ug)
  have "pt_inv t gs pt" using uvm k fr tb pk g by (auto simp: uvm_def pt_inv_def own_pages_def)
  then show "uvm t gs pt S Z" using uvm g unfolding uvm_def up ug tb pk own_pages_def by auto
qed

lemma own_aligned: "uvm s fs pt S Z \<Longrightarrow> p \<in> own_pages (mem s) pt S \<Longrightarrow> aligned 12 p \<and> p \<notin> set fs"
  unfolding own_pages_def using tabs_aligned [of "mem s" 2 pt] by (auto simp: uvm_def pt_inv_def upage_def)

section \<open>Copying an address space\<close>

text \<open>A page taken from the free list and filled with a copy of another page.\<close>

lemma copy_page:
  assumes k: "kmem_inv s (pg # fs)" and src: "aligned 12 src" "src \<noteq> pg"
  defines "t \<equiv> s\<lparr>freelist := load64 (mem s) pg, mem := memmove (mem s) pg src 4096\<rparr>"
  shows "kmem_inv t fs" "aligned 12 q \<Longrightarrow> q \<noteq> pg \<Longrightarrow> agree (mem s) (mem t) {q}"
    "read_bytes (mem t) pg 4096 = read_bytes (mem s) src 4096" "t = s\<lparr>mem := mem t, freelist := freelist t\<rparr>"
proof -
  have pg: "aligned 12 pg" "pg \<notin> set fs" using k by (auto simp: kmem_inv_def page_ok_def)
  have m: "mem t = write_bytes (mem s) pg (read_bytes (mem s) src 4096)"
    unfolding t_def using page_bound [OF src(1)] page_bound [OF pg(1)] by (simp add: memmove_eq)
  have "kmem_inv (s\<lparr>freelist := load64 (mem s) pg, mem := write_bytes (mem s) pg (read_bytes (mem s) src 4096)\<rparr>) fs"
    using kmem_inv_write [OF kmem_inv_tail [OF k] pg, of pg "read_bytes (mem s) src 4096"] by simp
  then show "kmem_inv t fs" using m by (simp add: t_def)
  show "aligned 12 q \<Longrightarrow> q \<noteq> pg \<Longrightarrow> agree (mem s) (mem t) {q}"
    unfolding m using pg by (intro agree_write [where p = pg]) auto
  show "read_bytes (mem t) pg 4096 = read_bytes (mem s) src 4096"
    unfolding m using read_write_same [of "read_bytes (mem s) src 4096"] by simp
  show "t = s\<lparr>mem := mem t, freelist := freelist t\<rparr>" by (simp add: t_def)
qed

lemma valid_flags:
  assumes "pte_valid v"
  shows "PTE_FLAGS v OR PTE_V = PTE_FLAGS v" "PTE_FLAGS v < 1024"
proof -
  have "bit v 0" using assms by (auto simp: PTE_V_def one_and_eq and.commute [of _ 1] bit_0 odd_iff_mod_2_eq_one)
  then show "PTE_FLAGS v OR PTE_V = PTE_FLAGS v"
    by (intro bit_word_eqI) (auto simp: PTE_FLAGS_def PTE_V_def and_0x3FF bit_simps)
  have "unat (PTE_FLAGS v) < 1024"
    unfolding PTE_FLAGS_def and_0x3FF by (subst unsigned_take_bit_eq) (simp add: take_bit_eq_mod)
  then show "PTE_FLAGS v < 1024" by (simp add: word_less_nat_alt)
qed

text \<open>One round of the loop of \<open>uvmcopy\<close>, with a free page \<open>pg\<close>.\<close>

lemma agree_set_trans: "agree m m' P \<Longrightarrow> (\<And>p. p \<in> P \<Longrightarrow> agree m' m'' {p}) \<Longrightarrow> agree m m'' P"
  by (simp add: agree_def)

lemma uvmcopy_page:
  assumes old: "uvm s (pg # fs) old S Z" and i: "i \<in> S" and new: "uvm s (pg # fs) new {..<i} (insert i Z')" "i \<notin> Z'"
    and sep: "own_pages (mem s) old S \<inter> own_pages (mem s) new {..<i} = {}"
  defines "src \<equiv> upage (mem s) old i" and "fl \<equiv> PTE_FLAGS (upte (mem s) old i)"
  shows "\<exists>r t n. mappages new (vpage i) PGSIZE pg fl
      (s\<lparr>freelist := load64 (mem s) pg, mem := memmove (mem s) pg src 4096\<rparr>) = Ok r t \<and>
    t = s\<lparr>mem := mem t, freelist := freelist t\<rparr> \<and> n \<le> length fs \<and> n \<le> 2 \<and> page_ok s pg \<and>
    uvm t (drop n fs) old S Z \<and> agree (mem s) (mem t) (own_pages (mem s) old S) \<and>
    tabs (mem t) 2 new = tabs (mem s) 2 new \<union> set (take n fs) \<and>
    (r = 0 \<and> uvm t (drop n fs) new {..<Suc i} Z' \<and> ukeep (mem s) (mem t) new {..<i} {i} \<and>
       upage (mem t) new i = pg \<and> PTE_FLAGS (upte (mem t) new i) = fl \<and>
       read_bytes (mem t) pg 4096 = read_bytes (mem s) src 4096 \<or>
     r = - 1 \<and> uvm t (drop n fs) new {..<i} (insert i Z') \<and> length fs < 2 \<and>
       pg \<notin> set (drop n fs) \<union> tabs (mem t) 2 new \<union> upage (mem t) new ` {..<i} \<and> pg \<notin> own_pages (mem s) old S \<and>
       ukeep (mem s) (mem t) new {..<i} {})"
proof -
  have k: "kmem_inv s (pg # fs)" using old by (simp add: uvm_def pt_inv_def)
  let ?O = "own_pages (mem s) old S"
  have sO: "src \<in> ?O" using i by (simp add: own_pages_def src_def)
  have src: "aligned 12 src" "src \<noteq> pg" using own_aligned [OF old sO] by auto
  let ?s = "s\<lparr>freelist := load64 (mem s) pg, mem := memmove (mem s) pg src 4096\<rparr>"
  note cp = copy_page [OF k src]
  note al = uvm_alloc [OF new(1) cp(1,4,2)]
  have ns: "i < 2 ^ 26" "i \<notin> {..<i}" using old i by (auto simp: uvm_def)
  have v: "fl OR PTE_V < 1024" "fl OR PTE_V \<noteq> PTE_V" "fl OR PTE_V = fl"
    using old i valid_flags [of "upte (mem s) old i"] by (auto simp: uvm_def fl_def)
  obtain r t n where m: "mappages new (vpage i) PGSIZE pg fl ?s = Ok r t" "n \<le> length fs" "n \<le> 2"
      "t = ?s\<lparr>mem := mem t, freelist := freelist t\<rparr>" "tabs (mem t) 2 new = tabs (mem ?s) 2 new \<union> set (take n fs)"
      "agree (mem ?s) (mem t) {pg}" "\<And>q. aligned 12 q \<Longrightarrow> q \<notin> tabs (mem t) 2 new \<Longrightarrow> agree (mem ?s) (mem t) {q}"
    and c: "r = 0 \<and> uvm t (drop n fs) new (insert i {..<i}) Z' \<and> upte (mem t) new i = PA2PTE pg OR fl OR PTE_V \<and>
        ukeep (mem ?s) (mem t) new {..<i} {i} \<or>
      r = - 1 \<and> uvm t (drop n fs) new {..<i} (insert i Z') \<and> pg \<notin> tabs (mem t) 2 new \<and> length fs < 2 \<and>
        ukeep (mem ?s) (mem t) new {..<i} {}"
    using uvm_map1 [OF al(1) ns(2) new(2) ns(1) al(2,3) v(1,2)] by blast
  have e: "t = s\<lparr>mem := mem t, freelist := freelist t\<rparr>" by (subst m(4)) simp
  have pk: "page_ok t = page_ok s" by (subst e) simp
  have tb: "tabs (mem t) 2 new = tabs (mem s) 2 new \<union> set (take n fs)" using m(5) al(4) by simp
  have Of: "q \<noteq> pg" "q \<notin> set fs" "aligned 12 q" if "q \<in> ?O" for q using own_aligned [OF old that] by auto
  have nO: "?O \<inter> tabs (mem t) 2 new = {}" using sep Of tb by (auto simp: own_pages_def dest: in_set_takeD)
  have agO: "agree (mem s) (mem t) ?O"
  proof (rule agree_set_trans [of _ "mem ?s"])
    show "agree (mem s) (mem ?s) ?O" by (rule agree_pages) (use cp(2) Of in blast)
    show "agree (mem ?s) (mem t) {q}" if "q \<in> ?O" for q using m(7) Of(3) [OF that] that nO by blast
  qed
  have kt: "kmem_inv t (drop n fs)" using c by (auto simp: uvm_def pt_inv_def)
  have "set (drop n fs) \<inter> ?O = {}" using Of by (auto dest: in_set_dropD)
  note tr = uvm_transfer [OF old kt pk agO this]
  have ku: "ukeep (mem s) (mem t) new {..<i} C" if "ukeep (mem ?s) (mem t) new {..<i} C" for C
    using ukeep_trans [OF al(5) that] ns(1) by (auto simp: lessThan_subset_iff)
  have "read_bytes (mem t) pg 4096 = read_bytes (mem ?s) pg 4096"
    using m(6) by (intro read_bytes_cong) (auto simp: agree_def)
  then have rb: "read_bytes (mem t) pg 4096 = read_bytes (mem s) src 4096" using cp(3) by simp
  have okp: "page_ok s pg" using k by (simp add: kmem_inv_def)
  from c show ?thesis
  proof (elim disjE conjE)
    assume r: "r = 0" and u: "uvm t (drop n fs) new (insert i {..<i}) Z'" and pi: "upte (mem t) new i = PA2PTE pg OR fl OR PTE_V"
      and kp: "ukeep (mem ?s) (mem t) new {..<i} {i}"
    have "upage (mem t) new i = pg" "PTE_FLAGS (upte (mem t) new i) = fl"
      using pi PTE2PA_PA2PTE [OF _ v(1)] okp PTE_FLAGS_PA2PTE [OF v(1), of pg] v(3)
      by (simp_all add: upage_def page_ok_def)
    moreover have "uvm t (drop n fs) new {..<Suc i} Z'" using u by (simp add: lessThan_Suc)
    ultimately show ?thesis using m(1-3) e okp tr(1) agO tb r ku [OF kp] rb by blast
  next
    assume r: "r = - 1" and u: "uvm t (drop n fs) new {..<i} (insert i Z')" and pt: "pg \<notin> tabs (mem t) 2 new"
      and l: "length fs < 2" and kp: "ukeep (mem ?s) (mem t) new {..<i} {}"
    have im: "upage (mem t) new ` {..<i} = upage (mem ?s) new ` {..<i}"
      using ukeep_image [OF kp] ns(1) by (auto simp: lessThan_subset_iff)
    have "pg \<notin> set (drop n fs) \<union> tabs (mem t) 2 new \<union> upage (mem t) new ` {..<i}"
      unfolding im using al(3) pt by (auto dest: in_set_dropD)
    moreover have "pg \<notin> ?O" using Of by blast
    ultimately show ?thesis using m(1-3) e okp tr(1) agO tb r u l ku [OF kp] by blast
  qed
qed

lemma uvm_zero: "vpage 0 = 0"
  by (simp add: vpage_def)

text \<open>The error path: everything copied so far is given back.\<close>

lemma uvmcopy_err_run:
  assumes new: "uvm s fs new {..<i} Z'" "Z' \<inter> {..<i} = {}" "i \<le> 2 ^ 26" and old: "uvm s fs old S Z"
    and sep: "own_pages (mem s) old S \<inter> own_pages (mem s) new {..<i} = {}"
  shows "\<exists>t gs. uvmcopy_err new (vpage i) s = Ok (- 1) t \<and> t = s\<lparr>mem := mem t, freelist := freelist t\<rparr> \<and>
    uvm t gs new {} (Z' \<union> {..<i}) \<and> uvm_pages (mem t) gs new {} = uvm_pages (mem s) fs new {..<i} \<and>
    uvm t gs old S Z \<and> agree (mem s) (mem t) (own_pages (mem s) old S)"
proof -
  have u: "uvm s fs new ({} \<union> {0..<i}) Z'" "{} \<inter> {0..<i} = {}" "Z' \<inter> {0..<i} = {}" "0 \<le> i"
    using new by (auto simp: lessThan_atLeast0)
  let ?gs = "rev (map (upage (mem s) new) [0..<i]) @ fs"
  from uvmunmap_run [OF u new(3)] obtain t where t: "uvmunmap new (vpage 0) (of_nat (i - 0)) True s = Ok () t"
      "uvm t ?gs new {} (Z' \<union> {0..<i})" "tabs (mem t) 2 new = tabs (mem s) 2 new"
      "\<And>q. aligned 12 q \<Longrightarrow> q \<notin> tabs (mem s) 2 new \<union> upage (mem s) new ` {0..<i} \<Longrightarrow> agree (mem s) (mem t) {q}"
      "t = s\<lparr>mem := mem t, freelist := freelist t\<rparr>" by blast
  have "vpage i div PGSIZE = of_nat i" using pages_div [OF new(3)] by (simp add: vpage_def)
  then have run: "uvmcopy_err new (vpage i) s = Ok (- 1) t"
    using t(1) by (simp add: uvmcopy_err_def uvm_zero kseq_def kbind_def)
  have pg: "uvm_pages (mem t) ?gs new {} = uvm_pages (mem s) fs new {..<i}"
    using t(3) by (auto simp: uvm_pages_def)
  have ag: "agree (mem s) (mem t) (own_pages (mem s) old S)"
  proof (rule agree_pages)
    fix q
    assume q: "q \<in> own_pages (mem s) old S"
    then have "q \<notin> tabs (mem s) 2 new \<union> upage (mem s) new ` {0..<i}"
      using sep by (auto simp: own_pages_def lessThan_atLeast0)
    then show "agree (mem s) (mem t) {q}" using t(4) own_aligned [OF old q] by blast
  qed
  have pk: "page_ok t = page_ok s" by (subst t(5)) simp
  have kt: "kmem_inv t ?gs" using t(2) by (simp add: uvm_def pt_inv_def)
  have "set ?gs = upage (mem s) new ` {..<i} \<union> set fs" "upage (mem s) new ` {..<i} \<subseteq> own_pages (mem s) new {..<i}"
    by (auto simp: own_pages_def)
  then have "set ?gs \<inter> own_pages (mem s) old S = {}" using sep own_aligned [OF old] by blast
  from uvm_transfer(1) [OF old kt pk ag this] show ?thesis
    using run t(2,5) pg ag by (metis lessThan_atLeast0)
qed

lemma uvmcopy_loop_run:
  assumes "uvm s fs old S Z" "{i..<npg sz} \<subseteq> S" "uvm s fs new {..<i} (Z' \<union> {i..<npg sz})" "Z' \<inter> {..<npg sz} = {}"
    "own_pages (mem s) old S \<inter> own_pages (mem s) new {..<i} = {}" "i \<le> npg sz" "npg sz \<le> 2 ^ 26" "npg sz - i < k"
  defines "n \<equiv> npg sz"
  shows "\<exists>r t gs. uvmcopy_loop k old new (vpage i) sz s = Ok r t \<and> t = s\<lparr>mem := mem t, freelist := freelist t\<rparr> \<and>
    uvm t gs old S Z \<and> agree (mem s) (mem t) (own_pages (mem s) old S) \<and>
    (r = 0 \<and> uvm t gs new {..<n} Z' \<and> ukeep (mem s) (mem t) new {..<i} {i..<n} \<and>
       uvm_pages (mem t) gs new {..<n} = uvm_pages (mem s) fs new {..<i} \<and>
       (\<forall>j \<in> {i..<n}. PTE_FLAGS (upte (mem t) new j) = PTE_FLAGS (upte (mem s) old j) \<and> upage (mem t) new j \<in> set fs \<and>
          read_bytes (mem t) (upage (mem t) new j) 4096 = read_bytes (mem s) (upage (mem s) old j) 4096) \<or>
     r = - 1 \<and> uvm t gs new {} (Z' \<union> {..<n}) \<and> length fs < 3 * (n - i) \<and>
       uvm_pages (mem t) gs new {} = uvm_pages (mem s) fs new {..<i})"
  using assms(1-8) unfolding n_def [symmetric]
proof (induction k arbitrary: s fs i)
  case 0
  then show ?case by simp
next
  case (Suc k)
  show ?case
  proof (cases "i = n")
    case True
    then have "uvmcopy_loop (Suc k) old new (vpage i) sz s = Ok 0 s"
      using vpage_less_npg [of i sz] Suc.prems(7) by (simp add: n_def)
    then show ?thesis using True Suc.prems(1,3) by (auto intro: ukeep_refl)
  next
    case False
    then have lt: "i < n" "{i..<n} = insert i {Suc i..<n}" "vpage i < sz"
      using Suc.prems(6,7) vpage_less_npg [of i sz] by (auto simp: n_def)
    have iS: "i \<in> S" using Suc.prems(2) lt by auto
    have i26: "i \<le> 2 ^ 26" using lt Suc.prems(7) by simp
    let ?Z = "Z' \<union> {Suc i..<n}" and ?O = "own_pages (mem s) old S"
    have new: "uvm s fs new {..<i} (insert i ?Z)" "i \<notin> ?Z" using Suc.prems(3,4) lt by auto
    obtain a where a: "a \<noteq> 0" "load64 (mem s) a = upte (mem s) old i" "walk old (vpage i) False s = Ok a s"
      using uvm_leaf [OF Suc.prems(1) iS] by blast
    have v: "pte_valid (upte (mem s) old i)" using Suc.prems(1) iS by (simp add: uvm_def)
    have Zn: "insert i ?Z \<inter> {..<i} = {}" "insert i ?Z \<union> {..<i} = Z' \<union> {..<n}" using Suc.prems(4) lt(1) by auto
    show ?thesis
    proof (cases fs)
      case Nil
      then have "kalloc s = Ok 0 s" using Suc.prems(1) kalloc_empty [of s] by (simp add: uvm_def pt_inv_def)
      then have "uvmcopy_loop (Suc k) old new (vpage i) sz s = uvmcopy_err new (vpage i) s"
        using a v lt(3) by (simp add: kbind_def)
      then show ?thesis
        using uvmcopy_err_run [OF new(1) Zn(1) i26 Suc.prems(1,5)] Nil lt(1) unfolding Zn(2) by auto
    next
      case (Cons pg fs')
      note uvm = Suc.prems(1) [unfolded Cons] and nw = new(1) [unfolded Cons]
      let ?s = "s\<lparr>freelist := load64 (mem s) pg, mem := memmove (mem s) pg (upage (mem s) old i) 4096\<rparr>"
      have k: "kmem_inv s (pg # fs')" using uvm by (simp add: uvm_def pt_inv_def)
      have pg0: "pg \<noteq> 0" using kpages.valid_nonzero [OF k] k by (simp add: kmem_inv_def)
      have fs': "set fs' = set (take l fs') \<union> set (drop l fs')" for l by (metis append_take_drop_id set_append)
      obtain r t l where t: "mappages new (vpage i) PGSIZE pg (PTE_FLAGS (upte (mem s) old i)) ?s = Ok r t"
          "t = s\<lparr>mem := mem t, freelist := freelist t\<rparr>" "l \<le> length fs'" "l \<le> 2" "page_ok s pg"
          "uvm t (drop l fs') old S Z" "agree (mem s) (mem t) ?O" "tabs (mem t) 2 new = tabs (mem s) 2 new \<union> set (take l fs')"
        and c: "r = 0 \<and> uvm t (drop l fs') new {..<Suc i} ?Z \<and> ukeep (mem s) (mem t) new {..<i} {i} \<and>
            upage (mem t) new i = pg \<and> PTE_FLAGS (upte (mem t) new i) = PTE_FLAGS (upte (mem s) old i) \<and>
            read_bytes (mem t) pg 4096 = read_bytes (mem s) (upage (mem s) old i) 4096 \<or>
          r = - 1 \<and> uvm t (drop l fs') new {..<i} (insert i ?Z) \<and> length fs' < 2 \<and>
            pg \<notin> set (drop l fs') \<union> tabs (mem t) 2 new \<union> upage (mem t) new ` {..<i} \<and> pg \<notin> ?O \<and>
            ukeep (mem s) (mem t) new {..<i} {}"
        using uvmcopy_page [OF uvm iS nw new(2) Suc.prems(5)] by blast
      have same: "upte (mem t) old = upte (mem s) old" "own_pages (mem t) old S = ?O"
      proof -
        have kt: "kmem_inv t (drop l fs')" using t(6) by (simp add: uvm_def pt_inv_def)
        have pk: "page_ok t = page_ok s" by (subst t(2)) simp
        have "set (drop l fs') \<inter> ?O = {}" using own_aligned [OF uvm] by (auto dest: in_set_dropD)
        from uvm_transfer(3,4) [OF uvm kt pk t(7) this] show "upte (mem t) old = upte (mem s) old" "own_pages (mem t) old S = ?O" .
      qed
      then have sug: "upage (mem t) old = upage (mem s) old" by (simp add: upage_def fun_eq_iff)
      have i_sub: "{..<i} \<subseteq> {..<2 ^ 26}" using i26 by (simp add: lessThan_subset_iff)
      from c show ?thesis
      proof (elim disjE conjE)
        assume r: "r = 0" and u: "uvm t (drop l fs') new {..<Suc i} ?Z" and kp: "ukeep (mem s) (mem t) new {..<i} {i}"
          and pi: "upage (mem t) new i = pg" "PTE_FLAGS (upte (mem t) new i) = PTE_FLAGS (upte (mem s) old i)"
          and rb: "read_bytes (mem t) pg 4096 = read_bytes (mem s) (upage (mem s) old i) 4096"
        have run: "uvmcopy_loop (Suc k) old new (vpage i) sz s = uvmcopy_loop k old new (vpage (Suc i)) sz t"
          using a v lt(3) kalloc_run [OF k] pg0 t(1) r by (simp add: kbind_def upage_def vpage_Suc)
        have im: "upage (mem t) new ` {..<i} = upage (mem s) new ` {..<i}" using ukeep_image [OF kp i_sub] by auto
        have "own_pages (mem t) new {..<Suc i} = own_pages (mem s) new {..<i} \<union> insert pg (set (take l fs'))"
          using t(8) im pi(1) by (auto simp: own_pages_def lessThan_Suc)
        moreover have "?O \<inter> insert pg (set (take l fs')) = {}"
          using own_aligned [OF uvm] by (auto dest: in_set_takeD)
        ultimately have sep: "own_pages (mem t) old S \<inter> own_pages (mem t) new {..<Suc i} = {}"
          unfolding same(2) using Suc.prems(5) by blast
        have ih_prems: "{Suc i..<n} \<subseteq> S" "Suc i \<le> n" "n - Suc i < k" using Suc.prems(2,8) lt by auto
        have pgs: "uvm_pages (mem t) (drop l fs') new {..<Suc i} = uvm_pages (mem s) fs new {..<i}"
          using t(8) im pi(1) fs' [of l] Cons by (auto simp: uvm_pages_def lessThan_Suc)
        obtain r' w gs where w: "uvmcopy_loop k old new (vpage (Suc i)) sz t = Ok r' w"
            "w = t\<lparr>mem := mem w, freelist := freelist w\<rparr>" "uvm w gs old S Z" "agree (mem t) (mem w) ?O"
          and wc: "r' = 0 \<and> uvm w gs new {..<n} Z' \<and> ukeep (mem t) (mem w) new {..<Suc i} {Suc i..<n} \<and>
              uvm_pages (mem w) gs new {..<n} = uvm_pages (mem t) (drop l fs') new {..<Suc i} \<and>
              (\<forall>j \<in> {Suc i..<n}. PTE_FLAGS (upte (mem w) new j) = PTE_FLAGS (upte (mem s) old j) \<and>
                 upage (mem w) new j \<in> set (drop l fs') \<and>
                 read_bytes (mem w) (upage (mem w) new j) 4096 = read_bytes (mem t) (upage (mem s) old j) 4096) \<or>
            r' = - 1 \<and> uvm w gs new {} (Z' \<union> {..<n}) \<and> length (drop l fs') < 3 * (n - Suc i) \<and>
              uvm_pages (mem w) gs new {} = uvm_pages (mem t) (drop l fs') new {..<Suc i}"
          using Suc.IH [OF t(6) ih_prems(1) u Suc.prems(4) sep ih_prems(2) Suc.prems(7) ih_prems(3)]
          unfolding same sug by blast
        have e: "w = s\<lparr>mem := mem w, freelist := freelist w\<rparr>" by (subst w(2), subst t(2)) simp
        have ag: "agree (mem s) (mem w) ?O" using t(7) w(4) by (rule agree_trans)
        from wc show ?thesis
        proof (elim disjE conjE)
          assume r': "r' = 0" and uw: "uvm w gs new {..<n} Z'" and kw: "ukeep (mem t) (mem w) new {..<Suc i} {Suc i..<n}"
            and pw: "uvm_pages (mem w) gs new {..<n} = uvm_pages (mem t) (drop l fs') new {..<Suc i}"
            and cw: "\<forall>j \<in> {Suc i..<n}. PTE_FLAGS (upte (mem w) new j) = PTE_FLAGS (upte (mem s) old j) \<and>
                 upage (mem w) new j \<in> set (drop l fs') \<and>
                 read_bytes (mem w) (upage (mem w) new j) 4096 = read_bytes (mem t) (upage (mem s) old j) 4096"
          have "ukeep (mem t) (mem w) new {..<i} {Suc i..<n}" using kw by (rule ukeep_mono) auto
          then have ks: "ukeep (mem s) (mem w) new {..<i} {i..<n}"
            unfolding lt(2) using ukeep_trans [OF kp _ i_sub] by auto
          have "i < 2 ^ 27" "i \<notin> {Suc i..<n}" using i26 by auto
          then have wi: "upte (mem w) new i = upte (mem t) new i" using kw unfolding ukeep_def by blast
          have "read_bytes (mem w) pg 4096 = read_bytes (mem t) pg 4096"
            using kw pi(1) by (intro read_bytes_cong) (auto simp: ukeep_def agree_def)
          then have ci: "PTE_FLAGS (upte (mem w) new i) = PTE_FLAGS (upte (mem s) old i)" "upage (mem w) new i \<in> set fs"
              "read_bytes (mem w) (upage (mem w) new i) 4096 = read_bytes (mem s) (upage (mem s) old i) 4096"
            using wi pi rb Cons by (simp_all add: upage_def)
          have rd: "read_bytes (mem t) (upage (mem s) old j) 4096 = read_bytes (mem s) (upage (mem s) old j) 4096"
            if "j \<in> {Suc i..<n}" for j
          proof (rule read_bytes_cong)
            have "upage (mem s) old j \<in> ?O" using that ih_prems(1) by (auto simp: own_pages_def)
            then show "\<forall>x \<in> region (upage (mem s) old j) 4096. mem t x = mem s x" using t(7) by (simp add: agree_def)
          qed simp
          have "\<forall>j \<in> {i..<n}. PTE_FLAGS (upte (mem w) new j) = PTE_FLAGS (upte (mem s) old j) \<and> upage (mem w) new j \<in> set fs \<and>
              read_bytes (mem w) (upage (mem w) new j) 4096 = read_bytes (mem s) (upage (mem s) old j) 4096"
            unfolding lt(2) using ci cw rd Cons by (auto dest: in_set_dropD)
          then show ?thesis using run w(1,3) e ag r' uw ks pw pgs by metis
        next
          assume r': "r' = - 1" and uw: "uvm w gs new {} (Z' \<union> {..<n})" and lw: "length (drop l fs') < 3 * (n - Suc i)"
            and pw: "uvm_pages (mem w) gs new {} = uvm_pages (mem t) (drop l fs') new {..<Suc i}"
          have "length fs < 3 * (n - i)" using lw t(3,4) lt(1) Cons by simp
          then show ?thesis using run w(1,3) e ag r' uw pw pgs by metis
        qed
      next
        assume r: "r = - 1" and u: "uvm t (drop l fs') new {..<i} (insert i ?Z)" and l: "length fs' < 2"
          and pg: "pg \<notin> set (drop l fs') \<union> tabs (mem t) 2 new \<union> upage (mem t) new ` {..<i}" "pg \<notin> ?O"
          and kp: "ukeep (mem s) (mem t) new {..<i} {}"
        have pk: "page_ok t pg" using t(5) by (subst t(2)) simp
        obtain v' where v': "kfree pg t = Ok () v'" "uvm v' (pg # drop l fs') new {..<i} (insert i ?Z)"
            "ukeep (mem t) (mem v') new {..<i} {}" "tabs (mem v') 2 new = tabs (mem t) 2 new"
            "\<And>q. aligned 12 q \<Longrightarrow> q \<noteq> pg \<Longrightarrow> agree (mem t) (mem v') {q}"
            "v' = t\<lparr>mem := mem v', freelist := freelist v'\<rparr>"
          using uvm_kfree [OF u pk pg(1)] by blast
        have im: "upage (mem t) new ` {..<i} = upage (mem s) new ` {..<i}" "upage (mem v') new ` {..<i} = upage (mem t) new ` {..<i}"
          using ukeep_image [OF kp i_sub] ukeep_image [OF v'(3) i_sub] by auto
        have agv: "agree (mem t) (mem v') (own_pages (mem t) old S)"
          unfolding same(2)
        proof (rule agree_pages)
          show "agree (mem t) (mem v') {q}" if "q \<in> ?O" for q
            using own_aligned [OF uvm that] by (intro v'(5)) auto
        qed
        have kv: "kmem_inv v' (pg # drop l fs')" using v'(2) by (simp add: uvm_def pt_inv_def)
        have pkv: "page_ok v' = page_ok t" by (subst v'(6)) simp
        have "set (pg # drop l fs') \<inter> own_pages (mem t) old S = {}"
          unfolding same(2) using own_aligned [OF uvm] by (auto dest: in_set_dropD)
        note tr = uvm_transfer [OF t(6) kv pkv agv this]
        have "own_pages (mem v') new {..<i} = own_pages (mem s) new {..<i} \<union> set (take l fs')"
          using v'(4) t(8) im by (auto simp: own_pages_def)
        moreover have "?O \<inter> set (take l fs') = {}" using own_aligned [OF uvm] by (auto dest: in_set_takeD)
        ultimately have sep: "own_pages (mem v') old S \<inter> own_pages (mem v') new {..<i} = {}"
          unfolding tr(4) same(2) using Suc.prems(5) by blast
        obtain w gs where w: "uvmcopy_err new (vpage i) v' = Ok (- 1) w" "w = v'\<lparr>mem := mem w, freelist := freelist w\<rparr>"
            "uvm w gs new {} (Z' \<union> {..<n})" "uvm_pages (mem w) gs new {} = uvm_pages (mem v') (pg # drop l fs') new {..<i}"
            "uvm w gs old S Z" "agree (mem v') (mem w) ?O"
          using uvmcopy_err_run [OF v'(2) Zn(1) i26 tr(1) sep] unfolding Zn(2) tr(4) same(2) by blast
        have run: "uvmcopy_loop (Suc k) old new (vpage i) sz s = Ok (- 1) w"
          using a v lt(3) kalloc_run [OF k] pg0 t(1) r v'(1) w(1) by (simp add: kbind_def kseq_def upage_def)
        have "uvm_pages (mem v') (pg # drop l fs') new {..<i} = uvm_pages (mem s) fs new {..<i}"
          using v'(4) t(8) im fs' [of l] Cons by (auto simp: uvm_pages_def)
        moreover have "agree (mem s) (mem w) ?O"
          by (rule agree_trans [OF agree_trans [OF t(7) agv [unfolded same(2)]] w(6)])
        moreover have "w = s\<lparr>mem := mem w, freelist := freelist w\<rparr>" by (subst w(2), subst v'(6), subst t(2)) simp
        moreover have "length fs < 3 * (n - i)" using l lt(1) Cons by simp
        ultimately show ?thesis using run w(3,4,5) by metis
      qed
    qed
  qed
qed

section \<open>New address spaces\<close>

lemma uvmcreate_run:
  assumes k: "kmem_inv s (pg # fs)"
  shows "\<exists>t. uvmcreate s = Ok pg t \<and> t = s\<lparr>mem := mem t, freelist := freelist t\<rparr> \<and>
    uvm t fs pg {} {..<2 ^ 27} \<and> tabs (mem t) 2 pg = {pg} \<and>
    (\<forall>q. aligned 12 q \<longrightarrow> q \<noteq> pg \<longrightarrow> agree (mem s) (mem t) {q})"
proof -
  have pg: "aligned 12 pg" "pg \<notin> set fs" "pg \<noteq> 0" "page_ok s pg"
    using k kpages.valid_nonzero [OF k] by (auto simp: kmem_inv_def page_ok_def)
  let ?t = "s\<lparr>freelist := load64 (mem s) pg, mem := memset (mem s) pg 0 4096\<rparr>"
  have m: "memset (mem s) pg 0 4096 = write_bytes (mem s) pg (replicate 4096 0)"
    using page_bound [OF pg(1)] by (simp add: memset_eq)
  have "kmem_inv (s\<lparr>freelist := load64 (mem s) pg, mem := write_bytes (mem s) pg (replicate 4096 0)\<rparr>) fs"
    using kmem_inv_write [OF kmem_inv_tail [OF k] pg(1,2), of pg "replicate 4096 0"] by simp
  then have ki: "kmem_inv ?t fs" by (simp add: m)
  have run: "uvmcreate s = Ok pg ?t"
    using kalloc_run [OF k] pg(3) by (simp add: uvmcreate_def kbind_def kseq_def)
  have z: "\<forall>x \<in> region pg 4096. mem ?t x = 0"
    by (simp add: m write_bytes_def mem_region)
  note zt = zero_table [OF z pg(1,3)]
  have "uvm ?t fs pg {} {..<2 ^ 27}"
    using zt ki pg by (auto simp: uvm_def pt_inv_def upte_def page_ok_def)
  moreover have "agree (mem s) (mem ?t) {q}" if "aligned 12 q" "q \<noteq> pg" for q
    using that pg by (simp add: m, intro agree_write [where p = pg]) auto
  ultimately show ?thesis using run zt by (intro exI [of _ ?t]) auto
qed

section \<open>Duplicating an address space\<close>

text \<open>C10. \<^bold>\<open>uvmcopy duplicates a process's memory.\<close> On a process of \<open>sz\<close> bytes and an empty address
  space apart from it, \<open>uvmcopy\<close> always returns. Either it returns 0: each page of the child has the
  flags and the contents of the parent's page and lies on a page of its own that was free. Or it
  returns \<open>-1\<close>, which it does only when fewer than three free pages per page are left: the child
  is empty again. In both cases the parent's page tables and memory are unchanged, and no page is
  lost.\<close>

theorem uvmcopy_duplicates:
  assumes old: "addr_space s fs old sz lim" and new: "addr_space s fs new 0 lim'" "npg sz \<le> lim'"
    and sep: "own_pages (mem s) old {..<npg sz} \<inter> tabs (mem s) 2 new = {}"
  shows "\<exists>r t gs. uvmcopy old new sz s = Ok r t \<and> addr_space t gs old sz lim \<and>
    agree (mem s) (mem t) (own_pages (mem s) old {..<npg sz}) \<and>
    (r = 0 \<and> addr_space t gs new sz lim' \<and>
       (\<forall>j < npg sz. PTE_FLAGS (upte (mem t) new j) = PTE_FLAGS (upte (mem s) old j) \<and> upage (mem t) new j \<in> set fs \<and>
          read_bytes (mem t) (upage (mem t) new j) 4096 = read_bytes (mem s) (upage (mem s) old j) 4096) \<and>
       uvm_pages (mem t) gs new {..<npg sz} = uvm_pages (mem s) fs new {} \<or>
     r = - 1 \<and> addr_space t gs new 0 lim' \<and> length fs < 3 * npg sz \<and>
       uvm_pages (mem t) gs new {} = uvm_pages (mem s) fs new {})"
proof -
  let ?n = "npg sz"
  have n0: "npg 0 = 0" by (simp add: npg_def)
  have le: "?n \<le> lim" "lim \<le> 2 ^ 26" "lim' \<le> 2 ^ 26" using old new by (auto simp: addr_space_def)
  have u: "uvm s fs old {..<?n} {?n..<lim}" using old by (simp add: addr_space_def)
  have v: "uvm s fs new {..<0} ({?n..<lim'} \<union> {0..<?n})"
    using new upto_pages(2) [of 0 ?n lim'] by (simp add: addr_space_def n0 Un_commute)
  have s': "own_pages (mem s) old {..<?n} \<inter> own_pages (mem s) new {..<0} = {}" using sep by (simp add: own_pages_def)
  have f: "?n - 0 < Suc (Suc (unat sz div 4096))" by (simp add: npg_def)
  have run: "uvmcopy old new sz s = uvmcopy_loop (Suc (Suc (unat sz div 4096))) old new (vpage 0) sz s"
    by (simp add: uvmcopy_def uvm_zero del: uvmcopy_loop.simps)
  have m: "{0..<?n} \<subseteq> {..<?n}" "{?n..<lim'} \<inter> {..<?n} = {}" "?n \<le> 2 ^ 26" using le by auto
  obtain r t gs where t: "uvmcopy old new sz s = Ok r t" "uvm t gs old {..<?n} {?n..<lim}"
      "agree (mem s) (mem t) (own_pages (mem s) old {..<?n})"
    and c: "r = 0 \<and> uvm t gs new {..<?n} {?n..<lim'} \<and>
       uvm_pages (mem t) gs new {..<?n} = uvm_pages (mem s) fs new {..<0} \<and>
       (\<forall>j \<in> {0..<?n}. PTE_FLAGS (upte (mem t) new j) = PTE_FLAGS (upte (mem s) old j) \<and> upage (mem t) new j \<in> set fs \<and>
          read_bytes (mem t) (upage (mem t) new j) 4096 = read_bytes (mem s) (upage (mem s) old j) 4096) \<or>
     r = - 1 \<and> uvm t gs new {} ({?n..<lim'} \<union> {..<?n}) \<and> length fs < 3 * (?n - 0) \<and>
       uvm_pages (mem t) gs new {} = uvm_pages (mem s) fs new {..<0}"
    using uvmcopy_loop_run [OF u m(1) v m(2) s' le0 m(3) f] unfolding run by blast
  have "{?n..<lim'} \<union> {..<?n} = {0..<lim'}" using new(2) by auto
  then show ?thesis using t c le new(2)
    by (intro exI [of _ r] exI [of _ t] exI [of _ gs]) (auto simp: addr_space_def n0)
qed

text \<open>An example with four free pages beside the process of \<open>space1\<close>, the first of which becomes the
  root of the child's page table.\<close>

definition space2 :: kmem where
  "space2 = freed 0x87ffc000 (freed 0x87ffb000 (freed 0x87ffa000 (freed 0x87ff9000 space1)))"

lemma uvm_freed_own:
  assumes "uvm s fs pt S Z" "page_ok s p" "p \<notin> uvm_pages (mem s) fs pt S" "S \<subseteq> {..<2 ^ 26}"
  shows "uvm (freed p s) (p # fs) pt S Z \<and> page_ok (freed p s) = page_ok s \<and>
    uvm_pages (mem (freed p s)) (p # fs) pt S = insert p (uvm_pages (mem s) fs pt S)"
proof -
  have "kfree p s = Ok () (freed p s)"
    using kfree_run [OF assms(2)] assms(1) by (simp add: freed_def uvm_def pt_inv_def kmem_inv_def)
  moreover obtain t where t: "kfree p s = Ok () t" "uvm t (p # fs) pt S Z" "tabs (mem t) 2 pt = tabs (mem s) 2 pt"
      "ukeep (mem s) (mem t) pt S {}"
    using uvm_kfree [OF assms(1,2)] assms(3) by (auto simp: uvm_pages_def)
  ultimately have "freed p s = t" by simp
  moreover have "upage (mem t) pt ` S = upage (mem s) pt ` S" using ukeep_image [OF t(4) assms(4)] by simp
  ultimately show ?thesis using t by (auto simp: uvm_pages_def freed_def)
qed

lemma space2_uvm:
  "\<exists>gs. uvm space2 (0x87ffc000 # 0x87ffb000 # 0x87ffa000 # 0x87ff9000 # gs) 0x87ff0000 {0} {1..<2 ^ 27}"
proof -
  obtain gs where g: "uvm space1 gs 0x87ff0000 {0} {1..<2 ^ 27}"
      "uvm_pages (mem space1) gs 0x87ff0000 {0} = {0x87ff0000, 0x87fff000, 0x87ffe000, 0x87ffd000}"
    using space1_uvm(1) by blast
  have "page_ok space1 0x87ff0000" using g by (simp add: uvm_def pt_inv_def)
  then have b: "kend space1 \<le> 0x87ff0000" by (simp add: page_ok_def)
  have ok: "page_ok space1 p" if "p \<in> {0x87ffc000, 0x87ffb000, 0x87ffa000, 0x87ff9000}" for p
    using that order_trans [OF b, of p] by (auto simp: page_ok_def aligned_def take_bit_eq_mod PHYSTOP_def KERNBASE_def)
  have S: "{0} \<subseteq> {..<2 ^ 26 :: nat}" by simp
  have step: "uvm (freed p s) (p # fs) 0x87ff0000 {0} {1..<2 ^ 27} \<and> page_ok (freed p s) = page_ok space1 \<and>
      uvm_pages (mem (freed p s)) (p # fs) 0x87ff0000 {0} = insert p Q"
    if "uvm s fs 0x87ff0000 {0} {1..<2 ^ 27} \<and> page_ok s = page_ok space1 \<and> uvm_pages (mem s) fs 0x87ff0000 {0} = Q"
      "p \<notin> Q" "p \<in> {0x87ffc000, 0x87ffb000, 0x87ffa000, 0x87ff9000}" for p s fs Q
    using uvm_freed_own [of s fs "0x87ff0000" "{0}" "{1..<2 ^ 27}" p] ok [OF that(3)] that(1,2) S by metis
  have "uvm space2 (0x87ffc000 # 0x87ffb000 # 0x87ffa000 # 0x87ff9000 # gs) 0x87ff0000 {0} {1..<2 ^ 27} \<and>
      page_ok space2 = page_ok space1 \<and>
      uvm_pages (mem space2) (0x87ffc000 # 0x87ffb000 # 0x87ffa000 # 0x87ff9000 # gs) 0x87ff0000 {0} =
        insert 0x87ffc000 (insert 0x87ffb000 (insert 0x87ffa000 (insert 0x87ff9000 {0x87ff0000, 0x87fff000, 0x87ffe000, 0x87ffd000})))"
    unfolding space2_def
    by (rule step, rule step, rule step, rule step, rule conjI [OF g(1) conjI [OF refl g(2)]]) simp_all
  then show ?thesis by blast
qed

theorem uvmcopy_duplicates_witness:
  "\<exists>pt s t gs. uvmcreate space2 = Ok pt s \<and> uvmcopy 0x87ff0000 pt 4000 s = Ok 0 t \<and> addr_space t gs pt 4000 100 \<and>
     read_bytes (mem t) (upage (mem t) pt 0) 4096 = read_bytes (mem s) (upage (mem s) 0x87ff0000 0) 4096"
proof -
  let ?pt = "0x87ff0000 :: u64" and ?new = "0x87ffc000 :: u64"
  have n: "npg 4000 = 1" "npg 0 = 0" by (simp_all add: npg_def)
  obtain gs where u: "uvm space2 (?new # 0x87ffb000 # 0x87ffa000 # 0x87ff9000 # gs) ?pt {0} {1..<2 ^ 27}"
    using space2_uvm by blast
  let ?gs = "0x87ffb000 # 0x87ffa000 # 0x87ff9000 # gs"
  have k: "kmem_inv space2 (?new # ?gs)" using u by (simp add: uvm_def pt_inv_def)
  obtain t where t: "uvmcreate space2 = Ok ?new t" "t = space2\<lparr>mem := mem t, freelist := freelist t\<rparr>"
      "uvm t ?gs ?new {} {..<2 ^ 27}" "tabs (mem t) 2 ?new = {?new}"
      "\<And>q. aligned 12 q \<Longrightarrow> q \<noteq> ?new \<Longrightarrow> agree (mem space2) (mem t) {q}"
    using uvmcreate_run [OF k] by blast
  have kt: "kmem_inv t ?gs" using t(3) by (simp add: uvm_def pt_inv_def)
  have pk: "page_ok t = page_ok space2" by (subst t(2)) simp
  have ow: "aligned 12 q" "q \<notin> set (?new # ?gs)" if "q \<in> own_pages (mem space2) ?pt {0}" for q
    using own_aligned [OF u that] by blast+
  have ag: "agree (mem space2) (mem t) (own_pages (mem space2) ?pt {0})"
  proof (rule agree_pages)
    show "agree (mem space2) (mem t) {q}" if "q \<in> own_pages (mem space2) ?pt {0}" for q
      using ow [OF that] by (intro t(5)) simp_all
  qed
  have dj: "set ?gs \<inter> own_pages (mem space2) ?pt {0} = {}" using ow(2) by (auto simp del: set_simps intro: list.set_intros)
  note tr = uvm_transfer [OF u kt pk ag dj]
  have old: "addr_space t ?gs ?pt 4000 100"
    using uvm_fewer [OF tr(1), of "{1..<100}"] n by (simp add: addr_space_def lessThan_Suc)
  have new: "addr_space t ?gs ?new 0 100"
    using uvm_fewer [OF t(3), of "{0..<100}"] n by (simp add: addr_space_def subset_eq)
  have sep: "own_pages (mem t) ?pt {..<npg 4000} \<inter> tabs (mem t) 2 ?new = {}"
    using ow(2) tr(4) unfolding t(4) n by (auto simp: lessThan_Suc)
  have l: "npg 4000 \<le> 100" "\<not> length ?gs < 3 * npg 4000" using n by simp_all
  obtain w hs where "uvmcopy ?pt ?new 4000 t = Ok 0 w" "addr_space w hs ?new 4000 100"
      "\<forall>j < npg 4000. read_bytes (mem w) (upage (mem w) ?new j) 4096 = read_bytes (mem t) (upage (mem t) ?pt j) 4096"
    using uvmcopy_duplicates [OF old new l(1) sep] l(2) by blast
  then show ?thesis using t(1) n by auto
qed

end
