(* ===== verification/Ufree.thy ===== *)
theory Ufree
  imports Ufork
begin

text \<open>
  Tearing an address space down: \<open>freewalk\<close> gives every page of an emptied page table back to the
  allocator, and \<open>uvmfree\<close> all the pages of a process.
\<close>

unbundle bit_operations_syntax

section \<open>Emptied page tables\<close>

text \<open>A page table all of whose last-level entries are invalid.\<close>

primrec no_leaves :: "memory \<Rightarrow> nat \<Rightarrow> u64 \<Rightarrow> bool" where
  "no_leaves m 0 pt \<longleftrightarrow> (\<forall>i < 512. child m pt i = None)"
| "no_leaves m (Suc l) pt \<longleftrightarrow> (\<forall>i c. i < 512 \<longrightarrow> child m pt i = Some c \<longrightarrow> no_leaves m l c)"

definition tree_ok :: "'z kmem_scheme \<Rightarrow> u64 list \<Rightarrow> nat \<Rightarrow> u64 \<Rightarrow> bool" where
  "tree_ok s fs l pt \<longleftrightarrow> wf_pt (mem s) l pt \<and> no_leaves (mem s) l pt \<and>
     (\<forall>p \<in> tabs (mem s) l pt. page_ok s p \<and> p \<notin> set fs)"

text \<open>The pages \<open>P\<close> have gone to the free list; no other page has changed.\<close>

definition released :: "'z kmem_scheme \<Rightarrow> u64 list \<Rightarrow> u64 set \<Rightarrow> 'z kmem_scheme \<Rightarrow> u64 list \<Rightarrow> bool" where
  "released s fs P t gs \<longleftrightarrow> t = s\<lparr>mem := mem t, freelist := freelist t\<rparr> \<and> kmem_inv t gs \<and> set gs = set fs \<union> P \<and>
     (\<forall>q. aligned 12 q \<longrightarrow> q \<notin> P \<longrightarrow> agree (mem s) (mem t) {q})"

lemma child_agree: "agree m m' {pt} \<Longrightarrow> aligned 12 pt \<Longrightarrow> i < 512 \<Longrightarrow> child m' pt i = child m pt i"
  using pte_at_subset [of pt i] by (intro child_cong load64_cong) (auto simp: agree_def)

lemma no_leaves_frame:
  assumes "wf_pt m l pt" "agree m m' (tabs m l pt)" "no_leaves m l pt"
  shows "no_leaves m' l pt"
  using assms
proof (induction l arbitrary: pt)
  case 0
  then show ?case using child_agree [of m m' pt] by simp
next
  case (Suc l)
  have ch: "child m' pt i = child m pt i" if "i < 512" for i
    using Suc.prems that by (intro child_agree) (auto simp: agree_def)
  have "no_leaves m' l c" if "i < 512" "child m' pt i = Some c" for i c
  proof (rule Suc.IH)
    show "wf_pt m l c" "no_leaves m l c" using Suc.prems that ch by auto
    show "agree m m' (tabs m l c)" using Suc.prems(2) that ch by (intro agree_mono [OF Suc.prems(2)]) auto
  qed
  then show ?case by simp
qed

lemma tree_ok_frame:
  assumes "tree_ok s fs l pt" "page_ok t = page_ok s" "agree (mem s) (mem t) (tabs (mem s) l pt)"
    "set gs \<inter> tabs (mem s) l pt = {}"
  shows "tree_ok t gs l pt" "tabs (mem t) l pt = tabs (mem s) l pt"
proof -
  have wf: "wf_pt (mem s) l pt" using assms(1) by (simp add: tree_ok_def)
  note fr = tabs_frame [OF wf assms(3)] and nl = no_leaves_frame [OF wf assms(3)]
  show tb: "tabs (mem t) l pt = tabs (mem s) l pt" using fr by simp
  show "tree_ok t gs l pt" unfolding tree_ok_def tb assms(2) using assms(1,4) fr nl by (auto simp: tree_ok_def)
qed

section \<open>The recursion of freewalk\<close>

definition freewalk_entry :: "nat \<Rightarrow> u64 \<Rightarrow> u64 \<Rightarrow> ('z kmem_scheme, unit) km" where
  "freewalk_entry k pt i = kbind (get64 (pte_at pt i)) (\<lambda>pte.
     if pte AND PTE_V \<noteq> 0 \<and> pte AND (PTE_R OR PTE_W OR PTE_X) = 0
     then kseq (freewalk k (PTE2PA pte)) (put64 (pte_at pt i) 0)
     else if pte AND PTE_V \<noteq> 0 then panic ''freewalk: leaf''
     else kreturn ())"

lemma freewalk_Suc:
  "freewalk (Suc k) pt = kseq (kfor (freewalk_entry k pt) (map of_nat [0..<512])) (kfree pt)"
  by (simp add: freewalk_entry_def [abs_def])

lemma freewalk_entry_none: "child (mem s) pt i = None \<Longrightarrow> freewalk_entry k pt i s = Ok () s"
  by (auto simp: freewalk_entry_def child_def Let_def split: if_splits)

lemma freewalk_entry_some:
  assumes "child (mem s) pt i = Some c" "load64 (mem s) (pte_at pt i) AND (PTE_R OR PTE_W OR PTE_X) = 0"
    "freewalk k c s = Ok () t"
  shows "freewalk_entry k pt i s = Ok () (t\<lparr>mem := store64 (mem t) (pte_at pt i) 0\<rparr>)"
  using assms by (auto simp: freewalk_entry_def child_def Let_def kseq_def kbind_def split: if_splits)

lemma kfor_skip: "(\<And>i. i \<in> set is \<Longrightarrow> f i s = Ok () s) \<Longrightarrow> kfor f is s = Ok () s"
  by (induction "is") (simp_all add: kseq_def kbind_def)

definition child_pages :: "memory \<Rightarrow> nat \<Rightarrow> u64 \<Rightarrow> u64 set \<Rightarrow> u64 set" where
  "child_pages m l pt I = (\<Union>i \<in> I. \<Union>c \<in> set_option (child m pt i). tabs m l c)"

definition subtrees_ok :: "'z kmem_scheme \<Rightarrow> u64 list \<Rightarrow> nat \<Rightarrow> u64 \<Rightarrow> u64 set \<Rightarrow> bool" where
  "subtrees_ok s fs l pt I \<longleftrightarrow> page_ok s pt \<and> pt \<notin> set fs \<and> I \<subseteq> {..<512} \<and>
     (\<forall>i \<in> I. \<forall>c. child (mem s) pt i = Some c \<longrightarrow> tree_ok s fs l c \<and> pt \<notin> tabs (mem s) l c \<and>
        load64 (mem s) (pte_at pt i) AND (PTE_R OR PTE_W OR PTE_X) = 0) \<and>
     (\<forall>i \<in> I. \<forall>j \<in> I. \<forall>c d. i \<noteq> j \<longrightarrow> child (mem s) pt i = Some c \<longrightarrow> child (mem s) pt j = Some d \<longrightarrow>
        tabs (mem s) l c \<inter> tabs (mem s) l d = {})"

lemma subtrees_step:
  assumes ok: "subtrees_ok s fs l pt (insert i I)" "i \<notin> I" and c: "child (mem s) pt i = Some c"
    and r: "released s fs (tabs (mem s) l c) t gs"
  defines "u \<equiv> t\<lparr>mem := store64 (mem t) (pte_at pt i) 0\<rparr>"
  shows "kmem_inv u gs" "subtrees_ok u gs l pt I" "child_pages (mem u) l pt I = child_pages (mem s) l pt I"
    "aligned 12 q \<Longrightarrow> q \<noteq> pt \<Longrightarrow> q \<notin> tabs (mem s) l c \<Longrightarrow> agree (mem s) (mem u) {q}"
    "u = s\<lparr>mem := mem u, freelist := freelist u\<rparr>"
proof -
  have al: "aligned 12 pt" "pt \<notin> tabs (mem s) l c" "pt \<notin> set fs" "i < 512" "page_ok s pt"
    using ok(1) c by (auto simp: subtrees_ok_def page_ok_def)
  have t: "t = s\<lparr>mem := mem t, freelist := freelist t\<rparr>" "kmem_inv t gs" "set gs = set fs \<union> tabs (mem s) l c"
    "\<And>q. aligned 12 q \<Longrightarrow> q \<notin> tabs (mem s) l c \<Longrightarrow> agree (mem s) (mem t) {q}" using r by (auto simp: released_def)
  have pg: "pt \<notin> set gs" using t(3) al by simp
  show "kmem_inv u gs" unfolding u_def
    using kmem_inv_store64 [OF t(2) al(1) pg pte_at_subset [OF al(1,4)]] .
  show eu: "u = s\<lparr>mem := mem u, freelist := freelist u\<rparr>" unfolding u_def by (subst t(1)) simp
  have pk: "page_ok u = page_ok s" by (subst eu) simp
  have st: "agree (mem t) (mem u) {q}" if "aligned 12 q" "q \<noteq> pt" for q
    unfolding u_def using agree_store [OF pte_at_subset [OF al(1,4)] al(1), of "{q}"] that by simp
  show ag: "agree (mem s) (mem u) {q}" if "aligned 12 q" "q \<noteq> pt" "q \<notin> tabs (mem s) l c" for q
    using agree_trans [OF t(4) st] that by blast
  have ld: "load64 (mem u) (pte_at pt j) = load64 (mem s) (pte_at pt j)" if "j \<in> I" for j
  proof -
    have j: "j < 512" "i \<noteq> j" using that ok by (auto simp: subtrees_ok_def)
    have "load64 (mem u) (pte_at pt j) = load64 (mem t) (pte_at pt j)"
      unfolding u_def using load_store_disjoint [OF pte_at_disjoint [OF al(1,4) j]] by simp
    also have "\<dots> = load64 (mem s) (pte_at pt j)"
      using t(4) [OF al(1,2)] pte_at_subset [OF al(1) j(1)] by (intro load64_cong) (auto simp: agree_def)
    finally show ?thesis .
  qed
  have ch: "child (mem u) pt j = child (mem s) pt j" if "j \<in> I" for j using ld [OF that] by (rule child_cong)
  have tr: "tree_ok u gs l d \<and> tabs (mem u) l d = tabs (mem s) l d" if j: "j \<in> I" "child (mem s) pt j = Some d" for j d
  proof -
    have d: "tree_ok s fs l d" "pt \<notin> tabs (mem s) l d" using ok(1) j by (auto simp: subtrees_ok_def)
    have dj: "tabs (mem s) l c \<inter> tabs (mem s) l d = {}"
      using ok c j unfolding subtrees_ok_def by (metis insertCI)
    have "agree (mem s) (mem u) (tabs (mem s) l d)"
    proof (rule agree_pages)
      fix q
      assume q: "q \<in> tabs (mem s) l d"
      then have "aligned 12 q" "q \<noteq> pt" "q \<notin> tabs (mem s) l c" using d dj tabs_aligned [of "mem s" l d q] by (auto simp: tree_ok_def)
      then show "agree (mem s) (mem u) {q}" by (rule ag)
    qed
    moreover have "set gs \<inter> tabs (mem s) l d = {}" using t(3) dj d(1) by (auto simp: tree_ok_def)
    ultimately show ?thesis using tree_ok_frame [OF d(1) pk] by blast
  qed
  show "subtrees_ok u gs l pt I"
    using ok(1) pg pk tr ch ld unfolding subtrees_ok_def by simp
  show "child_pages (mem u) l pt I = child_pages (mem s) l pt I"
    unfolding child_pages_def using ch tr by (intro SUP_cong refl) auto
qed

lemma freewalk_children:
  fixes s :: "'z kmem_scheme"
  assumes IH: "\<And>(s :: 'z kmem_scheme) fs c. kmem_inv s fs \<Longrightarrow> tree_ok s fs l c \<Longrightarrow>
      \<exists>t gs. freewalk (Suc l) c s = Ok () t \<and> released s fs (tabs (mem s) l c) t gs"
    and "kmem_inv s fs" "subtrees_ok s fs l pt (set is)" "distinct is"
  shows "\<exists>t gs. kfor (freewalk_entry (Suc l) pt) is s = Ok () t \<and> t = s\<lparr>mem := mem t, freelist := freelist t\<rparr> \<and>
    kmem_inv t gs \<and> set gs = set fs \<union> child_pages (mem s) l pt (set is) \<and>
    (\<forall>q. aligned 12 q \<longrightarrow> q \<noteq> pt \<longrightarrow> q \<notin> child_pages (mem s) l pt (set is) \<longrightarrow> agree (mem s) (mem t) {q})"
  using assms(2-4)
proof (induction "is" arbitrary: s fs)
  case Nil
  then show ?case by (auto simp: child_pages_def)
next
  case (Cons i "is")
  show ?case
  proof (cases "child (mem s) pt i")
    case None
    have "subtrees_ok s fs l pt (set is)" using Cons.prems(2) by (simp add: subtrees_ok_def)
    moreover have "child_pages (mem s) l pt (set (i # is)) = child_pages (mem s) l pt (set is)"
      using None by (simp add: child_pages_def)
    ultimately show ?thesis
      using Cons.IH [OF Cons.prems(1)] Cons.prems(3) freewalk_entry_none [OF None] by (simp add: kseq_def kbind_def)
  next
    case (Some c)
    have c: "tree_ok s fs l c" "load64 (mem s) (pte_at pt i) AND (PTE_R OR PTE_W OR PTE_X) = 0"
      using Cons.prems(2) Some by (auto simp: subtrees_ok_def)
    obtain t gs where t: "freewalk (Suc l) c s = Ok () t" "released s fs (tabs (mem s) l c) t gs"
      using IH [OF Cons.prems(1) c(1)] by blast
    let ?u = "t\<lparr>mem := store64 (mem t) (pte_at pt i) 0\<rparr>"
    have st: "subtrees_ok s fs l pt (insert i (set is))" "i \<notin> set is" "distinct is" using Cons.prems by auto
    note u = subtrees_step [OF st(1,2) Some t(2)]
    obtain w hs where w: "kfor (freewalk_entry (Suc l) pt) is ?u = Ok () w" "w = ?u\<lparr>mem := mem w, freelist := freelist w\<rparr>"
        "kmem_inv w hs" "set hs = set gs \<union> child_pages (mem s) l pt (set is)"
        "\<And>q. aligned 12 q \<Longrightarrow> q \<noteq> pt \<Longrightarrow> q \<notin> child_pages (mem s) l pt (set is) \<Longrightarrow> agree (mem ?u) (mem w) {q}"
      using Cons.IH [OF u(1,2) st(3)] unfolding u(3) by blast
    have cp: "child_pages (mem s) l pt (set (i # is)) = tabs (mem s) l c \<union> child_pages (mem s) l pt (set is)"
      using Some by (simp add: child_pages_def)
    have "kfor (freewalk_entry (Suc l) pt) (i # is) s = Ok () w"
      using freewalk_entry_some [OF Some c(2) t(1)] w(1) by (simp add: kseq_def kbind_def)
    moreover have "w = s\<lparr>mem := mem w, freelist := freelist w\<rparr>" by (subst w(2), subst u(5)) simp
    moreover have "set hs = set fs \<union> (tabs (mem s) l c \<union> child_pages (mem s) l pt (set is))"
      using w(4) t(2) by (auto simp: released_def)
    moreover have "agree (mem s) (mem w) {q}"
      if "aligned 12 q" "q \<noteq> pt" "q \<notin> tabs (mem s) l c \<union> child_pages (mem s) l pt (set is)" for q
      using agree_trans [OF u(4) w(5)] that by blast
    ultimately show ?thesis using w(3) unfolding cp by blast
  qed
qed

lemma all_entries: "set (map of_nat [0..<512]) = {..<512 :: u64}" "distinct (map of_nat [0..<512] :: u64 list)"
proof -
  have "i \<in> of_nat ` {0..<512}" if "i < 512" for i :: u64
    using that by (intro image_eqI [of _ _ "unat i"]) (auto simp: word_less_nat_alt)
  moreover have "of_nat n < (512 :: u64)" if "n < 512" for n
    using that by (simp add: word_less_nat_alt unat_of_nat64)
  ultimately show "set (map of_nat [0..<512]) = {..<512 :: u64}" by auto
  show "distinct (map of_nat [0..<512] :: u64 list)"
    unfolding distinct_map by (auto intro!: inj_onI dest!: arg_cong [of "of_nat _" _ unat] simp: unat_of_nat64)
qed

lemma tabs_children: "tabs m (Suc l) pt = insert pt (child_pages m l pt {..<512})"
  by (auto simp: child_pages_def)

lemma freewalk_run:
  assumes "kmem_inv s fs" "tree_ok s fs l pt"
  shows "\<exists>t gs. freewalk (Suc l) pt s = Ok () t \<and> released s fs (tabs (mem s) l pt) t gs"
  using assms
proof (induction l arbitrary: s fs pt)
  case 0
  have ok: "page_ok s pt" "pt \<notin> set fs" "aligned 12 pt" using 0 by (auto simp: tree_ok_def page_ok_def)
  have "kfor (freewalk_entry 0 pt) (map of_nat [0..<512]) s = Ok () s"
  proof (rule kfor_skip)
    fix i :: u64
    assume "i \<in> set (map of_nat [0..<512])"
    then have "i < 512" unfolding all_entries(1) by simp
    then show "freewalk_entry 0 pt i s = Ok () s"
      using 0(2) by (intro freewalk_entry_none) (simp add: tree_ok_def)
  qed
  then have run: "freewalk (Suc 0) pt s = kfree pt s" unfolding freewalk_Suc by (simp add: kseq_def kbind_def)
  let ?t = "s\<lparr>mem := store64 (mem s) pt (freelist s), freelist := pt\<rparr>"
  have "kfree pt s = Ok () ?t" using kfree_run [OF ok(1)] 0(1) by (simp add: kmem_inv_def)
  moreover have "agree (mem s) (mem ?t) {q}" if "aligned 12 q" "q \<noteq> pt" for q
    using agree_store [OF page_first_word ok(3), of "{q}"] that by simp
  then have "released s fs (tabs (mem s) 0 pt) ?t (pt # fs)"
    using kmem_inv_kfree [OF 0(1) ok(1,2)] by (simp add: released_def)
  ultimately show ?case using run by auto
next
  case (Suc l)
  have ok: "page_ok s pt" "pt \<notin> set fs" "aligned 12 pt" using Suc.prems by (auto simp: tree_ok_def page_ok_def)
  have "subtrees_ok s fs l pt {..<512}"
    using Suc.prems(2) ok unfolding subtrees_ok_def tree_ok_def by auto
  then obtain t gs where t: "kfor (freewalk_entry (Suc l) pt) (map of_nat [0..<512]) s = Ok () t"
      "t = s\<lparr>mem := mem t, freelist := freelist t\<rparr>" "kmem_inv t gs" "set gs = set fs \<union> child_pages (mem s) l pt {..<512}"
      "\<And>q. aligned 12 q \<Longrightarrow> q \<noteq> pt \<Longrightarrow> q \<notin> child_pages (mem s) l pt {..<512} \<Longrightarrow> agree (mem s) (mem t) {q}"
    using freewalk_children [OF Suc.IH Suc.prems(1) _ all_entries(2), of pt] unfolding all_entries(1) by blast
  have pc: "pt \<notin> child_pages (mem s) l pt {..<512}"
    using Suc.prems(2) by (auto simp: child_pages_def tree_ok_def)
  have pk: "page_ok t pt" using ok(1) by (subst t(2)) simp
  have pg: "pt \<notin> set gs" using t(4) pc ok(2) by simp
  let ?u = "t\<lparr>mem := store64 (mem t) pt (freelist t), freelist := pt\<rparr>"
  have "kfree pt t = Ok () ?u" using kfree_run [OF pk] t(3) by (simp add: kmem_inv_def)
  then have run: "freewalk (Suc (Suc l)) pt s = Ok () ?u" unfolding freewalk_Suc using t(1) by (simp add: kseq_def kbind_def)
  have ag: "agree (mem s) (mem ?u) {q}" if "aligned 12 q" "q \<notin> tabs (mem s) (Suc l) pt" for q
  proof -
    have q: "q \<noteq> pt" "q \<notin> child_pages (mem s) l pt {..<512}" using that(2) unfolding tabs_children by auto
    have "agree (mem t) (mem ?u) {q}" using agree_store [OF page_first_word ok(3), of "{q}"] that(1) q(1) by simp
    then show ?thesis using agree_trans [OF t(5) [OF that(1) q]] by blast
  qed
  have e: "?u = s\<lparr>mem := mem ?u, freelist := freelist ?u\<rparr>" by (subst t(2)) simp
  have "set (pt # gs) = set fs \<union> tabs (mem s) (Suc l) pt" unfolding tabs_children using t(4) by auto
  then have "released s fs (tabs (mem s) (Suc l) pt) ?u (pt # gs)"
    using kmem_inv_kfree [OF t(3) pk pg] ag e unfolding released_def by blast
  then show ?case using run by blast
qed

section \<open>From unmapped pages to empty tables\<close>

lemma PX_vpage:
  assumes "n < 2 ^ 27" "l \<le> 2"
  shows "PX l (vpage n) = of_nat (n div 512 ^ l mod 512)"
proof -
  have n: "unat (vpage n) = n * 4096" using assms by (intro unat_vpage) simp
  have e: "(2 :: nat) ^ PXSHIFT l = 4096 * 512 ^ l"
    by (simp add: PXSHIFT_def power_add power_mult)
  have "unat (PX l (vpage n)) = n div 512 ^ l mod 512"
    unfolding PX_def and_0x1FF
    by (subst unsigned_take_bit_eq, subst unat_drop_bit_eq)
       (simp add: n take_bit_eq_mod drop_bit_eq_div e div_mult2_eq)
  then show ?thesis by (simp add: word_unat_eq_iff unat_of_nat64)
qed

lemma uvm_no_leaves:
  assumes "uvm s fs pt {} {..<2 ^ 27}"
  shows "no_leaves (mem s) 2 pt"
proof -
  have "child (mem s) d k = None" if i: "i < 512" "child (mem s) pt i = Some c"
      and j: "j < 512" "child (mem s) c j = Some d" and k: "k < 512" for i c j d k
  proof -
    let ?n = "(unat i * 512 + unat j) * 512 + unat k"
    have lt: "unat i < 512" "unat j < 512" "unat k < 512" using i j k by (simp_all add: word_less_nat_alt)
    then have n: "?n < 2 ^ 27" by simp
    have d: "?n div 512 = unat i * 512 + unat j" "?n mod 512 = unat k" "(unat i * 512 + unat j) mod 512 = unat j"
      unfolding div_mult_self3 mod_mult_self3 using lt by simp_all
    moreover have "?n div 512 ^ 2 = unat i" unfolding power2_eq_square div_mult2_eq d(1) using lt by simp
    ultimately have px: "PX 0 (vpage ?n) = k" "PX 1 (vpage ?n) = j" "PX 2 (vpage ?n) = i"
      using PX_vpage [OF n, of 0] PX_vpage [OF n, of 1] PX_vpage [OF n, of 2] lt by simp_all
    have "pte_of (mem s) 2 pt (vpage ?n) = load64 (mem s) (pte_at d k)"
      using px i(2) j(2) by (simp add: pte_of_def numeral_2_eq_2)
    moreover have "\<not> pte_valid (upte (mem s) pt ?n)" using assms n unfolding uvm_def by blast
    ultimately show ?thesis by (simp add: upte_def child_def)
  qed
  then show ?thesis unfolding numeral_2_eq_2 no_leaves.simps by blast
qed

section \<open>Freeing a process\<close>

text \<open>C11. \<^bold>\<open>uvmfree gives everything back.\<close> For a process of \<open>sz\<close> bytes with nothing else mapped,
  \<open>uvmfree\<close> returns, without a panic, and afterwards the free list holds, each exactly once, the
  pages that were free before, the process's memory and all the pages of its page table. No other
  page has changed.\<close>

theorem uvmfree_frees_all:
  assumes uvm: "uvm s fs pt {..<npg sz} {npg sz..<2 ^ 27}" and sz: "npg sz \<le> 2 ^ 26"
  shows "\<exists>t gs. uvmfree pt sz s = Ok () t \<and> kmem_inv t gs \<and> distinct gs \<and>
    set gs = uvm_pages (mem s) fs pt {..<npg sz} \<and>
    (\<forall>q. aligned 12 q \<longrightarrow> q \<notin> own_pages (mem s) pt {..<npg sz} \<longrightarrow> agree (mem s) (mem t) {q})"
proof -
  let ?n = "npg sz"
  let ?m = "(if sz > 0 then uvmunmap pt 0 (PGROUNDUP sz div PGSIZE) True else kreturn ()) :: ('a kmem_scheme, unit) km"
  have "PGROUNDUP sz = vpage ?n" using npg_bound [OF sz] by (rule PGROUNDUP_vpage)
  then have dv: "PGROUNDUP sz div PGSIZE = of_nat (?n - 0)" using pages_div [OF sz] by (simp add: vpage_def)
  have u: "uvm s fs pt ({} \<union> {0..<?n}) {?n..<2 ^ 27}" using uvm by (simp add: lessThan_atLeast0)
  obtain t where t: "?m s = Ok () t" "uvm t (rev (map (upage (mem s) pt) [0..<?n]) @ fs) pt {} {..<2 ^ 27}"
      "tabs (mem t) 2 pt = tabs (mem s) 2 pt"
      "\<And>q. aligned 12 q \<Longrightarrow> q \<notin> own_pages (mem s) pt {..<?n} \<Longrightarrow> agree (mem s) (mem t) {q}"
  proof (cases "sz > 0")
    case True
    have "{?n..<2 ^ 27} \<union> {0..<?n} = {..<2 ^ 27}" "{?n..<2 ^ 27} \<inter> {0..<?n} = {}" using sz by auto
    then show ?thesis
      using uvmunmap_run [OF u _ _ le0 sz] that True
      by (auto simp: uvm_zero own_pages_def lessThan_atLeast0 dv [simplified])
  next
    case False
    then have "?n = 0" by (simp add: npg_def word_gt_0)
    then show ?thesis using that [of s] u False by (simp add: lessThan_atLeast0)
  qed
  let ?gs = "rev (map (upage (mem s) pt) [0..<?n]) @ fs"
  have "tree_ok t ?gs 2 pt" using t(2) uvm_no_leaves [OF t(2)] by (simp add: tree_ok_def uvm_def pt_inv_def)
  moreover have "kmem_inv t ?gs" using t(2) by (simp add: uvm_def pt_inv_def)
  ultimately obtain w hs where w: "freewalk (Suc 2) pt t = Ok () w" "released t ?gs (tabs (mem t) 2 pt) w hs"
    using freewalk_run by blast
  have "uvmfree pt sz s = Ok () w" using t(1) w(1) by (simp add: uvmfree_def kseq_def kbind_def numeral_3_eq_3 del: freewalk.simps)
  moreover have "kmem_inv w hs" "distinct hs" "set hs = uvm_pages (mem s) fs pt {..<?n}"
    using w(2) t(3) by (auto simp: released_def kmem_inv_def uvm_pages_def)
  moreover have "agree (mem s) (mem w) {q}" if q: "aligned 12 q" "q \<notin> own_pages (mem s) pt {..<?n}" for q
    using agree_trans [OF t(4) [OF q]] w(2) q t(3) by (simp add: released_def own_pages_def)
  ultimately show ?thesis by blast
qed

theorem uvmfree_frees_all_witness:
  "\<exists>t gs. uvmfree 0x87ff0000 4000 space1 = Ok () t \<and> kmem_inv t gs \<and>
     set gs = {0x87ff0000, 0x87fff000, 0x87ffe000, 0x87ffd000}"
proof -
  obtain gs where g: "uvm space1 gs 0x87ff0000 {0} {1..<2 ^ 27}"
      "uvm_pages (mem space1) gs 0x87ff0000 {0} = {0x87ff0000, 0x87fff000, 0x87ffe000, 0x87ffd000}"
    using space1_uvm(1) by blast
  have n: "npg 4000 = 1" "{..<1 :: nat} = {0}" by (simp_all add: npg_def lessThan_Suc)
  show ?thesis using uvmfree_frees_all [of space1 gs "0x87ff0000" 4000, unfolded n, OF g(1)] g(2) by auto
qed

end
