(* ===== verification/Proc.thy ===== *)
theory Proc
  imports Ufree
begin

text \<open>
  \<open>kernel/proc.c\<close> and \<open>kernel/proc.h\<close>: the process table, its allocation, sleeping and waking, the
  scheduler. A process is named by its index in \<open>proc[NPROC]\<close>. Its trapframe is a page of physical
  memory, as in the C code, and its registers are words of that page. Where a function gives up
  the CPU (\<open>sched\<close>) its model ends, with \<open>Block\<close> if the process sleeps and \<open>Switch\<close> otherwise, and the
  code that runs when the process is scheduled again is a definition of its own (\<open>sleep_resume\<close>,
  \<open>yield_resume\<close>). The functions that need the file system (\<open>fork\<close>, \<open>exit\<close>, \<open>userinit\<close>, \<open>forkret\<close>) are in
  the theory \<open>Lifecycle\<close>.
\<close>

unbundle bit_operations_syntax

section \<open>State\<close>

record ctxt =
  ctx_ra :: u64
  ctx_sp :: u64
  ctx_s :: "u64 list"      \<comment> \<open>\<open>s0\<close> to \<open>s11\<close>\<close>

datatype trapframe =
    TF_kernel_satp | TF_kernel_sp | TF_kernel_trap | TF_epc | TF_kernel_hartid
  | TF_ra | TF_sp | TF_gp | TF_tp | TF_t0 | TF_t1 | TF_t2 | TF_s0 | TF_s1
  | TF_a0 | TF_a1 | TF_a2 | TF_a3 | TF_a4 | TF_a5 | TF_a6 | TF_a7
  | TF_s2 | TF_s3 | TF_s4 | TF_s5 | TF_s6 | TF_s7 | TF_s8 | TF_s9 | TF_s10 | TF_s11
  | TF_t3 | TF_t4 | TF_t5 | TF_t6

text \<open>The offset of a field of \<open>struct trapframe\<close>.\<close>

primrec tf_off :: "trapframe \<Rightarrow> u64" where
  "tf_off TF_kernel_satp = 0" | "tf_off TF_kernel_sp = 8" | "tf_off TF_kernel_trap = 16"
| "tf_off TF_epc = 24" | "tf_off TF_kernel_hartid = 32" | "tf_off TF_ra = 40" | "tf_off TF_sp = 48"
| "tf_off TF_gp = 56" | "tf_off TF_tp = 64" | "tf_off TF_t0 = 72" | "tf_off TF_t1 = 80"
| "tf_off TF_t2 = 88" | "tf_off TF_s0 = 96" | "tf_off TF_s1 = 104" | "tf_off TF_a0 = 112"
| "tf_off TF_a1 = 120" | "tf_off TF_a2 = 128" | "tf_off TF_a3 = 136" | "tf_off TF_a4 = 144"
| "tf_off TF_a5 = 152" | "tf_off TF_a6 = 160" | "tf_off TF_a7 = 168" | "tf_off TF_s2 = 176"
| "tf_off TF_s3 = 184" | "tf_off TF_s4 = 192" | "tf_off TF_s5 = 200" | "tf_off TF_s6 = 208"
| "tf_off TF_s7 = 216" | "tf_off TF_s8 = 224" | "tf_off TF_s9 = 232" | "tf_off TF_s10 = 240"
| "tf_off TF_s11 = 248" | "tf_off TF_t3 = 256" | "tf_off TF_t4 = 264" | "tf_off TF_t5 = 272"
| "tf_off TF_t6 = 280"

definition TF_SIZE :: nat where "TF_SIZE = 288"

datatype procstate = UNUSED | USED | SLEEPING | RUNNABLE | RUNNING | ZOMBIE

definition NOFILE :: nat where "NOFILE = 16"

record proc =
  p_state :: procstate
  p_chan :: "chan option"
  p_killed :: bool
  p_xstate :: int
  p_pid :: int
  p_parent :: "nat option"
  p_kstack :: u64
  p_sz :: u64
  p_pagetable :: u64
  p_trapframe :: u64
  p_context :: ctxt
  p_ofile :: "nat option list"   \<comment> \<open>indices in the file table\<close>
  p_cwd :: "nat option"          \<comment> \<open>index in the inode table\<close>
  p_name :: "u8 list"
  p_trace_mask :: u32

record ptable = vm +
  procs :: "proc list"
  initproc :: "nat option"
  nextpid :: int
  curproc :: "nat option"        \<comment> \<open>\<open>mycpu()->proc\<close>\<close>
  tp :: u64                      \<comment> \<open>the hart's number\<close>
  forkret_pc :: u64              \<comment> \<open>placed by the linker\<close>

abbreviation pget :: "nat \<Rightarrow> (proc \<Rightarrow> 'a) \<Rightarrow> ('z ptable_scheme, 'a) km" where
  "pget p f \<equiv> kget (\<lambda>s. f (procs s ! p))"

abbreviation pset :: "nat \<Rightarrow> (proc \<Rightarrow> proc) \<Rightarrow> ('z ptable_scheme, unit) km" where
  "pset p f \<equiv> kmodify (\<lambda>s. s\<lparr>procs := (procs s)[p := f (procs s ! p)]\<rparr>)"

text \<open>\<open>p->trapframe->r\<close>\<close>

abbreviation tf_get :: "nat \<Rightarrow> trapframe \<Rightarrow> ('z ptable_scheme, u64) km" where
  "tf_get p r \<equiv> kget (\<lambda>s. load64 (mem s) (p_trapframe (procs s ! p) + tf_off r))"

abbreviation tf_set :: "nat \<Rightarrow> trapframe \<Rightarrow> u64 \<Rightarrow> ('z ptable_scheme, unit) km" where
  "tf_set p r v \<equiv> kmodify (\<lambda>s. s\<lparr>mem := store64 (mem s) (p_trapframe (procs s ! p) + tf_off r) v\<rparr>)"

section \<open>The table\<close>

definition procinit :: "('z ptable_scheme, unit) km" where
  "procinit = kfor (\<lambda>p. pset p (\<lambda>q. q\<lparr>p_state := UNUSED, p_kstack := KSTACK p\<rparr>)) [0..<NPROC]"

definition cpuid :: "('z ptable_scheme, int) km" where
  "cpuid = kget (\<lambda>s. sint (ucast (tp s) :: u32))"

definition myproc :: "('z ptable_scheme, nat option) km" where
  "myproc = kget curproc"

text \<open>\<open>myproc()\<close> where its result is dereferenced: page 0 is not mapped in the kernel, so that a null
  pointer ends in \<open>kerneltrap\<close>.\<close>

definition this_proc :: "('z ptable_scheme, nat) km" where
  "this_proc = kbind myproc (\<lambda>p. case p of None \<Rightarrow> panic ''kerneltrap'' | Some i \<Rightarrow> kreturn i)"

text \<open>\<open>nextpid\<close> is a signed \<open>int\<close>, whose overflow is undefined.\<close>

definition allocpid :: "('z ptable_scheme, int) km" where
  "allocpid =
     kseq (acquire L_pid)
    (kbind (kget nextpid) (\<lambda>pid.
     kseq (if pid = 2 ^ 31 - 1 then kundef else kmodify (\<lambda>s. s\<lparr>nextpid := nextpid s + 1\<rparr>))
    (kseq (release L_pid)
    (kreturn pid))))"

definition proc_pagetable :: "nat \<Rightarrow> ('z ptable_scheme, u64) km" where
  "proc_pagetable p =
     kbind uvmcreate (\<lambda>pagetable.
     if pagetable = 0 then kreturn 0
     else kbind (kget trampoline) (\<lambda>tramp.
       kbind (mappages pagetable TRAMPOLINE PGSIZE tramp (PTE_R OR PTE_X)) (\<lambda>r.
       if r < 0 then kseq (uvmfree pagetable 0) (kreturn 0)
       else kbind (pget p p_trapframe) (\<lambda>tf.
         kbind (mappages pagetable TRAPFRAME PGSIZE tf (PTE_R OR PTE_W)) (\<lambda>r.
         if r < 0 then
           kseq (uvmunmap pagetable TRAMPOLINE 1 False)
          (kseq (uvmfree pagetable 0)
          (kreturn 0))
         else kreturn pagetable)))))"

definition proc_freepagetable :: "u64 \<Rightarrow> u64 \<Rightarrow> ('z ptable_scheme, unit) km" where
  "proc_freepagetable pagetable sz = kdo
     [uvmunmap pagetable TRAMPOLINE 1 False,
      uvmunmap pagetable TRAPFRAME 1 False,
      uvmfree pagetable sz]"

definition freeproc :: "nat \<Rightarrow> ('z ptable_scheme, unit) km" where
  "freeproc p =
     kbind (pget p p_trapframe) (\<lambda>tf.
     kseq (kwhen (tf \<noteq> 0) (kfree tf))
    (kseq (pset p (p_trapframe_update (\<lambda>_. 0)))
    (kbind (pget p (\<lambda>q. (p_pagetable q, p_sz q))) (\<lambda>(pt, sz).
     kseq (kwhen (pt \<noteq> 0) (proc_freepagetable pt sz))
    (pset p (\<lambda>q. q\<lparr>p_pagetable := 0, p_sz := 0, p_pid := 0, p_parent := None,
       p_name := (p_name q)[0 := 0], p_chan := None, p_killed := False, p_xstate := 0,
       p_state := UNUSED, p_trace_mask := 0\<rparr>))))))"

text \<open>The search of \<open>allocproc\<close>: the first unused slot, with its lock held.\<close>

primrec allocproc_scan :: "nat list \<Rightarrow> ('z ptable_scheme, nat option) km" where
  "allocproc_scan [] = kreturn None"
| "allocproc_scan (p # ps) =
     kseq (acquire (L_proc p))
    (kbind (pget p p_state) (\<lambda>st.
     if st = UNUSED then kreturn (Some p)
     else kseq (release (L_proc p)) (allocproc_scan ps)))"

text \<open>What \<open>allocproc\<close> does with the slot it has found and numbered.\<close>

definition allocproc_setup :: "nat \<Rightarrow> ('z ptable_scheme, nat option) km" where
  "allocproc_setup p =
     kbind kalloc (\<lambda>tf.
     kseq (pset p (\<lambda>q. q\<lparr>p_trapframe := tf\<rparr>))
    (if tf = 0 then
       kseq (freeproc p) (kseq (release (L_proc p)) (kreturn None))
     else
       kbind (proc_pagetable p) (\<lambda>pt.
       kseq (pset p (\<lambda>q. q\<lparr>p_pagetable := pt\<rparr>))
      (if pt = 0 then
         kseq (freeproc p) (kseq (release (L_proc p)) (kreturn None))
       else
         kbind (kget forkret_pc) (\<lambda>pc.
         kseq (pset p (\<lambda>q. q\<lparr>p_context := \<lparr>ctx_ra = pc, ctx_sp = p_kstack q + PGSIZE, ctx_s = replicate 12 0\<rparr>\<rparr>))
        (kreturn (Some p)))))))"

definition allocproc :: "('z ptable_scheme, nat option) km" where
  "allocproc =
     kbind (allocproc_scan [0..<NPROC]) (\<lambda>found. case found of None \<Rightarrow> kreturn None | Some p \<Rightarrow>
     kbind allocpid (\<lambda>pid.
     kseq (pset p (\<lambda>q. q\<lparr>p_pid := pid, p_state := USED\<rparr>))
    (allocproc_setup p)))"

definition growproc :: "int \<Rightarrow> ('z ptable_scheme, int) km" where
  "growproc n =
     kbind this_proc (\<lambda>p.
     kbind (pget p (\<lambda>q. (p_pagetable q, p_sz q))) (\<lambda>(pt, sz).
     if n > 0 then
       kbind (uvmalloc pt sz (sz + of_int n) PTE_W) (\<lambda>sz.
       if sz = 0 then kreturn (- 1)
       else kseq (pset p (\<lambda>q. q\<lparr>p_sz := sz\<rparr>)) (kreturn 0))
     else if n < 0 then
       kbind (uvmdealloc pt sz (sz + of_int n)) (\<lambda>sz.
       kseq (pset p (\<lambda>q. q\<lparr>p_sz := sz\<rparr>)) (kreturn 0))
     else kseq (pset p (\<lambda>q. q\<lparr>p_sz := sz\<rparr>)) (kreturn 0)))"

section \<open>Sleeping and waking\<close>

definition sched :: "('z ptable_scheme, 'a) km" where
  "sched =
     kbind this_proc (\<lambda>p.
     kbind (kget held) (\<lambda>h.
     kbind (pget p (\<lambda>q. (p_state q, p_chan q))) (\<lambda>(st, c).
     if L_proc p \<notin> set h then panic ''sched p->lock''
     else if length h \<noteq> 1 then panic ''sched locks''
     else if st = RUNNING then panic ''sched running''
     else case c of Some ch \<Rightarrow> if st = SLEEPING then kblock ch else kswitch | None \<Rightarrow> kswitch)))"

definition yield :: "('z ptable_scheme, unit) km" where
  "yield = kbind this_proc (\<lambda>p. kdo
     [acquire (L_proc p),
      pset p (\<lambda>q. q\<lparr>p_state := RUNNABLE\<rparr>),
      sched])"

definition yield_resume :: "nat \<Rightarrow> ('z ptable_scheme, unit) km" where
  "yield_resume p = release (L_proc p)"

definition sleep :: "chan \<Rightarrow> lockid \<Rightarrow> ('z ptable_scheme, 'a) km" where
  "sleep c lk = kbind this_proc (\<lambda>p. kseq (kdo
     [acquire (L_proc p),
      release lk,
      pset p (\<lambda>q. q\<lparr>p_chan := Some c, p_state := SLEEPING\<rparr>)])
     sched)"

definition sleep_resume :: "nat \<Rightarrow> lockid \<Rightarrow> ('z ptable_scheme, unit) km" where
  "sleep_resume p lk = kdo
     [pset p (\<lambda>q. q\<lparr>p_chan := None\<rparr>),
      release (L_proc p),
      acquire lk]"

definition wakeup :: "chan option \<Rightarrow> ('z ptable_scheme, unit) km" where
  "wakeup c = kfor (\<lambda>p.
     kbind myproc (\<lambda>me. kwhen (me \<noteq> Some p) (kdo
       [acquire (L_proc p),
        pset p (\<lambda>q. if p_state q = SLEEPING \<and> p_chan q = c then q\<lparr>p_state := RUNNABLE\<rparr> else q),
        release (L_proc p)]))) [0..<NPROC]"

primrec kill_scan :: "int \<Rightarrow> nat list \<Rightarrow> ('z ptable_scheme, int) km" where
  "kill_scan pid [] = kreturn (- 1)"
| "kill_scan pid (p # ps) =
     kseq (acquire (L_proc p))
    (kbind (pget p p_pid) (\<lambda>i.
     if i = pid then
       kseq (pset p (\<lambda>q. q\<lparr>p_killed := True, p_state := if p_state q = SLEEPING then RUNNABLE else p_state q\<rparr>))
      (kseq (release (L_proc p))
      (kreturn 0))
     else kseq (release (L_proc p)) (kill_scan pid ps)))"

definition kill :: "int \<Rightarrow> ('z ptable_scheme, int) km" where
  "kill pid = kill_scan pid [0..<NPROC]"

definition setkilled :: "nat \<Rightarrow> ('z ptable_scheme, unit) km" where
  "setkilled p = kdo [acquire (L_proc p), pset p (\<lambda>q. q\<lparr>p_killed := True\<rparr>), release (L_proc p)]"

definition killed :: "nat \<Rightarrow> ('z ptable_scheme, bool) km" where
  "killed p = kseq (acquire (L_proc p))
    (kbind (pget p p_killed) (\<lambda>k.
     kseq (release (L_proc p)) (kreturn k)))"

section \<open>The scheduler\<close>

text \<open>The inner loop of \<open>scheduler\<close> from a given slot on, up to the \<open>swtch\<close> to the first runnable
  process, whose lock is then held; and what follows when that process switches back.\<close>

primrec scheduler_scan :: "nat list \<Rightarrow> ('z ptable_scheme, nat option) km" where
  "scheduler_scan [] = kreturn None"
| "scheduler_scan (p # ps) =
     kseq (acquire (L_proc p))
    (kbind (pget p p_state) (\<lambda>st.
     if st = RUNNABLE then
       kseq (pset p (\<lambda>q. q\<lparr>p_state := RUNNING\<rparr>))
      (kseq (kmodify (\<lambda>s. s\<lparr>curproc := Some p\<rparr>))
      (kreturn (Some p)))
     else kseq (release (L_proc p)) (scheduler_scan ps)))"

definition scheduler_leave :: "nat \<Rightarrow> ('z ptable_scheme, unit) km" where
  "scheduler_leave p = kdo [kmodify (\<lambda>s. s\<lparr>curproc := None\<rparr>), release (L_proc p)]"

text \<open>The whole inner loop. Two things are parameters: what the rest of the machine, the other harts and the interrupt
  handlers, does to the state before the scan takes the lock of process \<open>p\<close> (\<open>others p\<close>), and
  what happens from the \<open>swtch\<close> to a chosen process until it switches back (\<open>swtch\<close>). The result is the processes
  that were run.\<close>

primrec scheduler_pass :: "(nat \<Rightarrow> 'z ptable_scheme \<Rightarrow> 'z ptable_scheme) \<Rightarrow> (nat \<Rightarrow> ('z ptable_scheme, unit) km) \<Rightarrow>
    nat list \<Rightarrow> ('z ptable_scheme, nat list) km" where
  "scheduler_pass others swtch [] = kreturn []"
| "scheduler_pass others swtch (p # ps) =
     kseq (kmodify (others p))
    (kbind (scheduler_scan [p]) (\<lambda>r. case r of
       None \<Rightarrow> scheduler_pass others swtch ps
     | Some q \<Rightarrow>
         kseq (swtch q)
        (kseq (scheduler_leave q)
        (kbind (scheduler_pass others swtch ps) (\<lambda>qs.
         kreturn (q # qs))))))"

section \<open>Parents and children\<close>

definition reparent :: "nat \<Rightarrow> ('z ptable_scheme, unit) km" where
  "reparent p = kfor (\<lambda>pp.
     kbind (pget pp p_parent) (\<lambda>par. kwhen (par = Some p)
       (kbind (kget initproc) (\<lambda>ini. kdo
         [pset pp (\<lambda>q. q\<lparr>p_parent := ini\<rparr>),
          wakeup (map_option Ch_proc ini)])))) [0..<NPROC]"

text \<open>One round of the scan of \<open>wait\<close>, with \<open>wait_lock\<close> held: \<open>Inl\<close> is a return, \<open>Inr\<close> whether there are
  children.\<close>

primrec wait_scan :: "nat \<Rightarrow> u64 \<Rightarrow> bool \<Rightarrow> nat list \<Rightarrow> ('z ptable_scheme, int + bool) km" where
  "wait_scan p addr havekids [] = kreturn (Inr havekids)"
| "wait_scan p addr havekids (pp # ps) =
     kbind (pget pp p_parent) (\<lambda>par.
     if par = Some p then
       kseq (acquire (L_proc pp))
      (kbind (pget pp (\<lambda>q. (p_state q, p_pid q, p_xstate q))) (\<lambda>(st, pid, xstate).
       if st = ZOMBIE then
         kbind (pget p p_pagetable) (\<lambda>pt.
         kbind (if addr \<noteq> 0 then copyout pt addr (le_bytes 4 (of_int xstate :: u32)) else kreturn 0) (\<lambda>r.
         if r < 0 then
           kseq (release (L_proc pp)) (kseq (release L_wait) (kreturn (Inl (- 1))))
         else
           kseq (freeproc pp)
          (kseq (release (L_proc pp))
          (kseq (release L_wait)
          (kreturn (Inl pid))))))
       else kseq (release (L_proc pp)) (wait_scan p addr True ps)))
     else wait_scan p addr havekids ps)"

definition wait_round :: "nat \<Rightarrow> u64 \<Rightarrow> ('z ptable_scheme, int) km" where
  "wait_round p addr =
     kbind (wait_scan p addr False [0..<NPROC]) (\<lambda>r. case r of
       Inl i \<Rightarrow> kreturn i
     | Inr havekids \<Rightarrow>
         kbind (if havekids then killed p else kreturn True) (\<lambda>stop.
         if stop then kseq (release L_wait) (kreturn (- 1))
         else sleep (Ch_proc p) L_wait))"

definition wait :: "u64 \<Rightarrow> ('z ptable_scheme, int) km" where
  "wait addr = kbind this_proc (\<lambda>p. kseq (acquire L_wait) (wait_round p addr))"

section \<open>Copies to and from either space\<close>

text \<open>Where \<open>either_copyout\<close> and \<open>either_copyin\<close> copy to or from: a user address, a page of physical
  memory, or a local variable of the caller. For a local variable the copied bytes are the
  result, and as a source it is given by its contents.\<close>

datatype place = User u64 | Kern u64 | Local "u8 list"

primrec advance :: "nat \<Rightarrow> place \<Rightarrow> place" where
  "advance m (User a) = User (a + of_nat m)"
| "advance m (Kern a) = Kern (a + of_nat m)"
| "advance m (Local bs) = Local (drop m bs)"

definition either_copyout :: "place \<Rightarrow> u8 list \<Rightarrow> ('z ptable_scheme, int) km" where
  "either_copyout dst src =
     kbind this_proc (\<lambda>p. case dst of
       User a \<Rightarrow> kbind (pget p p_pagetable) (\<lambda>pt. copyout pt a src)
     | Kern a \<Rightarrow> kseq (kmodify (\<lambda>s. s\<lparr>mem := write_bytes (mem s) a src\<rparr>)) (kreturn 0)
     | Local _ \<Rightarrow> kreturn 0)"

definition either_copyin :: "place \<Rightarrow> nat \<Rightarrow> ('z ptable_scheme, int \<times> u8 list) km" where
  "either_copyin src len =
     kbind this_proc (\<lambda>p. case src of
       User a \<Rightarrow> kbind (pget p p_pagetable) (\<lambda>pt. copyin pt a len)
     | Kern a \<Rightarrow> kget (\<lambda>s. (0, read_bytes (mem s) a len))
     | Local bs \<Rightarrow> kreturn (0, take len bs))"

section \<open>Counting\<close>

primrec nproc_loop :: "int \<Rightarrow> nat list \<Rightarrow> ('z ptable_scheme, int) km" where
  "nproc_loop n [] = kreturn n"
| "nproc_loop n (p # ps) =
     kseq (acquire (L_proc p))
    (kbind (pget p p_state) (\<lambda>st.
     kseq (release (L_proc p))
    (nproc_loop (if st \<noteq> UNUSED then n + 1 else n) ps)))"

definition nproc :: "('z ptable_scheme, int) km" where
  "nproc = nproc_loop 0 [0..<NPROC]"

definition fileopencount_process :: "('z ptable_scheme, int) km" where
  "fileopencount_process =
     kbind this_proc (\<lambda>p.
     kseq (acquire (L_proc p))
    (kbind (pget p (\<lambda>q. int (length (filter (\<lambda>i. p_ofile q ! i \<noteq> None) [0..<NOFILE])))) (\<lambda>count.
     kseq (release (L_proc p))
    (kreturn count))))"

end
