(* ===== verification/Frame.thy ===== *)
theory Frame
  imports Ufree
begin

text \<open>
  What the memory functions leave alone. Everything \<open>kernel/kalloc.c\<close> and \<open>kernel/vm.c\<close> do after boot is done
  to physical memory, the free list and the locks; the locale says so once, for any component of the
  larger kernel state that does not depend on those three, and is interpreted for each component as
  it is introduced.
\<close>

locale mem_frame =
  fixes f :: "'z kmem_scheme \<Rightarrow> 'b"
  assumes f_mem: "f (s\<lparr>mem := m\<rparr>) = f s"
    and f_held: "f (s\<lparr>held := h\<rparr>) = f s"
    and f_freelist: "f (s\<lparr>freelist := p\<rparr>) = f s"
begin

lemma keeps_acquire: "keeps f (acquire l)"
  by (simp add: keeps_def acquire_def f_held)

lemma keeps_release: "keeps f (release l)"
  by (simp add: keeps_def release_def f_held)

lemma keeps_put: "keeps f (kmodify (\<lambda>s. s\<lparr>mem := g s\<rparr>))"
  by (simp add: keeps f_mem)

lemma keeps_kalloc: "keeps f kalloc"
  unfolding kalloc_def by (intro keeps keeps_acquire keeps_release) (simp add: f_freelist)

lemma keeps_kfree: "keeps f (kfree p)"
proof -
  have "keeps f (kseq (acquire L_kmem)
         (kseq (kmodify (\<lambda>s. s\<lparr>mem := store64 (mem s) p (freelist s)\<rparr>))
         (kseq (kmodify (\<lambda>s. s\<lparr>freelist := p\<rparr>))
         (release L_kmem))))"
    by (intro keeps keeps_acquire keeps_release) (simp_all add: f_freelist f_mem)
  then show ?thesis unfolding kfree_def keeps_def by auto
qed

lemma keeps_walk_loop: "keeps f (walk_loop l pt va alloc)"
proof (induction l arbitrary: pt)
  case 0
  then show ?case by (simp add: keeps_def)
next
  case (Suc l)
  show ?case unfolding walk_loop.simps by (intro keeps keeps_kalloc keeps_put Suc)
qed

lemma keeps_walk: "keeps f (walk pt va alloc)"
  unfolding walk_def by (intro keeps keeps_walk_loop)

lemma keeps_walkaddr: "keeps f (walkaddr pt va)"
  unfolding walkaddr_def by (intro keeps keeps_walk)

lemma keeps_mappages_loop: "keeps f (mappages_loop k pt a l pa perm)"
proof (induction k arbitrary: a pa)
  case 0
  then show ?case by (simp add: keeps_def)
next
  case (Suc k)
  show ?case unfolding mappages_loop.simps by (intro keeps keeps_walk keeps_put Suc)
qed

lemma keeps_mappages: "keeps f (mappages pt va sz pa perm)"
  unfolding mappages_def by (intro keeps keeps_mappages_loop)

lemma keeps_uvmunmap_loop: "keeps f (uvmunmap_loop k pt a e fr)"
proof (induction k arbitrary: a)
  case 0
  then show ?case by (simp add: keeps_def)
next
  case (Suc k)
  show ?case
    unfolding uvmunmap_loop.simps by (intro keeps keeps_walk keeps_put keeps_kfree Suc)
qed

lemma keeps_uvmunmap: "keeps f (uvmunmap pt va n fr)"
  unfolding uvmunmap_def by (intro keeps keeps_uvmunmap_loop)

lemma keeps_uvmcreate: "keeps f uvmcreate"
  unfolding uvmcreate_def by (intro keeps keeps_kalloc keeps_put)

lemma keeps_uvmdealloc: "keeps f (uvmdealloc pt a b)"
  unfolding uvmdealloc_def by (intro keeps keeps_uvmunmap)

lemma keeps_uvmalloc_loop: "keeps f (uvmalloc_loop k pt a b c x)"
proof (induction k arbitrary: a)
  case 0
  then show ?case by (simp add: keeps_def)
next
  case (Suc k)
  show ?case
    unfolding uvmalloc_loop.simps by (intro keeps keeps_kalloc keeps_kfree keeps_uvmdealloc keeps_mappages Suc)
qed

lemma keeps_uvmalloc: "keeps f (uvmalloc pt a b x)"
  unfolding uvmalloc_def by (intro keeps keeps_uvmalloc_loop)

lemma keeps_freewalk: "keeps f (freewalk l pt)"
proof (induction l arbitrary: pt)
  case 0
  then show ?case by (simp add: keeps_def)
next
  case (Suc l)
  show ?case unfolding freewalk.simps by (intro keeps keeps_put keeps_kfree Suc)
qed

lemma keeps_uvmfree: "keeps f (uvmfree pt sz)"
  unfolding uvmfree_def by (intro keeps keeps_uvmunmap keeps_freewalk)

lemma keeps_uvmcopy_loop: "keeps f (uvmcopy_loop k old new i sz)"
proof (induction k arbitrary: i)
  case 0
  then show ?case by (simp add: keeps_def)
next
  case (Suc k)
  show ?case
    unfolding uvmcopy_loop.simps uvmcopy_err_def
    by (intro keeps keeps_walk keeps_kalloc keeps_kfree keeps_put keeps_mappages keeps_uvmunmap Suc)
qed

lemma keeps_uvmcopy: "keeps f (uvmcopy old new sz)"
  unfolding uvmcopy_def by (rule keeps_uvmcopy_loop)

lemma kept_walk: "f t = v \<Longrightarrow> kept f v (walk pt a al t)"
  using keeps_walk [of pt a al] by (auto simp: keeps_def)

lemma kept_walkaddr: "f t = v \<Longrightarrow> kept f v (walkaddr pt a t)"
  using keeps_walkaddr [of pt a] by (auto simp: keeps_def)

lemma kept_copyout: "f s = v \<Longrightarrow> kept f v (copyout pt a bs s)"
proof (induction "length bs" arbitrary: a bs s rule: less_induct)
  case less
  then show ?case
    by (subst copyout.simps) (auto simp: Let_def f_mem min_def intro!: kept_bind kept_walk kept_walkaddr less.hyps)
qed

lemma keeps_copyout: "keeps f (copyout pt a bs)"
  by (simp add: keeps_def kept_copyout)

lemma kept_copyin: "f s = v \<Longrightarrow> kept f v (copyin pt a n s)"
proof (induction n arbitrary: a s rule: less_induct)
  case (less n)
  then show ?case
    by (subst copyin.simps) (auto simp: Let_def min_def intro!: kept_bind kept_walkaddr less.IH)
qed

lemma keeps_copyin: "keeps f (copyin pt a n)"
  by (simp add: keeps_def kept_copyin)

lemma kept_copyinstr: "f s = v \<Longrightarrow> kept f v (copyinstr pt a n s)"
proof (induction n arbitrary: a s rule: less_induct)
  case (less n)
  then show ?case
    by (subst copyinstr.simps)
       (auto simp: Let_def min_def intro!: kept_bind kept_walkaddr less.IH split: prod.splits)
qed

lemma keeps_copyinstr: "keeps f (copyinstr pt a n)"
  by (simp add: keeps_def kept_copyinstr)

lemmas mem_keeps = keeps_acquire keeps_release keeps_put keeps_kalloc keeps_kfree keeps_walk keeps_walkaddr
  keeps_mappages keeps_uvmunmap keeps_uvmcreate keeps_uvmdealloc keeps_uvmalloc keeps_uvmfree keeps_uvmcopy
  keeps_copyout keeps_copyin keeps_copyinstr

end

end
