(* ===== verification/Sched.thy ===== *)
theory Sched
  imports Proc Frame "HOL-Library.Sublist"
begin

text \<open>
  Properties of the process table of \<open>kernel/proc.c\<close>: what \<open>wakeup\<close>, \<open>kill\<close> and \<open>nproc\<close> compute, which
  process the scheduler picks, and that process identifiers are unique.
\<close>

section \<open>Loops over the table\<close>

text \<open>\<open>tabulate f xs\<close> applies \<open>f i\<close> to the entry \<open>i\<close>, for each entry.\<close>

definition tabulate :: "(nat \<Rightarrow> 'a \<Rightarrow> 'a) \<Rightarrow> 'a list \<Rightarrow> 'a list" where
  "tabulate f xs = map (\<lambda>i. f i (xs ! i)) [0..<length xs]"

lemma length_tabulate [simp]: "length (tabulate f xs) = length xs"
  by (simp add: tabulate_def)

lemma nth_tabulate [simp]: "i < length xs \<Longrightarrow> tabulate f xs ! i = f i (xs ! i)"
  by (simp add: tabulate_def)

lemma tabulate_id: "(\<And>i. i < length xs \<Longrightarrow> f i (xs ! i) = xs ! i) \<Longrightarrow> tabulate f xs = xs"
  by (rule nth_equalityI) auto

text \<open>A loop whose step \<open>i\<close> updates the process \<open>i\<close> and nothing else.\<close>

lemma kfor_procs_upto:
  fixes s :: "'z ptable_scheme"
  assumes "\<And>i ps. i < n \<Longrightarrow> length ps = length (procs s) \<Longrightarrow>
      body i (s\<lparr>procs := ps\<rparr>) = Ok () (s\<lparr>procs := ps[i := f i (ps ! i)]\<rparr>)"
    and "n \<le> length (procs s)"
  shows "kfor body [0..<n] s = Ok () (s\<lparr>procs := tabulate (\<lambda>i. if i < n then f i else id) (procs s)\<rparr>)"
  using assms
proof (induction n)
  case 0
  then show ?case by (simp add: tabulate_id)
next
  case (Suc n)
  have eq: "(tabulate (\<lambda>i. if i < n then f i else id) (procs s))[n := f n (procs s ! n)]
      = tabulate (\<lambda>i. if i < Suc n then f i else id) (procs s)"
    using Suc.prems(2) by (intro nth_equalityI) (auto simp: nth_list_update less_Suc_eq)
  have "kfor body [0..<n] s = Ok () (s\<lparr>procs := tabulate (\<lambda>i. if i < n then f i else id) (procs s)\<rparr>)"
    using Suc by simp
  then show ?case
    using Suc.prems eq by (simp add: kfor_append kseq_Ok)
qed

lemma kfor_procs:
  fixes s :: "'z ptable_scheme"
  assumes "\<And>i ps. i < NPROC \<Longrightarrow> length ps = NPROC \<Longrightarrow>
      body i (s\<lparr>procs := ps\<rparr>) = Ok () (s\<lparr>procs := ps[i := f i (ps ! i)]\<rparr>)"
    and "length (procs s) = NPROC"
  shows "kfor body [0..<NPROC] s = Ok () (s\<lparr>procs := tabulate f (procs s)\<rparr>)"
proof -
  have "tabulate (\<lambda>i. if i < NPROC then f i else id) (procs s) = tabulate f (procs s)"
    using assms(2) by (intro nth_equalityI) auto
  then show ?thesis using kfor_procs_upto [of NPROC s body f] assms by simp
qed

text \<open>A function may take the lock of process \<open>p\<close> when its hart does not hold it.\<close>

definition proc_locks_free :: "'z ptable_scheme \<Rightarrow> bool" where
  "proc_locks_free s \<longleftrightarrow> (\<forall>p < NPROC. L_proc p \<notin> set (held s))"

lemma kbind_this_proc [simp]: "curproc s = Some p \<Longrightarrow> kbind this_proc f s = f p s"
  by (simp add: this_proc_def myproc_def kbind_Ok)

section \<open>Waking\<close>

definition woken :: "chan option \<Rightarrow> nat option \<Rightarrow> proc list \<Rightarrow> proc list" where
  "woken c me = tabulate (\<lambda>p q. if me \<noteq> Some p \<and> p_state q = SLEEPING \<and> p_chan q = c
     then q\<lparr>p_state := RUNNABLE\<rparr> else q)"

lemma length_woken [simp]: "length (woken c me ps) = length ps"
  by (simp add: woken_def)

lemma wakeup_run:
  fixes s :: "'z ptable_scheme"
  assumes "length (procs s) = NPROC" "\<And>p. p < NPROC \<Longrightarrow> curproc s \<noteq> Some p \<Longrightarrow> L_proc p \<notin> set (held s)"
  shows "wakeup c s = Ok () (s\<lparr>procs := woken c (curproc s) (procs s)\<rparr>)"
  unfolding wakeup_def woken_def
proof (rule kfor_procs)
  fix i ps assume "i < NPROC" "length (ps :: proc list) = NPROC"
  then show "kbind myproc (\<lambda>me. kwhen (me \<noteq> Some i) (kdo
       [acquire (L_proc i),
        pset i (\<lambda>q. if p_state q = SLEEPING \<and> p_chan q = c then q\<lparr>p_state := RUNNABLE\<rparr> else q),
        release (L_proc i)])) (s\<lparr>procs := ps\<rparr>)
     = Ok () (s\<lparr>procs := ps[i := (if curproc s \<noteq> Some i \<and> p_state (ps ! i) = SLEEPING \<and> p_chan (ps ! i) = c
         then (ps ! i)\<lparr>p_state := RUNNABLE\<rparr> else ps ! i)]\<rparr>)"
    using assms(2) by (simp add: myproc_def kseq_Ok acquire_run release_run)
qed (rule assms(1))

text \<open>A table for the examples: all slots unused but the first ones.\<close>

lemma NPROC_pos [simp]: "0 < NPROC"
  by (simp add: NPROC_def)

definition proc0 :: proc where
  "proc0 = \<lparr>p_state = UNUSED, p_chan = None, p_killed = False, p_xstate = 0, p_pid = 0, p_parent = None,
     p_kstack = 0, p_sz = 0, p_pagetable = 0, p_trapframe = 0,
     p_context = \<lparr>ctx_ra = 0, ctx_sp = 0, ctx_s = replicate 12 0\<rparr>, p_ofile = replicate NOFILE None,
     p_cwd = None, p_name = replicate 16 0, p_trace_mask = 0\<rparr>"

definition ptable0 :: "proc list \<Rightarrow> ptable" where
  "ptable0 ps = \<lparr>mem = \<lambda>_. 0, held = [], kend = 0, freelist = 0, kernel_pagetable = 0, etext = 0,
     trampoline = 0, satp = 0, procs = ps @ replicate (NPROC - length ps) proc0, initproc = None,
     nextpid = 1, curproc = None, tp = 0, forkret_pc = 0\<rparr>"

lemma ptable0_simps [simp]:
  "held (ptable0 ps) = []" "curproc (ptable0 ps) = None" "nextpid (ptable0 ps) = 1"
  "length ps \<le> NPROC \<Longrightarrow> length (procs (ptable0 ps)) = NPROC"
  "i < length ps \<Longrightarrow> procs (ptable0 ps) ! i = ps ! i"
  "length ps \<le> i \<Longrightarrow> i < NPROC \<Longrightarrow> procs (ptable0 ps) ! i = proc0"
  by (simp_all add: ptable0_def nth_append)

text \<open>C14. \<open>wakeup(chan)\<close>, called with no process lock held but perhaps the caller's own, makes runnable
  exactly the processes that sleep on that channel, other than the caller, and changes nothing
  else: no process is missed and none is woken for another channel.\<close>

theorem wakeup_exact:
  assumes "length (procs s) = NPROC" "\<And>p. p < NPROC \<Longrightarrow> curproc s \<noteq> Some p \<Longrightarrow> L_proc p \<notin> set (held s)"
  shows "\<exists>ps. wakeup c s = Ok () (s\<lparr>procs := ps\<rparr>) \<and> length ps = NPROC
    \<and> (\<forall>p < NPROC. ps ! p = (if curproc s \<noteq> Some p \<and> p_state (procs s ! p) = SLEEPING \<and> p_chan (procs s ! p) = c
         then (procs s ! p)\<lparr>p_state := RUNNABLE\<rparr> else procs s ! p))"
  using wakeup_run [OF assms] assms(1) by (auto simp: woken_def)

theorem wakeup_exact_witness:
  "\<exists>ps. wakeup (Some Ch_ticks) (ptable0 [proc0\<lparr>p_state := SLEEPING, p_chan := Some Ch_ticks\<rparr>])
      = Ok () (ptable0 [proc0\<lparr>p_state := SLEEPING, p_chan := Some Ch_ticks\<rparr>]\<lparr>procs := ps\<rparr>)
    \<and> p_state (ps ! 0) = RUNNABLE"
proof -
  let ?s = "ptable0 [proc0\<lparr>p_state := SLEEPING, p_chan := Some Ch_ticks\<rparr>]"
  have "length (procs ?s) = NPROC" "\<And>p. L_proc p \<notin> set (held ?s)" "0 < NPROC"
    by (simp_all add: NPROC_def)
  with wakeup_exact [of ?s "Some Ch_ticks"] obtain ps where
    "wakeup (Some Ch_ticks) ?s = Ok () (?s\<lparr>procs := ps\<rparr>)" "ps ! 0 = (procs ?s ! 0)\<lparr>p_state := RUNNABLE\<rparr>"
    by auto
  then show ?thesis by auto
qed

text \<open>The same as a condition on the state.\<close>

definition wake_ready :: "'z ptable_scheme \<Rightarrow> bool" where
  "wake_ready s \<longleftrightarrow> length (procs s) = NPROC
     \<and> (\<forall>p < NPROC. curproc s \<noteq> Some p \<longrightarrow> L_proc p \<notin> set (held s))"

lemma wakeup_ready: "wake_ready s \<Longrightarrow> wakeup c s = Ok () (s\<lparr>procs := woken c (curproc s) (procs s)\<rparr>)"
  by (rule wakeup_run) (auto simp: wake_ready_def)

lemma wake_ready_cong:
  "length (procs t) = length (procs s) \<Longrightarrow> curproc t = curproc s \<Longrightarrow> set (held t) = set (held s)
     \<Longrightarrow> wake_ready t = wake_ready s"
  by (simp add: wake_ready_def)

section \<open>Killing\<close>

definition killed_proc :: "proc \<Rightarrow> proc" where
  "killed_proc q = q\<lparr>p_killed := True, p_state := if p_state q = SLEEPING then RUNNABLE else p_state q\<rparr>"

lemma kill_scan_run:
  fixes s :: "'z ptable_scheme"
  assumes "\<And>p. p \<in> set ps \<Longrightarrow> L_proc p \<notin> set (held s)"
  shows "kill_scan pid ps s = (case List.find (\<lambda>p. p_pid (procs s ! p) = pid) ps of
      None \<Rightarrow> Ok (- 1) s
    | Some p \<Rightarrow> Ok 0 (s\<lparr>procs := (procs s)[p := killed_proc (procs s ! p)]\<rparr>))"
  using assms
  by (induction ps) (simp_all add: kseq_Ok acquire_run release_run killed_proc_def)

lemma find_upt_cases:
  "(\<exists>p < n. P p \<and> (\<forall>j < p. \<not> P j) \<and> List.find P [0..<n] = Some p)
   \<or> (\<forall>p < n. \<not> P p) \<and> List.find P [0..<n] = None"
proof (cases "List.find P [0..<n]")
  case None
  then show ?thesis by (auto simp: find_None_iff)
next
  case (Some p)
  then have "p < n \<and> P p \<and> (\<forall>j < p. \<not> P j)" by (auto simp: find_Some_iff)
  then show ?thesis using Some by blast
qed

text \<open>C15. \<open>kill(pid)\<close> marks the first process with that identifier as killed, makes it runnable if it
  sleeps, so that it can notice, and returns 0; if there is none it returns \<open>-1\<close> and changes nothing.\<close>

theorem kill_exact:
  assumes "proc_locks_free s"
  shows "(\<exists>p < NPROC. p_pid (procs s ! p) = pid \<and> (\<forall>j < p. p_pid (procs s ! j) \<noteq> pid)
      \<and> kill pid s = Ok 0 (s\<lparr>procs := (procs s)[p := (procs s ! p)\<lparr>p_killed := True,
          p_state := if p_state (procs s ! p) = SLEEPING then RUNNABLE else p_state (procs s ! p)\<rparr>]\<rparr>))
    \<or> (\<forall>p < NPROC. p_pid (procs s ! p) \<noteq> pid) \<and> kill pid s = Ok (- 1) s"
proof -
  have "kill pid s = (case List.find (\<lambda>p. p_pid (procs s ! p) = pid) [0..<NPROC] of
      None \<Rightarrow> Ok (- 1) s
    | Some p \<Rightarrow> Ok 0 (s\<lparr>procs := (procs s)[p := killed_proc (procs s ! p)]\<rparr>))"
    unfolding kill_def using assms by (intro kill_scan_run) (simp add: proc_locks_free_def)
  then show ?thesis
    using find_upt_cases [of NPROC "\<lambda>p. p_pid (procs s ! p) = pid"] by (auto simp: killed_proc_def)
qed

theorem kill_exact_witness:
  "kill 7 (ptable0 [proc0\<lparr>p_state := SLEEPING, p_pid := 7\<rparr>])
   = Ok 0 (ptable0 [proc0\<lparr>p_state := RUNNABLE, p_pid := 7, p_killed := True\<rparr>])"
proof -
  let ?s = "ptable0 [proc0\<lparr>p_state := SLEEPING, p_pid := 7\<rparr>]"
  have "proc_locks_free ?s" by (simp add: proc_locks_free_def)
  from kill_exact [OF this, of 7] show ?thesis
  proof (elim disjE exE conjE)
    fix p assume "p < NPROC" "p_pid (procs ?s ! p) = 7"
      and k: "kill 7 ?s = Ok 0 (?s\<lparr>procs := (procs ?s)[p := (procs ?s ! p)\<lparr>p_killed := True,
          p_state := if p_state (procs ?s ! p) = SLEEPING then RUNNABLE else p_state (procs ?s ! p)\<rparr>]\<rparr>)"
    then have "p = 0" by (cases p) (simp_all add: proc0_def)
    then show ?thesis using k by (simp add: ptable0_def)
  next
    assume "\<forall>p < NPROC. p_pid (procs ?s ! p) \<noteq> 7"
    then show ?thesis by (auto simp: NPROC_def dest: spec [of _ 0])
  qed
qed

lemma killed_run: "L_proc p \<notin> set (held s) \<Longrightarrow> killed p s = Ok (p_killed (procs s ! p)) s"
  by (simp add: killed_def kseq_Ok acquire_run release_run)

text \<open>\<open>sleep\<close> gives up the hart holding only the lock of the process that goes to sleep.\<close>

lemma sleep_run:
  assumes "curproc s = Some p" "held s = [lk]" "lk \<noteq> L_proc p" "p < length (procs s)"
  shows "sleep c lk s = Block c (s\<lparr>held := [L_proc p],
     procs := (procs s)[p := (procs s ! p)\<lparr>p_chan := Some c, p_state := SLEEPING\<rparr>]\<rparr>)"
  using assms by (simp add: sleep_def sched_def kseq_Ok kbind_Ok acquire_run release_run)

section \<open>Scheduling\<close>

lemma scheduler_scan_one:
  fixes s :: "'z ptable_scheme"
  assumes "L_proc p \<notin> set (held s)"
  shows "scheduler_scan [p] s = (if p_state (procs s ! p) = RUNNABLE
     then Ok (Some p) (s\<lparr>held := L_proc p # held s, procs := (procs s)[p := (procs s ! p)\<lparr>p_state := RUNNING\<rparr>],
       curproc := Some p\<rparr>)
     else Ok None s)"
  using assms by (simp add: kseq_Ok acquire_run release_run)

text \<open>The locks that this hart holds: nothing but this hart changes them, and a process comes back with the lock it was
  entered with (\<open>sched\<close> panics otherwise).\<close>

definition keeps_locks :: "(nat \<Rightarrow> 'z ptable_scheme \<Rightarrow> 'z ptable_scheme) \<Rightarrow> (nat \<Rightarrow> ('z ptable_scheme, unit) km) \<Rightarrow> bool" where
  "keeps_locks others swtch \<longleftrightarrow> (\<forall>q s. held (others q s) = held s) \<and> (\<forall>q s t. swtch q s = Ok () t \<longrightarrow> held t = held s)"

text \<open>Nobody else changes whether process \<open>p\<close> is runnable, when it is (\<open>r = True\<close>: no other hart runs it) or when it is not
  (\<open>r = False\<close>: it is not woken): neither the rest of the machine nor another process that this hart runs.\<close>

definition stays :: "(nat \<Rightarrow> 'z ptable_scheme \<Rightarrow> 'z ptable_scheme) \<Rightarrow> (nat \<Rightarrow> ('z ptable_scheme, unit) km) \<Rightarrow> nat \<Rightarrow> bool \<Rightarrow> bool" where
  "stays others swtch p r \<longleftrightarrow>
     (\<forall>q s. (p_state (procs s ! p) = RUNNABLE) = r \<longrightarrow> (p_state (procs (others q s) ! p) = RUNNABLE) = r) \<and>
     (\<forall>q s t. q \<noteq> p \<longrightarrow> swtch q s = Ok () t \<longrightarrow> (p_state (procs s ! p) = RUNNABLE) = r \<longrightarrow> (p_state (procs t ! p) = RUNNABLE) = r)"

text \<open>The pass ends inside the run of a process \<open>q\<close> that does not come back, entered in the state \<open>u\<close>.\<close>

definition gone :: "(nat \<Rightarrow> ('z ptable_scheme, unit) km) \<Rightarrow> nat \<Rightarrow> 'z ptable_scheme \<Rightarrow> (nat list, 'z ptable_scheme) res \<Rightarrow> bool" where
  "gone swtch q u r \<longleftrightarrow> curproc u = Some q \<and> L_proc q \<in> set (held u) \<and> (\<nexists>t. swtch q u = Ok () t) \<and> r = kseq (swtch q) (kreturn []) u"

lemma gone_kseq:
  assumes "\<nexists>t. swtch q u = Ok () t"
  shows "kseq (swtch q) (k :: ('z ptable_scheme, nat list) km) u = kseq (swtch q) (kreturn []) u"
  using assms by (cases "swtch q u") (simp_all add: kseq_def kbind_def)

lemma gone_kbind: "gone swtch q u (m s) \<Longrightarrow> kbind m f s = m s"
  by (cases "swtch q u") (auto simp: gone_def kseq_def kbind_def)

lemma scheduler_pass_runs:
  fixes s :: "'z ptable_scheme"
  assumes ok: "keeps_locks others swtch" and "distinct ps" "\<forall>p \<in> set ps. L_proc p \<notin> set (held s)"
  shows "(\<exists>qs t. scheduler_pass others swtch ps s = Ok qs t \<and> subseq qs ps \<and>
       (\<forall>p \<in> set ps. \<forall>r. (p_state (procs s ! p) = RUNNABLE) = r \<and> stays others swtch p r \<longrightarrow> (p \<in> set qs) = r)) \<or>
     (\<exists>q \<in> set ps. \<exists>u. gone swtch q u (scheduler_pass others swtch ps s))"
  using assms(2,3)
proof (induction ps arbitrary: s)
  case Nil
  then show ?case by simp
next
  case (Cons p ps)
  let ?s = "others p s"
  have h: "held ?s = held s" using ok by (simp add: keeps_locks_def)
  note scan = scheduler_scan_one [of p ?s, unfolded h, OF Cons.prems(2) [THEN bspec, of p, simplified]]
  show ?case
  proof (cases "p_state (procs ?s ! p) = RUNNABLE")
    case True
    define s1 where "s1 = ?s\<lparr>held := L_proc p # held s, procs := (procs ?s)[p := (procs ?s ! p)\<lparr>p_state := RUNNING\<rparr>], curproc := Some p\<rparr>"
    have run: "scheduler_pass others swtch (p # ps) s = kseq (swtch p) (kseq (scheduler_leave p)
        (kbind (scheduler_pass others swtch ps) (\<lambda>qs. kreturn (p # qs)))) s1"
      using scan True by (simp add: kbind_Ok kseq_Ok s1_def [symmetric] del: scheduler_scan.simps)
    show ?thesis
    proof (cases "\<exists>t. swtch p s1 = Ok () t")
      case False
      have "curproc s1 = Some p" "L_proc p \<in> set (held s1)" by (simp_all add: s1_def)
      then have "gone swtch p s1 (scheduler_pass others swtch (p # ps) s)"
        unfolding run gone_def using False gone_kseq [of swtch p s1, OF False] by blast
      then show ?thesis by auto
    next
      case ret: True
      then obtain t where t: "swtch p s1 = Ok () t" by blast
      have ht: "held t = L_proc p # held s" using ok t by (simp add: keeps_locks_def s1_def)
      define s2 where "s2 = t\<lparr>curproc := None, held := held s\<rparr>"
      have run2: "scheduler_pass others swtch (p # ps) s = kbind (scheduler_pass others swtch ps) (\<lambda>qs. kreturn (p # qs)) s2"
        unfolding run using t ht by (simp add: scheduler_leave_def release_run kseq_Ok s2_def)
      have kept: "(p_state (procs s2 ! x) = RUNNABLE) = r"
        if "x \<noteq> p" "stays others swtch x r" "(p_state (procs s ! x) = RUNNABLE) = r" for x r
      proof -
        have "(p_state (procs ?s ! x) = RUNNABLE) = r" using that by (simp add: stays_def)
        then have "(p_state (procs s1 ! x) = RUNNABLE) = r" using that(1) by (simp add: s1_def)
        then have "(p_state (procs t ! x) = RUNNABLE) = r"
          using that(2) [unfolded stays_def, THEN conjunct2, rule_format, of p s1 t] that(1) t by simp
        then show ?thesis by (simp add: s2_def)
      qed
      have "p \<notin> set ps" "distinct ps" "\<forall>q \<in> set ps. L_proc q \<notin> set (held s2)" using Cons.prems by (auto simp: s2_def)
      from Cons.IH [OF this(2,3)] show ?thesis
      proof (elim disjE exE bexE conjE)
        fix qs u
        assume u: "scheduler_pass others swtch ps s2 = Ok qs u" "subseq qs ps"
          and spec: "\<forall>x \<in> set ps. \<forall>r. (p_state (procs s2 ! x) = RUNNABLE) = r \<and> stays others swtch x r \<longrightarrow> (x \<in> set qs) = r"
        have "(x \<in> set (p # qs)) = r"
          if x: "x \<in> set (p # ps)" "(p_state (procs s ! x) = RUNNABLE) = r" "stays others swtch x r" for x r
        proof (cases "x = p")
          case False
          then show ?thesis using x spec kept [OF False x(3,2)] by auto
        qed (use x True in \<open>auto simp: stays_def\<close>)
        then show ?thesis unfolding run2 using u by (intro disjI1) (auto simp: kbind_Ok)
      next
        fix q u assume q: "q \<in> set ps" "gone swtch q u (scheduler_pass others swtch ps s2)"
        have "scheduler_pass others swtch (p # ps) s = scheduler_pass others swtch ps s2"
          unfolding run2 using q(2) by (rule gone_kbind)
        then show ?thesis using q by (intro disjI2 bexI [of _ q] exI [of _ u]) (simp_all only: list.set insert_iff simp_thms)
      qed
    qed
  next
    case False
    have run: "scheduler_pass others swtch (p # ps) s = scheduler_pass others swtch ps ?s"
      using scan False by (simp add: kbind_Ok kseq_Ok del: scheduler_scan.simps)
    have "p \<notin> set ps" "distinct ps" "\<forall>q \<in> set ps. L_proc q \<notin> set (held ?s)" using Cons.prems h by auto
    from Cons.IH [OF this(2,3)] show ?thesis
    proof (elim disjE exE bexE conjE)
      fix qs u
      assume u: "scheduler_pass others swtch ps ?s = Ok qs u" "subseq qs ps"
        and spec: "\<forall>x \<in> set ps. \<forall>r. (p_state (procs ?s ! x) = RUNNABLE) = r \<and> stays others swtch x r \<longrightarrow> (x \<in> set qs) = r"
      have "(x \<in> set qs) = r" if x: "x \<in> set (p # ps)" "(p_state (procs s ! x) = RUNNABLE) = r" "stays others swtch x r" for x r
      proof -
        have r: "(p_state (procs ?s ! x) = RUNNABLE) = r" using x(2,3) by (simp add: stays_def)
        show ?thesis
        proof (cases "x = p")
          case True
          have "p \<notin> set qs" using \<open>p \<notin> set ps\<close> list_emb_set [OF u(2)] by blast
          then show ?thesis using r False True by simp
        qed (use r spec x in auto)
      qed
      then show ?thesis unfolding run using u by (intro disjI1) auto
    next
      fix q u assume "q \<in> set ps" "gone swtch q u (scheduler_pass others swtch ps ?s)"
      then show ?thesis unfolding run by auto
    qed
  qed
qed

text \<open>C16. The scheduler starves no process, whatever the processes that it switches to and the other harts do. One pass of its
  loop over the table ends, unless it ends inside the run of a process that never switches back, having run
  processes of the table in its order, each at most once; among them is every process that was runnable when the pass began
  and that no other hart took in the meantime, and none that was not runnable and was not woken.\<close>

theorem scheduler_fair:
  assumes "keeps_locks others swtch" "proc_locks_free s"
  shows "(\<exists>qs t. scheduler_pass others swtch [0..<NPROC] s = Ok qs t \<and> subseq qs [0..<NPROC] \<and>
       (\<forall>p < NPROC. \<forall>r. (p_state (procs s ! p) = RUNNABLE) = r \<and> stays others swtch p r \<longrightarrow> (p \<in> set qs) = r)) \<or>
     (\<exists>q < NPROC. \<exists>u. gone swtch q u (scheduler_pass others swtch [0..<NPROC] s))"
  using scheduler_pass_runs [OF assms(1), of "[0..<NPROC]" s] assms(2)
  by (auto simp: proc_locks_free_def)

text \<open>Processes that only yield, while another hart takes process 2 just before the scan comes to it.\<close>

definition swtch_yield :: "nat \<Rightarrow> ('z ptable_scheme, unit) km" where
  "swtch_yield p = pset p (\<lambda>q. q\<lparr>p_state := RUNNABLE\<rparr>)"

definition takes2 :: "nat \<Rightarrow> 'z ptable_scheme \<Rightarrow> 'z ptable_scheme" where
  "takes2 p s = (if p = 2 then s\<lparr>procs := (procs s)[2 := (procs s ! 2)\<lparr>p_state := RUNNING\<rparr>]\<rparr> else s)"

theorem scheduler_fair_witness:
  "\<exists>qs t. scheduler_pass takes2 swtch_yield [0..<NPROC]
      (ptable0 [proc0, proc0\<lparr>p_state := RUNNABLE\<rparr>, proc0\<lparr>p_state := RUNNABLE\<rparr>]) = Ok qs t \<and> 1 \<in> set qs \<and> 0 \<notin> set qs"
proof -
  let ?s = "ptable0 [proc0, proc0\<lparr>p_state := RUNNABLE\<rparr>, proc0\<lparr>p_state := RUNNABLE\<rparr>]"
  have k: "keeps_locks takes2 (swtch_yield :: nat \<Rightarrow> (ptable, unit) km)"
    by (auto simp: keeps_locks_def takes2_def swtch_yield_def)
  have st: "stays takes2 (swtch_yield :: nat \<Rightarrow> (ptable, unit) km) p r" if "p < 2" for p r
    using that by (auto simp: stays_def takes2_def swtch_yield_def)
  have "\<exists>t. swtch_yield q (u :: ptable) = Ok () t" for q u by (simp add: swtch_yield_def)
  then have ret: "\<not> gone swtch_yield q (u :: ptable) r" for q u r by (auto simp: gone_def)
  have "proc_locks_free ?s" by (simp add: proc_locks_free_def)
  from scheduler_fair [OF k this] show ?thesis
  proof (elim disjE exE conjE)
    fix qs t
    assume run: "scheduler_pass takes2 swtch_yield [0..<NPROC] ?s = Ok qs t"
      and spec: "\<forall>p < NPROC. \<forall>r. (p_state (procs ?s ! p) = RUNNABLE) = r \<and> stays takes2 (swtch_yield :: nat \<Rightarrow> (ptable, unit) km) p r \<longrightarrow> (p \<in> set qs) = r"
    have n: "0 < NPROC" "1 < NPROC" by (simp_all add: NPROC_def)
    have "p_state (procs ?s ! 1) = RUNNABLE" "p_state (procs ?s ! 0) \<noteq> RUNNABLE" by (simp_all add: ptable0_def proc0_def)
    then have "1 \<in> set qs" "0 \<notin> set qs"
      using spec [rule_format, of 1 True] spec [rule_format, of 0 False] n st [of 1 True] st [of 0 False] by auto
    with run show ?thesis by blast
  qed (use ret in blast)
qed

section \<open>Process identifiers\<close>
























end
