(* ===== verification/Wakeup.thy ===== *)
theory Wakeup
  imports Sched
begin

text \<open>
  Sleep and wakeup across harts. Processes that wait for a condition with \<open>sleep\<close>, as every caller in
  the kernel does (\<open>while(!cond) sleep(chan, lk)\<close>, with \<open>lk\<close> held), and threads that make it true and call
  \<open>wakeup(chan)\<close> with \<open>lk\<close> held, run in any interleaving of the steps of \<open>sleep\<close>, \<open>sched\<close>, the scheduler and
  \<open>wakeup\<close>, one lock operation or one locked update at a time. The steps are pieces of the functions of
  \<open>Proc\<close>: run one after the other by one hart they are \<open>sleep\<close>, \<open>sleep_resume\<close> and \<open>wakeup\<close>.
\<close>

section \<open>The code as steps\<close>

datatype instr =
    Acq lockid | Rel lockid
  | Sleeping nat chan      \<comment> \<open>\<open>p->chan = chan; p->state = SLEEPING\<close>\<close>
  | Off nat                \<comment> \<open>\<open>swtch\<close> to the scheduler, which releases \<open>p->lock\<close>\<close>
  | On nat                 \<comment> \<open>the scheduler finds \<open>p\<close> runnable and switches to it\<close>
  | Clear nat              \<comment> \<open>\<open>p->chan = 0\<close>\<close>
  | Wake nat chan          \<comment> \<open>the test and the update in \<open>wakeup\<close>\<close>
  | Test | Use | SetCond   \<comment> \<open>the caller's condition\<close>

primrec exec1 :: "instr \<Rightarrow> (ptable, unit) km" where
  "exec1 (Acq l) = acquire l"
| "exec1 (Rel l) = release l"
| "exec1 (Sleeping p c) = pset p (\<lambda>q. q\<lparr>p_chan := Some c, p_state := SLEEPING\<rparr>)"
| "exec1 (Off p) = scheduler_leave p"
| "exec1 (On p) = kbind (scheduler_scan [p]) (\<lambda>r. case r of None \<Rightarrow> kspin | Some _ \<Rightarrow> kreturn ())"
| "exec1 (Clear p) = pset p (\<lambda>q. q\<lparr>p_chan := None\<rparr>)"
| "exec1 (Wake p c) = pset p (\<lambda>q. if p_state q = SLEEPING \<and> p_chan q = Some c then q\<lparr>p_state := RUNNABLE\<rparr> else q)"
| "exec1 Test = kreturn ()"
| "exec1 Use = kreturn ()"
| "exec1 SetCond = kreturn ()"

text \<open>The loop \<open>acquire(lk); while(!cond) sleep(chan, lk); ...; release(lk)\<close> of process \<open>p\<close>, and a caller of
  \<open>wakeup\<close> outside the table.\<close>

definition sleep_code :: "lockid \<Rightarrow> chan \<Rightarrow> nat \<Rightarrow> instr list" where
  "sleep_code lk c p =
     [Acq lk, Test,
      Acq (L_proc p), Rel lk, Sleeping p c, Off p, On p, Clear p, Rel (L_proc p), Acq lk,
      Use, Rel lk]"

definition wakeup_code :: "chan \<Rightarrow> instr list" where
  "wakeup_code c = concat (map (\<lambda>p. [Acq (L_proc p), Wake p c, Rel (L_proc p)]) [0..<NPROC])"

text \<open>A waker sets the condition and calls \<open>wakeup\<close>, both under the lock. \<open>exit\<close> has them in the other order, the parent is
  woken before the state is \<open>ZOMBIE\<close>; it holds \<open>wait_lock\<close> over both, under which the parent tests, so that no sleeper sees the
  difference.\<close>

definition waker_code :: "lockid \<Rightarrow> chan \<Rightarrow> instr list" where
  "waker_code lk c = [Acq lk, SetCond] @ wakeup_code c @ [Rel lk]"

datatype thread = S nat | W nat

primrec code_of :: "lockid \<Rightarrow> chan \<Rightarrow> thread \<Rightarrow> instr list" where
  "code_of lk c (S p) = sleep_code lk c p"
| "code_of lk c (W w) = waker_code lk c"

primrec next_pc :: "thread \<Rightarrow> nat \<Rightarrow> nat" where
  "next_pc (S p) k = (if k = 9 then 1 else if k = 11 then 0 else Suc k)"
| "next_pc (W w) k = (if k = 2 + 3 * NPROC then 0 else Suc k)"

text \<open>The steps are the code: \<open>sleep\<close> up to the switch, \<open>sleep_resume\<close>, and \<open>wakeup\<close>.\<close>

lemma sleep_steps:
  "curproc s = Some p \<Longrightarrow> sleep c lk s = kseq (kdo (map exec1 (take 3 (drop 2 (sleep_code lk c p))))) sched s"
  by (simp add: sleep_def sleep_code_def numeral_eq_Suc)

lemma sleep_resume_steps:
  "sleep_resume p lk = kdo (map exec1 (take 3 (drop 7 (sleep_code lk c p))))"
  by (simp add: sleep_resume_def sleep_code_def numeral_eq_Suc)

interpretation curproc_frame: mem_frame "curproc :: 'z ptable_scheme \<Rightarrow> nat option"
  by unfold_locales simp_all

lemma kdo_append: "kdo (ms @ ns) s = kseq (kdo ms) (kdo ns) s"
  by (induction ms arbitrary: s) (auto simp: kseq_def kbind_def split: res.splits)

lemma wakeup_steps:
  assumes "curproc s = None"
  shows "wakeup (Some c) s = kdo (map exec1 (wakeup_code c)) s"
proof -
  let ?body = "\<lambda>p. [Acq (L_proc p), Wake p c, Rel (L_proc p)]"
  have "kfor (\<lambda>p. kbind myproc (\<lambda>me. kwhen (me \<noteq> Some p) (kdo (map exec1 (?body p))))) ps s
      = kdo (map exec1 (concat (map ?body ps))) s" for ps
    using assms
  proof (induction ps arbitrary: s)
    case Nil
    then show ?case by simp
  next
    case (Cons p ps)
    have k: "keeps curproc (kdo (map exec1 (?body p)))"
      unfolding list.map exec1.simps by (intro keeps curproc_frame.mem_keeps) simp
    have m: "kbind myproc (\<lambda>me. kwhen (me \<noteq> Some p) (kdo (map exec1 (?body p)))) s = kdo (map exec1 (?body p)) s"
      using Cons.prems by (simp add: myproc_def)
    have e: "kdo (map exec1 (concat (map ?body (p # ps)))) s
        = kseq (kdo (map exec1 (?body p))) (kdo (map exec1 (concat (map ?body ps)))) s"
      by (simp only: list.map concat.simps map_append kdo_append)
    show ?case
      unfolding e kfor.simps
    proof (rule kseq_cong, rule m)
      fix a t assume "kdo (map exec1 (?body p)) s = Ok a t"
      then have "curproc t = None" using keepsD [OF k] Cons.prems by simp
      then show "kfor (\<lambda>p. kbind myproc (\<lambda>me. kwhen (me \<noteq> Some p) (kdo (map exec1 (?body p))))) ps t
        = kdo (map exec1 (concat (map ?body ps))) t" by (rule Cons.IH)
    qed
  qed
  from this [of "[0..<NPROC]", unfolded list.map exec1.simps]
  show ?thesis unfolding wakeup_def wakeup_code_def .
qed

section \<open>Interleavings\<close>

text \<open>The shared table (whose \<open>held\<close> and \<open>curproc\<close> are those of the hart that takes the step), the
  condition, and each thread's next instruction and locks.\<close>

record sw =
  shared :: ptable
  cond :: bool
  pcs :: "thread \<Rightarrow> nat"
  hl :: "thread \<Rightarrow> lockid list"

definition lock_free :: "sw \<Rightarrow> lockid \<Rightarrow> bool" where
  "lock_free g l \<longleftrightarrow> (\<forall>t. l \<notin> set (hl g t))"

inductive sw_step :: "lockid \<Rightarrow> chan \<Rightarrow> sw \<Rightarrow> sw \<Rightarrow> bool" for lk c where
  sw_exec: "(\<And>p. t = S p \<Longrightarrow> p < NPROC) \<Longrightarrow> i = code_of lk c t ! pcs g t \<Longrightarrow> i \<notin> {Test, Use, SetCond} \<Longrightarrow>
    (\<And>l. i = Acq l \<Longrightarrow> lock_free g l) \<Longrightarrow> (\<And>p. i = On p \<Longrightarrow> lock_free g (L_proc p)) \<Longrightarrow>
    exec1 i (shared g\<lparr>held := hl g t, curproc := None\<rparr>) = Ok () s \<Longrightarrow>
    sw_step lk c g (g\<lparr>shared := s, hl := (hl g)(t := held s), pcs := (pcs g)(t := next_pc t (pcs g t))\<rparr>)"
| sw_test: "p < NPROC \<Longrightarrow> sleep_code lk c p ! pcs g (S p) = Test \<Longrightarrow>
    sw_step lk c g (g\<lparr>pcs := (pcs g)(S p := if cond g then 10 else Suc (pcs g (S p)))\<rparr>)"
| sw_use: "p < NPROC \<Longrightarrow> sleep_code lk c p ! pcs g (S p) = Use \<Longrightarrow>
    sw_step lk c g (g\<lparr>cond := cond g \<and> b, pcs := (pcs g)(S p := Suc (pcs g (S p)))\<rparr>)"
| sw_set: "waker_code lk c ! pcs g (W w) = SetCond \<Longrightarrow>
    sw_step lk c g (g\<lparr>cond := True, pcs := (pcs g)(W w := Suc (pcs g (W w)))\<rparr>)"
| sw_kill: "p < NPROC \<Longrightarrow> lock_free g (L_proc p) \<Longrightarrow> p_state (procs (shared g) ! p) = SLEEPING \<Longrightarrow>
    sw_step lk c g (g\<lparr>shared := shared g\<lparr>procs := (procs (shared g))[p := (procs (shared g) ! p)\<lparr>p_state := RUNNABLE\<rparr>]\<rparr>\<rparr>)"

definition sw_init :: "sw \<Rightarrow> bool" where
  "sw_init g \<longleftrightarrow> length (procs (shared g)) = NPROC
     \<and> (\<forall>p < NPROC. p_state (procs (shared g) ! p) = RUNNING)
     \<and> (\<forall>t. pcs g t = 0 \<and> hl g t = [])"

text \<open>The locks a thread holds at each point of its code.\<close>

definition s_locks :: "lockid \<Rightarrow> nat \<Rightarrow> nat \<Rightarrow> lockid list" where
  "s_locks lk p k =
     (if k \<in> {1, 2, 10, 11} then [lk] else if k = 3 then [L_proc p, lk]
      else if k \<in> {4, 5, 7, 8} then [L_proc p] else [])"

definition w_locks :: "lockid \<Rightarrow> nat \<Rightarrow> lockid list" where
  "w_locks lk k =
     (if k = 0 then [] else if k = 1 \<or> k mod 3 = 2 then [lk] else [L_proc ((k - 2) div 3), lk])"

primrec t_locks :: "lockid \<Rightarrow> thread \<Rightarrow> nat \<Rightarrow> lockid list" where
  "t_locks lk (S p) = s_locks lk p"
| "t_locks lk (W w) = w_locks lk"

definition locks_inv :: "lockid \<Rightarrow> sw \<Rightarrow> bool" where
  "locks_inv lk g \<longleftrightarrow> (\<forall>t. hl g t = t_locks lk t (pcs g t))
     \<and> (\<forall>p. pcs g (S p) \<le> 11) \<and> (\<forall>w. pcs g (W w) \<le> 2 + 3 * NPROC)
     \<and> (\<forall>t t' l. l \<in> set (hl g t) \<longrightarrow> l \<in> set (hl g t') \<longrightarrow> t = t')"

text \<open>A waker is inside \<open>wakeup\<close>, at its instruction \<open>m\<close> or before.\<close>

definition pending :: "sw \<Rightarrow> nat \<Rightarrow> bool" where
  "pending g m \<longleftrightarrow> (\<exists>w. 2 \<le> pcs g (W w) \<and> pcs g (W w) \<le> m)"

definition proc_inv :: "chan \<Rightarrow> sw \<Rightarrow> nat \<Rightarrow> bool" where
  "proc_inv c g p \<longleftrightarrow> (let q = procs (shared g) ! p; k = pcs g (S p) in
      (k = 5 \<longrightarrow> p_state q = SLEEPING \<and> p_chan q = Some c)
    \<and> (k = 6 \<longrightarrow> p_chan q = Some c)
    \<and> (k = 2 \<or> k = 3 \<longrightarrow> \<not> cond g)
    \<and> (cond g \<longrightarrow> k = 4 \<or> k = 5 \<longrightarrow> pending g (2 + 3 * p))
    \<and> (cond g \<longrightarrow> k = 6 \<longrightarrow> p_state q = SLEEPING \<longrightarrow> pending g (3 + 3 * p)))"

definition sw_inv :: "lockid \<Rightarrow> chan \<Rightarrow> sw \<Rightarrow> bool" where
  "sw_inv lk c g \<longleftrightarrow> length (procs (shared g)) = NPROC \<and> locks_inv lk g \<and> (\<forall>p < NPROC. proc_inv c g p)"

lemma sw_init_inv:
  assumes "sw_init g"
  shows "sw_inv lk c g"
proof -
  have "t_locks lk t 0 = []" for t by (cases t) (simp_all add: s_locks_def w_locks_def)
  moreover have "hl g t = []" "pcs g t = 0" for t using assms by (simp_all add: sw_init_def)
  ultimately have "locks_inv lk g" by (simp add: locks_inv_def)
  then show ?thesis using assms by (simp add: sw_init_def sw_inv_def proc_inv_def Let_def)
qed

text \<open>What an instruction does to the table and to the locks of its thread.\<close>

fun eff_procs :: "instr \<Rightarrow> proc list \<Rightarrow> proc list" where
  "eff_procs (Sleeping p c) ps = ps[p := (ps ! p)\<lparr>p_chan := Some c, p_state := SLEEPING\<rparr>]"
| "eff_procs (On p) ps = ps[p := (ps ! p)\<lparr>p_state := RUNNING\<rparr>]"
| "eff_procs (Clear p) ps = ps[p := (ps ! p)\<lparr>p_chan := None\<rparr>]"
| "eff_procs (Wake p c) ps = ps[p := (if p_state (ps ! p) = SLEEPING \<and> p_chan (ps ! p) = Some c
      then (ps ! p)\<lparr>p_state := RUNNABLE\<rparr> else ps ! p)]"
| "eff_procs _ ps = ps"

fun eff_locks :: "instr \<Rightarrow> lockid list \<Rightarrow> lockid list" where
  "eff_locks (Acq l) h = l # h"
| "eff_locks (Rel l) h = remove1 l h"
| "eff_locks (Off p) h = remove1 (L_proc p) h"
| "eff_locks (On p) h = L_proc p # h"
| "eff_locks _ h = h"

lemma exec1_eff:
  "exec1 i s = Ok () t \<Longrightarrow> procs t = eff_procs i (procs s) \<and> held t = eff_locks i (held s)"
  by (cases i) (auto simp: acquire_Ok release_Ok scheduler_leave_def kseq_eq_Ok kbind_eq_Ok split: if_splits)

lemma waker_code_nth:
  "waker_code lk c ! 0 = Acq lk" "waker_code lk c ! Suc 0 = SetCond"
  "p < NPROC \<Longrightarrow> waker_code lk c ! (2 + 3 * p) = Acq (L_proc p)"
  "p < NPROC \<Longrightarrow> waker_code lk c ! (3 + 3 * p) = Wake p c"
  "p < NPROC \<Longrightarrow> waker_code lk c ! (4 + 3 * p) = Rel (L_proc p)"
  "waker_code lk c ! (2 + 3 * NPROC) = Rel lk"
proof -
  let ?f = "\<lambda>p. [Acq (L_proc p), Wake p c, Rel (L_proc p)]"
  have l: "length (concat (map ?f [0..<n])) = 3 * n" for n by (induction n) auto
  have n: "concat (map ?f [0..<n]) ! (3 * p + j) = ?f p ! j" if "p < n" "j < 3" for n p j
    using that
  proof (induction n)
    case (Suc n)
    then show ?case using l [of n] by (cases "p = n") (auto simp: nth_append)
  qed simp
  show "waker_code lk c ! 0 = Acq lk" "waker_code lk c ! Suc 0 = SetCond"
    by (simp_all add: waker_code_def)
  show "waker_code lk c ! (2 + 3 * NPROC) = Rel lk"
    using l [of NPROC] by (simp add: waker_code_def wakeup_code_def nth_append)
  assume p: "p < NPROC"
  show "waker_code lk c ! (2 + 3 * p) = Acq (L_proc p)" "waker_code lk c ! (3 + 3 * p) = Wake p c"
    "waker_code lk c ! (4 + 3 * p) = Rel (L_proc p)"
    using n [OF p, of 0] n [OF p, of 1] n [OF p, of 2] l [of NPROC] p
    by (simp_all add: waker_code_def wakeup_code_def nth_append numeral_eq_Suc)
qed

lemma s_pc_cases:
  assumes "k \<le> (11 :: nat)"
  obtains "k = 0" | "k = 1" | "k = 2" | "k = 3" | "k = 4" | "k = 5" | "k = 6" | "k = 7" | "k = 8" | "k = 9"
    | "k = 10" | "k = 11"
proof -
  have "k = 0 \<or> k = 1 \<or> k = 2 \<or> k = 3 \<or> k = 4 \<or> k = 5 \<or> k = 6 \<or> k = 7 \<or> k = 8 \<or> k = 9 \<or> k = 10 \<or> k = 11"
    using assms by presburger
  then show ?thesis using that by blast
qed

lemma w_pc_cases:
  assumes "k \<le> 2 + 3 * NPROC"
  obtains "k = 0" | "k = Suc 0" | i where "i < NPROC" "k = 2 + 3 * i" | i where "i < NPROC" "k = 3 + 3 * i"
    | i where "i < NPROC" "k = 4 + 3 * i" | "k = 2 + 3 * NPROC"
proof -
  consider "k < 2" | i where "k = 2 + 3 * i" | i where "k = 3 + 3 * i" | i where "k = 4 + 3 * i"
  proof (cases "k < 2")
    case False
    then have "k = 2 + (3 * ((k - 2) div 3) + (k - 2) mod 3)" by simp
    moreover have "(k - 2) mod 3 < 3" by simp
    ultimately have "k = 2 + 3 * ((k - 2) div 3) \<or> k = 3 + 3 * ((k - 2) div 3) \<or> k = 4 + 3 * ((k - 2) div 3)" by linarith
    then show ?thesis using that by blast
  qed (use that in blast)
  then show ?thesis
    using assms that by cases (auto, metis One_nat_def less_2_cases, (metis le_neq_implies_less)?)
qed

lemma sleep_code_nth:
  "sleep_code lk c p ! 0 = Acq lk" "sleep_code lk c p ! Suc 0 = Test" "sleep_code lk c p ! 2 = Acq (L_proc p)"
  "sleep_code lk c p ! 3 = Rel lk" "sleep_code lk c p ! 4 = Sleeping p c" "sleep_code lk c p ! 5 = Off p"
  "sleep_code lk c p ! 6 = On p" "sleep_code lk c p ! 7 = Clear p" "sleep_code lk c p ! 8 = Rel (L_proc p)"
  "sleep_code lk c p ! 9 = Acq lk" "sleep_code lk c p ! 10 = Use" "sleep_code lk c p ! 11 = Rel lk"
  by (simp_all add: sleep_code_def numeral_eq_Suc)

lemma s_locks_step:
  assumes "\<And>p. lk \<noteq> L_proc p" "k \<le> 11" "sleep_code lk c p ! k \<notin> {Test, Use, SetCond}"
  shows "eff_locks (sleep_code lk c p ! k) (s_locks lk p k) = s_locks lk p (next_pc (S p) k) \<and> next_pc (S p) k \<le> 11"
  using assms(2) by (cases rule: s_pc_cases) (use assms in \<open>simp_all add: sleep_code_nth s_locks_def\<close>)

lemma w_locks_nth:
  "w_locks lk 0 = []" "w_locks lk (Suc 0) = [lk]" "w_locks lk (2 + 3 * i) = [lk]"
  "w_locks lk (3 + 3 * i) = [L_proc i, lk]" "w_locks lk (4 + 3 * i) = [L_proc i, lk]"
  by (simp_all add: w_locks_def) presburger+

lemma w_locks_step:
  assumes "\<And>p. lk \<noteq> L_proc p" "k \<le> 2 + 3 * NPROC" "waker_code lk c ! k \<notin> {Test, Use, SetCond}"
  shows "eff_locks (waker_code lk c ! k) (w_locks lk k) = w_locks lk (next_pc (W w) k) \<and> next_pc (W w) k \<le> 2 + 3 * NPROC"
  using assms(2)
proof (cases rule: w_pc_cases)
  case (3 i)
  then have n: "next_pc (W w) k = 3 + 3 * i" by simp
  show ?thesis unfolding n [unfolded 3(2)] 3(2) waker_code_nth(3) [OF 3(1)] w_locks_nth eff_locks.simps
    using 3(1) by simp
next
  case (4 i)
  then have n: "next_pc (W w) k = 4 + 3 * i" by (simp; presburger)
  show ?thesis unfolding n [unfolded 4(2)] 4(2) waker_code_nth(4) [OF 4(1)] w_locks_nth eff_locks.simps
    using 4(1) by simp
next
  case (5 i)
  then have n: "next_pc (W w) k = 2 + 3 * Suc i" by (simp; presburger)
  show ?thesis unfolding n [unfolded 5(2)] 5(2) waker_code_nth(5) [OF 5(1)] w_locks_nth eff_locks.simps
    using 5(1) assms(1) by simp
next
  case 6
  then show ?thesis unfolding 6 waker_code_nth(6) w_locks_nth by (simp add: w_locks_nth)
qed (use assms in \<open>simp_all add: waker_code_nth w_locks_nth\<close>)

lemma t_locks_step:
  assumes "\<And>p. lk \<noteq> L_proc p" "locks_inv lk g" "code_of lk c t ! pcs g t \<notin> {Test, Use, SetCond}"
  shows "eff_locks (code_of lk c t ! pcs g t) (hl g t) = t_locks lk t (next_pc t (pcs g t))
     \<and> (case t of S p \<Rightarrow> next_pc t (pcs g t) \<le> 11 | W w \<Rightarrow> next_pc t (pcs g t) \<le> 2 + 3 * NPROC)"
proof (cases t)
  case (S p)
  then show ?thesis using assms s_locks_step [OF assms(1), of "pcs g t" c p] by (simp add: locks_inv_def)
next
  case (W w)
  then show ?thesis using assms w_locks_step [OF assms(1), of "pcs g t" c w] by (simp add: locks_inv_def)
qed

text \<open>An instruction adds at most a lock that was free.\<close>

lemma eff_locks_new:
  "l \<in> set (eff_locks i h) \<Longrightarrow> l \<in> set h \<or> i = Acq l \<or> (\<exists>p. i = On p \<and> l = L_proc p)"
  by (cases i) (auto dest: set_remove1_subset [THEN subsetD])

lemma locks_inv_upd:
  assumes "locks_inv lk g" "h = t_locks lk t k" "case t of S p \<Rightarrow> k \<le> 11 | W w \<Rightarrow> k \<le> 2 + 3 * NPROC"
    "\<And>l. l \<in> set h \<Longrightarrow> l \<in> set (hl g t) \<or> lock_free g l"
    "hl g' = (hl g)(t := h)" "pcs g' = (pcs g)(t := k)"
  shows "locks_inv lk g'"
  unfolding locks_inv_def
proof (intro conjI allI impI)
  fix u show "hl g' u = t_locks lk u (pcs g' u)" using assms by (simp add: locks_inv_def)
next
  fix p show "pcs g' (S p) \<le> 11" using assms(1,3,6) by (auto simp: locks_inv_def)
next
  fix w show "pcs g' (W w) \<le> 2 + 3 * NPROC" using assms(1,3,6) by (auto simp: locks_inv_def)
next
  fix u v l assume l: "l \<in> set (hl g' u)" "l \<in> set (hl g' v)"
  have "l \<in> set (hl g x) \<or> x = t \<and> lock_free g l" if "l \<in> set (hl g' x)" for x
    using that assms(4,5) by (cases "x = t") auto
  then show "u = v" using l assms(1) unfolding locks_inv_def lock_free_def by metis
qed

text \<open>Where the condition is tested, used and set.\<close>

lemma special_pc:
  "k \<le> 11 \<Longrightarrow> sleep_code lk c p ! k = Test \<Longrightarrow> k = 1"
  "k \<le> 11 \<Longrightarrow> sleep_code lk c p ! k = Use \<Longrightarrow> k = 10"
  "k \<le> 2 + 3 * NPROC \<Longrightarrow> waker_code lk c ! k = SetCond \<Longrightarrow> k = 1"
proof -
  show "k = 1" if "k \<le> 11" "sleep_code lk c p ! k = Test"
    using that(1) by (cases rule: s_pc_cases) (use that in \<open>simp_all add: sleep_code_nth\<close>)
  show "k = 10" if "k \<le> 11" "sleep_code lk c p ! k = Use"
    using that(1) by (cases rule: s_pc_cases) (use that in \<open>simp_all add: sleep_code_nth\<close>)
  show "k = 1" if "k \<le> 2 + 3 * NPROC" "waker_code lk c ! k = SetCond"
    using that(1)
  proof (cases rule: w_pc_cases)
    case (3 i)
    then show ?thesis using that(2) waker_code_nth(3) [OF 3(1), of lk c] by simp
  next
    case (4 i)
    then show ?thesis using that(2) waker_code_nth(4) [OF 4(1), of lk c] by simp
  next
    case (5 i)
    then show ?thesis using that(2) waker_code_nth(5) [OF 5(1), of lk c] by simp
  next
    case 6
    then show ?thesis using that(2) waker_code_nth(6) [of lk c] by simp
  qed (use that in \<open>simp_all add: waker_code_nth\<close>)
qed

lemma sw_step_locks:
  assumes "sw_step lk c g g'" "\<And>p. lk \<noteq> L_proc p" "locks_inv lk g"
  shows "locks_inv lk g'"
  using assms(1)
proof cases
  case (sw_exec t i s)
  show ?thesis
  proof (rule locks_inv_upd [OF assms(3)])
    have e: "held s = eff_locks i (hl g t)" using exec1_eff [OF sw_exec(7)] by simp
    show "held s = t_locks lk t (next_pc t (pcs g t))"
      using t_locks_step [OF assms(2,3), of c t] sw_exec(3,4) e by simp
    show "case t of S p \<Rightarrow> next_pc t (pcs g t) \<le> 11 | W w \<Rightarrow> next_pc t (pcs g t) \<le> 2 + 3 * NPROC"
      using t_locks_step [OF assms(2,3), of c t] sw_exec(3,4) by simp
    fix l assume "l \<in> set (held s)"
    then show "l \<in> set (hl g t) \<or> lock_free g l"
      using eff_locks_new e sw_exec(5,6) by metis
  qed (simp_all add: sw_exec(1))
next
  case (sw_test p)
  have "pcs g (S p) = 1" using special_pc(1) sw_test(3) assms(3) by (auto simp: locks_inv_def)
  moreover have "hl g (S p) = s_locks lk p (pcs g (S p))" using assms(3) by (simp add: locks_inv_def)
  ultimately show ?thesis
    by (intro locks_inv_upd [OF assms(3), where t = "S p" and h = "hl g (S p)" and k = "if cond g then 10 else 2"])
       (simp_all add: sw_test(1) s_locks_def fun_eq_iff numeral_2_eq_2)
next
  case (sw_use p b)
  have "pcs g (S p) = 10" using special_pc(2) sw_use(3) assms(3) by (auto simp: locks_inv_def)
  moreover have "hl g (S p) = s_locks lk p (pcs g (S p))" using assms(3) by (simp add: locks_inv_def)
  ultimately show ?thesis
    by (intro locks_inv_upd [OF assms(3), where t = "S p" and h = "hl g (S p)" and k = 11])
       (simp_all add: sw_use(1) s_locks_def fun_eq_iff)
next
  case (sw_set w)
  have "pcs g (W w) = 1" using special_pc(3) sw_set(2) assms(3) by (auto simp: locks_inv_def)
  moreover have "hl g (W w) = w_locks lk (pcs g (W w))" using assms(3) by (simp add: locks_inv_def)
  ultimately show ?thesis
    by (intro locks_inv_upd [OF assms(3), where t = "W w" and h = "hl g (W w)" and k = 2])
       (simp_all add: sw_set(1) w_locks_def fun_eq_iff numeral_2_eq_2)
next
  case (sw_kill p)
  then show ?thesis using assms(3) by (simp add: locks_inv_def)
qed

section \<open>No wakeup is lost\<close>

lemma proc_invI:
  assumes "pcs g (S p) = 5 \<Longrightarrow> p_state (procs (shared g) ! p) = SLEEPING \<and> p_chan (procs (shared g) ! p) = Some c"
    "pcs g (S p) = 6 \<Longrightarrow> p_chan (procs (shared g) ! p) = Some c"
    "pcs g (S p) = 2 \<or> pcs g (S p) = 3 \<Longrightarrow> \<not> cond g"
    "cond g \<Longrightarrow> pcs g (S p) = 4 \<or> pcs g (S p) = 5 \<Longrightarrow> pending g (2 + 3 * p)"
    "cond g \<Longrightarrow> pcs g (S p) = 6 \<Longrightarrow> p_state (procs (shared g) ! p) = SLEEPING \<Longrightarrow> pending g (3 + 3 * p)"
  shows "proc_inv c g p"
  using assms by (auto simp: proc_inv_def Let_def)

lemma proc_invD:
  assumes "proc_inv c g p"
  shows "pcs g (S p) = 5 \<Longrightarrow> p_state (procs (shared g) ! p) = SLEEPING \<and> p_chan (procs (shared g) ! p) = Some c"
    "pcs g (S p) = 6 \<Longrightarrow> p_chan (procs (shared g) ! p) = Some c"
    "pcs g (S p) = 2 \<or> pcs g (S p) = 3 \<Longrightarrow> \<not> cond g"
    "cond g \<Longrightarrow> pcs g (S p) = 4 \<or> pcs g (S p) = 5 \<Longrightarrow> pending g (2 + 3 * p)"
    "cond g \<Longrightarrow> pcs g (S p) = 6 \<Longrightarrow> p_state (procs (shared g) ! p) = SLEEPING \<Longrightarrow> pending g (3 + 3 * p)"
  using assms by (auto simp: proc_inv_def Let_def)

lemma pending_mono: "pending g m \<Longrightarrow> m \<le> n \<Longrightarrow> (\<And>w. pcs g' (W w) = pcs g (W w)) \<Longrightarrow> pending g' n"
  by (fastforce simp: pending_def)

text \<open>A waker that moves stays before \<open>m\<close>, unless it was at \<open>m\<close>.\<close>

lemma pending_step:
  assumes "pending g m" "m < 2 + 3 * NPROC" "pcs g (W w) \<noteq> m"
    "\<And>v. pcs g' (W v) = ((pcs g)(W w := next_pc (W w) (pcs g (W w)))) (W v)"
  shows "pending g' m"
proof -
  from assms(1) obtain v where v: "2 \<le> pcs g (W v)" "pcs g (W v) \<le> m" by (auto simp: pending_def)
  have "2 \<le> pcs g' (W v) \<and> pcs g' (W v) \<le> m"
    using v assms(2-4) by (cases "v = w") auto
  then show ?thesis by (auto simp: pending_def)
qed

text \<open>Another thread's step leaves the invariant of a process alone.\<close>

lemma proc_inv_other:
  assumes "proc_inv c g p" "pcs g' (S p) = pcs g (S p)" "procs (shared g') ! p = procs (shared g) ! p"
    "cond g' \<longrightarrow> cond g" "\<And>w. pcs g' (W w) = pcs g (W w)"
  shows "proc_inv c g' p"
proof -
  have "pending g' m = pending g m" for m using assms(5) by (simp add: pending_def)
  then show ?thesis using assms by (auto simp: proc_inv_def Let_def)
qed

text \<open>No two threads are at points where they hold the same lock.\<close>

lemma locks_inv_excl:
  assumes "locks_inv lk g" "pcs g (S p) \<in> {3, 4, 5, 7, 8}"
  shows "\<not> lock_free g (L_proc p)" "pcs g (W w) \<noteq> 3 + 3 * p" "pcs g (W w) \<noteq> 4 + 3 * p"
proof -
  have h: "hl g (S p) = s_locks lk p (pcs g (S p))" "hl g (W w) = w_locks lk (pcs g (W w))"
    using assms(1) by (simp_all add: locks_inv_def)
  then have m: "L_proc p \<in> set (hl g (S p))" using assms(2) by (auto simp: s_locks_def)
  then show "\<not> lock_free g (L_proc p)" by (auto simp: lock_free_def)
  have "L_proc p \<notin> set (hl g (W w))" using assms(1) m unfolding locks_inv_def by blast
  then show "pcs g (W w) \<noteq> 3 + 3 * p" "pcs g (W w) \<noteq> 4 + 3 * p"
    using h(2) w_locks_nth(4,5) [of lk p] by auto
qed

lemma locks_inv_lk:
  assumes "locks_inv lk g" "pcs g (W w) = 1"
  shows "pcs g (S p) \<notin> {2, 3}"
proof
  assume "pcs g (S p) \<in> {2, 3}"
  moreover have "hl g (S p) = s_locks lk p (pcs g (S p))" "hl g (W w) = w_locks lk (pcs g (W w))"
    using assms(1) by (simp_all add: locks_inv_def)
  ultimately have "lk \<in> set (hl g (S p))" "lk \<in> set (hl g (W w))"
    using assms(2) by (auto simp: s_locks_def w_locks_def)
  then show False using assms(1) unfolding locks_inv_def by blast
qed

lemma s_exec_inv:
  assumes "sw_inv lk c g" "p < NPROC" "sleep_code lk c p ! pcs g (S p) \<notin> {Test, Use, SetCond}"
    "procs (shared g') = eff_procs (sleep_code lk c p ! pcs g (S p)) (procs (shared g))"
    "pcs g' = (pcs g)(S p := next_pc (S p) (pcs g (S p)))" "cond g' = cond g" "q < NPROC"
  shows "proc_inv c g' q"
proof (cases "q = p")
  case True
  have i: "proc_inv c g p" and len: "length (procs (shared g)) = NPROC" and k: "pcs g (S p) \<le> 11"
    using assms(1,2) by (auto simp: sw_inv_def locks_inv_def)
  note d = proc_invD [OF i]
  have pend: "pending g' n" if "pending g m" "m \<le> n" for m n
    using pending_mono [OF that] assms(5) by simp
  from k show ?thesis
    by (cases rule: s_pc_cases)
       (use d assms(2-6) len pend True in \<open>auto simp: sleep_code_nth intro!: proc_invI\<close>)
next
  case False
  have k: "pcs g (S p) \<le> 11" using assms(1) by (auto simp: sw_inv_def locks_inv_def)
  have "procs (shared g') ! q = procs (shared g) ! q"
    using k by (cases rule: s_pc_cases) (use assms(3,4) False in \<open>simp_all add: sleep_code_nth\<close>)
  moreover have "proc_inv c g q" using assms(1,7) by (simp add: sw_inv_def)
  ultimately show ?thesis using assms(5,6) False by (intro proc_inv_other [of c g q g']) simp_all
qed

lemma w_exec_inv:
  assumes "sw_inv lk c g" "waker_code lk c ! pcs g (W w) \<notin> {Test, Use, SetCond}"
    "\<And>l. waker_code lk c ! pcs g (W w) = Acq l \<Longrightarrow> lock_free g l"
    "procs (shared g') = eff_procs (waker_code lk c ! pcs g (W w)) (procs (shared g))"
    "pcs g' = (pcs g)(W w := next_pc (W w) (pcs g (W w)))" "cond g' = cond g" "p < NPROC"
  shows "proc_inv c g' p"
proof -
  have i: "proc_inv c g p" and len: "length (procs (shared g)) = NPROC" and li: "locks_inv lk g"
    and k: "pcs g (W w) \<le> 2 + 3 * NPROC"
    using assms(1,7) by (auto simp: sw_inv_def locks_inv_def)
  note d = proc_invD [OF i] and ex = locks_inv_excl [OF li, of p]
  have pend: "pending g' m" if "pending g m" "m < 2 + 3 * NPROC" "pcs g (W w) \<noteq> m" for m
    using pending_step [OF that] assms(5) by simp
  have pc: "pcs g' (S p) = pcs g (S p)" using assms(5) by simp
  have at2: "pcs g (W w) \<noteq> 2 + 3 * p" if "pcs g (S p) \<in> {4, 5}"
  proof
    assume "pcs g (W w) = 2 + 3 * p"
    then have "lock_free g (L_proc p)" using assms(3) waker_code_nth(3) [OF assms(7)] by simp
    then show False using ex(1) that by auto
  qed
  have pr: "procs (shared g') ! p = (if pcs g (W w) = 3 + 3 * p \<and> p_state (procs (shared g) ! p) = SLEEPING
      \<and> p_chan (procs (shared g) ! p) = Some c then (procs (shared g) ! p)\<lparr>p_state := RUNNABLE\<rparr> else procs (shared g) ! p)"
    using k
  proof (cases rule: w_pc_cases)
    case (3 i)
    then have "pcs g (W w) \<noteq> 3 + 3 * p" by presburger
    then show ?thesis using assms(4) waker_code_nth(3) [OF 3(1), of lk c] 3(2) by simp
  next
    case (4 i)
    then show ?thesis using assms(4,7) len waker_code_nth(4) [OF 4(1), of lk c] by (simp add: nth_list_update)
  next
    case (5 i)
    then have "pcs g (W w) \<noteq> 3 + 3 * p" by presburger
    then show ?thesis using assms(4) waker_code_nth(5) [OF 5(1), of lk c] 5(2) by simp
  next
    case 6
    then have "pcs g (W w) \<noteq> 3 + 3 * p" by presburger
    then show ?thesis using assms(4) waker_code_nth(6) [of lk c] 6 by simp
  qed (use assms(4) in \<open>simp_all add: waker_code_nth\<close>)
  show ?thesis
  proof (rule proc_invI)
    assume "pcs g' (S p) = 5"
    then show "p_state (procs (shared g') ! p) = SLEEPING \<and> p_chan (procs (shared g') ! p) = Some c"
      using pr d(1) ex(2) [of w] pc by simp
  next
    assume "pcs g' (S p) = 6"
    then show "p_chan (procs (shared g') ! p) = Some c" using pr d(2) pc by (simp split: if_splits)
  next
    assume "pcs g' (S p) = 2 \<or> pcs g' (S p) = 3"
    then show "\<not> cond g'" using d(3) pc assms(6) by simp
  next
    assume "cond g'" "pcs g' (S p) = 4 \<or> pcs g' (S p) = 5"
    then show "pending g' (2 + 3 * p)" using d(4) pc assms(6,7) at2 by (intro pend) auto
  next
    assume c: "cond g'" "pcs g' (S p) = 6" "p_state (procs (shared g') ! p) = SLEEPING"
    then have "pcs g (W w) \<noteq> 3 + 3 * p" "p_state (procs (shared g) ! p) = SLEEPING"
      using pr d(2) pc by (auto split: if_splits)
    then show "pending g' (3 + 3 * p)" using d(5) c pc assms(6,7) by (intro pend) auto
  qed
qed

lemma sw_step_inv:
  assumes "\<And>p. lk \<noteq> L_proc p" "sw_inv lk c g" "sw_step lk c g g'"
  shows "sw_inv lk c g'"
proof -
  have li: "locks_inv lk g" and len: "length (procs (shared g)) = NPROC" and pi: "\<And>p. p < NPROC \<Longrightarrow> proc_inv c g p"
    using assms(2) by (auto simp: sw_inv_def)
  have "length (procs (shared g')) = NPROC \<and> (\<forall>p < NPROC. proc_inv c g' p)"
    using assms(3)
  proof cases
    case (sw_exec t i s)
    have e: "procs s = eff_procs i (procs (shared g))" using exec1_eff [OF sw_exec(7)] by simp
    then have "length (procs s) = NPROC" using len by (cases i) simp_all
    moreover have "proc_inv c g' p" if p: "p < NPROC" for p
    proof (cases t)
      case (S q)
      then show ?thesis
        using sw_exec e p by (intro s_exec_inv [OF assms(2), of q]) simp_all
    next
      case (W w)
      then show ?thesis
        using sw_exec e p by (intro w_exec_inv [OF assms(2), of w]) simp_all
    qed
    ultimately show ?thesis using sw_exec(1) by simp
  next
    case (sw_test q)
    have k: "pcs g (S q) = 1" using special_pc(1) sw_test(3) li by (auto simp: locks_inv_def)
    have "proc_inv c g' p" if "p < NPROC" for p
    proof (cases "p = q")
      case True
      then show ?thesis using k by (intro proc_invI) (auto simp: sw_test(1) split: if_splits)
    next
      case False
      then show ?thesis using sw_test(1) by (intro proc_inv_other [OF pi [OF that]]) simp_all
    qed
    then show ?thesis using len sw_test(1) by simp
  next
    case (sw_use q b)
    have k: "pcs g (S q) = 10" using special_pc(2) sw_use(3) li by (auto simp: locks_inv_def)
    have "proc_inv c g' p" if "p < NPROC" for p
    proof (cases "p = q")
      case True
      then show ?thesis using k by (intro proc_invI) (simp_all add: sw_use(1))
    next
      case False
      then show ?thesis using sw_use(1) by (intro proc_inv_other [OF pi [OF that]]) simp_all
    qed
    then show ?thesis using len sw_use(1) by simp
  next
    case (sw_set w)
    have k: "pcs g (W w) = 1" using special_pc(3) sw_set(2) li by (auto simp: locks_inv_def)
    have pend: "pending g' m" if "2 \<le> m" for m
      unfolding pending_def using that k by (intro exI [of _ w]) (simp add: sw_set(1))
    have "proc_inv c g' p" if "p < NPROC" for p
      using proc_invD(1,2) [OF pi [OF that]] locks_inv_lk [OF li k, of p] pend
      by (intro proc_invI) (simp_all add: sw_set(1))
    then show ?thesis using len sw_set(1) by simp
  next
    case (sw_kill q)
    have "proc_inv c g' p" if "p < NPROC" for p
    proof (cases "p = q")
      case True
      have "pcs g (S p) \<noteq> 5" using locks_inv_excl(1) [OF li, of p] sw_kill(3) True by auto
      moreover have "pending g' m = pending g m" for m by (simp add: pending_def sw_kill(1))
      ultimately show ?thesis using proc_invD [OF pi [OF that]] True that len
        by (intro proc_invI) (simp_all add: sw_kill(1))
    next
      case False
      then show ?thesis using sw_kill(1) by (intro proc_inv_other [OF pi [OF that]]) simp_all
    qed
    then show ?thesis using len sw_kill(1) by simp
  qed
  then show ?thesis using sw_step_locks [OF assms(3,1) li] by (simp add: sw_inv_def)
qed

text \<open>The instance of the interface of step systems, for the wait lock of \<open>wait\<close> and \<open>exit\<close>, and for any
  other lock but those of the processes.\<close>

definition sw_system :: "lockid \<Rightarrow> chan \<Rightarrow> sw \<Rightarrow> sw \<Rightarrow> bool" where
  "sw_system lk c g g' \<longleftrightarrow> (\<forall>p. lk \<noteq> L_proc p) \<and> sw_step lk c g g'"

interpretation sleepers: step_system sw_init "sw_system lk c" "sw_inv lk c" for lk c
  by unfold_locales (auto simp: sw_system_def intro: sw_init_inv sw_step_inv)

text \<open>C18. No wakeup is lost. Let any number of processes wait for a condition in the loop
  \<open>while(!cond) sleep(chan, lk)\<close> and any number of threads set it and call \<open>wakeup(chan)\<close>, all under the
  lock \<open>lk\<close>, their steps interleaved in any way, with processes killed at any time. In every state that
  can be reached, a process that sleeps on \<open>chan\<close> while the condition holds will be seen by a \<open>wakeup\<close>
  that is under way and has not reached it yet; so when no \<open>wakeup\<close> is under way, none sleeps.\<close>

theorem no_lost_wakeup:
  assumes "\<And>p. lk \<noteq> L_proc p" "reach sw_init (sw_step lk c) g" "cond g" "p < NPROC"
    "pcs g (S p) = 6" "p_state (procs (shared g) ! p) = SLEEPING"
  shows "\<exists>w. 2 \<le> pcs g (W w) \<and> pcs g (W w) \<le> 3 + 3 * p"
proof -
  have "reach sw_init (sw_system lk c) g"
    using assms(2) by (induction rule: reach.induct) (auto simp: sw_system_def assms(1) intro: reach.intros)
  then have "proc_inv c g p" using sleepers.reach_inv assms(4) by (auto simp: sw_inv_def)
  then show ?thesis using proc_invD(5) assms(3,5,6) by (auto simp: pending_def)
qed

text \<open>A run: process 0 goes to sleep, then a waker sets the condition.\<close>

lemma sw_run:
  assumes "reach sw_init (sw_step lk c) g" "\<And>p. t = S p \<Longrightarrow> p < NPROC" "i = code_of lk c t ! pcs g t"
    "i \<notin> {Test, Use, SetCond}" "\<And>l. i = Acq l \<Longrightarrow> lock_free g l" "\<And>p. i = On p \<Longrightarrow> lock_free g (L_proc p)"
    "\<exists>s. exec1 i (shared g\<lparr>held := hl g t, curproc := None\<rparr>) = Ok () s"
  obtains g' where "reach sw_init (sw_step lk c) g'" "procs (shared g') = eff_procs i (procs (shared g))"
    "hl g' = (hl g)(t := eff_locks i (hl g t))" "pcs g' = (pcs g)(t := next_pc t (pcs g t))" "cond g' = cond g"
proof -
  from assms(7) obtain s where s: "exec1 i (shared g\<lparr>held := hl g t, curproc := None\<rparr>) = Ok () s" ..
  have "sw_step lk c g (g\<lparr>shared := s, hl := (hl g)(t := held s), pcs := (pcs g)(t := next_pc t (pcs g t))\<rparr>)"
    using sw_exec [OF assms(2-6) s] by simp
  from that [OF reach_step [OF assms(1) this]] show ?thesis using exec1_eff [OF s] by simp
qed

definition sw0 :: sw where
  "sw0 = \<lparr>shared = ptable0 (replicate NPROC (proc0\<lparr>p_state := RUNNING\<rparr>)), cond = False, pcs = \<lambda>_. 0, hl = \<lambda>_. []\<rparr>"

theorem no_lost_wakeup_witness:
  "\<exists>g. reach sw_init (sw_step L_wait Ch_ticks) g \<and> cond g \<and> pcs g (S 0) = 6
     \<and> p_state (procs (shared g) ! 0) = SLEEPING \<and> (\<exists>w. 2 \<le> pcs g (W w) \<and> pcs g (W w) \<le> 3)"
proof -
  let ?R = "reach sw_init (sw_step L_wait Ch_ticks)"
  have r0: "?R sw0" by (rule reach_init) (simp add: sw_init_def sw0_def ptable0_def)
  obtain g1 where g1: "?R g1" "procs (shared g1) = procs (shared sw0)" "hl g1 = (\<lambda>_. [])(S 0 := [L_wait])"
    "pcs g1 = (\<lambda>_. 0)(S 0 := 1)" "\<not> cond g1"
    by (rule sw_run [OF r0, of "S 0" "Acq L_wait"])
       (auto simp: sw0_def sleep_code_nth acquire_run lock_free_def)
  have "sw_step L_wait Ch_ticks g1 (g1\<lparr>pcs := (pcs g1)(S 0 := 2)\<rparr>)"
    using sw_test [of 0 L_wait Ch_ticks g1] g1 by (simp add: sleep_code_nth numeral_2_eq_2)
  from reach_step [OF g1(1) this] obtain g2 where g2: "?R g2" "procs (shared g2) = procs (shared sw0)"
    "hl g2 = (\<lambda>_. [])(S 0 := [L_wait])" "pcs g2 = (\<lambda>_. 0)(S 0 := 2)" "\<not> cond g2"
    using g1 by auto
  obtain g3 where g3: "?R g3" "procs (shared g3) = procs (shared sw0)" "hl g3 = (\<lambda>_. [])(S 0 := [L_proc 0, L_wait])"
    "pcs g3 = (\<lambda>_. 0)(S 0 := 3)" "\<not> cond g3"
    by (rule sw_run [OF g2(1), of "S 0" "Acq (L_proc 0)"])
       (use g2 in \<open>auto simp: sleep_code_nth acquire_run lock_free_def\<close>)
  obtain g4 where g4: "?R g4" "procs (shared g4) = procs (shared sw0)" "hl g4 = (\<lambda>_. [])(S 0 := [L_proc 0])"
    "pcs g4 = (\<lambda>_. 0)(S 0 := 4)" "\<not> cond g4"
    by (rule sw_run [OF g3(1), of "S 0" "Rel L_wait"])
       (use g3 in \<open>auto simp: sleep_code_nth release_run\<close>)
  obtain g5 where g5: "?R g5" "procs (shared g5) = eff_procs (Sleeping 0 Ch_ticks) (procs (shared sw0))"
    "hl g5 = (\<lambda>_. [])(S 0 := [L_proc 0])" "pcs g5 = (\<lambda>_. 0)(S 0 := 5)" "\<not> cond g5"
    by (rule sw_run [OF g4(1), of "S 0" "Sleeping 0 Ch_ticks"])
       (use g4 in \<open>auto simp: sleep_code_nth\<close>)
  obtain g6 where g6: "?R g6" "procs (shared g6) = procs (shared g5)"
    "hl g6 = (\<lambda>_. [])(S 0 := [])" "pcs g6 = (\<lambda>_. 0)(S 0 := 6)" "\<not> cond g6"
    by (rule sw_run [OF g5(1), of "S 0" "Off 0"])
       (use g5 in \<open>auto simp: sleep_code_nth scheduler_leave_def release_run kseq_Ok\<close>)
  obtain g7 where g7: "?R g7" "procs (shared g7) = procs (shared g5)"
    "pcs g7 = (\<lambda>_. 0)(S 0 := 6, W 0 := 1)"
    by (rule sw_run [OF g6(1), of "W 0" "Acq L_wait"])
       (use g6 in \<open>auto simp: waker_code_nth acquire_run lock_free_def\<close>)
  have "sw_step L_wait Ch_ticks g7 (g7\<lparr>cond := True, pcs := (pcs g7)(W 0 := 2)\<rparr>)"
    using sw_set [of L_wait Ch_ticks g7 0] g7 by (simp add: waker_code_nth numeral_2_eq_2)
  from reach_step [OF g7(1) this] obtain g8 where g8: "?R g8" "procs (shared g8) = procs (shared g5)"
    "pcs g8 = (\<lambda>_. 0)(S 0 := 6, W 0 := 2)" "cond g8"
    using g7 by auto
  have "p_state (procs (shared g8) ! 0) = SLEEPING"
    using g5 g8 by (simp add: sw0_def ptable0_def)
  with no_lost_wakeup [of L_wait Ch_ticks g8 0] g8 show ?thesis by auto
qed

end
