(* ===== verification/Ring.thy ===== *)
theory Ring
  imports Prelude
begin

text \<open>
  Ring buffers with free-running indices, as in \<open>kernel/pipe.c\<close>, \<open>kernel/uart.c\<close> and \<open>kernel/console.c\<close>: the indices
  count every byte ever read and written, wrap around at their width, and are reduced modulo the
  size of the buffer only to access it. The first part is about words; the second states the
  interface of a bounded queue, and what follows from it, once for all three.
\<close>

section \<open>Indices\<close>

text \<open>The bytes between the read index \<open>r\<close> and the write index \<open>w\<close>.\<close>

definition ring_contents :: "'a list \<Rightarrow> 'l::len word \<Rightarrow> 'l word \<Rightarrow> 'a list" where
  "ring_contents buf r w = map (\<lambda>i. buf ! (unat (r + of_nat i) mod length buf)) [0..<unat (w - r)]"

lemma length_ring_contents [simp]: "length (ring_contents buf r w) = unat (w - r)"
  by (simp add: ring_contents_def)

lemma ring_contents_same [simp]: "ring_contents buf r r = []"
  by (simp add: ring_contents_def)

lemma ring_contents_empty: "ring_contents buf r w = [] \<longleftrightarrow> r = w"
proof
  assume "ring_contents buf r w = []"
  then have "w - r = 0" using length_ring_contents [of buf r w] by (simp add: unat_eq_0)
  then show "r = w" by simp
qed simp

text \<open>Slots: with a size that divides \<open>2 ^ LENGTH('l)\<close>, indices less than the size apart use distinct slots.\<close>

lemma ring_slot:
  fixes r :: "'l::len word"
  assumes "N dvd 2 ^ LENGTH('l)"
  shows "unat (r + of_nat i) mod N = (unat r + i) mod N"
proof -
  have "unat (r + of_nat i) = (unat r + i) mod 2 ^ LENGTH('l)"
    by (simp add: unat_word_ariths unat_of_nat mod_simps)
  then show ?thesis using assms by (simp add: mod_mod_cancel)
qed

lemma ring_slots_distinct:
  fixes r :: "'l::len word"
  assumes "N dvd 2 ^ LENGTH('l)" "i < N" "j < N" "unat (r + of_nat i) mod N = unat (r + of_nat j) mod N"
  shows "i = j"
proof -
  have e: "(unat r + i) mod N = (unat r + j) mod N" using assms by (simp add: ring_slot)
  have "i = j" if "i \<le> j" "j < N" "(unat r + i) mod N = (unat r + j) mod N" for i j
  proof -
    have "N dvd (unat r + j) - (unat r + i)" using that by (subst mod_eq_dvd_iff_nat [symmetric]) simp_all
    then show ?thesis using that by (auto dest: dvd_imp_le)
  qed
  from this [of i j] this [of j i] e assms(2,3) show ?thesis by (cases "i \<le> j") auto
qed

lemma unat_Suc_word:
  fixes x :: "'l::len word"
  shows "unat x < n \<Longrightarrow> n < 2 ^ LENGTH('l) \<Longrightarrow> unat (x + 1) = Suc (unat x)"
  by (simp add: unat_word_ariths)

lemma ring_put:
  fixes r w :: "'l::len word"
  assumes "length buf = N" "N dvd 2 ^ LENGTH('l)" "N < 2 ^ LENGTH('l)" "unat (w - r) < N"
  shows "ring_contents (buf[unat w mod N := x]) r (w + 1) = ring_contents buf r w @ [x]"
proof -
  let ?n = "unat (w - r)"
  have len: "unat (w + 1 - r) = Suc ?n"
    using unat_Suc_word [of "w - r" N] assms(3,4) by (simp add: algebra_simps)
  have w: "w = r + of_nat ?n" by simp
  have N: "0 < N" using assms(4) by simp
  have "(buf[unat w mod N := x]) ! (unat (r + of_nat i) mod N) = buf ! (unat (r + of_nat i) mod N)" if "i < ?n" for i
    using ring_slots_distinct [OF assms(2), of i ?n r] that assms(4) w by (intro nth_list_update_neq) force
  moreover have "(buf[unat w mod N := x]) ! (unat (r + of_nat ?n) mod N) = x"
    using N assms(1) by simp
  ultimately show ?thesis
    unfolding ring_contents_def len length_list_update assms(1) by simp
qed

lemma ring_get:
  fixes r w :: "'l::len word"
  assumes "r \<noteq> w"
  shows "ring_contents buf r w = buf ! (unat r mod length buf) # ring_contents buf (r + 1) w"
proof -
  let ?n = "unat (w - r)"
  have n: "?n = Suc (unat (w - (r + 1)))"
  proof -
    have "0 < ?n" using assms by (simp add: unat_gt_0)
    moreover have "unat (w - r - 1) = ?n - 1" using assms by (intro unat_minus_one) simp
    ultimately show ?thesis by (simp add: algebra_simps)
  qed
  show ?thesis
    unfolding ring_contents_def n by (simp add: upt_conv_Cons map_Suc_upt [symmetric] algebra_simps comp_def del: upt_Suc)
qed

section \<open>Bounded queues\<close>

datatype 'a qop = Enq 'a | Deq

text \<open>A sequence of attempts to put in and to take out, by any number of writers and readers: what was
  accepted, what came out, and the queue left.\<close>

fun queue_run :: "('a \<Rightarrow> 'q \<Rightarrow> 'q) \<Rightarrow> ('q \<Rightarrow> 'a) \<Rightarrow> ('q \<Rightarrow> 'q) \<Rightarrow> ('q \<Rightarrow> bool) \<Rightarrow> ('q \<Rightarrow> bool) \<Rightarrow>
    'a qop list \<Rightarrow> 'q \<Rightarrow> 'a list \<times> 'a list \<times> 'q" where
  "queue_run put front deq full emp [] q = ([], [], q)"
| "queue_run put front deq full emp (Enq x # ops) q =
     (if full q then queue_run put front deq full emp ops q
      else let (ins, outs, q') = queue_run put front deq full emp ops (put x q) in (x # ins, outs, q'))"
| "queue_run put front deq full emp (Deq # ops) q =
     (if emp q then queue_run put front deq full emp ops q
      else let (ins, outs, q') = queue_run put front deq full emp ops (deq q) in (ins, front q # outs, q'))"

locale bounded_queue =
  fixes inv :: "'q \<Rightarrow> bool" and contents :: "'q \<Rightarrow> 'a list" and cap :: nat
    and put :: "'a \<Rightarrow> 'q \<Rightarrow> 'q" and front :: "'q \<Rightarrow> 'a" and deq :: "'q \<Rightarrow> 'q"
    and full :: "'q \<Rightarrow> bool" and emp :: "'q \<Rightarrow> bool"
  assumes full_iff: "inv q \<Longrightarrow> full q \<longleftrightarrow> length (contents q) = cap"
    and bounded: "inv q \<Longrightarrow> length (contents q) \<le> cap"
    and emp_iff: "inv q \<Longrightarrow> emp q \<longleftrightarrow> contents q = []"
    and put_inv: "inv q \<Longrightarrow> \<not> full q \<Longrightarrow> inv (put x q)"
    and put_contents: "inv q \<Longrightarrow> \<not> full q \<Longrightarrow> contents (put x q) = contents q @ [x]"
    and deq_inv: "inv q \<Longrightarrow> \<not> emp q \<Longrightarrow> inv (deq q)"
    and deq_contents: "inv q \<Longrightarrow> \<not> emp q \<Longrightarrow> contents q = front q # contents (deq q)"
begin

lemma fifo:
  "inv q \<Longrightarrow> queue_run put front deq full emp ops q = (ins, outs, q') \<Longrightarrow>
     inv q' \<and> contents q @ ins = outs @ contents q'"
proof (induction ops arbitrary: q ins outs)
  case Nil
  then show ?case by simp
next
  case (Cons op ops)
  show ?case
  proof (cases op)
    case (Enq x)
    then show ?thesis
      using Cons.prems Cons.IH [of q] Cons.IH [of "put x q"] put_inv [of q x] put_contents [of q x]
      by (auto split: if_splits prod.splits)
  next
    case Deq
    then show ?thesis
      using Cons.prems Cons.IH [of q] Cons.IH [of "deq q"] deq_inv [of q] deq_contents [of q]
      by (auto split: if_splits prod.splits)
  qed
qed

end

end
