(* ===== verification/Uart.thy ===== *)
theory Uart
  imports Sched Ring
begin

text \<open>
  \<open>kernel/uart.c\<close>: the driver of the 16550a serial port. The devices themselves are not part of the
  kernel: what a device answers to the reads of its registers is an arbitrary function of the
  number of the read and the address (\<open>mmio_in\<close>), a parameter of the state, and writes to registers
  are recorded in order (\<open>mmio_log\<close>, the latest first). A busy-wait loop that polls more than
  \<open>spin_limit\<close> times counts as not returning.
\<close>

unbundle bit_operations_syntax

section \<open>Device registers\<close>

record mmio = ptable +
  mmio_in :: "nat \<Rightarrow> u64 \<Rightarrow> u32"
  mmio_clk :: nat
  mmio_log :: "(u64 \<times> u32) list"
  spin_limit :: nat

definition mmio_read :: "u64 \<Rightarrow> ('z mmio_scheme, u32) km" where
  "mmio_read a = (\<lambda>s. Ok (mmio_in s (mmio_clk s) a) (s\<lparr>mmio_clk := Suc (mmio_clk s)\<rparr>))"

definition mmio_write :: "u64 \<Rightarrow> u32 \<Rightarrow> ('z mmio_scheme, unit) km" where
  "mmio_write a v = kmodify (\<lambda>s. s\<lparr>mmio_log := (a, v) # mmio_log s\<rparr>)"

section \<open>The UART\<close>

definition RHR :: u64 where "RHR = 0"
definition THR :: u64 where "THR = 0"
definition IER :: u64 where "IER = 1"
definition IER_RX_ENABLE :: u32 where "IER_RX_ENABLE = 1"
definition IER_TX_ENABLE :: u32 where "IER_TX_ENABLE = 2"
definition FCR :: u64 where "FCR = 2"
definition FCR_FIFO_ENABLE :: u32 where "FCR_FIFO_ENABLE = 1"
definition FCR_FIFO_CLEAR :: u32 where "FCR_FIFO_CLEAR = 6"
definition ISR :: u64 where "ISR = 2"
definition LCR :: u64 where "LCR = 3"
definition LCR_EIGHT_BITS :: u32 where "LCR_EIGHT_BITS = 3"
definition LCR_BAUD_LATCH :: u32 where "LCR_BAUD_LATCH = 128"
definition LSR :: u64 where "LSR = 5"
definition LSR_RX_READY :: u8 where "LSR_RX_READY = 1"
definition LSR_TX_IDLE :: u8 where "LSR_TX_IDLE = 32"
definition UART_TX_BUF_SIZE :: nat where "UART_TX_BUF_SIZE = 32"

record uart = mmio +
  uart_tx_buf :: "u8 list"
  uart_tx_w :: u64
  uart_tx_r :: u64
  panicked :: bool

text \<open>The registers are bytes.\<close>

definition ReadReg :: "u64 \<Rightarrow> ('z uart_scheme, u8) km" where
  "ReadReg reg = kbind (mmio_read (UART0 + reg)) (\<lambda>v. kreturn (ucast v))"

definition WriteReg :: "u64 \<Rightarrow> u32 \<Rightarrow> ('z uart_scheme, unit) km" where
  "WriteReg reg v = mmio_write (UART0 + reg) (v AND 0xFF)"

definition uartinit :: "('z uart_scheme, unit) km" where
  "uartinit = kdo
     [WriteReg IER 0,
      WriteReg LCR LCR_BAUD_LATCH,
      WriteReg 0 3,
      WriteReg 1 0,
      WriteReg LCR LCR_EIGHT_BITS,
      WriteReg FCR (FCR_FIFO_ENABLE OR FCR_FIFO_CLEAR),
      WriteReg IER (IER_TX_ENABLE OR IER_RX_ENABLE)]"

text \<open>\<open>uartstart\<close>: each round sends one of the \<open>uart_tx_w - uart_tx_r\<close> waiting characters, so that one
  round more than that is enough.\<close>

primrec uartstart_loop :: "nat \<Rightarrow> ('z uart_scheme, unit) km" where
  "uartstart_loop 0 = kspin"
| "uartstart_loop (Suc k) =
     kbind (kget (\<lambda>s. uart_tx_w s = uart_tx_r s)) (\<lambda>empty.
     if empty then kbind (ReadReg ISR) (\<lambda>_. kreturn ())
     else kbind (ReadReg LSR) (\<lambda>lsr.
       if lsr AND LSR_TX_IDLE = 0 then kreturn ()
       else kbind (kget (\<lambda>s. uart_tx_buf s ! (unat (uart_tx_r s) mod UART_TX_BUF_SIZE))) (\<lambda>c.
         kseq (kmodify (\<lambda>s. s\<lparr>uart_tx_r := uart_tx_r s + 1\<rparr>))
        (kseq (wakeup (Some Ch_uart_tx_r))
        (kseq (WriteReg THR (ucast c))
        (uartstart_loop k))))))"

definition uartstart :: "('z uart_scheme, unit) km" where
  "uartstart = kbind (kget (\<lambda>s. unat (uart_tx_w s - uart_tx_r s))) (\<lambda>n. uartstart_loop (Suc n))"

text \<open>\<open>uartputc\<close> from its \<open>while\<close> on, which is also where it resumes after sleeping.\<close>

definition uartputc_body :: "u32 \<Rightarrow> ('z uart_scheme, unit) km" where
  "uartputc_body c =
     kbind (kget (\<lambda>s. uart_tx_w s = uart_tx_r s + of_nat UART_TX_BUF_SIZE)) (\<lambda>full.
     if full then sleep Ch_uart_tx_r L_uart_tx
     else kdo
       [kmodify (\<lambda>s. s\<lparr>uart_tx_buf := (uart_tx_buf s)[unat (uart_tx_w s) mod UART_TX_BUF_SIZE := ucast c]\<rparr>),
        kmodify (\<lambda>s. s\<lparr>uart_tx_w := uart_tx_w s + 1\<rparr>),
        uartstart,
        release L_uart_tx])"

definition uartputc :: "u32 \<Rightarrow> ('z uart_scheme, unit) km" where
  "uartputc c =
     kseq (acquire L_uart_tx)
    (kbind (kget panicked) (\<lambda>pan. if pan then kspin else uartputc_body c))"

primrec uart_wait_idle :: "nat \<Rightarrow> ('z uart_scheme, unit) km" where
  "uart_wait_idle 0 = kspin"
| "uart_wait_idle (Suc k) =
     kbind (ReadReg LSR) (\<lambda>lsr. if lsr AND LSR_TX_IDLE = 0 then uart_wait_idle k else kreturn ())"

text \<open>The \<open>push_off\<close> and \<open>pop_off\<close> around the wait have no counterpart: interrupts are not delivered to a thread in the middle
  of a function of the model.\<close>

definition uartputc_sync :: "u32 \<Rightarrow> ('z uart_scheme, unit) km" where
  "uartputc_sync c =
     kbind (kget panicked) (\<lambda>pan.
     if pan then kspin
     else kbind (kget spin_limit) (\<lambda>n.
       kseq (uart_wait_idle n) (WriteReg THR c)))"

definition uartgetc :: "('z uart_scheme, int) km" where
  "uartgetc = kbind (ReadReg LSR) (\<lambda>lsr.
     if lsr AND 1 \<noteq> 0 then kbind (ReadReg RHR) (\<lambda>c. kreturn (uint c)) else kreturn (- 1))"

section \<open>The transmit queue\<close>

definition uart_inv :: "'z uart_scheme \<Rightarrow> bool" where
  "uart_inv s \<longleftrightarrow> length (uart_tx_buf s) = UART_TX_BUF_SIZE \<and> unat (uart_tx_w s - uart_tx_r s) \<le> UART_TX_BUF_SIZE"

definition uart_contents :: "'z uart_scheme \<Rightarrow> u8 list" where
  "uart_contents s = ring_contents (uart_tx_buf s) (uart_tx_r s) (uart_tx_w s)"

text \<open>The updates that \<open>uartputc\<close> and \<open>uartstart\<close> make.\<close>

definition uart_put :: "u8 \<Rightarrow> 'z uart_scheme \<Rightarrow> 'z uart_scheme" where
  "uart_put c s = s\<lparr>uart_tx_buf := (uart_tx_buf s)[unat (uart_tx_w s) mod UART_TX_BUF_SIZE := c],
     uart_tx_w := uart_tx_w s + 1\<rparr>"

definition uart_front :: "'z uart_scheme \<Rightarrow> u8" where
  "uart_front s = uart_tx_buf s ! (unat (uart_tx_r s) mod UART_TX_BUF_SIZE)"

definition uart_drop :: "'z uart_scheme \<Rightarrow> 'z uart_scheme" where
  "uart_drop s = s\<lparr>uart_tx_r := uart_tx_r s + 1\<rparr>"

definition uart_full :: "'z uart_scheme \<Rightarrow> bool" where
  "uart_full s \<longleftrightarrow> uart_tx_w s = uart_tx_r s + of_nat UART_TX_BUF_SIZE"

definition uart_empty :: "'z uart_scheme \<Rightarrow> bool" where
  "uart_empty s \<longleftrightarrow> uart_tx_w s = uart_tx_r s"

interpretation uart_queue: bounded_queue uart_inv uart_contents UART_TX_BUF_SIZE
  uart_put uart_front uart_drop uart_full uart_empty
proof
  fix s :: "'z uart_scheme" and c
  assume i: "uart_inv s"
  have w: "uart_full s \<longleftrightarrow> uart_tx_w s - uart_tx_r s = 32"
    by (auto simp: uart_full_def UART_TX_BUF_SIZE_def algebra_simps)
  then show f: "uart_full s \<longleftrightarrow> length (uart_contents s) = UART_TX_BUF_SIZE"
    by (simp add: uart_contents_def UART_TX_BUF_SIZE_def word_unat_eq_iff)
  show "length (uart_contents s) \<le> UART_TX_BUF_SIZE"
    using i by (simp add: uart_contents_def uart_inv_def)
  show e: "uart_empty s \<longleftrightarrow> uart_contents s = []"
    by (auto simp: uart_empty_def uart_contents_def ring_contents_empty)
  {
    assume "\<not> uart_full s"
    then have n: "unat (uart_tx_w s - uart_tx_r s) < UART_TX_BUF_SIZE"
      using f i by (simp add: uart_contents_def uart_inv_def)
    then show "uart_contents (uart_put c s) = uart_contents s @ [c]"
      using i ring_put [of "uart_tx_buf s" UART_TX_BUF_SIZE "uart_tx_w s" "uart_tx_r s" c]
      by (simp add: uart_contents_def uart_put_def uart_inv_def UART_TX_BUF_SIZE_def)
    then have "length (uart_contents (uart_put c s)) \<le> UART_TX_BUF_SIZE"
      using n by (simp add: uart_contents_def)
    then show "uart_inv (uart_put c s)"
      using i by (simp add: uart_contents_def uart_inv_def uart_put_def)
  next
    assume "\<not> uart_empty s"
    then show c: "uart_contents s = uart_front s # uart_contents (uart_drop s)"
      using i ring_get [of "uart_tx_r s" "uart_tx_w s" "uart_tx_buf s"]
      by (auto simp: uart_contents_def uart_front_def uart_drop_def uart_inv_def uart_empty_def)
    have "length (uart_contents s) = Suc (length (uart_contents (uart_drop s)))" by (simp add: c)
    then show "uart_inv (uart_drop s)"
      using i by (simp add: uart_contents_def uart_inv_def uart_drop_def)
  }
qed

lemma ReadReg_run:
  "ReadReg reg s = Ok (ucast (mmio_in s (mmio_clk s) (UART0 + reg))) (s\<lparr>mmio_clk := Suc (mmio_clk s)\<rparr>)"
  by (simp add: ReadReg_def mmio_read_def kbind_def)

lemma and_FF: "(ucast (c :: u8) :: u32) AND 0xFF = ucast c"
proof -
  have "(ucast c :: u32) AND 0xFF = take_bit 8 (ucast c)"
    by (simp add: take_bit_eq_mask mask_eq_exp_minus_1)
  also have "\<dots> = ucast c"
    by (rule bit_word_eqI) (auto simp: bit_take_bit_iff bit_ucast_iff dest: bit_imp_le_length)
  finally show ?thesis .
qed

lemma WriteReg_byte:
  "WriteReg reg (ucast (c :: u8)) s = Ok () (s\<lparr>mmio_log := (UART0 + reg, ucast c) # mmio_log s\<rparr>)"
  by (simp add: WriteReg_def mmio_write_def and_FF)

text \<open>\<open>wakeup\<close> does not touch the queue, nor the queue \<open>wakeup\<close>'s condition.\<close>

lemma uart_frame [simp]:
  "uart_contents (s\<lparr>procs := ps\<rparr>) = uart_contents s" "uart_contents (s\<lparr>mmio_log := l\<rparr>) = uart_contents s"
  "uart_contents (s\<lparr>mmio_clk := n\<rparr>) = uart_contents s"
  "uart_inv (s\<lparr>procs := ps\<rparr>) = uart_inv s" "uart_inv (s\<lparr>mmio_log := l\<rparr>) = uart_inv s"
  "uart_inv (s\<lparr>mmio_clk := n\<rparr>) = uart_inv s"
  by (simp_all add: uart_contents_def uart_inv_def)

lemma uartstart_loop_sends:
  fixes s :: "'z uart_scheme"
  assumes "uart_inv s" "wake_ready s" "length (uart_contents s) < k"
  shows "\<exists>sent t. uartstart_loop k s = Ok () t \<and> uart_inv t \<and> wake_ready t \<and> uart_contents s = sent @ uart_contents t
    \<and> mmio_log t = rev (map (\<lambda>c. (UART0 + THR, ucast c)) sent) @ mmio_log s
    \<and> (uart_contents t \<noteq> [] \<longrightarrow> (ucast (mmio_in s (mmio_clk t - 1) (UART0 + LSR)) :: u8) AND LSR_TX_IDLE = 0)"
  using assms
proof (induction k arbitrary: s)
  case 0
  then show ?case by simp
next
  case (Suc k)
  let ?s1 = "s\<lparr>mmio_clk := Suc (mmio_clk s)\<rparr>"
  let ?lsr = "ucast (mmio_in s (mmio_clk s) (UART0 + LSR)) :: u8"
  consider "uart_empty s" | "\<not> uart_empty s" "?lsr AND LSR_TX_IDLE = 0" | "\<not> uart_empty s" "?lsr AND LSR_TX_IDLE \<noteq> 0"
    by blast
  then show ?case
  proof cases
    case 1
    then have "uartstart_loop (Suc k) s = Ok () ?s1"
      by (simp add: uart_empty_def kbind_Ok ReadReg_run)
    moreover have "uart_contents s = []" using 1 uart_queue.emp_iff Suc.prems(1) by blast
    ultimately show ?thesis using Suc.prems by (auto simp: wake_ready_def)
  next
    case 2
    then have "uartstart_loop (Suc k) s = Ok () ?s1"
      by (simp add: uart_empty_def kbind_Ok ReadReg_run)
    then show ?thesis using 2 Suc.prems by (auto simp: wake_ready_def)
  next
    case 3
    let ?c = "uart_front s"
    let ?s2 = "uart_drop ?s1"
    let ?s3 = "?s2\<lparr>procs := woken (Some Ch_uart_tx_r) (curproc s) (procs s)\<rparr>"
    let ?s4 = "?s3\<lparr>mmio_log := (UART0 + THR, ucast ?c) # mmio_log s\<rparr>"
    have c: "uart_contents s = ?c # uart_contents ?s4" and i: "uart_inv ?s4"
      using uart_queue.deq_contents [of s] uart_queue.deq_inv [of s] 3 Suc.prems(1)
      by (simp_all add: uart_contents_def uart_inv_def uart_drop_def)
    have w: "wake_ready ?s2" "wake_ready ?s4"
      using Suc.prems(2) by (simp_all add: wake_ready_def uart_drop_def)
    have "uartstart_loop (Suc k) s = uartstart_loop k ?s4"
      using 3 wakeup_ready [OF w(1), of "Some Ch_uart_tx_r"]
      by (simp add: uart_empty_def kbind_Ok kseq_Ok ReadReg_run WriteReg_byte uart_front_def uart_drop_def)
    moreover obtain sent t where t: "uartstart_loop k ?s4 = Ok () t" "uart_inv t" "wake_ready t"
      "uart_contents ?s4 = sent @ uart_contents t"
      "mmio_log t = rev (map (\<lambda>c. (UART0 + THR, ucast c)) sent) @ mmio_log ?s4"
      "uart_contents t \<noteq> [] \<longrightarrow> (ucast (mmio_in ?s4 (mmio_clk t - 1) (UART0 + LSR)) :: u8) AND LSR_TX_IDLE = 0"
      using Suc.IH [OF i w(2)] Suc.prems(3) c by auto
    ultimately show ?thesis
      using c by (intro exI [of _ "?c # sent"] exI [of _ t]) (simp add: uart_drop_def)
  qed
qed

text \<open>C21. \<open>uartstart\<close> returns whatever the device answers. It takes characters out of the transmit queue
  in the order they were put in and writes each of them once to the transmit register, with nothing
  else written, and stops only when the queue is empty or when the device's last answer was that it
  is busy.\<close>

theorem uartstart_sends:
  assumes "uart_inv s" "wake_ready s"
  shows "\<exists>sent t. uartstart s = Ok () t \<and> uart_inv t \<and> uart_contents s = sent @ uart_contents t
    \<and> mmio_log t = rev (map (\<lambda>c. (UART0 + THR, ucast c)) sent) @ mmio_log s
    \<and> (uart_contents t \<noteq> [] \<longrightarrow> (ucast (mmio_in s (mmio_clk t - 1) (UART0 + LSR)) :: u8) AND LSR_TX_IDLE = 0)"
proof -
  have "uartstart s = uartstart_loop (Suc (length (uart_contents s))) s"
    by (simp add: uartstart_def uart_contents_def)
  then show ?thesis using uartstart_loop_sends [OF assms, of "Suc (length (uart_contents s))"] by auto
qed

text \<open>A driver with some characters queued, for a device that is always idle.\<close>

definition uart0 :: "u8 list \<Rightarrow> uart" where
  "uart0 cs = \<lparr>mem = \<lambda>_. 0, held = [], kend = 0, freelist = 0, kernel_pagetable = 0, etext = 0,
     trampoline = 0, satp = 0, procs = replicate NPROC proc0, initproc = None, nextpid = 1, curproc = None,
     tp = 0, forkret_pc = 0, mmio_in = \<lambda>_ _. 32, mmio_clk = 0, mmio_log = [], spin_limit = 1000,
     uart_tx_buf = cs @ replicate (32 - length cs) 0, uart_tx_w = of_nat (length cs), uart_tx_r = 0,
     panicked = False\<rparr>"

theorem uartstart_sends_witness:
  "\<exists>t. uartstart (uart0 [104, 105]) = Ok () t \<and> mmio_log t = [(UART0 + THR, 105), (UART0 + THR, 104)]"
proof -
  have i: "uart_inv (uart0 [104, 105])" "wake_ready (uart0 [104, 105])"
    by (simp_all add: uart_inv_def uart0_def UART_TX_BUF_SIZE_def wake_ready_def)
  have c: "uart_contents (uart0 [104, 105]) = [104, 105]"
    by (simp add: uart_contents_def uart0_def ring_contents_def upt_rec)
  from uartstart_sends [OF i] obtain sent t where t: "uartstart (uart0 [104, 105]) = Ok () t"
    "uart_contents (uart0 [104, 105]) = sent @ uart_contents t"
    "mmio_log t = rev (map (\<lambda>c. (UART0 + THR, ucast c)) sent)" "uart_contents t = []"
    by (auto simp: uart0_def LSR_TX_IDLE_def)
  then show ?thesis using c by auto
qed

end
