(* ===== verification/Printf.thy ===== *)
theory Printf
  imports Uart
begin

text \<open>
  \<open>kernel/printf.c\<close>, and \<open>consputc\<close> of \<open>kernel/console.c\<close>. What a call of \<open>printf\<close> prints is computed first,
  as the list of characters it passes to \<open>consputc\<close>; a number whose digits do not fit the 16 bytes
  of \<open>printint\<close>'s buffer, or an argument of the wrong kind, makes the call undefined.
\<close>

unbundle bit_operations_syntax

section \<open>Formatting\<close>

definition bytes_of :: "string \<Rightarrow> u8 list" where "bytes_of = map of_char"

definition digits :: "u8 list" where "digits = bytes_of ''0123456789abcdef''"

text \<open>The digits of \<open>x\<close>, the last one first; \<open>base\<close> is 10 or 16.\<close>

function print_digits :: "u64 \<Rightarrow> u64 \<Rightarrow> u8 list" where
  "print_digits base x = digits ! unat (x mod base) #
     (if base \<le> 1 \<or> x div base = 0 then [] else print_digits base (x div base))"
  by auto

termination
proof (relation "measure (\<lambda>(base, x). unat x)")
  fix base x :: u64
  assume "\<not> (base \<le> 1 \<or> x div base = 0)"
  then have "1 < unat base" "unat x div unat base \<noteq> 0"
    by (auto simp: word_le_nat_alt word_unat_eq_iff unat_div)
  then have "unat x div unat base < unat x" by (intro div_less_dividend) (auto intro: gr0I)
  then show "((base, x div base), base, x) \<in> measure (\<lambda>(base, x). unat x)" by (simp add: unat_div)
qed simp

declare print_digits.simps [simp del]

definition printint :: "u64 \<Rightarrow> u64 \<Rightarrow> bool \<Rightarrow> u8 list option" where
  "printint xx base sign =
     (let neg = sign \<and> sint xx < 0;
          x = if neg then - xx else xx;
          buf = print_digits base x @ (if neg then bytes_of ''-'' else []) in
      if length buf > 16 then None else Some (rev buf))"

definition printptr :: "u64 \<Rightarrow> u8 list" where
  "printptr x = bytes_of ''0x'' @ map (\<lambda>i. digits ! unat (drop_bit 60 (push_bit (4 * i) x))) [0..<16]"

text \<open>The variable arguments: a register with an integer, or a pointer to a string.\<close>

datatype va_arg = VInt u64 | VStr "u8 list option"

definition va_int :: "va_arg list \<Rightarrow> (u64 \<times> va_arg list) option" where
  "va_int ap = (case ap of VInt x # r \<Rightarrow> Some (scast (ucast x :: u32), r) | _ \<Rightarrow> None)"

definition va_uint64 :: "va_arg list \<Rightarrow> (u64 \<times> va_arg list) option" where
  "va_uint64 ap = (case ap of VInt x # r \<Rightarrow> Some (x, r) | _ \<Rightarrow> None)"

definition va_str :: "va_arg list \<Rightarrow> (u8 list \<times> va_arg list) option" where
  "va_str ap = (case ap of VStr p # r \<Rightarrow> Some (case p of None \<Rightarrow> bytes_of ''(null)'' | Some s \<Rightarrow> takeWhile (\<lambda>c. c \<noteq> 0) s, r)
     | _ \<Rightarrow> None)"

text \<open>One conversion: from the format after the \<open>%\<close> and the arguments, the characters printed, how many
  characters of the format it takes, and the remaining arguments.\<close>

definition conv :: "(va_arg list \<Rightarrow> (u64 \<times> va_arg list) option) \<Rightarrow> va_arg list \<Rightarrow> u64 \<Rightarrow> bool \<Rightarrow> nat \<Rightarrow>
    (u8 list \<times> nat \<times> va_arg list) option" where
  "conv va ap base sign n = (case va ap of None \<Rightarrow> None
     | Some (x, r) \<Rightarrow> map_option (\<lambda>cs. (cs, n, r)) (printint x base sign))"

definition fmt_at :: "u8 list \<Rightarrow> nat \<Rightarrow> u8" where
  "fmt_at fmt i = (if i < length fmt then fmt ! i else 0)"

definition printf_conv :: "u8 list \<Rightarrow> va_arg list \<Rightarrow> (u8 list \<times> nat \<times> va_arg list) option" where
  "printf_conv fmt ap =
     (let c0 = fmt_at fmt 0;
          c1 = if c0 \<noteq> 0 then fmt_at fmt 1 else 0;
          c2 = if c1 \<noteq> 0 then fmt_at fmt 2 else 0;
          is = (\<lambda>c ch. c = (of_char ch :: u8)) in
      if is c0 (CHR ''d'') then conv va_int ap 10 True 1
      else if is c0 (CHR ''l'') \<and> is c1 (CHR ''d'') then conv va_uint64 ap 10 True 2
      else if is c0 (CHR ''l'') \<and> is c1 (CHR ''l'') \<and> is c2 (CHR ''d'') then conv va_uint64 ap 10 True 3
      else if is c0 (CHR ''u'') then conv va_int ap 10 False 1
      else if is c0 (CHR ''l'') \<and> is c1 (CHR ''u'') then conv va_uint64 ap 10 False 2
      else if is c0 (CHR ''l'') \<and> is c1 (CHR ''l'') \<and> is c2 (CHR ''u'') then conv va_uint64 ap 10 False 3
      else if is c0 (CHR ''x'') then conv va_int ap 16 False 1
      else if is c0 (CHR ''l'') \<and> is c1 (CHR ''x'') then conv va_uint64 ap 16 False 2
      else if is c0 (CHR ''l'') \<and> is c1 (CHR ''l'') \<and> is c2 (CHR ''x'') then conv va_uint64 ap 16 False 3
      else if is c0 (CHR ''p'') then map_option (\<lambda>(x, r). (printptr x, 1, r)) (va_uint64 ap)
      else if is c0 (CHR ''s'') then map_option (\<lambda>(s, r). (s, 1, r)) (va_str ap)
      else if is c0 (CHR ''%'') then Some (bytes_of ''%'', 1, ap)
      else if c0 = 0 then Some ([], 0, ap)
      else Some (bytes_of ''%'' @ [c0], 1, ap))"

text \<open>The loop of \<open>printf\<close>; \<open>fmt\<close> is the format without its NUL.\<close>

function printf_chars :: "u8 list \<Rightarrow> va_arg list \<Rightarrow> u8 list option" where
  "printf_chars [] ap = Some []"
| "printf_chars (c # fmt) ap =
     (if c = 0 then Some []
      else if c \<noteq> of_char (CHR ''%'') then map_option ((#) c) (printf_chars fmt ap)
      else case printf_conv fmt ap of None \<Rightarrow> None
        | Some (cs, n, ap') \<Rightarrow> if n = 0 then Some cs else map_option ((@) cs) (printf_chars (drop n fmt) ap'))"
  by pat_completeness auto

termination by (relation "measure (\<lambda>(fmt, ap). length fmt)") auto

section \<open>Printing\<close>

record printfst = uart +
  pr_locking :: bool

definition BACKSPACE :: u32 where "BACKSPACE = 0x100"

definition consputc :: "u32 \<Rightarrow> ('z uart_scheme, unit) km" where
  "consputc c =
     (if c = BACKSPACE then kdo [uartputc_sync 8, uartputc_sync 32, uartputc_sync 8]
      else uartputc_sync c)"

definition printf :: "u8 list \<Rightarrow> va_arg list \<Rightarrow> ('z printfst_scheme, unit) km" where
  "printf fmt ap =
     kbind (kget pr_locking) (\<lambda>locking.
     kseq (kwhen locking (acquire L_pr))
    (kseq (case printf_chars fmt ap of None \<Rightarrow> kundef | Some cs \<Rightarrow> kfor (\<lambda>c. consputc (ucast c)) cs)
    (kwhen locking (release L_pr))))"

text \<open>\<open>panic\<close> itself. Calls of it elsewhere in the model end in the result \<open>Panic\<close>.\<close>

definition printf_panic :: "u8 list \<Rightarrow> ('z printfst_scheme, 'a) km" where
  "printf_panic msg =
     kseq (kdo
       [kmodify (\<lambda>s. s\<lparr>pr_locking := False\<rparr>),
        printf (bytes_of ''panic: '') [],
        printf (bytes_of ''%s'' @ [10]) [VStr (Some msg)],
        kmodify (\<lambda>s. s\<lparr>panicked := True\<rparr>)])
     kspin"

definition printfinit :: "('z printfst_scheme, unit) km" where
  "printfinit = kmodify (\<lambda>s. s\<lparr>pr_locking := True\<rparr>)"

section \<open>What a number looks like\<close>

text \<open>Reading a printed number back: the value of a string of digits, and of a string that may
  start with a minus sign.\<close>

definition digit_val :: "u8 \<Rightarrow> nat" where
  "digit_val c = (if c \<le> 57 then unat c - 48 else unat c - 87)"

definition digits_val :: "nat \<Rightarrow> u8 list \<Rightarrow> nat" where
  "digits_val base cs = foldl (\<lambda>a c. a * base + digit_val c) 0 cs"

definition number_val :: "nat \<Rightarrow> u8 list \<Rightarrow> int" where
  "number_val base cs =
     (if cs \<noteq> [] \<and> hd cs = of_char (CHR ''-'') then - int (digits_val base (tl cs))
      else int (digits_val base cs))"

lemma digits_eval:
  "digits = [48, 49, 50, 51, 52, 53, 54, 55, 56, 57, 97, 98, 99, 100, 101, 102]"
  by (simp add: digits_def bytes_of_def)

lemma digit_val_digits:
  assumes "n < 16"
  shows "digit_val (digits ! n) = n \<and> digits ! n \<noteq> 45"
proof -
  have "list_all (\<lambda>n. digit_val (digits ! n) = n \<and> digits ! n \<noteq> 45) [0..<16]"
    by code_simp
  then show ?thesis using assms by (simp add: list_all_iff)
qed

lemma unat_mod_less16:
  fixes x base :: u64
  assumes "1 < base" "base \<le> 16"
  shows "unat (x mod base) < 16"
proof -
  have "unat x mod unat base < unat base"
    using assms(1) by (intro mod_less_divisor) (simp add: word_less_nat_alt)
  moreover have "unat base \<le> 16" using assms(2) by (simp add: word_le_nat_alt)
  ultimately show ?thesis by (simp add: unat_mod)
qed

lemma digits_val_snoc: "digits_val b (cs @ [c]) = digits_val b cs * b + digit_val c"
  by (simp add: digits_val_def)

lemma print_digits_val:
  "1 < base \<Longrightarrow> base \<le> 16 \<Longrightarrow> digits_val (unat base) (rev (print_digits base x)) = unat x"
proof (induction base x rule: print_digits.induct)
  case (1 base x)
  have d: "digit_val (digits ! unat (x mod base)) = unat x mod unat base"
    using digit_val_digits [OF unat_mod_less16 [OF "1.prems"]] by (simp add: unat_mod)
  show ?case
  proof (cases "x div base = 0")
    case True
    then have "unat x div unat base = 0" by (simp add: unat_div [symmetric])
    then have "unat x mod unat base = unat x"
      by (metis add_0 div_mult_mod_eq mult_zero_left)
    then show ?thesis using True d
      by (subst print_digits.simps) (simp add: digits_val_def)
  next
    case False
    then have "digits_val (unat base) (rev (print_digits base (x div base))) = unat x div unat base"
      using "1.IH" "1.prems" by (simp add: unat_div not_le)
    moreover have "\<not> base \<le> 1" using "1.prems" by (simp add: not_le)
    ultimately show ?thesis using False d
      by (subst print_digits.simps) (simp add: digits_val_snoc)
  qed
qed

lemma print_digits_no_minus:
  "1 < base \<Longrightarrow> base \<le> 16 \<Longrightarrow> 45 \<notin> set (print_digits base x)"
proof (induction base x rule: print_digits.induct)
  case (1 base x)
  show ?case using "1.IH" "1.prems" digit_val_digits [OF unat_mod_less16 [OF "1.prems", of x]]
    by (subst print_digits.simps) (auto simp: not_le)
qed

lemma print_digits_length:
  "1 < base \<Longrightarrow> length (print_digits base x) \<le> Suc k \<longleftrightarrow> unat x < unat base ^ Suc k"
proof (induction k arbitrary: x)
  case 0
  then have b: "0 < unat base" by (simp add: word_less_nat_alt)
  have "length (print_digits base x) \<le> 1 \<longleftrightarrow> x div base = 0"
    using 0 by (subst print_digits.simps, subst print_digits.simps) (auto simp: not_le)
  also have "\<dots> \<longleftrightarrow> unat x < unat base"
    using b by (simp add: word_unat_eq_iff unat_div div_eq_0_iff)
  finally show ?case by simp
next
  case (Suc k)
  then have b: "0 < unat base" by (simp add: word_less_nat_alt)
  show ?case
  proof (cases "x div base = 0")
    case True
    then have "unat x < unat base" using b by (simp add: word_unat_eq_iff unat_div div_eq_0_iff)
    also have "\<dots> \<le> unat base ^ Suc (Suc k)" using b by (intro self_le_power) simp_all
    finally show ?thesis using True by (subst print_digits.simps) simp
  next
    case False
    then have "length (print_digits base x) \<le> Suc (Suc k) \<longleftrightarrow> unat x div unat base < unat base ^ Suc k"
      using Suc.IH [OF Suc.prems, of "x div base"] Suc.prems
      by (subst print_digits.simps) (simp add: unat_div not_le [symmetric])
    also have "\<dots> \<longleftrightarrow> unat x < unat base ^ Suc (Suc k)"
      using b by (simp add: less_mult_imp_div_less div_less_iff_less_mult mult.commute)
    finally show ?thesis .
  qed
qed

lemma minus_char: "bytes_of ''-'' = [45]" "of_char (CHR ''-'') = (45 :: u8)"
  by (simp_all add: bytes_of_def)

lemma sint_u64: "sint (x :: u64) = uint x - (if 2 ^ 63 \<le> uint x then 2 ^ 64 else 0)"
proof -
  have "bit (uint x) 63 \<longleftrightarrow> 2 ^ 63 \<le> uint x"
  proof (cases "2 ^ 63 \<le> uint x")
    case True
    then have "uint x div 2 ^ 63 = 1" using uint_lt2p [of x] by simp
    then show ?thesis using True by (simp add: bit_iff_odd)
  next
    case False
    then show ?thesis by (simp add: bit_iff_odd)
  qed
  then show ?thesis
    using uint_lt2p [of x] by (simp add: sint_uint signed_take_bit_eq_take_bit_minus take_bit_int_eq_self)
qed

lemma abs_sint: "sint (x :: u64) < 0 \<Longrightarrow> int (unat (- x)) = - sint x"
  using uint_lt2p [of x]
  by (auto simp: sint_u64 uint_word_ariths zmod_zminus1_eq_if mod_pos_pos_trivial split: if_splits)

lemma nonneg_sint: "\<not> sint (x :: u64) < 0 \<Longrightarrow> int (unat x) = sint x"
  using uint_lt2p [of x] by (auto simp: sint_u64 split: if_splits)

lemma decimal_length: "length (print_digits 10 x) \<le> Suc k \<longleftrightarrow> uint x < 10 ^ Suc k"
proof -
  have "unat x < 10 ^ Suc k \<longleftrightarrow> int (unat x) < int (10 ^ Suc k)" by (rule of_nat_less_iff [symmetric])
  then have "unat x < 10 ^ Suc k \<longleftrightarrow> uint x < 10 ^ Suc k" by simp
  then show ?thesis using print_digits_length [of 10 x k] by simp
qed

text \<open>C19. What \<open>printint\<close> prints reads back as the number it was given: the signed value when the
  \<open>sign\<close> argument is set, the unsigned value otherwise, in any base from 2 to 16.\<close>

theorem printint_reads_back:
  assumes "1 < base" "base \<le> 16" "printint xx base sign = Some cs"
  shows "number_val (unat base) cs = (if sign then sint xx else uint xx)"
proof (cases "sign \<and> sint xx < 0")
  case True
  then have "cs = 45 # rev (print_digits base (- xx))"
    using assms(3) by (simp add: printint_def Let_def minus_char split: if_splits)
  then show ?thesis using True abs_sint [of xx] print_digits_val [OF assms(1,2), of "- xx"]
    by (simp add: number_val_def minus_char)
next
  case False
  then have cs: "cs = rev (print_digits base xx)"
    using assms(3) by (auto simp: printint_def Let_def split: if_splits)
  moreover have "print_digits base xx \<noteq> []" by (subst print_digits.simps) simp
  ultimately have "hd cs \<noteq> 45"
    using print_digits_no_minus [OF assms(1,2), of xx] by (metis hd_in_set rev_is_Nil_conv set_rev)
  then show ?thesis using False cs nonneg_sint [of xx] print_digits_val [OF assms(1,2), of xx]
    by (auto simp: number_val_def minus_char)
qed

theorem printint_reads_back_witness:
  "number_val 10 (bytes_of ''-42'') = - 42"
proof -
  have "printint (- 42) 10 True = Some (bytes_of ''-42'')" by code_simp
  from printint_reads_back [OF _ _ this] show ?thesis by simp
qed

text \<open>C20. The 16 bytes of \<open>printint\<close>'s buffer are enough for every number in base 16, and in base 10
  exactly for the unsigned numbers below \<open>10 ^ 16\<close> and the signed numbers from \<open>- 10 ^ 15 + 1\<close> to
  \<open>10 ^ 16 - 1\<close>: for the others, which \<open>%lu\<close>, \<open>%ld\<close> and, for negative numbers, \<open>%u\<close> can be given, the loop
  writes past the end of \<open>buf\<close>.\<close>

theorem printint_overflow:
  "printint xx 16 False \<noteq> None
   \<and> (printint xx 10 False = None \<longleftrightarrow> uint xx \<ge> 10 ^ 16)
   \<and> (printint xx 10 True = None \<longleftrightarrow> sint xx \<ge> 10 ^ 16 \<or> sint xx \<le> - (10 ^ 15))"
proof (intro conjI)
  show "printint xx 16 False \<noteq> None"
    using print_digits_length [of 16 xx 15] unat_u64 [of xx] by (simp add: printint_def)
  show "printint xx 10 False = None \<longleftrightarrow> uint xx \<ge> 10 ^ 16"
    using decimal_length [of xx 15] by (auto simp: printint_def)
  show "printint xx 10 True = None \<longleftrightarrow> sint xx \<ge> 10 ^ 16 \<or> sint xx \<le> - (10 ^ 15)"
  proof (cases "sint xx < 0")
    case True
    then show ?thesis using decimal_length [of "- xx" 14] abs_sint [of xx]
      by (auto simp: printint_def minus_char)
  next
    case False
    then show ?thesis using decimal_length [of xx 15] nonneg_sint [of xx] by (auto simp: printint_def)
  qed
qed

text \<open>A state for the examples of the theories above.\<close>

definition printfst0 :: printfst where
  "printfst0 = uart.extend (uart0 []) (printfst.fields True)"

end
