(* ===== verification/Console.thy ===== *)
theory Console
  imports Printf
begin

text \<open>
  \<open>kernel/console.c\<close>: console input with line editing and console output; \<open>uartintr\<close> of \<open>kernel/uart.c\<close>,
  which feeds it; and \<open>procdump\<close> of \<open>kernel/proc.c\<close>, which it calls.
\<close>

unbundle bit_operations_syntax

section \<open>State\<close>

definition INPUT_BUF_SIZE :: nat where "INPUT_BUF_SIZE = 128"
definition NDEV :: nat where "NDEV = 10"
definition CONSOLE :: nat where "CONSOLE = 1"

text \<open>Control characters, \<open>C(x)\<close>.\<close>

definition Cctl :: "char \<Rightarrow> int" where "Cctl x = of_char x - of_char (CHR ''@'')"

text \<open>The functions that \<open>devsw\<close> may point to.\<close>

datatype devread = Consoleread
datatype devwrite = Consolewrite

record devsw =
  dev_read :: "devread option"
  dev_write :: "devwrite option"

record console = printfst +
  cons_buf :: "u8 list"
  cons_r :: u32
  cons_w :: u32
  cons_e :: u32
  devsw :: "devsw list"

section \<open>Output\<close>

text \<open>The loop of \<open>consolewrite\<close> at its \<open>i\<close>-th byte, with \<open>k\<close> bytes to go.\<close>

primrec consolewrite_loop :: "nat \<Rightarrow> place \<Rightarrow> int \<Rightarrow> ('z console_scheme, int) km" where
  "consolewrite_loop 0 src i = kreturn i"
| "consolewrite_loop (Suc k) src i =
     kbind (either_copyin src 1) (\<lambda>(r, bs).
     if r = - 1 then kreturn i
     else kseq (uartputc (ucast (hd bs))) (consolewrite_loop k (advance 1 src) (i + 1)))"

definition consolewrite :: "place \<Rightarrow> int \<Rightarrow> ('z console_scheme, int) km" where
  "consolewrite src n = consolewrite_loop (nat n) src 0"

section \<open>Input\<close>

text \<open>The loop of \<open>consoleread\<close> with \<open>n\<close> bytes left of \<open>target\<close>; also where it resumes after sleeping.\<close>

primrec consoleread_loop :: "nat \<Rightarrow> place \<Rightarrow> nat \<Rightarrow> ('z console_scheme, int) km" where
  "consoleread_loop 0 dst target = kseq (release L_cons) (kreturn (int target))"
| "consoleread_loop (Suc n) dst target =
     kbind (kget (\<lambda>s. cons_r s = cons_w s)) (\<lambda>empty.
     if empty then
       kbind this_proc (\<lambda>p.
       kbind (killed p) (\<lambda>k.
       if k then kseq (release L_cons) (kreturn (- 1))
       else sleep Ch_cons_r L_cons))
     else
       kbind (kget (\<lambda>s. cons_buf s ! (unat (cons_r s) mod INPUT_BUF_SIZE))) (\<lambda>c.
       kseq (kmodify (\<lambda>s. s\<lparr>cons_r := cons_r s + 1\<rparr>))
      (if uint c = Cctl (CHR ''D'') then
         kseq (kwhen (Suc n < target) (kmodify (\<lambda>s. s\<lparr>cons_r := cons_r s - 1\<rparr>)))
        (kseq (release L_cons)
        (kreturn (int target - int (Suc n))))
       else
         kbind (either_copyout dst [c]) (\<lambda>r.
         if r = - 1 then kseq (release L_cons) (kreturn (int target - int (Suc n)))
         else if c = 10 then kseq (release L_cons) (kreturn (int target - int n))
         else consoleread_loop n (advance 1 dst) target))))"

definition consoleread :: "place \<Rightarrow> int \<Rightarrow> ('z console_scheme, int) km" where
  "consoleread dst n =
     kseq (acquire L_cons)
    (if n > 0 then consoleread_loop (nat n) dst (nat n) else kseq (release L_cons) (kreturn 0))"

text \<open>\<open>p->name\<close> as a C string.\<close>

definition state_name :: "procstate \<Rightarrow> string" where
  "state_name st = (case st of UNUSED \<Rightarrow> ''unused'' | USED \<Rightarrow> ''used'' | SLEEPING \<Rightarrow> ''sleep ''
     | RUNNABLE \<Rightarrow> ''runble'' | RUNNING \<Rightarrow> ''run   '' | ZOMBIE \<Rightarrow> ''zombie'')"

definition procdump :: "('z printfst_scheme, unit) km" where
  "procdump = kseq (printf [10] []) (kfor (\<lambda>p.
     kbind (pget p (\<lambda>q. (p_state q, p_pid q, p_name q))) (\<lambda>(st, pid, name).
     kwhen (st \<noteq> UNUSED) (kdo
       [printf (bytes_of ''%d %s %s'') [VInt (of_int pid), VStr (Some (bytes_of (state_name st))), VStr (Some name)],
        printf [10] []]))) [0..<NPROC])"

text \<open>Kill line: it stops at the latest when everything not yet handed over is erased.\<close>

primrec kill_line :: "nat \<Rightarrow> ('z console_scheme, unit) km" where
  "kill_line 0 = kspin"
| "kill_line (Suc k) =
     kbind (kget (\<lambda>s. cons_e s \<noteq> cons_w s \<and> cons_buf s ! (unat (cons_e s - 1) mod INPUT_BUF_SIZE) \<noteq> 10)) (\<lambda>more.
     if more then
       kseq (kmodify (\<lambda>s. s\<lparr>cons_e := cons_e s - 1\<rparr>))
      (kseq (consputc BACKSPACE)
      (kill_line k))
     else kreturn ())"

definition consoleintr :: "int \<Rightarrow> ('z console_scheme, unit) km" where
  "consoleintr c0 =
     kseq (acquire L_cons)
    (kseq
      (if c0 = Cctl (CHR ''P'') then procdump
       else if c0 = Cctl (CHR ''U'') then
         kbind (kget (\<lambda>s. unat (cons_e s - cons_w s))) (\<lambda>n. kill_line (Suc n))
       else if c0 = Cctl (CHR ''H'') \<or> c0 = 0x7f then
         kbind (kget (\<lambda>s. cons_e s \<noteq> cons_w s)) (\<lambda>some.
         kwhen some (kdo [kmodify (\<lambda>s. s\<lparr>cons_e := cons_e s - 1\<rparr>), consputc BACKSPACE]))
       else
         kbind (kget (\<lambda>s. c0 \<noteq> 0 \<and> unat (cons_e s - cons_r s) < INPUT_BUF_SIZE)) (\<lambda>room.
         let c = if c0 = 13 then 10 else c0 in
         kwhen room
          (kseq (consputc (of_int c))
          (kseq (kmodify (\<lambda>s. s\<lparr>cons_buf := (cons_buf s)[unat (cons_e s) mod INPUT_BUF_SIZE := of_int c], cons_e := cons_e s + 1\<rparr>))
          (kbind (kget (\<lambda>s. c = 10 \<or> c = Cctl (CHR ''D'') \<or> unat (cons_e s - cons_r s) = INPUT_BUF_SIZE)) (\<lambda>line.
           kwhen line (kdo
             [kmodify (\<lambda>s. s\<lparr>cons_w := cons_e s\<rparr>),
              wakeup (Some Ch_cons_r)])))))))
    (release L_cons))"

definition consoleinit :: "('z console_scheme, unit) km" where
  "consoleinit = kdo
     [uartinit,
      kmodify (\<lambda>s. s\<lparr>devsw := (devsw s)[CONSOLE := \<lparr>dev_read = Some Consoleread, dev_write = Some Consolewrite\<rparr>]\<rparr>)]"

text \<open>The input loop of \<open>uartintr\<close>, which goes on as long as the device has characters.\<close>

primrec uartintr_loop :: "nat \<Rightarrow> ('z console_scheme, unit) km" where
  "uartintr_loop 0 = kspin"
| "uartintr_loop (Suc k) =
     kbind uartgetc (\<lambda>c. if c = - 1 then kreturn () else kseq (consoleintr c) (uartintr_loop k))"

definition uartintr :: "('z console_scheme, unit) km" where
  "uartintr =
     kbind (kget spin_limit) (\<lambda>n.
     kseq (uartintr_loop n)
    (kdo [acquire L_uart_tx, uartstart, release L_uart_tx]))"

text \<open>A state for the examples of the theories above.\<close>

definition console0 :: console where
  "console0 = printfst.extend printfst0 (console.fields (replicate INPUT_BUF_SIZE 0) 0 0 0
     (replicate NDEV \<lparr>dev_read = None, dev_write = None\<rparr>))"

lemmas console0_defs = console0_def printfst0_def uart0_def uart.defs printfst.defs console.defs

end
