(* ===== verification/Sleeplock.thy ===== *)
theory Sleeplock
  imports Console
begin

text \<open>
  \<open>kernel/sleeplock.c\<close>. The sleep-locks of the buffers and of the inodes are named by the object they
  are in. \<open>acquiresleep\<close> on a lock that is taken ends in \<open>Block\<close>; when the process runs again it
  continues with \<open>acquiresleep_loop\<close>.
\<close>

record sleeplock =
  sl_locked :: bool
  sl_pid :: int

record slocks = console +
  sleeplocks :: "sleeplock_id \<Rightarrow> sleeplock"

definition initsleeplock :: "sleeplock_id \<Rightarrow> ('z slocks_scheme, unit) km" where
  "initsleeplock lk = kmodify (\<lambda>s. s\<lparr>sleeplocks := (sleeplocks s)(lk := \<lparr>sl_locked = False, sl_pid = 0\<rparr>)\<rparr>)"

definition acquiresleep_loop :: "sleeplock_id \<Rightarrow> ('z slocks_scheme, unit) km" where
  "acquiresleep_loop lk =
     kbind (kget (\<lambda>s. sl_locked (sleeplocks s lk))) (\<lambda>taken.
     if taken then sleep (Ch_sleeplock lk) (L_sleep lk)
     else kbind this_proc (\<lambda>p.
       kbind (pget p p_pid) (\<lambda>pid.
       kseq (kmodify (\<lambda>s. s\<lparr>sleeplocks := (sleeplocks s)(lk := \<lparr>sl_locked = True, sl_pid = pid\<rparr>)\<rparr>))
      (release (L_sleep lk)))))"

definition acquiresleep :: "sleeplock_id \<Rightarrow> ('z slocks_scheme, unit) km" where
  "acquiresleep lk = kseq (acquire (L_sleep lk)) (acquiresleep_loop lk)"

definition releasesleep :: "sleeplock_id \<Rightarrow> ('z slocks_scheme, unit) km" where
  "releasesleep lk = kdo
     [acquire (L_sleep lk),
      kmodify (\<lambda>s. s\<lparr>sleeplocks := (sleeplocks s)(lk := \<lparr>sl_locked = False, sl_pid = 0\<rparr>)\<rparr>),
      wakeup (Some (Ch_sleeplock lk)),
      release (L_sleep lk)]"

definition holdingsleep :: "sleeplock_id \<Rightarrow> ('z slocks_scheme, bool) km" where
  "holdingsleep lk =
     kseq (acquire (L_sleep lk))
    (kbind this_proc (\<lambda>p.
     kbind (kget (\<lambda>s. sl_locked (sleeplocks s lk) \<and> sl_pid (sleeplocks s lk) = p_pid (procs s ! p))) (\<lambda>r.
     kseq (release (L_sleep lk))
    (kreturn r))))"

definition slocks0 :: slocks where
  "slocks0 = console.extend console0 (slocks.fields (\<lambda>_. \<lparr>sl_locked = False, sl_pid = 0\<rparr>))"

lemmas slocks0_defs = slocks0_def console0_defs slocks.defs

end
