(* ===== verification/Bio.thy ===== *)
theory Bio
  imports Sleeplock
begin

text \<open>
  \<open>kernel/bio.c\<close>: the buffer cache. Buffers are named by their index; the list through \<open>prev\<close> and \<open>next\<close>
  is kept as in the C code, with the sentinel \<open>bcache.head\<close> at index \<open>NBUF\<close>. The disk is an array of
  blocks together with the history of the writes to it, the latest first; \<open>disk_rw\<close> is what a
  completed \<open>virtio_disk_rw\<close> does, and the theory \<open>Vdisk\<close> proves that the driver does just that.
\<close>

definition MAXOPBLOCKS :: nat where "MAXOPBLOCKS = 10"
definition LOGSIZE :: nat where "LOGSIZE = MAXOPBLOCKS * 3"
definition NBUF :: nat where "NBUF = MAXOPBLOCKS * 3"
definition BSIZE :: nat where "BSIZE = 1024"

record buf =
  b_valid :: bool
  b_disk :: bool
  b_dev :: u32
  b_blockno :: u32
  b_refcnt :: u32
  b_prev :: nat
  b_next :: nat
  b_data :: "u8 list"

record bcache = slocks +
  bufs :: "buf list"
  disk :: "u32 \<Rightarrow> u8 list"
  disk_log :: "(u32 \<times> u8 list) list"

abbreviation bhead :: nat where "bhead \<equiv> NBUF"

abbreviation bget_field :: "nat \<Rightarrow> (buf \<Rightarrow> 'a) \<Rightarrow> ('z bcache_scheme, 'a) km" where
  "bget_field b f \<equiv> kget (\<lambda>s. f (bufs s ! b))"

abbreviation bset :: "nat \<Rightarrow> (buf \<Rightarrow> buf) \<Rightarrow> ('z bcache_scheme, unit) km" where
  "bset b f \<equiv> kmodify (\<lambda>s. s\<lparr>bufs := (bufs s)[b := f (bufs s ! b)]\<rparr>)"

definition disk_rw :: "nat \<Rightarrow> bool \<Rightarrow> ('z bcache_scheme, unit) km" where
  "disk_rw b write = kmodify (\<lambda>s. let bn = b_blockno (bufs s ! b) in
     if write then s\<lparr>disk := (disk s)(bn := b_data (bufs s ! b)), disk_log := (bn, b_data (bufs s ! b)) # disk_log s\<rparr>
     else s\<lparr>bufs := (bufs s)[b := (bufs s ! b)\<lparr>b_data := disk s bn\<rparr>]\<rparr>)"

text \<open>Taking \<open>b\<close> out of the list, and putting it behind the head.\<close>

definition list_unlink :: "nat \<Rightarrow> ('z bcache_scheme, unit) km" where
  "list_unlink b = kbind (bget_field b (\<lambda>x. (b_prev x, b_next x))) (\<lambda>(p, n). kdo
     [bset n (\<lambda>x. x\<lparr>b_prev := p\<rparr>),
      bset p (\<lambda>x. x\<lparr>b_next := n\<rparr>)])"

definition list_push :: "nat \<Rightarrow> ('z bcache_scheme, unit) km" where
  "list_push b = kbind (bget_field bhead b_next) (\<lambda>n. kdo
     [bset b (\<lambda>x. x\<lparr>b_next := n, b_prev := bhead\<rparr>),
      bset n (\<lambda>x. x\<lparr>b_prev := b\<rparr>),
      bset bhead (\<lambda>x. x\<lparr>b_next := b\<rparr>)])"

definition binit :: "('z bcache_scheme, unit) km" where
  "binit = kseq (bset bhead (\<lambda>x. x\<lparr>b_prev := bhead, b_next := bhead\<rparr>))
     (kfor (\<lambda>b. kdo [list_push b, initsleeplock (SL_buf b)]) [0..<NBUF])"

text \<open>The two searches of \<open>bget\<close>; a list of \<open>NBUF\<close> buffers is through after that many steps.\<close>

primrec bfind :: "(buf \<Rightarrow> nat) \<Rightarrow> (buf \<Rightarrow> bool) \<Rightarrow> buf list \<Rightarrow> nat \<Rightarrow> nat \<Rightarrow> (nat option) option" where
  "bfind dir P bs 0 b = (if b = bhead then Some None else None)"
| "bfind dir P bs (Suc k) b =
     (if b = bhead then Some None
      else if P (bs ! b) then Some (Some b)
      else bfind dir P bs k (dir (bs ! b)))"

definition bscan :: "(buf \<Rightarrow> nat) \<Rightarrow> (buf \<Rightarrow> bool) \<Rightarrow> ('z bcache_scheme, nat option) km" where
  "bscan dir P = (\<lambda>s. case bfind dir P (bufs s) NBUF (dir (bufs s ! bhead)) of
     None \<Rightarrow> Spin | Some r \<Rightarrow> Ok r s)"

definition bget :: "u32 \<Rightarrow> u32 \<Rightarrow> ('z bcache_scheme, nat) km" where
  "bget dev blockno =
     kseq (acquire L_bcache)
    (kbind (bscan b_next (\<lambda>x. b_dev x = dev \<and> b_blockno x = blockno)) (\<lambda>cached. case cached of
       Some b \<Rightarrow>
         kseq (kdo [bset b (\<lambda>x. x\<lparr>b_refcnt := b_refcnt x + 1\<rparr>), release L_bcache, acquiresleep (SL_buf b)])
         (kreturn b)
     | None \<Rightarrow>
         kbind (bscan b_prev (\<lambda>x. b_refcnt x = 0)) (\<lambda>unused. case unused of
           Some b \<Rightarrow>
             kseq (kdo [bset b (\<lambda>x. x\<lparr>b_dev := dev, b_blockno := blockno, b_valid := False, b_refcnt := 1\<rparr>),
                        release L_bcache, acquiresleep (SL_buf b)])
             (kreturn b)
         | None \<Rightarrow> panic ''bget: no buffers'')))"

definition bread :: "u32 \<Rightarrow> u32 \<Rightarrow> ('z bcache_scheme, nat) km" where
  "bread dev blockno =
     kbind (bget dev blockno) (\<lambda>b.
     kbind (bget_field b b_valid) (\<lambda>valid.
     kseq (kwhen (\<not> valid) (kdo [disk_rw b False, bset b (\<lambda>x. x\<lparr>b_valid := True\<rparr>)]))
    (kreturn b)))"

definition bwrite :: "nat \<Rightarrow> ('z bcache_scheme, unit) km" where
  "bwrite b = kbind (holdingsleep (SL_buf b)) (\<lambda>h. if \<not> h then panic ''bwrite'' else disk_rw b True)"

definition brelse :: "nat \<Rightarrow> ('z bcache_scheme, unit) km" where
  "brelse b =
     kbind (holdingsleep (SL_buf b)) (\<lambda>h.
     if \<not> h then panic ''brelse''
     else
       kseq (releasesleep (SL_buf b))
      (kseq (acquire L_bcache)
      (kseq (bset b (\<lambda>x. x\<lparr>b_refcnt := b_refcnt x - 1\<rparr>))
      (kbind (bget_field b b_refcnt) (\<lambda>n.
       kseq (kwhen (n = 0) (kdo [list_unlink b, list_push b]))
      (release L_bcache))))))"

definition bpin :: "nat \<Rightarrow> ('z bcache_scheme, unit) km" where
  "bpin b = kdo [acquire L_bcache, bset b (\<lambda>x. x\<lparr>b_refcnt := b_refcnt x + 1\<rparr>), release L_bcache]"

definition bunpin :: "nat \<Rightarrow> ('z bcache_scheme, unit) km" where
  "bunpin b = kdo [acquire L_bcache, bset b (\<lambda>x. x\<lparr>b_refcnt := b_refcnt x - 1\<rparr>), release L_bcache]"

text \<open>The state in which \<open>binit\<close> leaves the cache.\<close>

definition bufs0 :: "buf list" where
  "bufs0 = map (\<lambda>i. \<lparr>b_valid = False, b_disk = False, b_dev = 0, b_blockno = 0, b_refcnt = 0,
       b_prev = Suc i, b_next = (if i = 0 then bhead else i - 1), b_data = replicate BSIZE 0\<rparr>) [0..<NBUF]
     @ [\<lparr>b_valid = False, b_disk = False, b_dev = 0, b_blockno = 0, b_refcnt = 0,
       b_prev = 0, b_next = NBUF - 1, b_data = replicate BSIZE 0\<rparr>]"

definition bcache0 :: bcache where
  "bcache0 = slocks.extend slocks0 (bcache.fields bufs0 (\<lambda>_. replicate BSIZE 0) [])"

lemmas bcache0_defs = bcache0_def slocks0_defs bcache.defs

end
