(* ===== verification/Log.thy ===== *)
theory Log
  imports Bio
begin

text \<open>
  \<open>kernel/log.c\<close>: the redo log that makes file system operations atomic. \<open>begin_op\<close> that has to wait
  ends in \<open>Block\<close>, and continues with \<open>begin_op_loop\<close>.
\<close>

record log =
  log_start :: u32
  log_size :: u32
  log_outstanding :: int
  log_committing :: bool
  log_dev :: u32
  lh_n :: int
  lh_block :: "u32 list"

record logst = bcache +
  log :: log

abbreviation lget :: "(log \<Rightarrow> 'a) \<Rightarrow> ('z logst_scheme, 'a) km" where
  "lget f \<equiv> kget (\<lambda>s. f (log s))"

abbreviation lset :: "(log \<Rightarrow> log) \<Rightarrow> ('z logst_scheme, unit) km" where
  "lset f \<equiv> kmodify (\<lambda>s. s\<lparr>log := f (log s)\<rparr>)"

abbreviation bdata :: "nat \<Rightarrow> ('z logst_scheme, u8 list) km" where
  "bdata b \<equiv> kget (\<lambda>s. b_data (bufs s ! b))"

abbreviation set_bdata :: "nat \<Rightarrow> (u8 list \<Rightarrow> u8 list) \<Rightarrow> ('z logst_scheme, unit) km" where
  "set_bdata b f \<equiv> bset b (\<lambda>x. x\<lparr>b_data := f (b_data x)\<rparr>)"

section \<open>Transactions on disk\<close>

text \<open>Copying one logged block home, and the loop of \<open>install_trans\<close>.\<close>

definition install_block :: "bool \<Rightarrow> nat \<Rightarrow> ('z logst_scheme, unit) km" where
  "install_block recovering tail =
     kbind (lget (\<lambda>l. (log_dev l, log_start l + of_nat tail + 1, lh_block l ! tail))) (\<lambda>(dev, lb, db).
     kbind (bread dev lb) (\<lambda>lbuf.
     kbind (bread dev db) (\<lambda>dbuf.
     kbind (bdata lbuf) (\<lambda>d. kdo
       [set_bdata dbuf (\<lambda>_. d),
        bwrite dbuf,
        kwhen (\<not> recovering) (bunpin dbuf),
        brelse lbuf,
        brelse dbuf]))))"

definition install_trans :: "bool \<Rightarrow> ('z logst_scheme, unit) km" where
  "install_trans recovering = kbind (lget lh_n) (\<lambda>n. kfor (install_block recovering) [0..<nat n])"

text \<open>\<open>struct logheader\<close> in a block: the count, then the block numbers. A count read from the disk that
  exceeds \<open>LOGSIZE\<close> makes \<open>read_head\<close> write beyond its array.\<close>

definition hdr_n :: "u8 list \<Rightarrow> int" where "hdr_n d = sint (get32 d 0)"
definition hdr_block :: "u8 list \<Rightarrow> nat \<Rightarrow> u32" where "hdr_block d i = get32 d (4 + 4 * i)"

definition read_head :: "('z logst_scheme, unit) km" where
  "read_head =
     kbind (lget (\<lambda>l. (log_dev l, log_start l))) (\<lambda>(dev, start).
     kbind (bread dev start) (\<lambda>b.
     kbind (bdata b) (\<lambda>d.
     let n = hdr_n d in
     if n > int LOGSIZE then kundef
     else kdo
       [lset (\<lambda>l. l\<lparr>lh_n := n, lh_block := map (hdr_block d) [0..<nat n] @ drop (nat n) (lh_block l)\<rparr>),
        brelse b])))"

definition put_header :: "int \<Rightarrow> u32 list \<Rightarrow> u8 list \<Rightarrow> u8 list" where
  "put_header n bl d = fold (\<lambda>i d. put32 d (4 + 4 * i) (bl ! i)) [0..<nat n] (put32 d 0 (of_int n))"

definition write_head :: "('z logst_scheme, unit) km" where
  "write_head =
     kbind (lget (\<lambda>l. (log_dev l, log_start l, lh_n l, lh_block l))) (\<lambda>(dev, start, n, bl).
     kbind (bread dev start) (\<lambda>b. kdo
       [set_bdata b (put_header n bl),
        bwrite b,
        brelse b]))"

definition recover_from_log :: "('z logst_scheme, unit) km" where
  "recover_from_log = kdo
     [read_head,
      install_trans True,
      lset (\<lambda>l. l\<lparr>lh_n := 0\<rparr>),
      write_head]"

text \<open>\<open>sizeof(struct logheader)\<close> is \<open>4 + 4 * LOGSIZE\<close>.\<close>

definition initlog :: "u32 \<Rightarrow> u32 \<Rightarrow> u32 \<Rightarrow> ('z logst_scheme, unit) km" where
  "initlog dev logstart nlog =
     (if 4 + 4 * LOGSIZE \<ge> BSIZE then panic ''initlog: too big logheader''
      else kseq (lset (\<lambda>l. l\<lparr>log_start := logstart, log_size := nlog, log_dev := dev\<rparr>)) recover_from_log)"

section \<open>Operations\<close>

definition begin_op_loop :: "('z logst_scheme, unit) km" where
  "begin_op_loop =
     kbind (lget (\<lambda>l. (log_committing l, lh_n l + (log_outstanding l + 1) * int MAXOPBLOCKS > int LOGSIZE))) (\<lambda>(committing, tight).
     if committing then sleep Ch_log L_log
     else if tight then sleep Ch_log L_log
     else kdo [lset (\<lambda>l. l\<lparr>log_outstanding := log_outstanding l + 1\<rparr>), release L_log])"

definition begin_op :: "('z logst_scheme, unit) km" where
  "begin_op = kseq (acquire L_log) begin_op_loop"

definition write_log_block :: "nat \<Rightarrow> ('z logst_scheme, unit) km" where
  "write_log_block tail =
     kbind (lget (\<lambda>l. (log_dev l, log_start l + of_nat tail + 1, lh_block l ! tail))) (\<lambda>(dev, lb, cb).
     kbind (bread dev lb) (\<lambda>to.
     kbind (bread dev cb) (\<lambda>from_buf.
     kbind (bdata from_buf) (\<lambda>d. kdo
       [set_bdata to (\<lambda>_. d),
        bwrite to,
        brelse from_buf,
        brelse to]))))"

definition write_log :: "('z logst_scheme, unit) km" where
  "write_log = kbind (lget lh_n) (\<lambda>n. kfor write_log_block [0..<nat n])"

definition commit :: "('z logst_scheme, unit) km" where
  "commit = kbind (lget lh_n) (\<lambda>n. kwhen (n > 0) (kdo
     [write_log,
      write_head,
      install_trans False,
      lset (\<lambda>l. l\<lparr>lh_n := 0\<rparr>),
      write_head]))"

definition end_op :: "('z logst_scheme, unit) km" where
  "end_op =
     kseq (acquire L_log)
    (kseq (lset (\<lambda>l. l\<lparr>log_outstanding := log_outstanding l - 1\<rparr>))
    (kbind (lget (\<lambda>l. (log_committing l, log_outstanding l = 0))) (\<lambda>(committing, do_commit).
     if committing then panic ''log.committing''
     else
       kseq (if do_commit then lset (\<lambda>l. l\<lparr>log_committing := True\<rparr>) else wakeup (Some Ch_log))
      (kseq (release L_log)
      (kwhen do_commit (kdo
        [commit,
         acquire L_log,
         lset (\<lambda>l. l\<lparr>log_committing := False\<rparr>),
         wakeup (Some Ch_log),
         release L_log]))))))"

definition log_write :: "nat \<Rightarrow> ('z logst_scheme, unit) km" where
  "log_write b =
     kseq (acquire L_log)
    (kbind (lget (\<lambda>l. l)) (\<lambda>l.
     if lh_n l \<ge> int LOGSIZE \<or> lh_n l \<ge> sint (log_size l) - 1 then panic ''too big a transaction''
     else if log_outstanding l < 1 then panic ''log_write outside of trans''
     else
       kbind (bget_field b b_blockno) (\<lambda>bn.
       let i = (case first_index (\<lambda>x. x = bn) (take (nat (lh_n l)) (lh_block l)) of Some i \<Rightarrow> i | None \<Rightarrow> nat (lh_n l)) in
       kseq (lset (\<lambda>l. l\<lparr>lh_block := (lh_block l)[i := bn]\<rparr>))
      (kseq (kwhen (int i = lh_n l) (kdo [bpin b, lset (\<lambda>l. l\<lparr>lh_n := lh_n l + 1\<rparr>)]))
      (release L_log)))))"

definition logst0 :: logst where
  "logst0 = bcache.extend bcache0 (logst.fields \<lparr>log_start = 2, log_size = 30, log_outstanding = 0,
     log_committing = False, log_dev = 1, lh_n = 0, lh_block = replicate LOGSIZE 0\<rparr>)"

lemmas logst0_defs = logst0_def bcache0_defs logst.defs

end
