(* ===== verification/Fs.thy ===== *)
theory Fs
  imports Log
begin

text \<open>
  \<open>kernel/fs.c\<close>: block allocation, inodes, file contents, directories and path names, on the disk layout
  of \<open>kernel/fs.h\<close>. An in-memory inode is named by its index in \<open>itable.inode\<close>, \<open>None\<close> being the null
  pointer; on-disk structures are bytes of a cached block. A path is the byte list of a C string,
  with or without its NUL: the end of the list counts as NUL. \<open>readi\<close> returns the bytes it copied with
  its result, which is what a local variable used as its destination then holds.
\<close>

unbundle bit_operations_syntax

section \<open>Layout\<close>

definition ROOTINO :: u32 where "ROOTINO = 1"
definition ROOTDEV :: u32 where "ROOTDEV = 1"
definition FSMAGIC :: u32 where "FSMAGIC = 0x10203040"
definition NDIRECT :: nat where "NDIRECT = 12"
definition NINDIRECT :: nat where "NINDIRECT = BSIZE div 4"
definition MAXFILE :: nat where "MAXFILE = NDIRECT + NINDIRECT"
definition DINODE_SIZE :: nat where "DINODE_SIZE = 64"
definition IPB :: nat where "IPB = BSIZE div DINODE_SIZE"
definition BPB :: nat where "BPB = BSIZE * 8"
definition DIRSIZ :: nat where "DIRSIZ = 14"
definition DIRENT_SIZE :: nat where "DIRENT_SIZE = 16"
definition NINODE :: nat where "NINODE = 50"
definition T_DIR :: u16 where "T_DIR = 1"
definition T_FILE :: u16 where "T_FILE = 2"
definition T_DEVICE :: u16 where "T_DEVICE = 3"

record superblock =
  sb_magic :: u32
  sb_size :: u32
  sb_nblocks :: u32
  sb_ninodes :: u32
  sb_nlog :: u32
  sb_logstart :: u32
  sb_inodestart :: u32
  sb_bmapstart :: u32

record inode =
  i_dev :: u32
  i_inum :: u32
  i_ref :: int
  i_valid :: bool
  i_type :: u16
  i_major :: u16
  i_minor :: u16
  i_nlink :: u16
  i_size :: u32
  i_addrs :: "u32 list"

record fsst = logst +
  sb :: superblock
  itable :: "inode list"

definition IBLOCK :: "u32 \<Rightarrow> superblock \<Rightarrow> u32" where "IBLOCK i x = i div of_nat IPB + sb_inodestart x"
definition BBLOCK :: "u32 \<Rightarrow> superblock \<Rightarrow> u32" where "BBLOCK b x = b div of_nat BPB + sb_bmapstart x"

abbreviation iget_field :: "nat \<Rightarrow> (inode \<Rightarrow> 'a) \<Rightarrow> ('z fsst_scheme, 'a) km" where
  "iget_field ip f \<equiv> kget (\<lambda>s. f (itable s ! ip))"

abbreviation iset :: "nat \<Rightarrow> (inode \<Rightarrow> inode) \<Rightarrow> ('z fsst_scheme, unit) km" where
  "iset ip f \<equiv> kmodify (\<lambda>s. s\<lparr>itable := (itable s)[ip := f (itable s ! ip)]\<rparr>)"

section \<open>Blocks\<close>

definition parse_sb :: "u8 list \<Rightarrow> superblock" where
  "parse_sb d = \<lparr>sb_magic = get32 d 0, sb_size = get32 d 4, sb_nblocks = get32 d 8, sb_ninodes = get32 d 12,
     sb_nlog = get32 d 16, sb_logstart = get32 d 20, sb_inodestart = get32 d 24, sb_bmapstart = get32 d 28\<rparr>"

definition readsb :: "u32 \<Rightarrow> ('z fsst_scheme, unit) km" where
  "readsb dev = kbind (bread dev 1) (\<lambda>bp. kdo
     [kmodify (\<lambda>s. s\<lparr>sb := parse_sb (b_data (bufs s ! bp))\<rparr>),
      brelse bp])"

definition fsinit :: "u32 \<Rightarrow> ('z fsst_scheme, unit) km" where
  "fsinit dev =
     kseq (readsb dev)
    (kbind (kget sb) (\<lambda>b.
     if sb_magic b \<noteq> FSMAGIC then panic ''invalid file system''
     else initlog dev (sb_logstart b) (sb_nlog b)))"

definition bzero :: "u32 \<Rightarrow> u32 \<Rightarrow> ('z fsst_scheme, unit) km" where
  "bzero dev bno = kbind (bread dev bno) (\<lambda>bp. kdo
     [set_bdata bp (\<lambda>_. replicate BSIZE 0),
      log_write bp,
      brelse bp])"

text \<open>Bit \<open>bi\<close> of a bitmap block.\<close>

definition bmask :: "nat \<Rightarrow> u8" where "bmask bi = push_bit (bi mod 8) 1"
definition bit_used :: "u8 list \<Rightarrow> nat \<Rightarrow> bool" where "bit_used d bi \<longleftrightarrow> d ! (bi div 8) AND bmask bi \<noteq> 0"
definition mark_used :: "nat \<Rightarrow> u8 list \<Rightarrow> u8 list" where
  "mark_used bi d = d[bi div 8 := d ! (bi div 8) OR bmask bi]"
definition mark_free :: "nat \<Rightarrow> u8 list \<Rightarrow> u8 list" where
  "mark_free bi d = d[bi div 8 := d ! (bi div 8) AND NOT (bmask bi)]"

text \<open>The outer loop of \<open>balloc\<close> over the first block numbers \<open>b\<close> of the bitmap blocks; its inner loop
  looks for the first clear bit among those of existing blocks.\<close>

primrec balloc_loop :: "u32 \<Rightarrow> nat list \<Rightarrow> ('z fsst_scheme, u32) km" where
  "balloc_loop dev [] = kseq (printf (bytes_of (''balloc: out of blocks'' @ [CHR 0x0A])) []) (kreturn 0)"
| "balloc_loop dev (b # bs) =
     kbind (kget sb) (\<lambda>sb.
     kbind (bread dev (BBLOCK (of_nat b) sb)) (\<lambda>bp.
     kbind (bdata bp) (\<lambda>d.
     case first_index (\<lambda>bi. \<not> bit_used d bi) [0..<min BPB (unat (sb_size sb) - b)] of
       Some bi \<Rightarrow>
         kseq (kdo [set_bdata bp (mark_used bi), log_write bp, brelse bp, bzero dev (of_nat (b + bi))])
         (kreturn (of_nat (b + bi)))
     | None \<Rightarrow> kseq (brelse bp) (balloc_loop dev bs))))"

definition balloc :: "u32 \<Rightarrow> ('z fsst_scheme, u32) km" where
  "balloc dev = kbind (kget sb) (\<lambda>sb.
     balloc_loop dev (map (\<lambda>k. k * BPB) [0..<(unat (sb_size sb) + BPB - 1) div BPB]))"

definition bfree :: "u32 \<Rightarrow> u32 \<Rightarrow> ('z fsst_scheme, unit) km" where
  "bfree dev b =
     kbind (kget sb) (\<lambda>sb.
     kbind (bread dev (BBLOCK b sb)) (\<lambda>bp.
     kbind (bdata bp) (\<lambda>d.
     let bi = unat b mod BPB in
     if \<not> bit_used d bi then panic ''freeing free block''
     else kdo [set_bdata bp (mark_free bi), log_write bp, brelse bp])))"

section \<open>Inodes\<close>

definition iinit :: "('z fsst_scheme, unit) km" where
  "iinit = kfor (\<lambda>i. initsleeplock (SL_inode i)) [0..<NINODE]"

text \<open>\<open>struct dinode\<close> at an offset of a block.\<close>

definition dinode_off :: "u32 \<Rightarrow> nat" where "dinode_off inum = unat inum mod IPB * DINODE_SIZE"

definition put_dinode :: "inode \<Rightarrow> nat \<Rightarrow> u8 list \<Rightarrow> u8 list" where
  "put_dinode ip pos d = splice d pos (le_bytes 2 (i_type ip) @ le_bytes 2 (i_major ip) @ le_bytes 2 (i_minor ip) @
     le_bytes 2 (i_nlink ip) @ le_bytes 4 (i_size ip) @ concat (map (le_bytes 4) (i_addrs ip)))"

definition get_dinode :: "nat \<Rightarrow> u8 list \<Rightarrow> inode \<Rightarrow> inode" where
  "get_dinode pos d ip = ip\<lparr>i_type := get16 d pos, i_major := get16 d (pos + 2), i_minor := get16 d (pos + 4),
     i_nlink := get16 d (pos + 6), i_size := get32 d (pos + 8),
     i_addrs := map (\<lambda>k. get32 d (pos + 12 + 4 * k)) [0..<NDIRECT + 1]\<rparr>"

text \<open>\<open>iget\<close> scans the whole table for the inode, remembering the first empty slot.\<close>

definition iget :: "u32 \<Rightarrow> u32 \<Rightarrow> ('z fsst_scheme, nat) km" where
  "iget dev inum =
     kseq (acquire L_itable)
    (kbind (kget itable) (\<lambda>tab.
     case first_index (\<lambda>ip. i_ref ip > 0 \<and> i_dev ip = dev \<and> i_inum ip = inum) tab of
       Some ip \<Rightarrow>
         kseq (kdo [iset ip (\<lambda>x. x\<lparr>i_ref := i_ref x + 1\<rparr>), release L_itable]) (kreturn ip)
     | None \<Rightarrow> (case first_index (\<lambda>ip. i_ref ip = 0) tab of
         None \<Rightarrow> panic ''iget: no inodes''
       | Some ip \<Rightarrow>
           kseq (kdo [iset ip (\<lambda>x. x\<lparr>i_dev := dev, i_inum := inum, i_ref := 1, i_valid := False\<rparr>), release L_itable])
           (kreturn ip))))"

primrec ialloc_loop :: "u32 \<Rightarrow> u16 \<Rightarrow> nat list \<Rightarrow> ('z fsst_scheme, nat option) km" where
  "ialloc_loop dev type [] = kseq (printf (bytes_of (''ialloc: no inodes'' @ [CHR 0x0A])) []) (kreturn None)"
| "ialloc_loop dev type (inum # ins) =
     kbind (kget sb) (\<lambda>sb.
     kbind (bread dev (IBLOCK (of_nat inum) sb)) (\<lambda>bp.
     kbind (bdata bp) (\<lambda>d.
     let off = dinode_off (of_nat inum) in
     if get16 d off = 0 then
       kseq (kdo [set_bdata bp (\<lambda>d. put16 (splice d off (replicate DINODE_SIZE 0)) off type), log_write bp, brelse bp])
      (kbind (iget dev (of_nat inum)) (\<lambda>ip. kreturn (Some ip)))
     else kseq (brelse bp) (ialloc_loop dev type ins))))"

definition ialloc :: "u32 \<Rightarrow> u16 \<Rightarrow> ('z fsst_scheme, nat option) km" where
  "ialloc dev type = kbind (kget sb) (\<lambda>sb. ialloc_loop dev type [1..<unat (sb_ninodes sb)])"

definition iupdate :: "nat \<Rightarrow> ('z fsst_scheme, unit) km" where
  "iupdate ip =
     kbind (kget sb) (\<lambda>sb.
     kbind (iget_field ip (\<lambda>x. x)) (\<lambda>x.
     kbind (bread (i_dev x) (IBLOCK (i_inum x) sb)) (\<lambda>bp. kdo
       [set_bdata bp (put_dinode x (dinode_off (i_inum x))),
        log_write bp,
        brelse bp])))"

definition idup :: "nat \<Rightarrow> ('z fsst_scheme, nat) km" where
  "idup ip = kseq (kdo [acquire L_itable, iset ip (\<lambda>x. x\<lparr>i_ref := i_ref x + 1\<rparr>), release L_itable]) (kreturn ip)"

definition ilock :: "nat \<Rightarrow> ('z fsst_scheme, unit) km" where
  "ilock ip =
     kbind (iget_field ip i_ref) (\<lambda>ref.
     if ref < 1 then panic ''ilock''
     else
       kseq (acquiresleep (SL_inode ip))
      (kbind (iget_field ip i_valid) (\<lambda>valid.
       kwhen (\<not> valid)
        (kbind (kget sb) (\<lambda>sb.
         kbind (iget_field ip (\<lambda>x. x)) (\<lambda>x.
         kbind (bread (i_dev x) (IBLOCK (i_inum x) sb)) (\<lambda>bp.
         kbind (bdata bp) (\<lambda>d.
         kseq (kdo [iset ip (get_dinode (dinode_off (i_inum x)) d), brelse bp, iset ip (\<lambda>x. x\<lparr>i_valid := True\<rparr>)])
        (kbind (iget_field ip i_type) (\<lambda>type.
         if type = 0 then panic ''ilock: no type'' else kreturn ()))))))))))"

definition iunlock :: "nat \<Rightarrow> ('z fsst_scheme, unit) km" where
  "iunlock ip =
     kbind (holdingsleep (SL_inode ip)) (\<lambda>h.
     kbind (iget_field ip i_ref) (\<lambda>ref.
     if \<not> h \<or> ref < 1 then panic ''iunlock'' else releasesleep (SL_inode ip)))"

section \<open>Contents\<close>

definition bmap :: "nat \<Rightarrow> nat \<Rightarrow> ('z fsst_scheme, u32) km" where
  "bmap ip bn =
     (if bn < NDIRECT then
        kbind (iget_field ip (\<lambda>x. (i_dev x, i_addrs x ! bn))) (\<lambda>(dev, addr).
        if addr \<noteq> 0 then kreturn addr
        else kbind (balloc dev) (\<lambda>addr.
          if addr = 0 then kreturn 0
          else kseq (iset ip (\<lambda>x. x\<lparr>i_addrs := (i_addrs x)[bn := addr]\<rparr>)) (kreturn addr)))
      else if bn - NDIRECT < NINDIRECT then
        kbind (iget_field ip (\<lambda>x. (i_dev x, i_addrs x ! NDIRECT))) (\<lambda>(dev, addr).
        kbind (if addr \<noteq> 0 then kreturn addr
               else kbind (balloc dev) (\<lambda>addr.
                 if addr = 0 then kreturn 0
                 else kseq (iset ip (\<lambda>x. x\<lparr>i_addrs := (i_addrs x)[NDIRECT := addr]\<rparr>)) (kreturn addr))) (\<lambda>addr.
        if addr = 0 then kreturn 0
        else kbind (bread dev addr) (\<lambda>bp.
          kbind (bdata bp) (\<lambda>d.
          let a = get32 d (4 * (bn - NDIRECT)) in
          if a \<noteq> 0 then kseq (brelse bp) (kreturn a)
          else kbind (balloc dev) (\<lambda>addr.
            kseq (kwhen (addr \<noteq> 0) (kdo [set_bdata bp (\<lambda>d. put32 d (4 * (bn - NDIRECT)) addr), log_write bp]))
           (kseq (brelse bp)
           (kreturn addr)))))))
      else panic ''bmap: out of range'')"

definition itrunc :: "nat \<Rightarrow> ('z fsst_scheme, unit) km" where
  "itrunc ip =
     kseq (kfor (\<lambda>i.
       kbind (iget_field ip (\<lambda>x. (i_dev x, i_addrs x ! i))) (\<lambda>(dev, a).
       kwhen (a \<noteq> 0) (kdo [bfree dev a, iset ip (\<lambda>x. x\<lparr>i_addrs := (i_addrs x)[i := 0]\<rparr>)]))) [0..<NDIRECT])
    (kseq (kbind (iget_field ip (\<lambda>x. (i_dev x, i_addrs x ! NDIRECT))) (\<lambda>(dev, ind).
       kwhen (ind \<noteq> 0)
        (kbind (bread dev ind) (\<lambda>bp.
         kbind (bdata bp) (\<lambda>d. kdo
           [kfor (\<lambda>j. kwhen (get32 d (4 * j) \<noteq> 0) (bfree dev (get32 d (4 * j)))) [0..<NINDIRECT],
            brelse bp,
            bfree dev ind,
            iset ip (\<lambda>x. x\<lparr>i_addrs := (i_addrs x)[NDIRECT := 0]\<rparr>)])))))
    (kseq (iset ip (\<lambda>x. x\<lparr>i_size := 0\<rparr>))
    (iupdate ip)))"

definition iput :: "nat \<Rightarrow> ('z fsst_scheme, unit) km" where
  "iput ip =
     kseq (acquire L_itable)
    (kbind (iget_field ip (\<lambda>x. i_ref x = 1 \<and> i_valid x \<and> i_nlink x = 0)) (\<lambda>last_ref.
     kseq (kwhen last_ref (kdo
       [acquiresleep (SL_inode ip),
        release L_itable,
        itrunc ip,
        iset ip (\<lambda>x. x\<lparr>i_type := 0\<rparr>),
        iupdate ip,
        iset ip (\<lambda>x. x\<lparr>i_valid := False\<rparr>),
        releasesleep (SL_inode ip),
        acquire L_itable]))
    (kdo [iset ip (\<lambda>x. x\<lparr>i_ref := i_ref x - 1\<rparr>), release L_itable])))"

definition iunlockput :: "nat \<Rightarrow> ('z fsst_scheme, unit) km" where
  "iunlockput ip = kdo [iunlock ip, iput ip]"

text \<open>\<open>struct stat\<close>: 24 bytes, with four of padding before \<open>size\<close> whose contents are those of the caller's
  stack.\<close>

record stat =
  st_dev :: u32
  st_ino :: u32
  st_type :: u16
  st_nlink :: u16
  st_size :: u64

definition stati :: "nat \<Rightarrow> ('z fsst_scheme, stat) km" where
  "stati ip = iget_field ip (\<lambda>x. \<lparr>st_dev = i_dev x, st_ino = i_inum x, st_type = i_type x,
     st_nlink = i_nlink x, st_size = ucast (i_size x)\<rparr>)"

text \<open>The loops of \<open>readi\<close> and \<open>writei\<close>: each round moves at least one byte and all but the first and last
  a whole block, so that \<open>n / BSIZE + 2\<close> rounds are enough.\<close>

primrec readi_loop :: "nat \<Rightarrow> nat \<Rightarrow> place \<Rightarrow> nat \<Rightarrow> nat \<Rightarrow> nat \<Rightarrow> ('z fsst_scheme, int \<times> u8 list) km" where
  "readi_loop 0 ip dst off n tot = kspin"
| "readi_loop (Suc k) ip dst off n tot =
     (if tot < n then
        kbind (bmap ip (off div BSIZE)) (\<lambda>addr.
        if addr = 0 then kreturn (int tot, [])
        else kbind (iget_field ip i_dev) (\<lambda>dev.
          kbind (bread dev addr) (\<lambda>bp.
          kbind (bdata bp) (\<lambda>d.
          let m = min (n - tot) (BSIZE - off mod BSIZE); bs = take m (drop (off mod BSIZE) d) in
          kbind (either_copyout dst bs) (\<lambda>r.
          kseq (brelse bp)
         (if r = - 1 then kreturn (- 1, [])
          else kbind (readi_loop k ip (advance m dst) (off + m) n (tot + m)) (\<lambda>(res, cs).
            kreturn (res, bs @ cs))))))))
      else kreturn (int tot, []))"

definition readi :: "nat \<Rightarrow> place \<Rightarrow> u32 \<Rightarrow> u32 \<Rightarrow> ('z fsst_scheme, int \<times> u8 list) km" where
  "readi ip dst off n =
     kbind (iget_field ip i_size) (\<lambda>sz.
     if off > sz \<or> off + n < off then kreturn (0, [])
     else let n' = if off + n > sz then sz - off else n in
       readi_loop (Suc (Suc (unat n' div BSIZE))) ip dst (unat off) (unat n') 0)"

text \<open>\<open>writei\<close>'s loop returns the offset and the count it has reached. A failed copy has already put the
  bytes it got into the buffer.\<close>

primrec writei_loop :: "nat \<Rightarrow> nat \<Rightarrow> place \<Rightarrow> nat \<Rightarrow> nat \<Rightarrow> nat \<Rightarrow> ('z fsst_scheme, nat \<times> nat) km" where
  "writei_loop 0 ip src off n tot = kspin"
| "writei_loop (Suc k) ip src off n tot =
     (if tot < n then
        kbind (bmap ip (off div BSIZE)) (\<lambda>addr.
        if addr = 0 then kreturn (off, tot)
        else kbind (iget_field ip i_dev) (\<lambda>dev.
          kbind (bread dev addr) (\<lambda>bp.
          let m = min (n - tot) (BSIZE - off mod BSIZE) in
          kbind (either_copyin src m) (\<lambda>(r, bs).
          kseq (set_bdata bp (\<lambda>d. splice d (off mod BSIZE) bs))
         (if r = - 1 then kseq (brelse bp) (kreturn (off, tot))
          else
            kseq (log_write bp)
           (kseq (brelse bp)
           (writei_loop k ip (advance m src) (off + m) n (tot + m))))))))
      else kreturn (off, tot))"

definition writei :: "nat \<Rightarrow> place \<Rightarrow> u32 \<Rightarrow> u32 \<Rightarrow> ('z fsst_scheme, int) km" where
  "writei ip src off n =
     kbind (iget_field ip i_size) (\<lambda>sz.
     if off > sz \<or> off + n < off then kreturn (- 1)
     else if unat (off + n) > MAXFILE * BSIZE then kreturn (- 1)
     else
       kbind (writei_loop (Suc (Suc (unat n div BSIZE))) ip src (unat off) (unat n) 0) (\<lambda>(off', tot).
       kseq (iset ip (\<lambda>x. if off' > unat (i_size x) then x\<lparr>i_size := of_nat off'\<rparr> else x))
      (kseq (iupdate ip)
      (kreturn (int tot)))))"

section \<open>Directories\<close>

definition namecmp :: "u8 list \<Rightarrow> u8 list \<Rightarrow> int option" where
  "namecmp s t = strncmp s t DIRSIZ"

definition de_inum :: "u8 list \<Rightarrow> u16" where "de_inum de = get16 de 0"
definition de_name :: "u8 list \<Rightarrow> u8 list" where "de_name de = take DIRSIZ (drop 2 de)"

text \<open>The scan of \<open>dirlookup\<close> over the remaining offsets.\<close>

primrec dirlookup_loop :: "nat \<Rightarrow> u8 list \<Rightarrow> nat list \<Rightarrow> ('z fsst_scheme, (nat \<times> u32) option) km" where
  "dirlookup_loop dp name [] = kreturn None"
| "dirlookup_loop dp name (off # offs) =
     kbind (readi dp (Local []) (of_nat off) (of_nat DIRENT_SIZE)) (\<lambda>(r, de).
     if r \<noteq> int DIRENT_SIZE then panic ''dirlookup read''
     else if de_inum de = 0 then dirlookup_loop dp name offs
     else kbind (kopt (namecmp name (de_name de))) (\<lambda>c.
       if c = 0 then
         kbind (iget_field dp i_dev) (\<lambda>dev.
         kbind (iget dev (ucast (de_inum de))) (\<lambda>ip. kreturn (Some (ip, of_nat off))))
       else dirlookup_loop dp name offs))"

definition dir_offs :: "nat \<Rightarrow> u32 \<Rightarrow> nat list" where
  "dir_offs first sz = map (\<lambda>k. k * DIRENT_SIZE) [first..<(unat sz + DIRENT_SIZE - 1) div DIRENT_SIZE]"

definition dirlookup :: "nat \<Rightarrow> u8 list \<Rightarrow> ('z fsst_scheme, (nat \<times> u32) option) km" where
  "dirlookup dp name =
     kbind (iget_field dp (\<lambda>x. (i_type x, i_size x))) (\<lambda>(type, sz).
     if type \<noteq> T_DIR then panic ''dirlookup not DIR''
     else dirlookup_loop dp name (dir_offs 0 sz))"

text \<open>The search of \<open>dirlink\<close> for an empty entry; \<open>lim\<close> is where it ends without one.\<close>

primrec dirlink_slot :: "nat \<Rightarrow> nat \<Rightarrow> nat list \<Rightarrow> ('z fsst_scheme, nat) km" where
  "dirlink_slot dp lim [] = kreturn lim"
| "dirlink_slot dp lim (off # offs) =
     kbind (readi dp (Local []) (of_nat off) (of_nat DIRENT_SIZE)) (\<lambda>(r, de).
     if r \<noteq> int DIRENT_SIZE then panic ''dirlink read''
     else if de_inum de = 0 then kreturn off
     else dirlink_slot dp lim offs)"

definition dirlink :: "nat \<Rightarrow> u8 list \<Rightarrow> u32 \<Rightarrow> ('z fsst_scheme, int) km" where
  "dirlink dp name inum =
     kbind (dirlookup dp name) (\<lambda>found. case found of
       Some (ip, _) \<Rightarrow> kseq (iput ip) (kreturn (- 1))
     | None \<Rightarrow>
         kbind (iget_field dp i_size) (\<lambda>sz.
         kbind (dirlink_slot dp ((unat sz + DIRENT_SIZE - 1) div DIRENT_SIZE * DIRENT_SIZE) (dir_offs 0 sz)) (\<lambda>off.
         kbind (kopt (strncpy (replicate DIRSIZ 0) name DIRSIZ)) (\<lambda>nm.
         kbind (writei dp (Local (le_bytes 2 (ucast inum :: u16) @ nm)) (of_nat off) (of_nat DIRENT_SIZE)) (\<lambda>r.
         if r \<noteq> int DIRENT_SIZE then kreturn (- 1) else kreturn 0)))))"

section \<open>Paths\<close>

definition slash :: u8 where "slash = of_char (CHR ''/'')"

text \<open>\<open>skipelem\<close> returns the rest of the path and the new contents of \<open>name\<close>.\<close>

definition skipelem :: "u8 list \<Rightarrow> u8 list \<Rightarrow> (u8 list \<times> u8 list) option" where
  "skipelem path name =
     (let p = dropWhile (\<lambda>c. c = slash) path in
      if p = [] \<or> hd p = 0 then None
      else
        let s = takeWhile (\<lambda>c. c \<noteq> slash \<and> c \<noteq> 0) p; rest = dropWhile (\<lambda>c. c \<noteq> slash \<and> c \<noteq> 0) p;
            name' = (if length s \<ge> DIRSIZ then take DIRSIZ s else splice name 0 (s @ [0])) in
        Some (dropWhile (\<lambda>c. c = slash) rest, name'))"

text \<open>The loop of \<open>namex\<close>; each round takes at least one character of the path.\<close>

primrec namex_loop :: "nat \<Rightarrow> nat \<Rightarrow> u8 list \<Rightarrow> bool \<Rightarrow> u8 list \<Rightarrow> ('z fsst_scheme, nat option \<times> u8 list) km" where
  "namex_loop 0 ip path parent name = kspin"
| "namex_loop (Suc k) ip path parent name =
     (case skipelem path name of
        None \<Rightarrow> if parent then kseq (iput ip) (kreturn (None, name)) else kreturn (Some ip, name)
      | Some (path, name) \<Rightarrow>
          kseq (ilock ip)
         (kbind (iget_field ip i_type) (\<lambda>type.
          if type \<noteq> T_DIR then kseq (iunlockput ip) (kreturn (None, name))
          else if parent \<and> (path = [] \<or> hd path = 0) then kseq (iunlock ip) (kreturn (Some ip, name))
          else kbind (dirlookup ip name) (\<lambda>found. case found of
            None \<Rightarrow> kseq (iunlockput ip) (kreturn (None, name))
          | Some (nxt, _) \<Rightarrow> kseq (iunlockput ip) (namex_loop k nxt path parent name)))))"

definition namex :: "u8 list \<Rightarrow> bool \<Rightarrow> u8 list \<Rightarrow> ('z fsst_scheme, nat option \<times> u8 list) km" where
  "namex path parent name =
     kbind (if path \<noteq> [] \<and> hd path = slash then iget ROOTDEV ROOTINO
            else kbind this_proc (\<lambda>p.
              kbind (pget p p_cwd) (\<lambda>cwd. case cwd of None \<Rightarrow> panic ''kerneltrap'' | Some c \<Rightarrow> idup c))) (\<lambda>ip.
     namex_loop (Suc (length path)) ip path parent name)"

definition namei :: "u8 list \<Rightarrow> ('z fsst_scheme, nat option) km" where
  "namei path = kbind (namex path False (replicate DIRSIZ 0)) (\<lambda>(ip, name). kreturn ip)"

definition nameiparent :: "u8 list \<Rightarrow> u8 list \<Rightarrow> ('z fsst_scheme, nat option \<times> u8 list) km" where
  "nameiparent path name = namex path True name"

definition fsst0 :: fsst where
  "fsst0 = logst.extend logst0 (fsst.fields
     \<lparr>sb_magic = FSMAGIC, sb_size = 2000, sb_nblocks = 1954, sb_ninodes = 200, sb_nlog = 30, sb_logstart = 2,
      sb_inodestart = 32, sb_bmapstart = 45\<rparr>
     (replicate NINODE \<lparr>i_dev = 0, i_inum = 0, i_ref = 0, i_valid = False, i_type = 0, i_major = 0, i_minor = 0,
        i_nlink = 0, i_size = 0, i_addrs = replicate (NDIRECT + 1) 0\<rparr>))"

lemmas fsst0_defs = fsst0_def logst0_defs fsst.defs

end
