(* ===== verification/Pipe.thy ===== *)
theory Pipe
  imports Fs
begin

text \<open>
  \<open>kernel/pipe.c\<close>. A \<open>struct pipe\<close> is named by the address of the page it is allocated in. \<open>pipealloc\<close> is in the
  theory \<open>File\<close>, with the functions on files that it calls. When a writer or a reader that slept runs
  again, it continues with \<open>pipewrite_loop\<close> (at the byte it was at) or \<open>piperead_loop\<close>. The
  fields of the pipes are a map of their own: their page is taken from the page allocator, but the bytes in it are not
  those of the memory of the machine.
\<close>

definition PIPESIZE :: nat where "PIPESIZE = 512"

record pipe =
  pi_data :: "u8 list"
  pi_nread :: u32
  pi_nwrite :: u32
  pi_readopen :: bool
  pi_writeopen :: bool

record pipest = fsst +
  pipes :: "u64 \<Rightarrow> pipe"

abbreviation piget :: "u64 \<Rightarrow> (pipe \<Rightarrow> 'a) \<Rightarrow> ('z pipest_scheme, 'a) km" where
  "piget pi f \<equiv> kget (\<lambda>s. f (pipes s pi))"

abbreviation piset :: "u64 \<Rightarrow> (pipe \<Rightarrow> pipe) \<Rightarrow> ('z pipest_scheme, unit) km" where
  "piset pi f \<equiv> kmodify (\<lambda>s. s\<lparr>pipes := (pipes s)(pi := f (pipes s pi))\<rparr>)"

text \<open>The ring buffer: a byte goes in at \<open>nwrite % PIPESIZE\<close> and comes out at \<open>nread % PIPESIZE\<close>.\<close>

definition pipe_full :: "pipe \<Rightarrow> bool" where
  "pipe_full q \<longleftrightarrow> pi_nwrite q = pi_nread q + of_nat PIPESIZE"

definition pipe_empty :: "pipe \<Rightarrow> bool" where
  "pipe_empty q \<longleftrightarrow> pi_nread q = pi_nwrite q"

definition pipe_put :: "u8 \<Rightarrow> pipe \<Rightarrow> pipe" where
  "pipe_put ch q = q\<lparr>pi_data := (pi_data q)[unat (pi_nwrite q) mod PIPESIZE := ch], pi_nwrite := pi_nwrite q + 1\<rparr>"

definition pipe_head :: "pipe \<Rightarrow> u8" where
  "pipe_head q = pi_data q ! (unat (pi_nread q) mod PIPESIZE)"

definition pipe_drop :: "pipe \<Rightarrow> pipe" where
  "pipe_drop q = q\<lparr>pi_nread := pi_nread q + 1\<rparr>"

definition pipeclose :: "u64 \<Rightarrow> bool \<Rightarrow> ('z pipest_scheme, unit) km" where
  "pipeclose pi writable =
     kseq (acquire (L_pipe pi))
    (kseq (if writable
           then kdo [piset pi (\<lambda>q. q\<lparr>pi_writeopen := False\<rparr>), wakeup (Some (Ch_pipe_nread pi))]
           else kdo [piset pi (\<lambda>q. q\<lparr>pi_readopen := False\<rparr>), wakeup (Some (Ch_pipe_nwrite pi))])
    (kbind (piget pi (\<lambda>q. \<not> pi_readopen q \<and> \<not> pi_writeopen q)) (\<lambda>closed.
     if closed then kdo [release (L_pipe pi), kfree pi] else release (L_pipe pi))))"

definition pipewrite_done :: "u64 \<Rightarrow> int \<Rightarrow> ('z pipest_scheme, int) km" where
  "pipewrite_done pi i = kseq (kdo [wakeup (Some (Ch_pipe_nread pi)), release (L_pipe pi)]) (kreturn i)"

text \<open>The loop of \<open>pipewrite\<close>, with \<open>k = n - i\<close> bytes to go.\<close>

primrec pipewrite_loop :: "nat \<Rightarrow> u64 \<Rightarrow> u64 \<Rightarrow> int \<Rightarrow> ('z pipest_scheme, int) km" where
  "pipewrite_loop 0 pi addr i = pipewrite_done pi i"
| "pipewrite_loop (Suc k) pi addr i =
     kbind this_proc (\<lambda>pr.
     kbind (piget pi pi_readopen) (\<lambda>ro.
     kbind (if ro then killed pr else kreturn True) (\<lambda>stop.
     if stop then kseq (release (L_pipe pi)) (kreturn (- 1))
     else kbind (piget pi pipe_full) (\<lambda>full.
       if full then kseq (wakeup (Some (Ch_pipe_nread pi))) (sleep (Ch_pipe_nwrite pi) (L_pipe pi))
       else kbind (pget pr p_pagetable) (\<lambda>pt.
         kbind (copyin pt (addr + of_int i) 1) (\<lambda>(r, bs).
         if r = - 1 then pipewrite_done pi i
         else kseq (piset pi (pipe_put (hd bs))) (pipewrite_loop k pi addr (i + 1))))))))"

definition pipewrite :: "u64 \<Rightarrow> u64 \<Rightarrow> int \<Rightarrow> ('z pipest_scheme, int) km" where
  "pipewrite pi addr n = kseq (acquire (L_pipe pi)) (pipewrite_loop (nat n) pi addr 0)"

text \<open>The copying loop of \<open>piperead\<close>.\<close>

primrec piperead_copy :: "nat \<Rightarrow> u64 \<Rightarrow> u64 \<Rightarrow> int \<Rightarrow> ('z pipest_scheme, int) km" where
  "piperead_copy 0 pi addr i = kreturn i"
| "piperead_copy (Suc k) pi addr i =
     kbind (piget pi (\<lambda>q. (pipe_empty q, pipe_head q))) (\<lambda>(empty, ch).
     if empty then kreturn i
     else kseq (piset pi pipe_drop)
      (kbind this_proc (\<lambda>pr.
       kbind (pget pr p_pagetable) (\<lambda>pt.
       kbind (copyout pt (addr + of_int i) [ch]) (\<lambda>r.
       if r = - 1 then kreturn i else piperead_copy k pi addr (i + 1))))))"

definition piperead_loop :: "u64 \<Rightarrow> u64 \<Rightarrow> int \<Rightarrow> ('z pipest_scheme, int) km" where
  "piperead_loop pi addr n =
     kbind (piget pi (\<lambda>q. pipe_empty q \<and> pi_writeopen q)) (\<lambda>waiting.
     if waiting then
       kbind this_proc (\<lambda>pr.
       kbind (killed pr) (\<lambda>k.
       if k then kseq (release (L_pipe pi)) (kreturn (- 1))
       else sleep (Ch_pipe_nread pi) (L_pipe pi)))
     else
       kbind (piperead_copy (nat n) pi addr 0) (\<lambda>i.
       kseq (kdo [wakeup (Some (Ch_pipe_nwrite pi)), release (L_pipe pi)])
      (kreturn i)))"

definition piperead :: "u64 \<Rightarrow> u64 \<Rightarrow> int \<Rightarrow> ('z pipest_scheme, int) km" where
  "piperead pi addr n = kseq (acquire (L_pipe pi)) (piperead_loop pi addr n)"

end
