(* ===== verification/Pipes.thy ===== *)
theory Pipes
  imports Pipe
begin

text \<open>
  Properties of \<open>kernel/pipe.c\<close>: a pipe is a queue of at most \<open>PIPESIZE\<close> bytes, and what \<open>pipewrite\<close> and
  \<open>piperead\<close> put into it and take out of it.
\<close>

section \<open>The pipe as a queue\<close>

definition pipe_inv :: "pipe \<Rightarrow> bool" where
  "pipe_inv q \<longleftrightarrow> length (pi_data q) = PIPESIZE \<and> unat (pi_nwrite q - pi_nread q) \<le> PIPESIZE"

definition pipe_contents :: "pipe \<Rightarrow> u8 list" where
  "pipe_contents q = ring_contents (pi_data q) (pi_nread q) (pi_nwrite q)"

interpretation pipe_queue: bounded_queue pipe_inv pipe_contents PIPESIZE
  pipe_put pipe_head pipe_drop pipe_full pipe_empty
proof
  fix q c
  assume i: "pipe_inv q"
  have w: "pipe_full q \<longleftrightarrow> pi_nwrite q - pi_nread q = 512"
    by (auto simp: pipe_full_def PIPESIZE_def algebra_simps)
  then show f: "pipe_full q \<longleftrightarrow> length (pipe_contents q) = PIPESIZE"
    by (simp add: pipe_contents_def PIPESIZE_def word_unat_eq_iff)
  show "length (pipe_contents q) \<le> PIPESIZE"
    using i by (simp add: pipe_contents_def pipe_inv_def)
  show e: "pipe_empty q \<longleftrightarrow> pipe_contents q = []"
    by (simp add: pipe_empty_def pipe_contents_def ring_contents_empty)
  {
    assume "\<not> pipe_full q"
    then have n: "unat (pi_nwrite q - pi_nread q) < PIPESIZE"
      using f i by (simp add: pipe_contents_def pipe_inv_def)
    then show "pipe_contents (pipe_put c q) = pipe_contents q @ [c]"
      using i ring_put [of "pi_data q" PIPESIZE "pi_nwrite q" "pi_nread q" c]
      by (simp add: pipe_contents_def pipe_put_def pipe_inv_def PIPESIZE_def)
    then have "length (pipe_contents (pipe_put c q)) \<le> PIPESIZE"
      using n by (simp add: pipe_contents_def)
    then show "pipe_inv (pipe_put c q)"
      using i by (simp add: pipe_contents_def pipe_inv_def pipe_put_def)
  next
    assume "\<not> pipe_empty q"
    then show c: "pipe_contents q = pipe_head q # pipe_contents (pipe_drop q)"
      using i ring_get [of "pi_nread q" "pi_nwrite q" "pi_data q"]
      by (auto simp: pipe_contents_def pipe_head_def pipe_drop_def pipe_inv_def pipe_empty_def)
    have "length (pipe_contents q) = Suc (length (pipe_contents (pipe_drop q)))" by (simp add: c)
    then show "pipe_inv (pipe_drop q)"
      using i by (simp add: pipe_contents_def pipe_inv_def pipe_drop_def)
  }
qed

text \<open>C22. A pipe is a first-in first-out queue: in any sequence of writes and reads of bytes, a write to
  a full pipe and a read from an empty one being refused, the bytes that came out, followed by those
  still in the pipe, are the bytes that were in it followed by those that were accepted, in order.
  This holds also when the 32-bit counters \<open>nread\<close> and \<open>nwrite\<close> wrap around.\<close>

theorem pipe_fifo:
  assumes "pipe_inv q" "queue_run pipe_put pipe_head pipe_drop pipe_full pipe_empty ops q = (ins, outs, q')"
  shows "pipe_inv q' \<and> pipe_contents q @ ins = outs @ pipe_contents q'"
  using pipe_queue.fifo [OF assms] .

text \<open>An empty pipe whose counters are about to wrap around.\<close>

definition pipe0 :: pipe where
  "pipe0 = \<lparr>pi_data = replicate PIPESIZE 0, pi_nread = - 1, pi_nwrite = - 1, pi_readopen = True, pi_writeopen = True\<rparr>"

theorem pipe_fifo_witness:
  "\<exists>q'. queue_run pipe_put pipe_head pipe_drop pipe_full pipe_empty [Enq 7, Enq 8, Deq, Enq 9, Deq] pipe0 = ([7, 8, 9], [7, 8], q')
     \<and> pipe_contents q' = [9]"
proof -
  let ?r = "queue_run pipe_put pipe_head pipe_drop pipe_full pipe_empty [Enq 7, Enq 8, Deq, Enq 9, Deq] pipe0"
  have i: "pipe_inv pipe0" "pipe_contents pipe0 = []"
    by (simp_all add: pipe_inv_def pipe_contents_def pipe0_def)
  have m: "unat (- 1 :: u32) mod 512 = 511"
    by (simp add: unsigned_minus_1_eq_mask mask_eq_exp_minus_1)
  have "fst ?r = [7, 8, 9]" "fst (snd ?r) = [7, 8]"
    by (simp_all add: pipe0_def pipe_put_def pipe_head_def pipe_drop_def pipe_full_def pipe_empty_def PIPESIZE_def
        m nth_list_update Let_def split: prod.splits)
  then obtain q' where "?r = ([7, 8, 9], [7, 8], q')" by (cases ?r) auto
  with pipe_fifo [OF i(1) this] i(2) show ?thesis by auto
qed

section \<open>Writing\<close>

text \<open>Process \<open>p\<close> is running in a pipe operation with only the lock of the pipe held.\<close>

definition pipe_ready :: "u64 \<Rightarrow> nat \<Rightarrow> 'z pipest_scheme \<Rightarrow> bool" where
  "pipe_ready pi p s \<longleftrightarrow> curproc s = Some p \<and> p < NPROC \<and> length (procs s) = NPROC \<and> held s = [L_pipe pi]
     \<and> pipe_inv (pipes s pi) \<and> wf_pt (mem s) 2 (p_pagetable (procs s ! p))"


lemma woken_self: "i < length ps \<Longrightarrow> woken c (Some i) ps ! i = ps ! i"
  by (simp add: woken_def)


text \<open>Process \<open>p\<close> asleep on a channel.\<close>

definition asleep :: "chan \<Rightarrow> nat \<Rightarrow> proc list \<Rightarrow> proc list" where
  "asleep c p ps = ps[p := (ps ! p)\<lparr>p_chan := Some c, p_state := SLEEPING\<rparr>]"








section \<open>Reading\<close>

lemma user_owned_copied:
  "copied_out s fs pt S Z t \<Longrightarrow> user_owned (mem t) pt S = user_owned (mem s) pt S"
  by (simp add: user_owned_def copied_out_same(1))

text \<open>An address space does not depend on the rest of the state.\<close>

lemma uvm_cong:
  assumes "uvm s fs pt S Z" "mem t = mem s" "freelist t = freelist s" "kend t = kend s" "L_kmem \<notin> set (held t)"
  shows "uvm t fs pt S Z"
proof -
  have "page_ok t q = page_ok s q" for q using assms(4) by (simp add: page_ok_def)
  then show ?thesis using assms by (simp add: uvm_def pt_inv_def kmem_inv_def)
qed

text \<open>The memory after the bytes \<open>bs\<close> have been copied to the user address \<open>a\<close>: the user reads them there, and no
  other byte of the machine has changed.\<close>

definition ucopied :: "memory \<Rightarrow> memory \<Rightarrow> u64 \<Rightarrow> u64 \<Rightarrow> u8 list \<Rightarrow> bool" where
  "ucopied m m' pt a bs \<longleftrightarrow> (\<forall>b. uok m pt b \<longrightarrow>
     uget m' pt b = (if unat (b - a) < length bs then bs ! unat (b - a) else uget m pt b)) \<and>
     (\<forall>x. (\<forall>i < length bs. x \<noteq> uaddr m pt (a + of_nat i)) \<longrightarrow> m' x = m x)"

lemma ucopied_Nil: "ucopied m m pt a []"
  by (simp add: ucopied_def)

lemma ucopied_Cons:
  assumes "ucopied m m1 pt a [c]" "ucopied m1 m2 pt (a + 1) bs" "length bs < 2 ^ 64 - 1"
    "\<And>b. uok m1 pt b = uok m pt b" "\<And>b. uaddr m1 pt b = uaddr m pt b"
  shows "ucopied m m2 pt a (c # bs)"
  unfolding ucopied_def
proof (intro conjI allI impI)
  fix b assume b: "uok m pt b"
  show "uget m2 pt b = (if unat (b - a) < length (c # bs) then (c # bs) ! unat (b - a) else uget m pt b)"
  proof (cases "b = a")
    case True
    have "unat (- 1 :: u64) = 2 ^ 64 - 1" by (simp add: unsigned_minus_1_eq_mask mask_eq_exp_minus_1)
    then show ?thesis using assms b True by (simp add: ucopied_def)
  next
    case False
    have "unat (b - a) = Suc (unat (b - (a + 1)))"
    proof -
      have "b - (a + 1) = b - a - 1" by simp
      moreover have "0 < unat (b - a)" using False by (simp add: unat_gt_0)
      ultimately show ?thesis using unat_minus_one [of "b - a"] False by (simp only: Suc_pred' [symmetric]) simp
    qed
    then show ?thesis using assms b by (simp add: ucopied_def)
  qed
next
  fix x assume x: "\<forall>i < length (c # bs). x \<noteq> uaddr m pt (a + of_nat i)"
  have "x \<noteq> uaddr m1 pt (a + 1 + of_nat i)" if "i < length bs" for i
    using x [rule_format, of "Suc i"] that assms(5) by (simp add: add.assoc)
  moreover have "x \<noteq> uaddr m pt a" using x [rule_format, of 0] by simp
  ultimately show "m2 x = m x" using assms(1,2) by (simp add: ucopied_def)
qed

text \<open>One byte goes out to the user.\<close>

lemma copyout_byte:
  assumes u: "uvm s fs pt S Z" "user_owned (mem s) pt S"
  shows "\<not> uwok (mem s) pt a \<Longrightarrow> copyout pt a [c] s = Ok (- 1) s"
    "uwok (mem s) pt a \<Longrightarrow> \<exists>t. copyout pt a [c] s = Ok 0 t \<and> copied_out s fs pt S Z t \<and> ucopied (mem s) (mem t) pt a [c]"
proof -
  have wf: "wf_pt (mem s) 2 pt" using u(1) by (simp add: uvm_def pt_inv_def)
  note step = copyout_step [OF wf, of "[c]" a]
  show "\<not> uwok (mem s) pt a \<Longrightarrow> copyout pt a [c] s = Ok (- 1) s" using step by simp
  assume w: "uwok (mem s) pt a"
  have "min (page_rest a) (length [c]) = 1" using page_rest_pos [of a] by (simp add: min_absorb2 Suc_leI)
  moreover have "copyout pt b [] s' = Ok 0 s'" for b and s' :: "'a kmem_scheme" by (subst copyout.simps) simp
  ultimately have e: "copyout pt a [c] s = Ok 0 (s\<lparr>mem := write_bytes (mem s) (uaddr (mem s) pt a) [c]\<rparr>)" (is "_ = Ok 0 ?t")
    using step w by simp
  have "mem ?t x = mem s x" if "x \<noteq> uaddr (mem s) pt a" for x
    using that by (simp add: write_bytes_out mem_region unat_eq_0)
  then show "\<exists>t. copyout pt a [c] s = Ok 0 t \<and> copied_out s fs pt S Z t \<and> ucopied (mem s) (mem t) pt a [c]"
    using copyout_run [OF u, of "[c]" a] w e by (intro exI [of _ ?t]) (simp add: ucopied_def)
qed

text \<open>The number of bytes that the user may write at \<open>a\<close>, at most \<open>n\<close>.\<close>

primrec uwritable :: "memory \<Rightarrow> u64 \<Rightarrow> u64 \<Rightarrow> nat \<Rightarrow> nat" where
  "uwritable m pt a 0 = 0"
| "uwritable m pt a (Suc n) = (if uwok m pt a then Suc (uwritable m pt (a + 1) n) else 0)"

lemma uwritable_cong: "(\<And>b. uwok m pt b = uwok m' pt b) \<Longrightarrow> uwritable m pt a n = uwritable m' pt a n"
  by (induction n arbitrary: a) simp_all

lemma uwritable_le: "uwritable m pt a n \<le> n"
  by (induction n arbitrary: a) simp_all

text \<open>What the copying loop has done when it ends: \<open>j\<close> bytes are copied, and one more is taken out of the pipe if the user
  may not write it.\<close>

lemma piperead_copy_run:
  fixes s :: "'z pipest_scheme"
  assumes "curproc s = Some p" "p_pagetable (procs s ! p) = pt" "pipe_inv (pipes s pi)"
    "uvm s fs pt S Z" "user_owned (mem s) pt S" "n = min k (length (pipe_contents (pipes s pi)))" "n < 2 ^ 64"
    "j = uwritable (mem s) pt (addr + of_int i) n" "q = (pipe_drop ^^ min n (Suc j)) (pipes s pi)"
  shows "\<exists>m. piperead_copy k pi addr i s = Ok (i + int j) (s\<lparr>mem := m, pipes := (pipes s)(pi := q)\<rparr>)
    \<and> pipe_inv q \<and> pipe_contents q = drop (min n (Suc j)) (pipe_contents (pipes s pi))
    \<and> ucopied (mem s) m pt (addr + of_int i) (take j (pipe_contents (pipes s pi)))"
  using assms
proof (induction k arbitrary: i s n j q)
  case 0
  then show ?case by (auto simp: ucopied_Nil intro!: exI [of _ "mem s"])
next
  case (Suc k)
  let ?a = "addr + of_int i" and ?q = "pipes s pi"
  show ?case
  proof (cases "pipe_empty ?q")
    case True
    then have "pipe_contents ?q = []" using pipe_queue.emp_iff Suc.prems(3) by blast
    then show ?thesis using True Suc.prems by (auto simp: ucopied_Nil intro!: exI [of _ "mem s"])
  next
    case False
    define s1 where "s1 = s\<lparr>pipes := (pipes s)(pi := pipe_drop ?q)\<rparr>"
    have s1: "mem s1 = mem s" "procs s1 = procs s" "curproc s1 = curproc s" "pipes s1 = (pipes s)(pi := pipe_drop ?q)"
      by (simp_all add: s1_def)
    have c: "pipe_contents ?q = pipe_head ?q # pipe_contents (pipe_drop ?q)" and i1: "pipe_inv (pipe_drop ?q)"
      using pipe_queue.deq_contents pipe_queue.deq_inv Suc.prems(3) False by blast+
    have u1: "uvm s1 fs pt S Z" using Suc.prems(4)
      by (rule uvm_cong) (use Suc.prems(4) in \<open>auto simp: s1_def uvm_def pt_inv_def kmem_inv_def\<close>)
    have ow1: "user_owned (mem s1) pt S" using Suc.prems(5) s1(1) by simp
    define n' where "n' = min k (length (pipe_contents (pipe_drop ?q)))"
    have n: "n = Suc n'" using Suc.prems(6) c by (simp add: n'_def)
    have e: "piperead_copy (Suc k) pi addr i s = kbind (copyout pt ?a [pipe_head ?q]) (\<lambda>r.
        if r = - 1 then kreturn i else piperead_copy k pi addr (i + 1)) s1"
      using False Suc.prems(1,2) by (simp add: kbind_Ok kseq_Ok s1_def)
    show ?thesis
    proof (cases "uwok (mem s) pt ?a")
      case nw: False
      then have j: "j = 0" using Suc.prems(8) n by simp
      then have q: "q = pipe_drop ?q" using Suc.prems(9) n by simp
      have "piperead_copy (Suc k) pi addr i s = Ok i s1"
        unfolding e using copyout_byte(1) [OF u1 ow1] nw s1(1) by (simp add: kbind_Ok)
      then have "piperead_copy (Suc k) pi addr i s = Ok (i + int j) (s\<lparr>mem := mem s, pipes := (pipes s)(pi := q)\<rparr>)"
        using j q by (simp add: s1_def del: piperead_copy.simps)
      moreover have "pipe_contents q = drop (min n (Suc j)) (pipe_contents ?q)" unfolding q n j c by simp
      moreover have "pipe_inv q" "ucopied (mem s) (mem s) pt ?a (take j (pipe_contents ?q))" using i1 q j ucopied_Nil by simp_all
      ultimately show ?thesis by blast
    next
      case True
      then obtain t where t: "copyout pt ?a [pipe_head ?q] s1 = Ok 0 t" "copied_out s1 fs pt S Z t"
          "ucopied (mem s) (mem t) pt ?a [pipe_head ?q]"
        using copyout_byte(2) [OF u1 ow1, of ?a "pipe_head ?q"] s1(1) by auto
      obtain m1 where tt: "t = s\<lparr>pipes := (pipes s)(pi := pipe_drop ?q), mem := m1\<rparr>" and ut: "uvm t fs pt S Z"
        using t(2) unfolding copied_out_def s1_def by blast
      have fr: "curproc t = curproc s" "procs t = procs s" "pipes t pi = pipe_drop ?q"
        "t\<lparr>mem := m, pipes := (pipes t)(pi := q)\<rparr> = s\<lparr>mem := m, pipes := (pipes s)(pi := q)\<rparr>" for m
        by (simp_all add: tt)
      note w = copied_out_same [OF t(2), unfolded s1(1)]
      have a1: "addr + of_int (i + 1) = ?a + 1" by simp
      define j' where "j' = uwritable (mem t) pt (addr + of_int (i + 1)) n'"
      have j: "j = Suc j'" using Suc.prems(8) True n uwritable_cong [of "mem t" pt "mem s"] w(2) by (simp add: j'_def add.assoc)
      have q: "q = (pipe_drop ^^ min n' (Suc j')) (pipes t pi)"
        using Suc.prems(9) n j by (simp add: fr funpow_swap1)
      have ow: "user_owned (mem t) pt S" using user_owned_copied [OF t(2)] ow1 by simp
      have pre: "curproc t = Some p" "p_pagetable (procs t ! p) = pt" "pipe_inv (pipes t pi)"
          "n' = min k (length (pipe_contents (pipes t pi)))" "n' < 2 ^ 64"
        using Suc.prems(1,2,7) fr i1 n by (simp_all add: n'_def)
      obtain m where m: "piperead_copy k pi addr (i + 1) t = Ok (i + 1 + int j') (s\<lparr>mem := m, pipes := (pipes s)(pi := q)\<rparr>)"
          "pipe_inv q" "pipe_contents q = drop (min n' (Suc j')) (pipe_contents (pipe_drop ?q))"
          "ucopied (mem t) m pt (?a + 1) (take j' (pipe_contents (pipe_drop ?q)))"
        using Suc.IH [OF pre(1-3) ut ow pre(4,5) j'_def q] unfolding a1 fr(3,4) by blast
      have "piperead_copy (Suc k) pi addr i s = Ok (i + int j) (s\<lparr>mem := m, pipes := (pipes s)(pi := q)\<rparr>)"
        unfolding e using t(1) m(1) j by (simp add: kbind_Ok)
      moreover have "length (take j' (pipe_contents (pipe_drop ?q))) < 2 ^ 64 - 1"
        using uwritable_le [of "mem t" pt "addr + of_int (i + 1)" n', folded j'_def] Suc.prems(7) n by simp
      then have "ucopied (mem s) m pt ?a (take j (pipe_contents ?q))"
        unfolding c j take_Suc_Cons by (intro ucopied_Cons [OF t(3) m(4)]) (simp_all only: w)
      moreover have "pipe_contents q = drop (min n (Suc j)) (pipe_contents ?q)" unfolding m(3) n j c by simp
      ultimately show ?thesis using m(2) by blast
    qed
  qed
qed

text \<open>C24. \<open>piperead(pi, addr, n)\<close>, when the pipe holds bytes or its writing end is closed, copies the first bytes of the
  pipe to the user address \<open>addr\<close>, in order: \<open>n\<close> of them, or all if there are fewer, or as many as the user may write. It
  returns their number \<open>j\<close>, 0 if the pipe is empty. They are taken out of the pipe, and with them, if the user may
  not write the next byte, that one too, which is lost. When the pipe is empty and may still be written to, it goes to
  sleep, or returns \<open>-1\<close> if the process is killed. Nothing else changes: no byte of memory but the \<open>j\<close> that
  are copied, no other pipe, no process but the writers that are woken and, if it sleeps, its own, and no other part of the
  state of the kernel.\<close>

theorem piperead_exact:
  fixes s :: "'z pipest_scheme"
  assumes "held s = []" "pipe_ready pi p (s\<lparr>held := [L_pipe pi]\<rparr>)" "pt = p_pagetable (procs s ! p)"
    "uvm s fs pt S Z" "user_owned (mem s) pt S"
    "c = pipe_contents (pipes s pi)" "j = uwritable (mem s) pt addr (min (nat n) (length c))"
    "taken = min (min (nat n) (length c)) (Suc j)" "q = (pipe_drop ^^ taken) (pipes s pi)"
  shows "if pipe_empty (pipes s pi) \<and> pi_writeopen (pipes s pi)
    then piperead pi addr n s = (if p_killed (procs s ! p) then Ok (- 1) s
      else Block (Ch_pipe_nread pi) (s\<lparr>held := [L_proc p], procs := asleep (Ch_pipe_nread pi) p (procs s)\<rparr>))
    else \<exists>m. piperead pi addr n s = Ok (int j) (s\<lparr>held := [], mem := m, pipes := (pipes s)(pi := q),
          procs := woken (Some (Ch_pipe_nwrite pi)) (Some p) (procs s)\<rparr>)
      \<and> pipe_inv q \<and> pipe_contents q = drop taken c \<and> ucopied (mem s) m pt addr (take j c)"
proof -
  let ?s = "s\<lparr>held := [L_pipe pi]\<rparr>"
  have r: "curproc s = Some p" "p < NPROC" "length (procs s) = NPROC" "pipe_inv (pipes s pi)"
    using assms(2) by (simp_all add: pipe_ready_def)
  have e: "piperead pi addr n s = piperead_loop pi addr n ?s"
    using assms(1) by (simp add: piperead_def kseq_Ok acquire_run)
  show ?thesis
  proof (cases "pipe_empty (pipes s pi) \<and> pi_writeopen (pipes s pi)")
    case True
    then show ?thesis
      using r assms(1) by (simp add: e piperead_loop_def kbind_Ok killed_run kseq_Ok release_run sleep_run asleep_def)
  next
    case False
    have "length c \<le> PIPESIZE" using pipe_queue.bounded r(4) by (simp add: assms(6))
    then have n: "min (nat n) (length c) < 2 ^ 64" by (simp add: PIPESIZE_def)
    have u: "uvm ?s fs pt S Z"
      using assms(4) by (rule uvm_cong) simp_all
    have a: "curproc ?s = Some p" "p_pagetable (procs ?s ! p) = pt" "pipe_inv (pipes ?s pi)" "user_owned (mem ?s) pt S"
        "min (nat n) (length c) = min (nat n) (length (pipe_contents (pipes ?s pi)))"
        "j = uwritable (mem ?s) pt (addr + of_int 0) (min (nat n) (length c))"
        "q = (pipe_drop ^^ min (min (nat n) (length c)) (Suc j)) (pipes ?s pi)"
      using r assms(3,5) by (simp_all add: assms(6-9))
    obtain m where m: "piperead_copy (nat n) pi addr 0 ?s = Ok (int j) (?s\<lparr>mem := m, pipes := (pipes s)(pi := q)\<rparr>)"
      "pipe_inv q" "pipe_contents q = drop taken c" "ucopied (mem s) m pt addr (take j c)"
      using piperead_copy_run [OF a(1-3) u a(4,5) n a(6,7)] unfolding assms(6,8) by auto
    define t where "t = ?s\<lparr>mem := m, pipes := (pipes s)(pi := q)\<rparr>"
    have t: "held t = [L_pipe pi]" "curproc t = Some p" "length (procs t) = NPROC" using r by (simp_all add: t_def)
    have "piperead pi addr n s = Ok (int j) (t\<lparr>procs := woken (Some (Ch_pipe_nwrite pi)) (curproc t) (procs t), held := []\<rparr>)"
      using False m(1) t wakeup_ready [of t "Some (Ch_pipe_nwrite pi)"]
      by (auto simp: e piperead_loop_def kbind_Ok kseq_Ok release_run wake_ready_def t_def [symmetric])
    then have "piperead pi addr n s = Ok (int j) (s\<lparr>held := [], mem := m, pipes := (pipes s)(pi := q),
        procs := woken (Some (Ch_pipe_nwrite pi)) (Some p) (procs s)\<rparr>)"
      using r(1) by (simp add: t_def)
    then show ?thesis unfolding if_not_P [OF False] using m(2-4) by blast
  qed
qed

text \<open>A process with one page of memory and an open pipe with two bytes in it.\<close>

definition pipest0 :: pipest where
  "pipest0 = fsst.extend (fsst0\<lparr>mem := mem space1, kend := kend space1, freelist := freelist space1, curproc := Some 0,
       procs := (replicate NPROC proc0)[0 := proc0\<lparr>p_state := RUNNING, p_pagetable := 0x87ff0000\<rparr>]\<rparr>)
     (pipest.fields (\<lambda>_. pipe_put 8 (pipe_put 7 pipe0)))"

lemma pipest0_simps:
  "held pipest0 = []" "curproc pipest0 = Some 0" "length (procs pipest0) = NPROC" "mem pipest0 = mem space1"
  "kend pipest0 = kend space1" "freelist pipest0 = freelist space1" "procs pipest0 ! 0 = proc0\<lparr>p_state := RUNNING, p_pagetable := 0x87ff0000\<rparr>"
  "pipes pipest0 pi = pipe_put 8 (pipe_put 7 pipe0)"
  by (simp_all add: pipest0_def pipest.defs fsst0_defs)

lemma pipe2:
  "pipe_inv (pipe_put 8 (pipe_put 7 pipe0))" "pipe_contents (pipe_put 8 (pipe_put 7 pipe0)) = [7, 8]"
proof -
  have i: "pipe_inv pipe0" "pipe_contents pipe0 = []" "\<not> pipe_full pipe0" "\<not> pipe_full (pipe_put 7 pipe0)"
    by (simp_all add: pipe_inv_def pipe_contents_def pipe0_def pipe_full_def pipe_put_def PIPESIZE_def)
  show "pipe_inv (pipe_put 8 (pipe_put 7 pipe0))" "pipe_contents (pipe_put 8 (pipe_put 7 pipe0)) = [7, 8]"
    using pipe_queue.put_inv pipe_queue.put_contents i by simp_all
qed

lemma pipest0_ready:
  "\<exists>fs Z. uvm pipest0 fs 0x87ff0000 {0} Z" "user_owned (mem pipest0) 0x87ff0000 {0}"
  "pipe_ready pi 0 (pipest0\<lparr>held := [L_pipe pi]\<rparr>)"
proof -
  obtain gs where u: "uvm space1 gs 0x87ff0000 {0} {1..<2 ^ 27}" using space1_uvm(1) by blast
  then have "uvm pipest0 gs 0x87ff0000 {0} {1..<2 ^ 27}" by (rule uvm_cong) (simp_all add: pipest0_simps)
  then show "\<exists>fs Z. uvm pipest0 fs 0x87ff0000 {0} Z" by blast
  show "user_owned (mem pipest0) 0x87ff0000 {0}" using space1_uvm(2) by (simp add: pipest0_simps)
  show "pipe_ready pi 0 (pipest0\<lparr>held := [L_pipe pi]\<rparr>)"
    using u pipe2 by (simp add: pipe_ready_def pipest0_simps uvm_def pt_inv_def)
qed

lemma pipest0_page: "j < 4000 \<Longrightarrow> uwok (mem pipest0) 0x87ff0000 (8 + of_nat j)"
proof -
  assume "j < 4000"
  then have "8 + of_nat j < PGSIZE" by (simp add: PGSIZE_def word_less_nat_alt unat_word_ariths unat_of_nat)
  then show ?thesis using space1_uvm(3) by (simp add: pipest0_simps)
qed


text \<open>Ten bytes are asked for, and the two in the pipe are read.\<close>

theorem piperead_exact_witness:
  "\<exists>t. piperead 0x1000 8 10 pipest0 = Ok 2 t \<and> pipe_contents (pipes t 0x1000) = []
    \<and> ucopied (mem pipest0) (mem t) 0x87ff0000 8 [7, 8]"
proof -
  obtain fs Z where u: "uvm pipest0 fs 0x87ff0000 {0} Z" using pipest0_ready(1) by blast
  have e: "\<not> pipe_empty (pipe_put 8 (pipe_put 7 pipe0))" using pipe_queue.emp_iff pipe2 by simp
  have pt: "0x87ff0000 = p_pagetable (procs pipest0 ! 0)" by (simp add: pipest0_simps)
  have c: "[7, 8] = pipe_contents (pipes pipest0 0x1000)" by (simp add: pipest0_simps pipe2)
  have w: "2 = uwritable (mem pipest0) 0x87ff0000 8 (min (nat 10) (length [7, 8 :: u8]))"
    using pipest0_page [of 0] pipest0_page [of 1] by (simp add: eval_nat_numeral)
  have "2 = min (min (nat 10) (length [7, 8 :: u8])) (Suc 2)" by simp
  from piperead_exact [OF pipest0_simps(1) pipest0_ready(3) pt u pipest0_ready(2) c w this refl] e show ?thesis
    by (auto simp: pipest0_simps)
qed

end
