(* ===== verification/Bytes.thy ===== *)
theory Bytes
  imports Prelude
begin

text \<open>
  Words and byte strings inside a block: what is read back after a part of the block was overwritten.
  The log header, the inodes, the directory entries and the bitmap on disk are read and written so.
\<close>

definition slice :: "u8 list \<Rightarrow> nat \<Rightarrow> nat \<Rightarrow> u8 list" where
  "slice d off n = take n (drop off d)"

lemma length_splice [simp]: "off + length bs \<le> length d \<Longrightarrow> length (splice d off bs) = length d"
  by (simp add: splice_def)

lemma length_slice [simp]: "off + n \<le> length d \<Longrightarrow> length (slice d off n) = n"
  by (simp add: slice_def)

lemma nth_splice:
  "off + length bs \<le> length d \<Longrightarrow> i < length d \<Longrightarrow>
     splice d off bs ! i = (if off \<le> i \<and> i < off + length bs then bs ! (i - off) else d ! i)"
  by (auto simp: splice_def nth_append min_def)

lemma slice_splice:
  "off + length bs \<le> length d \<Longrightarrow> n = length bs \<Longrightarrow> slice (splice d off bs) off n = bs"
  by (simp add: slice_def splice_def)

lemma slice_splice_other:
  assumes "off + length bs \<le> length d" "i + n \<le> off \<or> off + length bs \<le> i" "i + n \<le> length d"
  shows "slice (splice d off bs) i n = slice d i n"
proof (rule nth_equalityI)
  show "length (slice (splice d off bs) i n) = length (slice d i n)" using assms by simp
  fix j assume "j < length (slice (splice d off bs) i n)"
  then have "j < n" using assms by simp
  then show "slice (splice d off bs) i n ! j = slice d i n ! j"
    using assms by (auto simp: slice_def nth_splice)
qed

lemma slice_slice: "i + n \<le> m \<Longrightarrow> slice (slice d off m) i n = slice d (off + i) n"
  by (simp add: slice_def drop_take add.commute)

lemma get_word_slice: "get_word n d off = le_word (slice d off n)"
  by (simp add: get_word_def slice_def)

lemma length_put_word [simp]: "off + n \<le> length d \<Longrightarrow> length (put_word n d off v) = length d"
  by (simp add: put_word_def)

lemma get_put_word:
  "off + n \<le> length d \<Longrightarrow> LENGTH('a) \<le> 8 * n \<Longrightarrow> get_word n (put_word n d off (v :: 'a::len word)) off = v"
  by (simp add: get_word_slice put_word_def slice_splice le_word_le_bytes take_bit_word_eq_self)

lemma get_put_word_other:
  "off + n \<le> length d \<Longrightarrow> i + m \<le> off \<or> off + n \<le> i \<Longrightarrow> i + m \<le> length d
     \<Longrightarrow> get_word m (put_word n d off v) i = get_word m d i"
  by (simp add: get_word_slice put_word_def slice_splice_other)

end
