(* ===== verification/Bcache.thy ===== *)
theory Bcache
  imports Log Bytes
begin

text \<open>
  Properties of the buffer cache of \<open>kernel/bio.c\<close>. The links through \<open>prev\<close> and \<open>next\<close> are a list of all
  the buffers, most recently used first, that the searches of \<open>bget\<close> run along. On top of it the cache
  is a store of blocks: each block has contents, as its readers see them, a count of its references
  and a lock, and the operations act on these; which buffer holds the block does not matter. The
  locale \<open>block_store\<close> is that interface, and the clients of the cache are proved in it.
\<close>

section \<open>The list of buffers\<close>

fun chain :: "(nat \<Rightarrow> nat) \<Rightarrow> nat list \<Rightarrow> bool" where
  "chain f (x # y # zs) \<longleftrightarrow> f x = y \<and> chain f (y # zs)"
| "chain f _ \<longleftrightarrow> True"

lemma chain_append: "chain f (xs @ y # zs) \<longleftrightarrow> chain f (xs @ [y]) \<and> chain f (y # zs)"
  by (induction f xs rule: chain.induct) (auto simp: neq_Nil_conv elim: list.exhaust)

lemma chain_cong: "(\<And>x. x \<in> set (butlast xs) \<Longrightarrow> f x = g x) \<Longrightarrow> chain f xs = chain g xs"
  by (induction g xs rule: chain.induct) auto

lemma chain_upd: "x \<notin> set (butlast xs) \<Longrightarrow> chain (f(x := y)) xs = chain f xs"
  by (rule chain_cong) auto

text \<open>Removing \<open>b\<close> from a chain, and adding it at either end.\<close>

lemma chain_skip:
  assumes "chain f (h # us @ b # vs @ [h])" "distinct (h # us @ b # vs)"
  shows "chain (f(last (h # us) := hd (vs @ [h]))) (h # us @ vs @ [h])"
proof -
  let ?f = "f(last (h # us) := hd (vs @ [h]))"
  obtain us' p where u: "h # us = us' @ [p]" by (metis rev_exhaust list.distinct(1))
  obtain n vs' where v: "vs @ [h] = n # vs'" by (cases vs) auto
  have c: "chain f ((us' @ [p]) @ b # n # vs')" and d: "distinct (us' @ [p])" "set (us' @ [p]) \<inter> set vs = {}"
    using assms u v by (auto simp flip: append_Cons)
  have b: "set (butlast (n # vs')) = set vs" using v by (metis butlast_snoc)
  have "chain f (us' @ [p])" "chain f (n # vs')"
    using c chain_append [of f "us' @ [p]" b "n # vs'"] chain_append [of f us' p "[b]"] by simp_all
  then have "chain ?f (us' @ [p])" "chain ?f (n # vs')"
    using d b by (simp add: u chain_upd, simp add: u chain_upd del: butlast.simps)
  then have "chain ?f (us' @ p # n # vs')"
    using chain_append [of ?f us' p "n # vs'"] by (simp add: u v)
  then show ?thesis using u v by (metis append_Cons append_assoc append_Nil)
qed

lemma chain_push:
  assumes "chain f (h # xs @ [h])" "b \<notin> set (h # xs)" "h \<notin> set xs"
  shows "chain (f(b := hd (xs @ [h]), h := b)) (h # b # xs @ [h])"
proof -
  obtain n ys where x: "xs @ [h] = n # ys" by (cases xs) auto
  have e: "set (butlast (n # ys)) = set xs" using x by (metis butlast_snoc)
  have "chain f (n # ys)" using assms(1) x by simp
  then have "chain (f(b := n, h := b)) (n # ys)" using assms(2,3) e by (subst chain_upd | simp)+
  then show ?thesis using assms(2) x by simp
qed

lemma chain_snoc:
  assumes "chain f (h # xs @ [h])" "b \<notin> set (h # xs)" "distinct (h # xs)"
  shows "chain (f(b := h, last (h # xs) := b)) (h # xs @ [b, h])"
proof -
  let ?f = "f(b := h, last (h # xs) := b)"
  obtain ys p where x: "h # xs = ys @ [p]" by (metis rev_exhaust list.distinct(1))
  have "b \<noteq> p" "b \<notin> set ys" "p \<notin> set ys" using assms(2,3) by (auto simp: x)
  moreover have "chain f (ys @ [p])" using assms(1) chain_append [of f ys p "[h]"] x by (metis append_Cons append_assoc append_Nil)
  ultimately have "chain ?f (ys @ [p])" by (simp add: x chain_upd)
  moreover have "?f p = b" "?f b = h" using \<open>b \<noteq> p\<close> by (simp_all add: x)
  ultimately have "chain ?f (ys @ p # [b, h])" using chain_append [of ?f ys p "[b, h]"] by simp
  then show ?thesis using x by (metis append_Cons append_assoc append_Nil)
qed

abbreviation "nexts bs \<equiv> \<lambda>b. b_next (bs ! b)"
abbreviation "prevs bs \<equiv> \<lambda>b. b_prev (bs ! b)"

definition linked :: "buf list \<Rightarrow> nat list \<Rightarrow> bool" where
  "linked bs xs \<longleftrightarrow> length bs = Suc NBUF \<and> distinct xs \<and> set xs \<subseteq> {..<NBUF}
     \<and> chain (nexts bs) (bhead # xs @ [bhead]) \<and> chain (prevs bs) (bhead # rev xs @ [bhead])"

text \<open>All the buffers are in the list.\<close>

definition dll :: "buf list \<Rightarrow> nat list \<Rightarrow> bool" where
  "dll bs xs \<longleftrightarrow> linked bs xs \<and> set xs = {..<NBUF}"

lemma field_upd:
  "i < length bs \<Longrightarrow> (\<lambda>b. g (bs[i := x] ! b)) = (\<lambda>b. g (bs ! b))(i := g x)"
  by (auto simp: nth_list_update)

lemma field_upd_same:
  "g x = g (bs ! i) \<Longrightarrow> (\<lambda>b. g (bs[i := x] ! b)) = (\<lambda>b. g (bs ! b))"
  by (rule ext) (metis nth_list_update list_update_beyond not_less)

text \<open>The searches of \<open>bget\<close> visit the buffers in the order of the list, and end.\<close>

lemma bfind_chain:
  "chain (\<lambda>b. dir (bs ! b)) (y # xs @ [bhead]) \<Longrightarrow> bhead \<notin> set xs \<Longrightarrow> length xs \<le> k
     \<Longrightarrow> bfind dir P bs k (dir (bs ! y)) = Some (List.find (\<lambda>b. P (bs ! b)) xs)"
proof (induction xs arbitrary: y k)
  case Nil
  then show ?case by (cases k) auto
next
  case (Cons x xs)
  then obtain k' where "k = Suc k'" by (cases k) auto
  then show ?case using Cons by auto
qed

lemma find_Some_mem: "List.find P xs = Some x \<Longrightarrow> x \<in> set xs \<and> P x"
  by (induction xs) (auto split: if_splits)

lemma dll_length: "dll bs xs \<Longrightarrow> length xs = NBUF"
  unfolding dll_def linked_def by (metis card_lessThan distinct_card)

lemma bscan_run:
  assumes "dll (bufs s) xs"
  shows "bscan b_next P s = Ok (List.find (\<lambda>b. P (bufs s ! b)) xs) s"
    and "bscan b_prev P s = Ok (List.find (\<lambda>b. P (bufs s ! b)) (rev xs)) s"
  using assms dll_length [OF assms] bfind_chain [of b_next "bufs s" bhead xs NBUF P]
    bfind_chain [of b_prev "bufs s" bhead "rev xs" NBUF P]
  by (simp_all add: bscan_def dll_def linked_def)

lemma dll_upd:
  "dll bs xs \<Longrightarrow> b_next x = b_next (bs ! b) \<Longrightarrow> b_prev x = b_prev (bs ! b) \<Longrightarrow> dll (bs[b := x]) xs"
  by (simp add: dll_def linked_def field_upd_same)

text \<open>The buffers apart from their links.\<close>

definition unlinked :: "buf list \<Rightarrow> buf list" where
  "unlinked = map (\<lambda>x. x\<lparr>b_prev := 0, b_next := 0\<rparr>)"

lemma unlinked_upd:
  "x\<lparr>b_prev := 0, b_next := 0\<rparr> = (bs ! i)\<lparr>b_prev := 0, b_next := 0\<rparr> \<Longrightarrow> unlinked (bs[i := x]) = unlinked bs"
  unfolding unlinked_def by (metis (no_types, lifting) list_update_beyond list_update_id map_update not_less)

lemma unlinked_field:
  assumes "unlinked bs' = unlinked bs" "i < length bs"
  shows "b_valid (bs' ! i) = b_valid (bs ! i)" "b_dev (bs' ! i) = b_dev (bs ! i)"
    "b_blockno (bs' ! i) = b_blockno (bs ! i)" "b_refcnt (bs' ! i) = b_refcnt (bs ! i)"
    "b_data (bs' ! i) = b_data (bs ! i)"
proof -
  have l: "length bs' = length bs" using assms(1) unfolding unlinked_def by (metis length_map)
  have "unlinked bs' ! i = unlinked bs ! i" using assms(1) by simp
  then have e: "(bs' ! i)\<lparr>b_prev := 0, b_next := 0\<rparr> = (bs ! i)\<lparr>b_prev := 0, b_next := 0\<rparr>"
    using assms(2) l by (simp add: unlinked_def)
  show "b_valid (bs' ! i) = b_valid (bs ! i)" using arg_cong [OF e, of b_valid] by simp
  show "b_dev (bs' ! i) = b_dev (bs ! i)" using arg_cong [OF e, of b_dev] by simp
  show "b_blockno (bs' ! i) = b_blockno (bs ! i)" using arg_cong [OF e, of b_blockno] by simp
  show "b_refcnt (bs' ! i) = b_refcnt (bs ! i)" using arg_cong [OF e, of b_refcnt] by simp
  show "b_data (bs' ! i) = b_data (bs ! i)" using arg_cong [OF e, of b_data] by simp
qed

lemma last_rev_Cons: "last (h # rev xs) = hd (xs @ [h])"
  by (cases xs) auto

lemma hd_rev_snoc: "hd (rev xs @ [h]) = last (h # xs)"
  by (cases xs rule: rev_cases) auto

lemma chain_hd: "chain f (h # xs @ [e]) \<Longrightarrow> f h = hd (xs @ [e])"
  by (cases xs) auto

lemma linked_neighbours:
  assumes "linked bs (us @ b # vs)"
  shows "b_next (bs ! b) = hd (vs @ [bhead])" "b_prev (bs ! b) = last (bhead # us)"
proof -
  have n: "chain (nexts bs) ((bhead # us) @ b # vs @ [bhead])"
    and p: "chain (prevs bs) ((bhead # rev vs) @ b # rev us @ [bhead])"
    using assms by (simp_all add: linked_def)
  from n have "chain (nexts bs) (b # vs @ [bhead])" using chain_append by blast
  then show "b_next (bs ! b) = hd (vs @ [bhead])" using chain_hd by fastforce
  from p have "chain (prevs bs) (b # rev us @ [bhead])" using chain_append by blast
  then have "b_prev (bs ! b) = hd (rev us @ [bhead])" using chain_hd by fastforce
  then show "b_prev (bs ! b) = last (bhead # us)" by (simp add: hd_rev_snoc)
qed

lemma list_unlink_run:
  fixes s :: "'z bcache_scheme"
  assumes "linked (bufs s) (us @ b # vs)"
  shows "\<exists>bs. list_unlink b s = Ok () (s\<lparr>bufs := bs\<rparr>) \<and> unlinked bs = unlinked (bufs s) \<and> linked bs (us @ vs)"
proof -
  let ?p = "last (bhead # us)" and ?n = "hd (vs @ [bhead])"
  let ?b1 = "(bufs s)[?n := (bufs s ! ?n)\<lparr>b_prev := ?p\<rparr>]"
  let ?bs = "?b1[?p := (?b1 ! ?p)\<lparr>b_next := ?n\<rparr>]"
  have l: "length (bufs s) = Suc NBUF" and d: "distinct (us @ b # vs)" "set (us @ b # vs) \<subseteq> {..<NBUF}"
    using assms by (auto simp: linked_def)
  then have h: "bhead \<notin> set (us @ b # vs)" by auto
  have pn: "?p < length (bufs s)" "?n < length (bufs s)"
    using d(2) l last_in_set [of "bhead # us"] hd_in_set [of "vs @ [bhead]"] by (auto simp del: last.simps)
  have "list_unlink b s = Ok () (s\<lparr>bufs := ?bs\<rparr>)"
    using linked_neighbours [OF assms] by (simp add: list_unlink_def kseq_Ok kbind_Ok)
  moreover have "unlinked ?bs = unlinked (bufs s)" by (simp add: unlinked_upd)
  moreover have "linked ?bs (us @ vs)"
  proof -
    have "chain ((nexts (bufs s))(?p := ?n)) (bhead # us @ vs @ [bhead])"
      using assms d h by (intro chain_skip [of _ _ us b vs]) (auto simp: linked_def)
    moreover have "nexts ?bs = (nexts (bufs s))(?p := ?n)"
      using pn by (subst field_upd) (simp_all add: field_upd_same)
    moreover have "chain ((prevs (bufs s))(last (bhead # rev vs) := hd (rev us @ [bhead]))) (bhead # rev vs @ rev us @ [bhead])"
      using assms d h by (intro chain_skip [of _ _ "rev vs" b "rev us"]) (auto simp: linked_def)
    moreover have "prevs ?bs = (prevs (bufs s))(?n := ?p)"
      using pn by (subst field_upd_same) (simp_all add: field_upd fun_upd_def)
    ultimately show ?thesis using d l unfolding linked_def last_rev_Cons hd_rev_snoc by auto
  qed
  ultimately show ?thesis by blast
qed

lemma list_push_run:
  fixes s :: "'z bcache_scheme"
  assumes "linked (bufs s) xs" "b < NBUF" "b \<notin> set xs"
  shows "\<exists>bs. list_push b s = Ok () (s\<lparr>bufs := bs\<rparr>) \<and> unlinked bs = unlinked (bufs s) \<and> linked bs (b # xs)"
proof -
  let ?n = "hd (xs @ [bhead])"
  let ?b1 = "(bufs s)[b := (bufs s ! b)\<lparr>b_next := ?n, b_prev := bhead\<rparr>]"
  let ?b2 = "?b1[?n := (?b1 ! ?n)\<lparr>b_prev := b\<rparr>]"
  let ?bs = "?b2[bhead := (?b2 ! bhead)\<lparr>b_next := b\<rparr>]"
  have l: "length (bufs s) = Suc NBUF" and d: "distinct xs" "set xs \<subseteq> {..<NBUF}"
    and c: "chain (nexts (bufs s)) (bhead # xs @ [bhead])" "chain (prevs (bufs s)) (bhead # rev xs @ [bhead])"
    using assms by (auto simp: linked_def)
  then have h: "bhead \<notin> set xs" "b \<notin> set (bhead # xs)" using assms(2,3) by auto
  have n: "?n < length (bufs s)" using d(2) l hd_in_set [of "xs @ [bhead]"] by auto
  have "list_push b s = Ok () (s\<lparr>bufs := ?bs\<rparr>)"
    using chain_hd [OF c(1)] by (simp add: list_push_def kseq_Ok kbind_Ok)
  moreover have "unlinked ?bs = unlinked (bufs s)" by (simp add: unlinked_upd)
  moreover have "linked ?bs (b # xs)"
  proof -
    have "chain ((nexts (bufs s))(b := ?n, bhead := b)) (bhead # b # xs @ [bhead])"
      using c h by (intro chain_push) auto
    moreover have "nexts ?bs = (nexts (bufs s))(b := ?n, bhead := b)"
      using n l assms(2) by (subst field_upd) (simp_all add: field_upd_same field_upd fun_upd_def)
    moreover have "chain ((prevs (bufs s))(b := bhead, last (bhead # rev xs) := b)) (bhead # rev xs @ [b, bhead])"
      using c h d by (intro chain_snoc) auto
    moreover have "prevs ?bs = (prevs (bufs s))(b := bhead, ?n := b)"
      using n l assms(2) by (subst field_upd_same) (simp_all add: field_upd fun_upd_def)
    ultimately show ?thesis using d l assms unfolding linked_def last_rev_Cons by auto
  qed
  ultimately show ?thesis by blast
qed

text \<open>\<open>brelse\<close> moves a buffer to the front.\<close>

lemma list_touch_run:
  fixes s :: "'z bcache_scheme"
  assumes "dll (bufs s) xs" "b < NBUF"
  shows "\<exists>bs. kdo [list_unlink b, list_push b] s = Ok () (s\<lparr>bufs := bs\<rparr>) \<and> unlinked bs = unlinked (bufs s)
     \<and> dll bs (b # remove1 b xs)"
proof -
  have "b \<in> set xs" "distinct xs" using assms by (auto simp: dll_def linked_def)
  then obtain us vs where xs: "xs = us @ b # vs" "b \<notin> set us" "b \<notin> set vs" by (auto dest!: split_list)
  have l: "linked (bufs s) (us @ b # vs)" using assms(1) xs by (simp add: dll_def)
  obtain b1 where 1: "list_unlink b s = Ok () (s\<lparr>bufs := b1\<rparr>)" "unlinked b1 = unlinked (bufs s)" "linked b1 (us @ vs)"
    using list_unlink_run [OF l] by blast
  obtain b2 where 2: "list_push b (s\<lparr>bufs := b1\<rparr>) = Ok () (s\<lparr>bufs := b2\<rparr>)" "unlinked b2 = unlinked b1" "linked b2 (b # us @ vs)"
    using list_push_run [of "s\<lparr>bufs := b1\<rparr>" "us @ vs" b] 1(3) xs assms(2) by auto
  have "b # remove1 b xs = b # us @ vs" using xs by (simp add: remove1_append)
  moreover have "insert b (set us \<union> set vs) = {..<NBUF}" using assms xs by (auto simp: dll_def)
  ultimately have "dll b2 (b # remove1 b xs)" using 2(3) by (simp add: dll_def)
  then show ?thesis using 1 2 by (intro exI [of _ b2]) (simp add: kseq_Ok)
qed

section \<open>Sleep-locks\<close>

lemma acquiresleep_run:
  fixes s :: "'z slocks_scheme"
  assumes "L_sleep lk \<notin> set (held s)" "curproc s = Some p" "\<not> sl_locked (sleeplocks s lk)"
  shows "acquiresleep lk s
    = Ok () (s\<lparr>sleeplocks := (sleeplocks s)(lk := \<lparr>sl_locked = True, sl_pid = p_pid (procs s ! p)\<rparr>)\<rparr>)"
  using assms by (simp add: acquiresleep_def acquiresleep_loop_def kseq_Ok kbind_Ok acquire_run release_run)

lemma releasesleep_run:
  fixes s :: "'z slocks_scheme"
  assumes "L_sleep lk \<notin> set (held s)" "wake_ready s"
  shows "releasesleep lk s
    = Ok () (s\<lparr>sleeplocks := (sleeplocks s)(lk := \<lparr>sl_locked = False, sl_pid = 0\<rparr>),
        procs := woken (Some (Ch_sleeplock lk)) (curproc s) (procs s)\<rparr>)"
proof -
  let ?t = "s\<lparr>held := L_sleep lk # held s, sleeplocks := (sleeplocks s)(lk := \<lparr>sl_locked = False, sl_pid = 0\<rparr>)\<rparr>"
  have "wake_ready ?t" using assms(2) by (auto simp: wake_ready_def)
  then show ?thesis using assms(1) by (simp add: releasesleep_def kseq_Ok acquire_run release_run wakeup_ready)
qed

lemma holdingsleep_run:
  fixes s :: "'z slocks_scheme"
  assumes "L_sleep lk \<notin> set (held s)" "curproc s = Some p"
  shows "holdingsleep lk s = Ok (sl_locked (sleeplocks s lk) \<and> sl_pid (sleeplocks s lk) = p_pid (procs s ! p)) s"
  using assms by (simp add: holdingsleep_def kseq_Ok kbind_Ok acquire_run release_run)

section \<open>The cache as a store of blocks\<close>

text \<open>What is cached of block \<open>bn\<close>: its data, its reference count and whether it is locked.\<close>

definition cell :: "buf \<Rightarrow> sleeplock \<Rightarrow> u8 list \<times> nat \<times> bool" where
  "cell x l = (b_data x, unat (b_refcnt x), sl_locked l)"

definition buf_is :: "u32 \<Rightarrow> u32 \<Rightarrow> buf \<Rightarrow> bool" where
  "buf_is dev bn x \<longleftrightarrow> b_dev x = dev \<and> b_blockno x = bn"

definition cells :: "u32 \<Rightarrow> buf list \<Rightarrow> (sleeplock_id \<Rightarrow> sleeplock) \<Rightarrow> u32 \<Rightarrow> (u8 list \<times> nat \<times> bool) option" where
  "cells dev bs sl bn = map_option (\<lambda>b. cell (bs ! b) (sl (SL_buf b)))
     (List.find (\<lambda>b. buf_is dev bn (bs ! b)) [0..<NBUF])"

text \<open>No block is in two buffers.\<close>

definition buf_unique :: "u32 \<Rightarrow> buf list \<Rightarrow> bool" where
  "buf_unique dev bs \<longleftrightarrow> (\<forall>b < NBUF. \<forall>c < NBUF. \<forall>bn. buf_is dev bn (bs ! b) \<longrightarrow> buf_is dev bn (bs ! c) \<longrightarrow> b = c)"

lemma cells_Some:
  assumes "buf_unique dev bs" "b < NBUF" "buf_is dev bn (bs ! b)"
  shows "cells dev bs sl bn = Some (cell (bs ! b) (sl (SL_buf b)))"
proof -
  have "List.find (\<lambda>b. buf_is dev bn (bs ! b)) [0..<NBUF] = Some b"
    using find_upt_cases [of NBUF "\<lambda>b. buf_is dev bn (bs ! b)"] assms unfolding buf_unique_def by blast
  then show ?thesis by (simp add: cells_def)
qed

lemma cells_None: "(\<And>b. b < NBUF \<Longrightarrow> \<not> buf_is dev bn (bs ! b)) \<Longrightarrow> cells dev bs sl bn = None"
  by (simp add: cells_def find_None_iff)

lemma cells_None_iff: "cells dev bs sl bn = None \<longleftrightarrow> (\<forall>b < NBUF. \<not> buf_is dev bn (bs ! b))"
  by (auto simp: cells_def find_None_iff)

text \<open>Buffer \<open>c\<close> is given to the block of \<open>x\<close>.\<close>

lemma cells_upd:
  assumes "buf_unique dev bs" "c < NBUF" "NBUF < length bs" "b_dev x = dev"
    and "\<And>b. b < NBUF \<Longrightarrow> buf_is dev (b_blockno x) (bs ! b) \<Longrightarrow> b = c"
  shows "buf_unique dev (bs[c := x])"
    and "cells dev (bs[c := x]) (sl(SL_buf c := l)) =
     (if b_dev (bs ! c) = dev then (cells dev bs sl)(b_blockno (bs ! c) := None) else cells dev bs sl)
       (b_blockno x := Some (cell x l))"
proof -
  have n: "b < NBUF \<Longrightarrow> bs[c := x] ! b = (if b = c then x else bs ! b)" for b
    using assms(2,3) by (simp add: nth_list_update)
  have x: "buf_is dev bn x \<longleftrightarrow> bn = b_blockno x" for bn using assms(4) by (auto simp: buf_is_def)
  show u: "buf_unique dev (bs[c := x])"
    unfolding buf_unique_def
  proof (intro allI impI)
    fix b d bn assume b: "b < NBUF" and d: "d < NBUF"
    assume a: "buf_is dev bn (bs[c := x] ! b)" "buf_is dev bn (bs[c := x] ! d)"
    consider "b = c" | "d = c" | "b \<noteq> c" "d \<noteq> c" by blast
    then show "b = d"
    proof cases
      case 1
      then show ?thesis using a n [OF b] n [OF d] x assms(5) [OF d] by (auto split: if_splits)
    next
      case 2
      then show ?thesis using a n [OF b] n [OF d] x assms(5) [OF b] by (auto split: if_splits)
    next
      case 3
      then have "buf_is dev bn (bs ! b)" "buf_is dev bn (bs ! d)" using a n [OF b] n [OF d] by simp_all
      then show ?thesis using assms(1) b d unfolding buf_unique_def by blast
    qed
  qed
  show "cells dev (bs[c := x]) (sl(SL_buf c := l)) =
     (if b_dev (bs ! c) = dev then (cells dev bs sl)(b_blockno (bs ! c) := None) else cells dev bs sl)
       (b_blockno x := Some (cell x l))" (is "?L = ?R")
  proof
    fix bn
    show "?L bn = ?R bn"
    proof (cases "bn = b_blockno x")
      case True
      then show ?thesis using cells_Some [OF u assms(2), of bn "sl(SL_buf c := l)"] n [OF assms(2)] x by simp
    next
      case ne: False
      show ?thesis
      proof (cases "\<exists>b < NBUF. b \<noteq> c \<and> buf_is dev bn (bs ! b)")
        case True
        then obtain b where b: "b < NBUF" "b \<noteq> c" "buf_is dev bn (bs ! b)" by blast
        then have "?L bn = cells dev bs sl bn"
          using cells_Some [OF assms(1) b(1,3)] cells_Some [OF u b(1), of bn "sl(SL_buf c := l)"] n [OF b(1)] by simp
        moreover have "\<not> buf_is dev bn (bs ! c)" using assms(1,2) b unfolding buf_unique_def by blast
        ultimately show ?thesis using ne by (auto simp: buf_is_def)
      next
        case False
        then have "?L bn = None" using n x ne by (intro cells_None) auto
        moreover have "cells dev bs sl bn = None" if "\<not> buf_is dev bn (bs ! c)"
          using False that by (intro cells_None) metis
        ultimately show ?thesis using ne by (auto simp: buf_is_def)
      qed
    qed
  qed
qed

text \<open>The store: the contents of each block as its readers see them, its references, its lock, and what
  is on the disk.\<close>

record bstore =
  st_view :: "u32 \<Rightarrow> u8 list"
  st_refs :: "u32 \<Rightarrow> nat"
  st_locked :: "u32 \<Rightarrow> bool"
  st_disk :: "u32 \<Rightarrow> u8 list"
  st_writes :: "(u32 \<times> u8 list) list"

definition st_take :: "u32 \<Rightarrow> bstore \<Rightarrow> bstore" where
  "st_take bn a = a\<lparr>st_refs := (st_refs a)(bn := Suc (st_refs a bn)), st_locked := (st_locked a)(bn := True)\<rparr>"

definition st_put :: "u32 \<Rightarrow> u8 list \<Rightarrow> bstore \<Rightarrow> bstore" where
  "st_put bn d a = a\<lparr>st_view := (st_view a)(bn := d)\<rparr>"

definition st_write :: "u32 \<Rightarrow> bstore \<Rightarrow> bstore" where
  "st_write bn a = a\<lparr>st_disk := (st_disk a)(bn := st_view a bn), st_writes := (bn, st_view a bn) # st_writes a\<rparr>"

definition st_drop :: "u32 \<Rightarrow> bstore \<Rightarrow> bstore" where
  "st_drop bn a = a\<lparr>st_refs := (st_refs a)(bn := st_refs a bn - 1), st_locked := (st_locked a)(bn := False)\<rparr>"

definition st_pin :: "u32 \<Rightarrow> bstore \<Rightarrow> bstore" where
  "st_pin bn a = a\<lparr>st_refs := (st_refs a)(bn := Suc (st_refs a bn))\<rparr>"

definition st_unpin :: "u32 \<Rightarrow> bstore \<Rightarrow> bstore" where
  "st_unpin bn a = a\<lparr>st_refs := (st_refs a)(bn := st_refs a bn - 1)\<rparr>"

lemmas st_defs = st_take_def st_put_def st_write_def st_drop_def st_pin_def st_unpin_def

text \<open>There is a buffer for the block: it is referenced already, or not all buffers are.\<close>

definition st_room :: "u32 \<Rightarrow> bstore \<Rightarrow> bool" where
  "st_room bn a \<longleftrightarrow> st_refs a bn \<noteq> 0 \<or> card {n. st_refs a n \<noteq> 0} < NBUF"

locale block_store =
  fixes inv :: "'s \<Rightarrow> bool" and store :: "'s \<Rightarrow> bstore" and at :: "'s \<Rightarrow> nat \<Rightarrow> u32 \<Rightarrow> bool"
    and frame :: "'s \<Rightarrow> 's \<Rightarrow> bool"
    and rd :: "u32 \<Rightarrow> ('s, nat) km" and get :: "nat \<Rightarrow> 's \<Rightarrow> u8 list"
    and put :: "nat \<Rightarrow> (u8 list \<Rightarrow> u8 list) \<Rightarrow> ('s, unit) km" and wr :: "nat \<Rightarrow> ('s, unit) km"
    and rel :: "nat \<Rightarrow> ('s, unit) km" and pin :: "nat \<Rightarrow> ('s, unit) km" and unpin :: "nat \<Rightarrow> ('s, unit) km"
  assumes frame_refl: "frame s s"
    and frame_trans: "frame s t \<Longrightarrow> frame t u \<Longrightarrow> frame s u"
    and clean: "inv s \<Longrightarrow> st_refs (store s) bn = 0 \<Longrightarrow> st_view (store s) bn = st_disk (store s) bn \<and> \<not> st_locked (store s) bn"
    and few: "inv s \<Longrightarrow> finite {bn. st_refs (store s) bn \<noteq> 0}"
    and size: "inv s \<Longrightarrow> length (st_view (store s) bn) = BSIZE"
    and rd: "inv s \<Longrightarrow> \<not> st_locked (store s) bn \<Longrightarrow> st_room bn (store s) \<Longrightarrow> Suc (st_refs (store s) bn) < 2 ^ 32 \<Longrightarrow>
      \<exists>b t. rd bn s = Ok b t \<and> inv t \<and> frame s t \<and> store t = st_take bn (store s) \<and> at t b bn
        \<and> (\<forall>c n. at s c n \<longrightarrow> st_refs (store s) n \<noteq> 0 \<longrightarrow> at t c n)"
    and get: "inv s \<Longrightarrow> at s b bn \<Longrightarrow> get b s = st_view (store s) bn"
    and put: "inv s \<Longrightarrow> at s b bn \<Longrightarrow> st_refs (store s) bn \<noteq> 0 \<Longrightarrow> length (f (st_view (store s) bn)) = BSIZE \<Longrightarrow>
      \<exists>t. put b f s = Ok () t \<and> inv t \<and> frame s t \<and> store t = st_put bn (f (st_view (store s) bn)) (store s) \<and> at t = at s"
    and wr: "inv s \<Longrightarrow> at s b bn \<Longrightarrow> st_locked (store s) bn \<Longrightarrow>
      \<exists>t. wr b s = Ok () t \<and> inv t \<and> frame s t \<and> store t = st_write bn (store s) \<and> at t = at s"
    and rel: "inv s \<Longrightarrow> at s b bn \<Longrightarrow> st_locked (store s) bn \<Longrightarrow>
      1 < st_refs (store s) bn \<or> st_view (store s) bn = st_disk (store s) bn \<Longrightarrow>
      \<exists>t. rel b s = Ok () t \<and> inv t \<and> frame s t \<and> store t = st_drop bn (store s) \<and> at t = at s"
    and pin: "inv s \<Longrightarrow> at s b bn \<Longrightarrow> st_refs (store s) bn \<noteq> 0 \<Longrightarrow> Suc (st_refs (store s) bn) < 2 ^ 32 \<Longrightarrow>
      \<exists>t. pin b s = Ok () t \<and> inv t \<and> frame s t \<and> store t = st_pin bn (store s) \<and> at t = at s"
    and unpin: "inv s \<Longrightarrow> at s b bn \<Longrightarrow> 1 < st_refs (store s) bn \<Longrightarrow>
      \<exists>t. unpin b s = Ok () t \<and> inv t \<and> frame s t \<and> store t = st_unpin bn (store s) \<and> at t = at s"
begin

text \<open>Reading a block, changing it, and writing it back.\<close>

lemma change_block:
  assumes "inv s" "\<not> st_locked (store s) bn" "st_room bn (store s)" "Suc (st_refs (store s) bn) < 2 ^ 32"
    "length (f (st_view (store s) bn)) = BSIZE"
  shows "\<exists>t. kbind (rd bn) (\<lambda>b. kdo [put b f, wr b, rel b]) s = Ok () t \<and> inv t \<and> frame s t
    \<and> store t = st_write bn (st_put bn (f (st_view (store s) bn)) (store s))"
proof -
  obtain b t1 where 1: "rd bn s = Ok b t1" "inv t1" "frame s t1" "store t1 = st_take bn (store s)" "at t1 b bn"
    using rd [OF assms(1-4)] by blast
  obtain t2 where 2: "put b f t1 = Ok () t2" "inv t2" "frame t1 t2" "at t2 = at t1"
    "store t2 = st_put bn (f (st_view (store s) bn)) (store t1)"
    using put [OF 1(2,5), of f] assms(5) by (auto simp: 1 st_take_def)
  obtain t3 where 3: "wr b t2 = Ok () t3" "inv t3" "frame t2 t3" "at t3 = at t2" "store t3 = st_write bn (store t2)"
    using wr [OF 2(2), of b bn] by (auto simp: 1 2 st_defs)
  obtain t4 where 4: "rel b t3 = Ok () t4" "inv t4" "frame t3 t4" "store t4 = st_drop bn (store t3)"
    using rel [OF 3(2), of b bn] by (auto simp: 1 2 3 st_defs)
  have "store t4 = st_write bn (st_put bn (f (st_view (store s) bn)) (store s))"
    using assms(2) by (simp add: 1 2 3 4 st_defs fun_upd_idem)
  moreover have "frame s t4" using 1 2 3 4 frame_trans by blast
  ultimately show ?thesis using 1 2 3 4 by (intro exI [of _ t4]) (simp add: kbind_Ok kseq_Ok)
qed

text \<open>Reading two different blocks.\<close>

lemma rd_two:
  assumes "inv s" "x \<noteq> y" "\<not> st_locked (store s) x" "\<not> st_locked (store s) y" "st_room x (store s)"
    "Suc (st_refs (store s) x) < 2 ^ 32" "Suc (st_refs (store s) y) < 2 ^ 32"
    "st_refs (store s) y \<noteq> 0 \<or> Suc (card {n. st_refs (store s) n \<noteq> 0}) < NBUF"
  shows "\<exists>b c t1 t. rd x s = Ok b t1 \<and> rd y t1 = Ok c t \<and> inv t \<and> frame s t
    \<and> store t = st_take y (st_take x (store s)) \<and> at t b x \<and> at t c y"
proof -
  obtain b t1 where 1: "rd x s = Ok b t1" "inv t1" "frame s t1" "store t1 = st_take x (store s)" "at t1 b x"
    using rd [OF assms(1,3,5,6)] by blast
  have e: "{n. st_refs (st_take x (store s)) n \<noteq> 0} = insert x {n. st_refs (store s) n \<noteq> 0}"
    by (auto simp: st_take_def)
  have "st_room y (store t1)"
    using assms(2,8) card_insert_le_m1 [of NBUF "{n. st_refs (store s) n \<noteq> 0}" x]
      card_insert_if [OF few [OF assms(1)], of x] unfolding st_room_def 1 e by (auto simp: st_take_def)
  then obtain c t where 2: "rd y t1 = Ok c t" "inv t" "frame t1 t" "store t = st_take y (store t1)" "at t c y"
    "\<forall>c n. at t1 c n \<longrightarrow> st_refs (store t1) n \<noteq> 0 \<longrightarrow> at t c n"
    using rd [OF 1(2), of y] assms(2,4,7) by (auto simp: 1 st_take_def)
  have "at t b x" using 1 2 by (simp add: st_take_def)
  then show ?thesis using 1 2 frame_trans [OF 1(3) 2(3)] by auto
qed

text \<open>The loop body of \<open>write_log\<close>: a copy of the cached block \<open>y\<close> goes to the block \<open>x\<close>.\<close>

lemma save_block:
  assumes "inv s" "x \<noteq> y" "\<not> st_locked (store s) x" "\<not> st_locked (store s) y" "st_room x (store s)"
    "Suc (st_refs (store s) x) < 2 ^ 32" "Suc (st_refs (store s) y) < 2 ^ 32"
    "st_refs (store s) y \<noteq> 0 \<or> Suc (card {n. st_refs (store s) n \<noteq> 0}) < NBUF"
  shows "\<exists>t. kbind (rd x) (\<lambda>b. kbind (rd y) (\<lambda>c. kbind (kget (get c)) (\<lambda>d. kdo
      [put b (\<lambda>_. d), wr b, rel c, rel b]))) s = Ok () t \<and> inv t \<and> frame s t
    \<and> store t = st_write x (st_put x (st_view (store s) y) (store s))"
proof -
  have xy [simp]: "x \<noteq> y" "y \<noteq> x" using assms(2) by auto
  obtain b c t1 t where 1: "rd x s = Ok b t1" "rd y t1 = Ok c t" "inv t" "frame s t"
    "store t = st_take y (st_take x (store s))" "at t b x" "at t c y"
    using rd_two [OF assms] by blast
  have g: "get c t = st_view (store s) y" using get [OF 1(3,7)] by (simp add: 1 st_take_def)
  obtain t2 where 2: "put b (\<lambda>_. get c t) t = Ok () t2" "inv t2" "frame t t2" "at t2 = at t"
    "store t2 = st_put x (st_view (store s) y) (store t)"
    using put [OF 1(3,6), of "\<lambda>_. get c t"] size [OF assms(1)] by (auto simp: g 1 st_take_def)
  obtain t3 where 3: "wr b t2 = Ok () t3" "inv t3" "frame t2 t3" "at t3 = at t2" "store t3 = st_write x (store t2)"
    using wr [OF 2(2), of b x] by (auto simp: 1 2 st_defs)
  have "1 < st_refs (store t3) y \<or> st_view (store t3) y = st_disk (store t3) y"
    using clean [OF assms(1), of y] assms(2) by (auto simp: 1 2 3 st_defs)
  then obtain t4 where 4: "rel c t3 = Ok () t4" "inv t4" "frame t3 t4" "at t4 = at t3" "store t4 = st_drop y (store t3)"
    using rel [OF 3(2), of c y] by (auto simp: 1 2 3 st_defs)
  obtain t5 where 5: "rel b t4 = Ok () t5" "inv t5" "frame t4 t5" "store t5 = st_drop x (store t4)"
    using rel [OF 4(2), of b x] assms(2) by (auto simp: 1 2 3 4 st_defs)
  have "store t5 = st_write x (st_put x (st_view (store s) y) (store s))"
    using assms(2-4) by (simp add: 1 2 3 4 5 st_defs fun_upd_idem fun_upd_twist [of x y])
  moreover have "frame s t5" using 1 2 3 4 5 frame_trans by blast
  ultimately show ?thesis using 1 2 3 4 5 by (intro exI [of _ t5]) (simp add: kbind_Ok kseq_Ok)
qed

text \<open>The loop body of \<open>install_trans\<close>: the logged copy \<open>x\<close> goes home to the block \<open>y\<close>, which is then
  unpinned unless the log is being recovered.\<close>

lemma home_block:
  assumes "inv s" "x \<noteq> y" "\<not> st_locked (store s) x" "\<not> st_locked (store s) y" "st_room x (store s)"
    "Suc (st_refs (store s) x) < 2 ^ 32" "Suc (st_refs (store s) y) < 2 ^ 32"
    "st_refs (store s) y \<noteq> 0 \<or> Suc (card {n. st_refs (store s) n \<noteq> 0}) < NBUF"
    "recovering \<or> st_refs (store s) y \<noteq> 0"
  shows "\<exists>t. kbind (rd x) (\<lambda>b. kbind (rd y) (\<lambda>c. kbind (kget (get b)) (\<lambda>d. kdo
      [put c (\<lambda>_. d), wr c, kwhen (\<not> recovering) (unpin c), rel b, rel c]))) s = Ok () t \<and> inv t \<and> frame s t
    \<and> store t = st_write y (st_put y (st_view (store s) x) (if recovering then store s else st_unpin y (store s)))"
proof -
  have xy [simp]: "x \<noteq> y" "y \<noteq> x" using assms(2) by auto
  obtain b c t1 t where 1: "rd x s = Ok b t1" "rd y t1 = Ok c t" "inv t" "frame s t"
    "store t = st_take y (st_take x (store s))" "at t b x" "at t c y"
    using rd_two [OF assms(1-8)] by blast
  have g: "get b t = st_view (store s) x" using get [OF 1(3,6)] by (simp add: 1 st_take_def)
  obtain t2 where 2: "put c (\<lambda>_. get b t) t = Ok () t2" "inv t2" "frame t t2" "at t2 = at t"
    "store t2 = st_put y (st_view (store s) x) (store t)"
    using put [OF 1(3,7), of "\<lambda>_. get b t"] size [OF assms(1)] by (auto simp: g 1 st_take_def)
  obtain t3 where 3: "wr c t2 = Ok () t3" "inv t3" "frame t2 t3" "at t3 = at t2" "store t3 = st_write y (store t2)"
    using wr [OF 2(2), of c y] by (auto simp: 1 2 st_defs)
  obtain t4 where 4: "kwhen (\<not> recovering) (unpin c) t3 = Ok () t4" "inv t4" "frame t3 t4" "at t4 = at t3"
    "store t4 = (if recovering then store t3 else st_unpin y (store t3))"
  proof (cases recovering)
    case True
    then show ?thesis using that [of t3] 3 frame_refl by simp
  next
    case False
    then show ?thesis using that unpin [OF 3(2), of c y] assms(2,9) by (auto simp: 1 2 3 st_defs)
  qed
  have s4: "st_locked (store t4) x" "st_locked (store t4) y" "st_refs (store t4) x = Suc (st_refs (store s) x)"
    "st_view (store t4) x = st_view (store s) x" "st_disk (store t4) x = st_disk (store s) x"
    "st_view (store t4) y = st_disk (store t4) y"
    by (cases recovering; simp add: 1 2 3 4 st_defs)+
  then have "1 < st_refs (store t4) x \<or> st_view (store t4) x = st_disk (store t4) x"
    using clean [OF assms(1), of x] by auto
  then obtain t5 where 5: "rel b t4 = Ok () t5" "inv t5" "frame t4 t5" "at t5 = at t4" "store t5 = st_drop x (store t4)"
    using rel [OF 4(2), of b x] s4 1 2 3 4(4) by auto
  have "st_locked (store t5) y" "st_view (store t5) y = st_disk (store t5) y"
    using s4 by (simp_all add: 5 st_drop_def)
  then obtain t6 where 6: "rel c t5 = Ok () t6" "inv t6" "frame t5 t6" "store t6 = st_drop y (store t5)"
    using rel [OF 5(2), of c y] 1 2 3 4(4) 5 by auto
  have "store t6 = st_write y (st_put y (st_view (store s) x) (if recovering then store s else st_unpin y (store s)))"
    using assms(2-4) by (cases recovering) (simp_all add: 1 2 3 4 5 6 st_defs fun_upd_idem fun_upd_twist [of x y])
  moreover have "frame s t6" using 1 2 3 4 5 6 frame_trans by blast
  ultimately show ?thesis using 1 2 3 4 5 6 by (intro exI [of _ t6]) (simp add: kbind_Ok kseq_Ok)
qed

end

section \<open>The buffer cache is a store of blocks\<close>

text \<open>A buffer of device \<open>dev\<close> is valid, and one without references is as on the disk and unlocked. The
  buffers that were never used have device 0.\<close>

definition buf_ok :: "u32 \<Rightarrow> int \<Rightarrow> (u32 \<Rightarrow> u8 list) \<Rightarrow> buf \<Rightarrow> sleeplock \<Rightarrow> bool" where
  "buf_ok dev pid dk x l \<longleftrightarrow>
     b_dev x = dev \<and> b_valid x \<and> length (b_data x) = BSIZE \<and> (sl_locked l \<longrightarrow> sl_pid l = pid)
       \<and> (b_refcnt x = 0 \<longrightarrow> b_data x = dk (b_blockno x) \<and> \<not> sl_locked l)
   \<or> b_dev x = 0 \<and> b_refcnt x = 0 \<and> \<not> sl_locked l"

definition cache_inv :: "u32 \<Rightarrow> nat \<Rightarrow> 'z bcache_scheme \<Rightarrow> bool" where
  "cache_inv dev p s \<longleftrightarrow> dev \<noteq> 0 \<and> (\<exists>xs. dll (bufs s) xs) \<and> buf_unique dev (bufs s)
     \<and> (\<forall>b < NBUF. buf_ok dev (p_pid (procs s ! p)) (disk s) (bufs s ! b) (sleeplocks s (SL_buf b)))
     \<and> (\<forall>bn. length (disk s bn) = BSIZE)
     \<and> curproc s = Some p \<and> p < NPROC \<and> wake_ready s
     \<and> L_bcache \<notin> set (held s) \<and> (\<forall>b. L_sleep (SL_buf b) \<notin> set (held s))"

definition store_of :: "(u32 \<Rightarrow> (u8 list \<times> nat \<times> bool) option) \<Rightarrow> (u32 \<Rightarrow> u8 list) \<Rightarrow> (u32 \<times> u8 list) list \<Rightarrow> bstore" where
  "store_of c dk ws = \<lparr>
     st_view = (\<lambda>bn. case c bn of Some (d, _, _) \<Rightarrow> d | None \<Rightarrow> dk bn),
     st_refs = (\<lambda>bn. case c bn of Some (_, r, _) \<Rightarrow> r | None \<Rightarrow> 0),
     st_locked = (\<lambda>bn. case c bn of Some (_, _, l) \<Rightarrow> l | None \<Rightarrow> False),
     st_disk = dk,
     st_writes = ws\<rparr>"

definition cache_store :: "u32 \<Rightarrow> 'z bcache_scheme \<Rightarrow> bstore" where
  "cache_store dev s = store_of (cells dev (bufs s) (sleeplocks s)) (disk s) (disk_log s)"

lemma store_of_simps [simp]:
  "st_view (store_of c dk ws) bn = (case c bn of Some (d, _, _) \<Rightarrow> d | None \<Rightarrow> dk bn)"
  "st_refs (store_of c dk ws) bn = (case c bn of Some (_, r, _) \<Rightarrow> r | None \<Rightarrow> 0)"
  "st_locked (store_of c dk ws) bn = (case c bn of Some (_, _, l) \<Rightarrow> l | None \<Rightarrow> False)"
  "st_disk (store_of c dk ws) = dk" "st_writes (store_of c dk ws) = ws"
  by (simp_all add: store_of_def)

lemma store_of_upd:
  "store_of (c(bn := Some (d, r, l))) dk ws = (store_of c dk ws)
     \<lparr>st_view := (st_view (store_of c dk ws))(bn := d), st_refs := (st_refs (store_of c dk ws))(bn := r),
      st_locked := (st_locked (store_of c dk ws))(bn := l)\<rparr>"
  by (auto simp: store_of_def)

lemma store_of_evict: "c bn = Some (dk bn, 0, False) \<Longrightarrow> store_of (c(bn := None)) dk ws = store_of c dk ws"
  by (auto simp: store_of_def)

definition cache_at :: "u32 \<Rightarrow> 'z bcache_scheme \<Rightarrow> nat \<Rightarrow> u32 \<Rightarrow> bool" where
  "cache_at dev s b bn \<longleftrightarrow> b < NBUF \<and> buf_is dev bn (bufs s ! b)"

definition cache_frame :: "'z bcache_scheme \<Rightarrow> 'z bcache_scheme \<Rightarrow> bool" where
  "cache_frame s t \<longleftrightarrow> (\<exists>ps sl bs d dl. t = s\<lparr>procs := ps, sleeplocks := sl, bufs := bs, disk := d, disk_log := dl\<rparr>)"

lemma cache_store_at:
  assumes "cache_inv dev p s" "cache_at dev s b bn"
  shows "cells dev (bufs s) (sleeplocks s) bn = Some (cell (bufs s ! b) (sleeplocks s (SL_buf b)))"
  using assms by (auto simp: cache_inv_def cache_at_def intro: cells_Some)

lemma cache_store_fields:
  assumes "cache_inv dev p s" "cache_at dev s b bn"
  shows "st_view (cache_store dev s) bn = b_data (bufs s ! b)"
    "st_refs (cache_store dev s) bn = unat (b_refcnt (bufs s ! b))"
    "st_locked (cache_store dev s) bn = sl_locked (sleeplocks s (SL_buf b))"
  by (simp_all add: cache_store_def cache_store_at [OF assms] cell_def)

lemma cache_buf_ok:
  assumes "cache_inv dev p s" "cache_at dev s b bn"
  shows "b_valid (bufs s ! b)" "length (b_data (bufs s ! b)) = BSIZE"
    "sl_locked (sleeplocks s (SL_buf b)) \<Longrightarrow> sl_pid (sleeplocks s (SL_buf b)) = p_pid (procs s ! p)"
    "b_refcnt (bufs s ! b) = 0 \<Longrightarrow> b_data (bufs s ! b) = disk s bn \<and> \<not> sl_locked (sleeplocks s (SL_buf b))"
proof -
  have "buf_ok dev (p_pid (procs s ! p)) (disk s) (bufs s ! b) (sleeplocks s (SL_buf b))" "dev \<noteq> 0"
    "b_dev (bufs s ! b) = dev" "b_blockno (bufs s ! b) = bn"
    using assms by (simp_all add: cache_inv_def cache_at_def buf_is_def)
  then show "b_valid (bufs s ! b)" "length (b_data (bufs s ! b)) = BSIZE"
    "sl_locked (sleeplocks s (SL_buf b)) \<Longrightarrow> sl_pid (sleeplocks s (SL_buf b)) = p_pid (procs s ! p)"
    "b_refcnt (bufs s ! b) = 0 \<Longrightarrow> b_data (bufs s ! b) = disk s bn \<and> \<not> sl_locked (sleeplocks s (SL_buf b))"
    by (simp_all add: buf_ok_def)
qed

lemma cache_other:
  "cache_inv dev p s \<Longrightarrow> cache_at dev s b bn \<Longrightarrow> c < NBUF \<Longrightarrow> buf_is dev bn (bufs s ! c) \<Longrightarrow> c = b"
  unfolding cache_inv_def cache_at_def buf_unique_def by blast

lemma cache_length: "cache_inv dev p s \<Longrightarrow> length (bufs s) = Suc NBUF"
  by (auto simp: cache_inv_def dll_def linked_def)

text \<open>A change of one buffer, and of its lock, keeps the invariant if it does so for that buffer.\<close>

lemma cache_inv_upd:
  assumes "cache_inv dev p s" "c < NBUF" "b_dev x = dev"
    and "\<And>b. b < NBUF \<Longrightarrow> buf_is dev (b_blockno x) (bufs s ! b) \<Longrightarrow> b = c"
    and "b_next x = b_next (bufs s ! c)" "b_prev x = b_prev (bufs s ! c)"
    and "buf_ok dev (p_pid (procs s ! p)) (disk s) x l"
    and "length ps = NPROC" "ps ! p = procs s ! p"
  shows "cache_inv dev p (s\<lparr>procs := ps, sleeplocks := (sleeplocks s)(SL_buf c := l), bufs := (bufs s)[c := x]\<rparr>)"
proof -
  have l: "length (bufs s) = Suc NBUF" using cache_length [OF assms(1)] .
  obtain xs where "dll (bufs s) xs" using assms(1) by (auto simp: cache_inv_def)
  then have "dll ((bufs s)[c := x]) xs" using assms(5,6) by (rule dll_upd)
  moreover have "buf_unique dev ((bufs s)[c := x])"
    using assms(1-4) l by (intro cells_upd) (auto simp: cache_inv_def)
  moreover have "\<forall>b < NBUF. buf_ok dev (p_pid (ps ! p)) (disk s) ((bufs s)[c := x] ! b)
      (((sleeplocks s)(SL_buf c := l)) (SL_buf b))"
    using assms(1,2,7,9) l by (simp add: cache_inv_def nth_list_update)
  ultimately show ?thesis
    using assms(1,8) by (simp add: cache_inv_def wake_ready_def) blast
qed

lemma cells_same:
  assumes "cache_inv dev p s" "cache_at dev s c bn" "buf_is dev bn x"
  shows "cells dev ((bufs s)[c := x]) ((sleeplocks s)(SL_buf c := l))
    = (cells dev (bufs s) (sleeplocks s))(bn := Some (cell x l))"
proof -
  have x: "c < NBUF" "b_dev (bufs s ! c) = dev" "b_blockno (bufs s ! c) = bn" "b_dev x = dev" "b_blockno x = bn"
    using assms(2,3) by (auto simp: cache_at_def buf_is_def)
  have u: "buf_unique dev (bufs s)" "NBUF < length (bufs s)"
    using assms(1) cache_length [OF assms(1)] by (auto simp: cache_inv_def)
  have o: "b = c" if "b < NBUF" "buf_is dev (b_blockno x) (bufs s ! b)" for b
    using cache_other [OF assms(1,2) that(1)] that(2) x(5) by simp
  show ?thesis using cells_upd(2) [OF u(1) x(1) u(2) x(4) o, of "sleeplocks s" l] x by simp
qed

lemma cache_at_ex:
  assumes "cache_inv dev p s" "st_refs (cache_store dev s) bn \<noteq> 0"
  shows "\<exists>b. cache_at dev s b bn"
  using assms(2) cells_None_iff [of dev "bufs s" "sleeplocks s" bn]
  by (auto simp: cache_store_def cache_at_def split: option.splits)

lemma cache_clean:
  assumes "cache_inv dev p s" "st_refs (cache_store dev s) bn = 0"
  shows "st_view (cache_store dev s) bn = st_disk (cache_store dev s) bn \<and> \<not> st_locked (cache_store dev s) bn"
proof (cases "\<exists>b. cache_at dev s b bn")
  case True
  then obtain b where b: "cache_at dev s b bn" by blast
  have "b_refcnt (bufs s ! b) = 0"
    using assms(2) cache_store_fields(2) [OF assms(1) b] by (simp add: unat_eq_0)
  then show ?thesis
    using cache_buf_ok(4) [OF assms(1) b] cache_store_fields [OF assms(1) b] by (simp add: cache_store_def)
next
  case False
  then have "cells dev (bufs s) (sleeplocks s) bn = None" by (auto simp: cache_at_def intro: cells_None)
  then show ?thesis by (simp add: cache_store_def)
qed

lemma cache_size:
  assumes "cache_inv dev p s"
  shows "length (st_view (cache_store dev s) bn) = BSIZE"
proof (cases "\<exists>b. cache_at dev s b bn")
  case True
  then obtain b where b: "cache_at dev s b bn" by blast
  then show ?thesis using cache_store_fields(1) [OF assms b] cache_buf_ok(2) [OF assms b] by simp
next
  case False
  then have "cells dev (bufs s) (sleeplocks s) bn = None" by (auto simp: cache_at_def intro: cells_None)
  then show ?thesis using assms by (simp add: cache_store_def cache_inv_def)
qed

lemma cache_few:
  assumes "cache_inv dev p s"
  shows "finite {bn. st_refs (cache_store dev s) bn \<noteq> 0}"
proof (rule finite_subset)
  show "{bn. st_refs (cache_store dev s) bn \<noteq> 0} \<subseteq> (\<lambda>b. b_blockno (bufs s ! b)) ` {..<NBUF}"
    using cache_at_ex [OF assms] by (auto simp: cache_at_def buf_is_def)
qed simp

lemma cache_room:
  assumes "cache_inv dev p s" "card {bn. st_refs (cache_store dev s) bn \<noteq> 0} < NBUF"
  shows "\<exists>b < NBUF. b_refcnt (bufs s ! b) = 0"
proof (rule ccontr)
  let ?f = "\<lambda>b. b_blockno (bufs s ! b)"
  assume "\<not> ?thesis"
  then have r: "b_refcnt (bufs s ! b) \<noteq> 0" if "b < NBUF" for b using that by blast
  have d: "cache_at dev s b (?f b)" if "b < NBUF" for b
    using assms(1) r [OF that] that by (auto simp: cache_inv_def buf_ok_def cache_at_def buf_is_def)
  have "inj_on ?f {..<NBUF}"
  proof (rule inj_onI)
    fix x y assume "x \<in> {..<NBUF}" "y \<in> {..<NBUF}" "?f x = ?f y"
    then show "x = y" using cache_other [OF assms(1) d, of y x] d [of x] by (simp add: cache_at_def)
  qed
  then have "card (?f ` {..<NBUF}) = NBUF" by (simp add: card_image)
  moreover have "st_refs (cache_store dev s) (?f b) \<noteq> 0" if "b < NBUF" for b
    using cache_store_fields(2) [OF assms(1) d [OF that]] r [OF that] by (simp add: unat_eq_0)
  then have "?f ` {..<NBUF} \<subseteq> {bn. st_refs (cache_store dev s) bn \<noteq> 0}" by auto
  ultimately show False using assms(2) card_mono [OF cache_few [OF assms(1)]] by (metis not_le)
qed

text \<open>Taking a reference to block \<open>bn\<close> in buffer \<open>b\<close>, once \<open>bget\<close> has found it.\<close>

lemma bread_cached:
  fixes s :: "'z bcache_scheme"
  assumes "cache_inv dev p s" "cache_at dev s b bn" "\<not> st_locked (cache_store dev s) bn"
  shows "bread dev bn s = Ok b (s\<lparr>bufs := (bufs s)[b := (bufs s ! b)\<lparr>b_refcnt := b_refcnt (bufs s ! b) + 1\<rparr>],
     sleeplocks := (sleeplocks s)(SL_buf b := \<lparr>sl_locked = True, sl_pid = p_pid (procs s ! p)\<rparr>)\<rparr>)"
proof -
  obtain xs where xs: "dll (bufs s) xs" using assms(1) by (auto simp: cache_inv_def)
  have bx: "b \<in> set xs" "b < NBUF" using xs assms(2) by (auto simp: dll_def cache_at_def)
  have "List.find (\<lambda>b. b_dev (bufs s ! b) = dev \<and> b_blockno (bufs s ! b) = bn) xs = Some c \<Longrightarrow> c = b" for c
    using cache_other [OF assms(1,2), of c] find_Some_mem [of _ xs c] xs by (force simp: dll_def buf_is_def)
  moreover have "List.find (\<lambda>b. b_dev (bufs s ! b) = dev \<and> b_blockno (bufs s ! b) = bn) xs \<noteq> None"
    using bx assms(2) by (auto simp: find_None_iff cache_at_def buf_is_def)
  ultimately have f: "List.find (\<lambda>b. b_dev (bufs s ! b) = dev \<and> b_blockno (bufs s ! b) = bn) xs = Some b" by auto
  have h: "L_bcache \<notin> set (held s)" "L_sleep (SL_buf b) \<notin> set (held s)" "curproc s = Some p"
    using assms(1) by (auto simp: cache_inv_def)
  have l: "\<not> sl_locked (sleeplocks s (SL_buf b))" using assms(3) cache_store_fields(3) [OF assms(1,2)] by simp
  have "dll (bufs (s\<lparr>held := L_bcache # held s\<rparr>)) xs" using xs by simp
  note sc = bscan_run(1) [OF this]
  have "bget dev bn s = Ok b (s\<lparr>bufs := (bufs s)[b := (bufs s ! b)\<lparr>b_refcnt := b_refcnt (bufs s ! b) + 1\<rparr>],
     sleeplocks := (sleeplocks s)(SL_buf b := \<lparr>sl_locked = True, sl_pid = p_pid (procs s ! p)\<rparr>)\<rparr>)"
    using h l by (simp add: bget_def kseq_Ok kbind_Ok acquire_run release_run sc f acquiresleep_run)
  moreover have "b_valid (bufs s ! b)" using cache_buf_ok(1) [OF assms(1,2)] .
  ultimately show ?thesis using bx(2) cache_length [OF assms(1)] by (simp add: bread_def kbind_Ok kseq_Ok)
qed

lemma bread_evict:
  fixes s :: "'z bcache_scheme"
  assumes "cache_inv dev p s" "\<And>b. \<not> cache_at dev s b bn" "\<exists>b < NBUF. b_refcnt (bufs s ! b) = 0"
  shows "\<exists>b < NBUF. b_refcnt (bufs s ! b) = 0 \<and> bread dev bn s = Ok b (s\<lparr>
     sleeplocks := (sleeplocks s)(SL_buf b := \<lparr>sl_locked = True, sl_pid = p_pid (procs s ! p)\<rparr>),
     bufs := (bufs s)[b := (bufs s ! b)\<lparr>b_dev := dev, b_blockno := bn, b_refcnt := 1, b_data := disk s bn, b_valid := True\<rparr>]\<rparr>)"
proof -
  obtain xs where xs: "dll (bufs s) xs" using assms(1) by (auto simp: cache_inv_def)
  have f: "List.find (\<lambda>b. b_dev (bufs s ! b) = dev \<and> b_blockno (bufs s ! b) = bn) xs = None"
    using assms(2) xs by (auto simp: find_None_iff cache_at_def buf_is_def dll_def)
  have "List.find (\<lambda>b. b_refcnt (bufs s ! b) = 0) (rev xs) \<noteq> None"
    using assms(3) xs by (auto simp: find_None_iff dll_def)
  then obtain b where g: "List.find (\<lambda>b. b_refcnt (bufs s ! b) = 0) (rev xs) = Some b" by blast
  have b: "b < NBUF" "b_refcnt (bufs s ! b) = 0" using find_Some_mem [OF g] xs by (auto simp: dll_def)
  have "\<forall>b < NBUF. buf_ok dev (p_pid (procs s ! p)) (disk s) (bufs s ! b) (sleeplocks s (SL_buf b))"
    using assms(1) by (simp add: cache_inv_def)
  then have l: "\<not> sl_locked (sleeplocks s (SL_buf b))" using b by (auto simp: buf_ok_def)
  have h: "L_bcache \<notin> set (held s)" "L_sleep (SL_buf b) \<notin> set (held s)" "curproc s = Some p"
    using assms(1) by (auto simp: cache_inv_def)
  have "dll (bufs (s\<lparr>held := L_bcache # held s\<rparr>)) xs" using xs by simp
  note sc = bscan_run [OF this]
  have "bget dev bn s = Ok b (s\<lparr>
     bufs := (bufs s)[b := (bufs s ! b)\<lparr>b_dev := dev, b_blockno := bn, b_valid := False, b_refcnt := 1\<rparr>],
     sleeplocks := (sleeplocks s)(SL_buf b := \<lparr>sl_locked = True, sl_pid = p_pid (procs s ! p)\<rparr>)\<rparr>)"
    using h l by (simp add: bget_def kseq_Ok kbind_Ok acquire_run release_run sc f g acquiresleep_run)
  then show ?thesis
    using b cache_length [OF assms(1)] by (intro exI [of _ b]) (simp add: bread_def kbind_Ok kseq_Ok disk_rw_def)
qed

lemma cells_absent: "(\<And>b. \<not> cache_at dev s b bn) \<Longrightarrow> cells dev (bufs s) (sleeplocks s) bn = None"
  by (auto simp: cache_at_def intro: cells_None)

text \<open>Both ways buffer \<open>c\<close> now holds block \<open>bn\<close>, locked, and is contents \<open>x\<close>.\<close>

lemma bread_take:
  fixes s :: "'z bcache_scheme"
  assumes "cache_inv dev p s" "c < NBUF"
    and x: "buf_is dev bn x" "b_valid x" "b_next x = b_next (bufs s ! c)" "b_prev x = b_prev (bufs s ! c)"
      "length (b_data x) = BSIZE" "b_refcnt x \<noteq> 0"
    and o: "\<And>b. b < NBUF \<Longrightarrow> buf_is dev bn (bufs s ! b) \<Longrightarrow> b = c"
    and k: "\<And>n. cache_at dev s c n \<Longrightarrow> n = bn \<or> st_refs (cache_store dev s) n = 0"
    and t: "t = s\<lparr>sleeplocks := (sleeplocks s)(SL_buf c := \<lparr>sl_locked = True, sl_pid = p_pid (procs s ! p)\<rparr>),
        bufs := (bufs s)[c := x]\<rparr>"
  shows "cache_inv dev p t \<and> cache_frame s t \<and> cache_at dev t c bn
     \<and> (\<forall>b n. cache_at dev s b n \<longrightarrow> st_refs (cache_store dev s) n \<noteq> 0 \<longrightarrow> cache_at dev t b n)"
proof (intro conjI allI impI)
  let ?sl = "(sleeplocks s)(SL_buf c := \<lparr>sl_locked = True, sl_pid = p_pid (procs s ! p)\<rparr>)"
  have len: "length (bufs s) = Suc NBUF" "length (procs s) = NPROC"
    using cache_length [OF assms(1)] assms(1) by (simp_all add: cache_inv_def wake_ready_def)
  have "cache_inv dev p (s\<lparr>procs := procs s, sleeplocks := ?sl, bufs := (bufs s)[c := x]\<rparr>)"
  proof (rule cache_inv_upd [OF assms(1,2)])
    show "b = c" if "b < NBUF" "buf_is dev (b_blockno x) (bufs s ! b)" for b
      using o [of b] that x(1) by (simp add: buf_is_def)
  qed (use x len in \<open>simp_all add: buf_is_def buf_ok_def\<close>)
  then show "cache_inv dev p t" unfolding t by simp
  show "cache_frame s t" unfolding cache_frame_def t
    by (intro exI [of _ "procs s"] exI [of _ "?sl"] exI [of _ "(bufs s)[c := x]"]
        exI [of _ "disk s"] exI [of _ "disk_log s"]) simp
  show "cache_at dev t c bn" using assms(2) x(1) len by (simp add: cache_at_def t)
  show "cache_at dev t b n" if "cache_at dev s b n" "st_refs (cache_store dev s) n \<noteq> 0" for b n
    using that k [of n] x(1) assms(2) len unfolding t by (cases "b = c") (simp_all add: cache_at_def)
qed

lemma bread_run:
  fixes s :: "'z bcache_scheme"
  assumes "cache_inv dev p s" "\<not> st_locked (cache_store dev s) bn" "st_room bn (cache_store dev s)"
    "Suc (st_refs (cache_store dev s) bn) < 2 ^ 32"
  shows "\<exists>b t. bread dev bn s = Ok b t \<and> cache_inv dev p t \<and> cache_frame s t
     \<and> cache_store dev t = st_take bn (cache_store dev s) \<and> cache_at dev t b bn
     \<and> (\<forall>c n. cache_at dev s c n \<longrightarrow> st_refs (cache_store dev s) n \<noteq> 0 \<longrightarrow> cache_at dev t c n)"
proof (cases "\<exists>b. cache_at dev s b bn")
  case True
  then obtain b where b: "cache_at dev s b bn" by blast
  let ?l = "\<lparr>sl_locked = True, sl_pid = p_pid (procs s ! p)\<rparr>"
  let ?x = "(bufs s ! b)\<lparr>b_refcnt := b_refcnt (bufs s ! b) + 1\<rparr>"
  let ?t = "s\<lparr>sleeplocks := (sleeplocks s)(SL_buf b := ?l), bufs := (bufs s)[b := ?x]\<rparr>"
  have r: "unat (b_refcnt (bufs s ! b) + 1) = Suc (unat (b_refcnt (bufs s ! b)))"
    using assms(4) cache_store_fields(2) [OF assms(1) b] by (simp add: unat_word_ariths)
  then have nz: "b_refcnt (bufs s ! b) + 1 \<noteq> 0" by auto
  have x: "buf_is dev bn ?x" and b': "b < NBUF" using b by (simp_all add: cache_at_def buf_is_def)
  have "bread dev bn s = Ok b ?t" using bread_cached [OF assms(1) b assms(2)] by simp
  moreover have "cache_store dev ?t = st_take bn (cache_store dev s)"
    using cells_same [OF assms(1) b x, of ?l] cache_store_at [OF assms(1) b] r
    by (simp add: cache_store_def st_take_def cell_def store_of_upd fun_upd_idem)
  moreover have "n = bn" if "cache_at dev s b n" for n using that b by (simp add: cache_at_def buf_is_def)
  ultimately show ?thesis
    using bread_take [OF assms(1) b' x _ _ _ _ _ _ _ refl] cache_buf_ok(1,2) [OF assms(1) b]
      cache_other [OF assms(1) b] nz by (intro exI [of _ b] exI [of _ ?t]) simp
next
  case False
  then have none: "cells dev (bufs s) (sleeplocks s) bn = None" by (simp add: cells_absent)
  then have "st_refs (cache_store dev s) bn = 0" by (simp add: cache_store_def)
  then have "\<exists>b < NBUF. b_refcnt (bufs s ! b) = 0"
    using assms(1,3) cache_room by (auto simp: st_room_def)
  then obtain b where b: "b < NBUF" "b_refcnt (bufs s ! b) = 0" and rd: "bread dev bn s = Ok b (s\<lparr>
     sleeplocks := (sleeplocks s)(SL_buf b := \<lparr>sl_locked = True, sl_pid = p_pid (procs s ! p)\<rparr>),
     bufs := (bufs s)[b := (bufs s ! b)\<lparr>b_dev := dev, b_blockno := bn, b_refcnt := 1, b_data := disk s bn, b_valid := True\<rparr>]\<rparr>)"
    (is "_ = Ok b ?t") using bread_evict [OF assms(1)] False by metis
  let ?x = "(bufs s ! b)\<lparr>b_dev := dev, b_blockno := bn, b_refcnt := 1, b_data := disk s bn, b_valid := True\<rparr>"
  let ?l = "\<lparr>sl_locked = True, sl_pid = p_pid (procs s ! p)\<rparr>"
  have x: "buf_is dev bn ?x" and d: "length (disk s bn) = BSIZE"
    using assms(1) by (simp_all add: buf_is_def cache_inv_def)
  have no: "\<not> buf_is dev bn (bufs s ! c)" if "c < NBUF" for c using False that by (simp add: cache_at_def)
  have old: "cells dev (bufs s) (sleeplocks s) n = Some (disk s n, 0, False)" if "cache_at dev s b n" for n
    using cache_store_at [OF assms(1) that] cache_buf_ok(4) [OF assms(1) that b(2)] b(2) by (simp add: cell_def)
  have "cache_store dev ?t = st_take bn (cache_store dev s)"
  proof -
    have u: "buf_unique dev (bufs s)" "NBUF < length (bufs s)"
      using assms(1) cache_length [OF assms(1)] by (auto simp: cache_inv_def)
    have "cells dev ((bufs s)[b := ?x]) ((sleeplocks s)(SL_buf b := ?l)) =
      (if b_dev (bufs s ! b) = dev then (cells dev (bufs s) (sleeplocks s))(b_blockno (bufs s ! b) := None)
       else cells dev (bufs s) (sleeplocks s)) (bn := Some (disk s bn, 1, True))"
      using cells_upd(2) [OF u(1) b(1) u(2), of ?x "sleeplocks s" ?l] no by (simp add: cell_def)
    moreover have "b_dev (bufs s ! b) = dev \<Longrightarrow> cache_at dev s b (b_blockno (bufs s ! b))"
      using b(1) by (simp add: cache_at_def buf_is_def)
    ultimately show ?thesis
      using old none by (simp add: cache_store_def st_take_def store_of_upd store_of_evict fun_upd_idem)
  qed
  moreover have "st_refs (cache_store dev s) n = 0" if "cache_at dev s b n" for n
    using old [OF that] by (simp add: cache_store_def)
  ultimately show ?thesis
    using rd bread_take [OF assms(1) b(1) x _ _ _ _ _ _ _ refl] no d
    by (intro exI [of _ b] exI [of _ ?t]) auto
qed

text \<open>The other operations change the buffer of a block that is in the cache.\<close>

lemma cache_change:
  fixes s :: "'z bcache_scheme"
  assumes "cache_inv dev p s" "cache_at dev s b bn"
    and "buf_is dev bn x" "b_valid x" "b_next x = b_next (bufs s ! b)" "b_prev x = b_prev (bufs s ! b)"
      "length (b_data x) = BSIZE" "sl_locked l \<Longrightarrow> sl_pid l = p_pid (procs s ! p)"
      "b_refcnt x = 0 \<Longrightarrow> b_data x = disk s bn \<and> \<not> sl_locked l"
    and "length ps = NPROC" "ps ! p = procs s ! p"
    and t: "t = s\<lparr>procs := ps, sleeplocks := (sleeplocks s)(SL_buf b := l), bufs := (bufs s)[b := x]\<rparr>"
  shows "cache_inv dev p t" "cache_frame s t" "cache_at dev t = cache_at dev s"
    "cache_store dev t = (cache_store dev s)\<lparr>st_view := (st_view (cache_store dev s))(bn := b_data x),
       st_refs := (st_refs (cache_store dev s))(bn := unat (b_refcnt x)),
       st_locked := (st_locked (cache_store dev s))(bn := sl_locked l)\<rparr>"
proof -
  have b: "b < NBUF" "buf_is dev bn (bufs s ! b)" using assms(2) by (simp_all add: cache_at_def)
  have "c = b" if "c < NBUF" "buf_is dev (b_blockno x) (bufs s ! c)" for c
    using cache_other [OF assms(1,2) that(1)] that(2) assms(3) by (simp add: buf_is_def)
  then show "cache_inv dev p t"
    unfolding t using assms(3-11) by (intro cache_inv_upd [OF assms(1) b(1)]) (simp_all add: buf_is_def buf_ok_def)
  show "cache_frame s t" unfolding cache_frame_def t
    by (intro exI [of _ ps] exI [of _ "(sleeplocks s)(SL_buf b := l)"] exI [of _ "(bufs s)[b := x]"]
        exI [of _ "disk s"] exI [of _ "disk_log s"]) simp
  show "cache_at dev t = cache_at dev s"
    using b assms(3) cache_length [OF assms(1)]
    by (auto simp: t cache_at_def fun_eq_iff nth_list_update buf_is_def)
  show "cache_store dev t = (cache_store dev s)\<lparr>st_view := (st_view (cache_store dev s))(bn := b_data x),
       st_refs := (st_refs (cache_store dev s))(bn := unat (b_refcnt x)),
       st_locked := (st_locked (cache_store dev s))(bn := sl_locked l)\<rparr>"
    using cells_same [OF assms(1,2,3), of l] by (simp add: t cache_store_def cell_def store_of_upd)
qed

lemma cells_relink:
  "unlinked bs' = unlinked bs \<Longrightarrow> NBUF < length bs \<Longrightarrow> cells dev bs' sl = cells dev bs sl"
proof
  fix bn
  assume "unlinked bs' = unlinked bs" "NBUF < length bs"
  note f = unlinked_field [OF this(1) less_trans [OF _ this(2)]]
  have "List.find (\<lambda>b. buf_is dev bn (bs' ! b)) [0..<NBUF] = List.find (\<lambda>b. buf_is dev bn (bs ! b)) [0..<NBUF]"
    using f by (intro find_cong) (auto simp: buf_is_def)
  then show "cells dev bs' sl bn = cells dev bs sl bn"
    using f find_Some_mem [of "\<lambda>b. buf_is dev bn (bs ! b)" "[0..<NBUF]"]
    by (cases "List.find (\<lambda>b. buf_is dev bn (bs ! b)) [0..<NBUF]") (auto simp: cells_def cell_def)
qed

lemma cache_relink:
  assumes "cache_inv dev p s" "unlinked bs = unlinked (bufs s)" "dll bs xs"
  shows "cache_inv dev p (s\<lparr>bufs := bs\<rparr>)" "cache_store dev (s\<lparr>bufs := bs\<rparr>) = cache_store dev s"
    "cache_at dev (s\<lparr>bufs := bs\<rparr>) = cache_at dev s" "cache_frame s (s\<lparr>bufs := bs\<rparr>)"
proof -
  have l: "NBUF < length (bufs s)" using cache_length [OF assms(1)] by simp
  note f = unlinked_field [OF assms(2) less_trans [OF _ l]]
  have "buf_unique dev bs"
    using assms(1) f by (simp add: cache_inv_def buf_unique_def buf_is_def)
  then show "cache_inv dev p (s\<lparr>bufs := bs\<rparr>)"
    using assms(1,3) f by (auto simp: cache_inv_def wake_ready_def buf_ok_def)
  show "cache_store dev (s\<lparr>bufs := bs\<rparr>) = cache_store dev s"
    using cells_relink [OF assms(2) l] by (simp add: cache_store_def)
  show "cache_at dev (s\<lparr>bufs := bs\<rparr>) = cache_at dev s"
    using f by (auto simp: cache_at_def buf_is_def fun_eq_iff)
  show "cache_frame s (s\<lparr>bufs := bs\<rparr>)" unfolding cache_frame_def
    by (intro exI [of _ "procs s"] exI [of _ "sleeplocks s"] exI [of _ bs] exI [of _ "disk s"] exI [of _ "disk_log s"]) simp
qed

lemma cache_procs: "cache_inv dev p s \<Longrightarrow> length (procs s) = NPROC"
  by (simp add: cache_inv_def wake_ready_def)

lemma woken_me [simp]: "p < length ps \<Longrightarrow> woken c (Some p) ps ! p = ps ! p"
  by (simp add: woken_def)

lemma put_run:
  fixes s :: "'z bcache_scheme"
  assumes "cache_inv dev p s" "cache_at dev s b bn" "st_refs (cache_store dev s) bn \<noteq> 0"
    "length (f (st_view (cache_store dev s) bn)) = BSIZE"
  shows "\<exists>t. bset b (\<lambda>x. x\<lparr>b_data := f (b_data x)\<rparr>) s = Ok () t \<and> cache_inv dev p t \<and> cache_frame s t
    \<and> cache_store dev t = st_put bn (f (st_view (cache_store dev s) bn)) (cache_store dev s)
    \<and> cache_at dev t = cache_at dev s"
proof -
  let ?x = "(bufs s ! b)\<lparr>b_data := f (b_data (bufs s ! b))\<rparr>"
  let ?t = "s\<lparr>bufs := (bufs s)[b := ?x]\<rparr>"
  note f = cache_store_fields [OF assms(1,2)]
  have x: "buf_is dev bn ?x" using assms(2) by (simp add: cache_at_def buf_is_def)
  have r: "b_refcnt (bufs s ! b) \<noteq> 0" using assms(3) by (auto simp: f(2))
  have t: "?t = s\<lparr>procs := procs s, sleeplocks := (sleeplocks s)(SL_buf b := sleeplocks s (SL_buf b)), bufs := (bufs s)[b := ?x]\<rparr>"
    by simp
  have v: "b_valid ?x" "length (b_data ?x) = BSIZE" "b_next ?x = b_next (bufs s ! b)" "b_prev ?x = b_prev (bufs s ! b)"
    "b_refcnt ?x \<noteq> 0" "b_data ?x = f (st_view (cache_store dev s) bn)" "unat (b_refcnt ?x) = st_refs (cache_store dev s) bn"
    using cache_buf_ok(1) [OF assms(1,2)] assms(4) r by (simp_all add: f)
  note c = cache_change [OF assms(1,2) x v(1,3,4,2) cache_buf_ok(3) [OF assms(1,2)] _ cache_procs [OF assms(1)] refl t]
  have "cache_store dev ?t = st_put bn (f (st_view (cache_store dev s) bn)) (cache_store dev s)"
    using c(4) v(5,7) by (simp add: st_put_def f(3) [symmetric] f(1) fun_upd_idem)
  then show ?thesis using c(1-3) v(5) by (intro exI [of _ ?t]) simp
qed

lemma bwrite_run:
  fixes s :: "'z bcache_scheme"
  assumes "cache_inv dev p s" "cache_at dev s b bn" "st_locked (cache_store dev s) bn"
  shows "\<exists>t. bwrite b s = Ok () t \<and> cache_inv dev p t \<and> cache_frame s t
    \<and> cache_store dev t = st_write bn (cache_store dev s) \<and> cache_at dev t = cache_at dev s"
proof -
  let ?d = "b_data (bufs s ! b)"
  let ?t = "s\<lparr>disk := (disk s)(bn := ?d), disk_log := (bn, ?d) # disk_log s\<rparr>"
  note f = cache_store_fields [OF assms(1,2)]
  note ok = cache_buf_ok [OF assms(1,2)]
  have b: "b < NBUF" "b_blockno (bufs s ! b) = bn" using assms(2) by (auto simp: cache_at_def buf_is_def)
  have h: "L_sleep (SL_buf b) \<notin> set (held s)" "curproc s = Some p" using assms(1) by (auto simp: cache_inv_def)
  have "bwrite b s = Ok () ?t"
    using ok assms(3) f(3) b by (simp add: bwrite_def kbind_Ok holdingsleep_run [OF h] disk_rw_def)
  moreover have "cache_inv dev p ?t"
  proof -
    have "buf_ok dev (p_pid (procs s ! p)) ((disk s)(bn := ?d)) (bufs s ! c) (sleeplocks s (SL_buf c))" if "c < NBUF" for c
    proof (cases "c = b")
      case True
      have "b_refcnt (bufs s ! b) \<noteq> 0" using ok(4) assms(3) f(3) by blast
      then show ?thesis using assms(1) that True by (auto simp: cache_inv_def buf_ok_def)
    next
      case False
      then have "\<not> buf_is dev bn (bufs s ! c)" using cache_other [OF assms(1,2) that] by blast
      moreover have "buf_ok dev (p_pid (procs s ! p)) (disk s) (bufs s ! c) (sleeplocks s (SL_buf c))"
        using assms(1) that by (simp add: cache_inv_def)
      ultimately show ?thesis by (auto simp: buf_ok_def buf_is_def)
    qed
    then show ?thesis using assms(1) ok(2) by (simp add: cache_inv_def wake_ready_def)
  qed
  moreover have "cache_frame s ?t" unfolding cache_frame_def
    by (intro exI [of _ "procs s"] exI [of _ "sleeplocks s"] exI [of _ "bufs s"]
        exI [of _ "(disk s)(bn := ?d)"] exI [of _ "(bn, ?d) # disk_log s"]) simp
  moreover have "cache_store dev ?t = st_write bn (cache_store dev s)"
  proof -
    have "cells dev (bufs s) (sleeplocks s) n = None \<Longrightarrow> n \<noteq> bn" for n
      using cache_store_at [OF assms(1,2)] by auto
    then show ?thesis
      using cache_store_at [OF assms(1,2)]
      by (auto simp: cache_store_def st_write_def cell_def store_of_def fun_eq_iff split: option.splits)
  qed
  ultimately show ?thesis by (intro exI [of _ ?t]) (simp add: cache_at_def fun_eq_iff)
qed

text \<open>A new reference count \<open>n\<close> and lock \<open>l\<close>.\<close>

lemma cache_count:
  fixes s :: "'z bcache_scheme"
  assumes "cache_inv dev p s" "cache_at dev s b bn"
    and "sl_locked l \<Longrightarrow> sl_pid l = p_pid (procs s ! p)"
    and "n = 0 \<Longrightarrow> st_view (cache_store dev s) bn = disk s bn \<and> \<not> sl_locked l"
    and "length ps = NPROC" "ps ! p = procs s ! p"
    and t: "t = s\<lparr>procs := ps, sleeplocks := (sleeplocks s)(SL_buf b := l), bufs := (bufs s)[b := (bufs s ! b)\<lparr>b_refcnt := n\<rparr>]\<rparr>"
  shows "cache_inv dev p t" "cache_frame s t" "cache_at dev t = cache_at dev s"
    "cache_store dev t = (cache_store dev s)\<lparr>st_refs := (st_refs (cache_store dev s))(bn := unat n),
       st_locked := (st_locked (cache_store dev s))(bn := sl_locked l)\<rparr>"
proof -
  let ?x = "(bufs s ! b)\<lparr>b_refcnt := n\<rparr>"
  note f = cache_store_fields [OF assms(1,2)]
  have x: "buf_is dev bn ?x" using assms(2) by (simp add: cache_at_def buf_is_def)
  have v: "b_valid ?x" "b_next ?x = b_next (bufs s ! b)" "b_prev ?x = b_prev (bufs s ! b)" "length (b_data ?x) = BSIZE"
    using cache_buf_ok(1,2) [OF assms(1,2)] by simp_all
  have z: "b_refcnt ?x = 0 \<Longrightarrow> b_data ?x = disk s bn \<and> \<not> sl_locked l" using assms(4) by (simp add: f)
  note c = cache_change [OF assms(1,2) x v assms(3) z assms(5,6) t]
  show "cache_inv dev p t" "cache_frame s t" "cache_at dev t = cache_at dev s" using c(1-3) by simp_all
  show "cache_store dev t = (cache_store dev s)\<lparr>st_refs := (st_refs (cache_store dev s))(bn := unat n),
       st_locked := (st_locked (cache_store dev s))(bn := sl_locked l)\<rparr>"
    using c(4) by (simp add: f(1) [symmetric] fun_upd_idem)
qed

lemma bpin_run:
  fixes s :: "'z bcache_scheme"
  assumes "cache_inv dev p s" "cache_at dev s b bn" "st_refs (cache_store dev s) bn \<noteq> 0"
    "Suc (st_refs (cache_store dev s) bn) < 2 ^ 32"
  shows "\<exists>t. bpin b s = Ok () t \<and> cache_inv dev p t \<and> cache_frame s t
    \<and> cache_store dev t = st_pin bn (cache_store dev s) \<and> cache_at dev t = cache_at dev s"
proof -
  let ?n = "b_refcnt (bufs s ! b) + 1"
  let ?t = "s\<lparr>bufs := (bufs s)[b := (bufs s ! b)\<lparr>b_refcnt := ?n\<rparr>]\<rparr>"
  note f = cache_store_fields [OF assms(1,2)]
  have n: "unat ?n = Suc (st_refs (cache_store dev s) bn)" using assms(4) by (simp add: f(2) unat_word_ariths)
  then have "?n \<noteq> 0" by (metis nat.distinct(1) unsigned_0)
  note c = cache_count [OF assms(1,2) cache_buf_ok(3) [OF assms(1,2)] _ cache_procs [OF assms(1)] refl, of ?n ?t]
  have "bpin b s = Ok () ?t"
    using assms(1) by (simp add: bpin_def kseq_Ok acquire_run release_run cache_inv_def)
  then show ?thesis
    using c \<open>?n \<noteq> 0\<close> n by (intro exI [of _ ?t]) (simp add: st_pin_def f(3) [symmetric] fun_upd_idem)
qed

lemma bunpin_run:
  fixes s :: "'z bcache_scheme"
  assumes "cache_inv dev p s" "cache_at dev s b bn" "1 < st_refs (cache_store dev s) bn"
  shows "\<exists>t. bunpin b s = Ok () t \<and> cache_inv dev p t \<and> cache_frame s t
    \<and> cache_store dev t = st_unpin bn (cache_store dev s) \<and> cache_at dev t = cache_at dev s"
proof -
  let ?n = "b_refcnt (bufs s ! b) - 1"
  let ?t = "s\<lparr>bufs := (bufs s)[b := (bufs s ! b)\<lparr>b_refcnt := ?n\<rparr>]\<rparr>"
  note f = cache_store_fields [OF assms(1,2)]
  have "b_refcnt (bufs s ! b) \<noteq> 0" using assms(3) by (auto simp: f(2))
  then have n: "unat ?n = st_refs (cache_store dev s) bn - 1" by (simp add: f(2) unat_minus_one)
  then have "?n \<noteq> 0" using assms(3) by (metis unsigned_0 less_irrefl zero_less_diff)
  note c = cache_count [OF assms(1,2) cache_buf_ok(3) [OF assms(1,2)] _ cache_procs [OF assms(1)] refl, of ?n ?t]
  have "bunpin b s = Ok () ?t"
    using assms(1) by (simp add: bunpin_def kseq_Ok acquire_run release_run cache_inv_def)
  then show ?thesis
    using c \<open>?n \<noteq> 0\<close> n by (intro exI [of _ ?t]) (simp add: st_unpin_def f(3) [symmetric] fun_upd_idem)
qed

lemma brelse_run:
  fixes s :: "'z bcache_scheme"
  assumes "cache_inv dev p s" "cache_at dev s b bn" "st_locked (cache_store dev s) bn"
    "1 < st_refs (cache_store dev s) bn \<or> st_view (cache_store dev s) bn = st_disk (cache_store dev s) bn"
  shows "\<exists>t. brelse b s = Ok () t \<and> cache_inv dev p t \<and> cache_frame s t
    \<and> cache_store dev t = st_drop bn (cache_store dev s) \<and> cache_at dev t = cache_at dev s"
proof -
  let ?n = "b_refcnt (bufs s ! b) - 1" and ?l = "\<lparr>sl_locked = False, sl_pid = 0\<rparr>"
  let ?ps = "woken (Some (Ch_sleeplock (SL_buf b))) (Some p) (procs s)"
  let ?t = "s\<lparr>procs := ?ps, sleeplocks := (sleeplocks s)(SL_buf b := ?l), bufs := (bufs s)[b := (bufs s ! b)\<lparr>b_refcnt := ?n\<rparr>]\<rparr>"
  let ?u = "s\<lparr>sleeplocks := (sleeplocks s)(SL_buf b := ?l), procs := ?ps, held := L_bcache # held s,
      bufs := (bufs s)[b := (bufs s ! b)\<lparr>b_refcnt := ?n\<rparr>]\<rparr>"
  note f = cache_store_fields [OF assms(1,2)]
  have b: "b < NBUF" "length (bufs s) = Suc NBUF" using assms(2) cache_length [OF assms(1)] by (simp_all add: cache_at_def)
  have h: "L_bcache \<notin> set (held s)" "L_sleep (SL_buf b) \<notin> set (held s)" "curproc s = Some p" "wake_ready s" "p < NPROC"
    using assms(1) by (auto simp: cache_inv_def)
  have "b_refcnt (bufs s ! b) \<noteq> 0" using cache_buf_ok(4) [OF assms(1,2)] assms(3) by (auto simp: f(3))
  then have n: "unat ?n = st_refs (cache_store dev s) bn - 1" by (simp add: f(2) unat_minus_one)
  have z: "st_view (cache_store dev s) bn = disk s bn" if "?n = 0"
  proof -
    have "unat ?n = 0" using that by simp
    then show ?thesis using assms(4) n by (auto simp: cache_store_def)
  qed
  have c: "cache_inv dev p ?t" "cache_frame s ?t" "cache_at dev ?t = cache_at dev s"
    "cache_store dev ?t = st_drop bn (cache_store dev s)"
    using cache_count [OF assms(1,2), of ?l ?n ?ps ?t] z n h(5) cache_procs [OF assms(1)]
    by (simp_all add: st_drop_def)
  have pre: "brelse b s = kseq (kwhen (?n = 0) (kdo [list_unlink b, list_push b])) (release L_bcache) ?u"
    using assms(3) f(3) cache_buf_ok(3) [OF assms(1,2)] h b
    by (simp add: brelse_def kseq_Ok kbind_Ok holdingsleep_run releasesleep_run acquire_run)
  show ?thesis
  proof (cases "?n = 0")
    case True
    obtain xs where "dll (bufs ?t) xs" using c(1) unfolding cache_inv_def by blast
    then have "dll (bufs ?u) xs" by simp
    from list_touch_run [OF this b(1)] obtain bs where
      bs: "kdo [list_unlink b, list_push b] ?u = Ok () (?u\<lparr>bufs := bs\<rparr>)" "unlinked bs = unlinked (bufs ?t)"
        "dll bs (b # remove1 b xs)" by auto
    have "brelse b s = Ok () (?t\<lparr>bufs := bs\<rparr>)"
      unfolding pre using True bs(1) by (simp add: kseq_Ok release_run)
    moreover have "cache_frame s (?t\<lparr>bufs := bs\<rparr>)" unfolding cache_frame_def
      by (intro exI [of _ "?ps"] exI [of _ "(sleeplocks s)(SL_buf b := ?l)"] exI [of _ bs]
          exI [of _ "disk s"] exI [of _ "disk_log s"]) simp
    ultimately show ?thesis
      using cache_relink [OF c(1) bs(2,3)] c by (intro exI [of _ "?t\<lparr>bufs := bs\<rparr>"]) simp
  next
    case False
    then have "brelse b s = Ok () ?t" unfolding pre by (simp add: kseq_Ok release_run)
    then show ?thesis using c by (intro exI [of _ ?t]) simp
  qed
qed

lemma cache_frame_refl: "cache_frame s s"
  unfolding cache_frame_def
  by (intro exI [of _ "procs s"] exI [of _ "sleeplocks s"] exI [of _ "bufs s"] exI [of _ "disk s"] exI [of _ "disk_log s"]) simp

lemma cache_frame_trans: "cache_frame s t \<Longrightarrow> cache_frame t u \<Longrightarrow> cache_frame s u"
  unfolding cache_frame_def by clarsimp (intro exI, rule refl)

interpretation cached: block_store "cache_inv dev p" "cache_store dev" "cache_at dev" cache_frame
  "bread dev" "\<lambda>b s. b_data (bufs s ! b)" "\<lambda>b f. bset b (\<lambda>x. x\<lparr>b_data := f (b_data x)\<rparr>)" bwrite brelse bpin bunpin
  for dev p
proof (unfold_locales, goal_cases)
  case (2 s t u)
  then show ?case by (rule cache_frame_trans)
next
  case (7 s b bn)
  then show ?case by (rule cache_store_fields(1) [symmetric])
next
  case (8 s b bn f)
  then show ?case by (intro put_run)
qed (rule cache_frame_refl | (rule cache_clean cache_few cache_size bread_run bwrite_run brelse_run bpin_run bunpin_run; assumption))+

section \<open>The cache after \<open>binit\<close>\<close>

lemma bufs0_nth:
  "i < NBUF \<Longrightarrow> bufs0 ! i = \<lparr>b_valid = False, b_disk = False, b_dev = 0, b_blockno = 0, b_refcnt = 0,
     b_prev = Suc i, b_next = (if i = 0 then bhead else i - 1), b_data = replicate BSIZE 0\<rparr>"
  "bufs0 ! bhead = \<lparr>b_valid = False, b_disk = False, b_dev = 0, b_blockno = 0, b_refcnt = 0,
     b_prev = 0, b_next = NBUF - 1, b_data = replicate BSIZE 0\<rparr>"
  "length bufs0 = Suc NBUF"
  by (simp_all add: bufs0_def nth_append)

lemma chain_down: "(\<And>i. i < n \<Longrightarrow> f (Suc i) = i) \<Longrightarrow> chain f (n # rev [0..<n])"
  by (induction n) auto

lemma chain_up: "(\<And>i. i < n \<Longrightarrow> f i = Suc i) \<Longrightarrow> chain f ([0..<n] @ [n])"
proof (induction n)
  case (Suc n)
  then show ?case using chain_append [of f "[0..<n]" n "[Suc n]"] by simp
qed simp

lemma dll_bufs0: "dll bufs0 (rev [0..<NBUF])"
proof -
  have n: "NBUF = Suc 29" by (simp add: NBUF_def MAXOPBLOCKS_def)
  have "chain (nexts bufs0) (NBUF # rev [0..<NBUF])"
  proof (rule chain_down)
    fix i assume "i < NBUF"
    then show "b_next (bufs0 ! Suc i) = i" using bufs0_nth(1) [of "Suc i"] bufs0_nth(2) by (cases "Suc i = NBUF") auto
  qed
  then have "chain (nexts bufs0) ((NBUF # rev [1..<NBUF]) @ 0 # [NBUF])"
    using chain_append [of "nexts bufs0" "NBUF # rev [1..<NBUF]" 0 "[NBUF]"] bufs0_nth(1) [of 0]
    by (simp add: n upt_conv_Cons del: upt_Suc)
  then have "chain (nexts bufs0) (NBUF # rev [0..<NBUF] @ [NBUF])" by (simp add: n upt_conv_Cons del: upt_Suc)
  moreover have "chain (prevs bufs0) ([0..<NBUF] @ [NBUF])" by (rule chain_up) (simp add: bufs0_nth(1))
  then have "chain (prevs bufs0) (NBUF # [0..<NBUF] @ [NBUF])"
    using bufs0_nth(2) by (simp add: n upt_conv_Cons del: upt_Suc)
  ultimately show ?thesis by (auto simp: dll_def linked_def bufs0_nth(3))
qed

text \<open>A machine that runs its first process, with \<open>d\<close> on the disk and the buffers \<open>bs\<close>.\<close>

definition cache0 :: "(u32 \<Rightarrow> u8 list) \<Rightarrow> buf list \<Rightarrow> logst" where
  "cache0 d bs = logst0\<lparr>curproc := Some 0, disk := d, bufs := bs\<rparr>"

lemma cache0_simps [simp]:
  "disk (cache0 d bs) = d" "bufs (cache0 d bs) = bs" "curproc (cache0 d bs) = Some 0" "held (cache0 d bs) = []"
  "disk_log (cache0 d bs) = []" "sleeplocks (cache0 d bs) = (\<lambda>_. \<lparr>sl_locked = False, sl_pid = 0\<rparr>)"
  "procs (cache0 d bs) = replicate NPROC proc0" "log (cache0 d bs) = log logst0"
  by (simp_all add: cache0_def logst0_defs)

lemma cache0_inv:
  assumes "\<And>bn. length (d bn) = BSIZE"
  shows "cache_inv 1 0 (cache0 d bufs0)" "st_refs (cache_store 1 (cache0 d bufs0)) = (\<lambda>_. 0)"
    "st_locked (cache_store 1 (cache0 d bufs0)) = (\<lambda>_. False)"
proof -
  have "\<not> buf_is 1 bn (bufs0 ! b)" if "b < NBUF" for b bn
    using that by (simp add: bufs0_nth buf_is_def)
  then have u: "buf_unique 1 bufs0" "cells 1 bufs0 sl = (\<lambda>_. None)" for sl
    by (auto simp: buf_unique_def fun_eq_iff intro: cells_None)
  then show "cache_inv 1 0 (cache0 d bufs0)"
    using dll_bufs0 assms by (auto simp: cache_inv_def wake_ready_def buf_ok_def bufs0_nth)
  show "st_refs (cache_store 1 (cache0 d bufs0)) = (\<lambda>_. 0)" "st_locked (cache_store 1 (cache0 d bufs0)) = (\<lambda>_. False)"
    using u(2) by (simp_all add: cache_store_def fun_eq_iff)
qed

text \<open>The same with block \<open>bn\<close> in buffer 0, which has one reference.\<close>

definition bufs1 :: "u32 \<Rightarrow> u8 list \<Rightarrow> buf list" where
  "bufs1 bn d = bufs0[0 := (bufs0 ! 0)\<lparr>b_valid := True, b_dev := 1, b_blockno := bn, b_refcnt := 1, b_data := d\<rparr>]"

lemma cache1_inv:
  assumes "\<And>bn. length (d bn) = BSIZE" "length x = BSIZE"
  shows "cache_inv 1 0 (cache0 d (bufs1 bn x))"
    "cache_store 1 (cache0 d (bufs1 bn x)) = (cache_store 1 (cache0 d bufs0))\<lparr>
       st_view := (st_view (cache_store 1 (cache0 d bufs0)))(bn := x),
       st_refs := (st_refs (cache_store 1 (cache0 d bufs0)))(bn := 1)\<rparr>"
proof -
  let ?x = "(bufs0 ! 0)\<lparr>b_valid := True, b_dev := 1, b_blockno := bn, b_refcnt := 1, b_data := x\<rparr>"
  let ?l = "\<lparr>sl_locked = False, sl_pid = 0\<rparr>"
  note i = cache0_inv [of d, OF assms(1)]
  have z: "0 < NBUF" by (simp add: NBUF_def MAXOPBLOCKS_def)
  have no: "\<not> buf_is 1 n (bufs0 ! b)" if "b < NBUF" for b n using that by (simp add: bufs0_nth buf_is_def)
  have "cache_inv 1 0 (cache0 d bufs0\<lparr>procs := procs (cache0 d bufs0),
      sleeplocks := (sleeplocks (cache0 d bufs0))(SL_buf 0 := ?l), bufs := (bufs (cache0 d bufs0))[0 := ?x]\<rparr>)"
    by (rule cache_inv_upd [OF i(1) z]) (use no assms(2) in \<open>auto simp: buf_ok_def\<close>)
  then show "cache_inv 1 0 (cache0 d (bufs1 bn x))"
    by (simp add: cache0_def bufs1_def)  (simp add: logst0_defs fun_upd_idem)
  have "cells 1 (bufs0[0 := ?x]) ((\<lambda>_. ?l)(SL_buf 0 := ?l)) = (cells 1 bufs0 (\<lambda>_. ?l))(bn := Some (x, 1, False))"
    using cells_upd(2) [of 1 bufs0 0 ?x "\<lambda>_. ?l" ?l] i(1) z no by (simp add: cache_inv_def bufs0_nth cell_def)
  then have "cells 1 (bufs1 bn x) (\<lambda>_. ?l) = (cells 1 bufs0 (\<lambda>_. ?l))(bn := Some (x, 1, False))"
    by (simp add: bufs1_def fun_upd_idem)
  then show "cache_store 1 (cache0 d (bufs1 bn x)) = (cache_store 1 (cache0 d bufs0))\<lparr>
       st_view := (st_view (cache_store 1 (cache0 d bufs0)))(bn := x),
       st_refs := (st_refs (cache_store 1 (cache0 d bufs0)))(bn := 1)\<rparr>"
    using i(3) by (simp add: cache_store_def store_of_upd fun_upd_idem fun_eq_iff)
qed

section \<open>Properties\<close>

text \<open>C33. The buffer cache shows each block once, with its current contents. \<open>bread\<close> of an unlocked block,
  when there is a buffer for it, returns a buffer that holds that block, valid, locked by the caller
  and with the contents the block has for every reader, whether it was cached or read from disk into
  a recycled buffer; no other block changes its contents, references or lock, nothing is written, and
  every buffer that is in use stays with its block.\<close>

theorem bread_reads_block:
  fixes s :: "'z bcache_scheme"
  assumes "cache_inv dev p s" "\<not> st_locked (cache_store dev s) bn" "st_room bn (cache_store dev s)"
    "Suc (st_refs (cache_store dev s) bn) < 2 ^ 32"
  shows "\<exists>b t. bread dev bn s = Ok b t \<and> cache_inv dev p t \<and> cache_store dev t = st_take bn (cache_store dev s)
     \<and> b < NBUF \<and> b_dev (bufs t ! b) = dev \<and> b_blockno (bufs t ! b) = bn
     \<and> b_valid (bufs t ! b) \<and> b_data (bufs t ! b) = st_view (cache_store dev s) bn
     \<and> sleeplocks t (SL_buf b) = \<lparr>sl_locked = True, sl_pid = p_pid (procs t ! p)\<rparr>
     \<and> (\<forall>c n. cache_at dev s c n \<longrightarrow> st_refs (cache_store dev s) n \<noteq> 0 \<longrightarrow> cache_at dev t c n)"
proof -
  obtain b t where t: "bread dev bn s = Ok b t" "cache_inv dev p t" "cache_store dev t = st_take bn (cache_store dev s)"
    "cache_at dev t b bn" "\<forall>c n. cache_at dev s c n \<longrightarrow> st_refs (cache_store dev s) n \<noteq> 0 \<longrightarrow> cache_at dev t c n"
    using bread_run [OF assms] by blast
  have "sl_locked (sleeplocks t (SL_buf b))"
    using cache_store_fields(3) [OF t(2,4)] by (simp add: t(3) st_take_def)
  then have "sleeplocks t (SL_buf b) = \<lparr>sl_locked = True, sl_pid = p_pid (procs t ! p)\<rparr>"
    using cache_buf_ok(3) [OF t(2,4)] by (cases "sleeplocks t (SL_buf b)") simp
  moreover have "b_data (bufs t ! b) = st_view (cache_store dev s) bn"
    using cache_store_fields(1) [OF t(2,4)] by (simp add: t(3) st_take_def)
  ultimately show ?thesis
    using t cache_buf_ok(1) [OF t(2,4)] by (intro exI [of _ b] exI [of _ t]) (auto simp: cache_at_def buf_is_def)
qed

theorem bread_reads_block_witness:
  "\<exists>b t. bread 1 50 (cache0 (\<lambda>_. replicate BSIZE 3) (bufs1 50 (replicate BSIZE 7))) = Ok b t
     \<and> b_data (bufs t ! b) = replicate BSIZE 7"
proof -
  let ?s = "cache0 (\<lambda>_. replicate BSIZE 3) (bufs1 50 (replicate BSIZE 7))"
  have i: "cache_inv 1 0 ?s" and c: "st_refs (cache_store 1 ?s) 50 = 1" "\<not> st_locked (cache_store 1 ?s) 50"
    "st_view (cache_store 1 ?s) 50 = replicate BSIZE 7"
    using cache1_inv [of "\<lambda>_. replicate BSIZE 3" "replicate BSIZE 7" 50] cache0_inv(3) [of "\<lambda>_. replicate BSIZE 3"]
    by simp_all
  have "st_room 50 (cache_store 1 ?s)" "Suc (st_refs (cache_store 1 ?s) 50) < 2 ^ 32" by (simp_all add: st_room_def c)
  from bread_reads_block [OF i c(2) this] show ?thesis unfolding c(3) by blast
qed

end
