(* ===== verification/Crash.thy ===== *)
theory Crash
  imports Bcache
begin

text \<open>
  Properties of the redo log of \<open>kernel/log.c\<close>: a transaction is atomic whenever the machine stops, and the
  space \<open>begin_op\<close> reserves is enough for \<open>log_write\<close>. A crash leaves a prefix of the disk writes that
  \<open>commit\<close> makes; \<open>initlog\<close> at the next boot recovers from any of them.
\<close>

section \<open>Sequences of writes\<close>

definition upds :: "(u32 \<Rightarrow> u8 list) \<Rightarrow> (u32 \<times> u8 list) list \<Rightarrow> u32 \<Rightarrow> u8 list" where
  "upds f ws = fold (\<lambda>(bn, d) f. f(bn := d)) ws f"

lemma upds_simps [simp]:
  "upds f [] = f" "upds f ((bn, d) # ws) = upds (f(bn := d)) ws" "upds f (ws @ vs) = upds (upds f ws) vs"
  by (simp_all add: upds_def)

lemma upds_other: "bn \<notin> fst ` set ws \<Longrightarrow> upds f ws bn = f bn"
  by (induction ws arbitrary: f) auto

lemma upds_same: "(\<And>d. (bn, d) \<in> set ws \<Longrightarrow> d = v) \<Longrightarrow> bn \<in> fst ` set ws \<Longrightarrow> upds f ws bn = v"
proof (induction ws rule: rev_induct)
  case (snoc w ws)
  show ?case
  proof (cases "fst w = bn")
    case True
    then have "snd w = v" using snoc.prems(1) [of "snd w"] by (cases w) auto
    then show ?thesis using True by (cases w) simp
  next
    case False
    then have "upds f ws bn = v" using snoc by auto
    then show ?thesis using False by (cases w) auto
  qed
qed simp

text \<open>Each block changed in the cache and written at once.\<close>

definition write_all :: "(u32 \<times> u8 list) list \<Rightarrow> bstore \<Rightarrow> bstore" where
  "write_all ws a = a\<lparr>st_view := upds (st_view a) ws, st_disk := upds (st_disk a) ws, st_writes := rev ws @ st_writes a\<rparr>"

lemma write_all_Nil [simp]: "write_all [] a = a"
  by (simp add: write_all_def)

lemma write_all_snoc: "st_write bn (st_put bn d (write_all ws a)) = write_all (ws @ [(bn, d)]) a"
  by (simp add: write_all_def st_defs)

section \<open>The steps of a commit\<close>

text \<open>The log of \<open>sz\<close> blocks: the header block and the blocks that follow it; the blocks of the
  transaction are different ones, outside of the log. In the image that \<open>mkfs\<close> makes \<open>sz\<close> is \<open>LOGSIZE\<close>, and the log has
  room for 29 blocks.\<close>

definition log_blocks :: "u32 \<Rightarrow> nat \<Rightarrow> u32 set" where
  "log_blocks start sz = (\<lambda>i. start + of_nat i) ` {..<sz}"

definition slot :: "u32 \<Rightarrow> nat \<Rightarrow> u32" where
  "slot start i = start + of_nat i + 1"

lemma slot_inject: "i < 2 ^ 32 \<Longrightarrow> j < 2 ^ 32 \<Longrightarrow> slot start i = slot start j \<longleftrightarrow> i = j"
proof -
  assume "i < 2 ^ 32" "j < 2 ^ 32"
  then have "unat (of_nat i :: u32) = i" "unat (of_nat j :: u32) = j"
    by (simp_all add: unat_of_nat take_bit_nat_eq_self)
  then show ?thesis by (metis slot_def add_left_cancel add_right_cancel)
qed

lemma slot_log: "Suc i < sz \<Longrightarrow> slot start i \<in> log_blocks start sz"
  unfolding log_blocks_def slot_def by (intro image_eqI [of _ _ "Suc i"]) (auto simp: algebra_simps)

lemma slot_header: "i < LOGSIZE \<Longrightarrow> slot start i \<noteq> start"
proof -
  assume "i < LOGSIZE"
  then have "unat (1 + of_nat i :: u32) = Suc i"
    by (simp add: unat_word_ariths unat_of_nat take_bit_nat_eq_self LOGSIZE_def MAXOPBLOCKS_def)
  then have "(1 + of_nat i :: u32) \<noteq> 0" by (metis nat.distinct(1) unsigned_0)
  then show ?thesis by (simp add: slot_def add.assoc add.commute)
qed

lemma header_log: "0 < sz \<Longrightarrow> start \<in> log_blocks start sz"
  unfolding log_blocks_def by (intro image_eqI [of _ _ 0]) auto

text \<open>The header reads back.\<close>

lemma put_header_blocks:
  "m \<le> LOGSIZE \<Longrightarrow> length d = BSIZE \<Longrightarrow>
     (let h = fold (\<lambda>i d. put32 d (4 + 4 * i) (bl ! i)) [0..<m] d in
        length h = BSIZE \<and> get32 h 0 = get32 d 0 \<and> (\<forall>i < m. get32 h (4 + 4 * i) = bl ! i))"
proof (induction m)
  case (Suc m)
  let ?h = "fold (\<lambda>i d. put32 d (4 + 4 * i) (bl ! i)) [0..<m] d"
  have l: "length ?h = BSIZE" "get32 ?h 0 = get32 d 0" "\<forall>i < m. get32 ?h (4 + 4 * i) = bl ! i"
    using Suc by (simp_all add: Let_def)
  have b: "4 + 4 * m + 4 \<le> BSIZE" using Suc.prems(1) by (simp add: LOGSIZE_def MAXOPBLOCKS_def BSIZE_def)
  have "get32 (put32 ?h (4 + 4 * m) (bl ! m)) (4 + 4 * i) = bl ! i" if "i < Suc m" for i
  proof (cases "i = m")
    case True
    then show ?thesis using l b by (simp add: get_put_word)
  next
    case False
    then show ?thesis using that l b by (simp add: get_put_word_other)
  qed
  then show ?case using l b by (simp add: Let_def get_put_word_other)
qed simp

lemma put_header_reads:
  assumes "0 \<le> n" "n \<le> int LOGSIZE" "length d = BSIZE"
  shows "length (put_header n bl d) = BSIZE" "hdr_n (put_header n bl d) = n"
    "\<And>i. i < nat n \<Longrightarrow> hdr_block (put_header n bl d) i = bl ! i"
proof -
  have l: "length (put32 d 0 (of_int n)) = BSIZE" "get32 (put32 d 0 (of_int n)) 0 = of_int n"
    using assms(3) by (simp_all add: get_put_word BSIZE_def)
  note h = put_header_blocks [of "nat n", OF _ l(1), of bl, unfolded l(2) Let_def]
  have "sint (of_int n :: u32) = n"
    using assms(1,2) by (simp add: LOGSIZE_def MAXOPBLOCKS_def sint_sbintrunc' signed_take_bit_int_eq_self)
  then show "length (put_header n bl d) = BSIZE" "hdr_n (put_header n bl d) = n"
    "\<And>i. i < nat n \<Longrightarrow> hdr_block (put_header n bl d) i = bl ! i"
    using h assms(2) by (simp_all add: put_header_def hdr_n_def hdr_block_def)
qed

text \<open>The transaction in memory: \<open>bl\<close> are its blocks, and fit in the log of \<open>sz\<close> blocks with its header. No buffer is locked, and the referenced ones are
  those of the transaction, or none during recovery.\<close>

definition txn :: "u32 \<Rightarrow> u32 \<Rightarrow> nat \<Rightarrow> u32 list \<Rightarrow> log \<Rightarrow> bool" where
  "txn dev start sz bl l \<longleftrightarrow> log_dev l = dev \<and> log_start l = start \<and> sint (log_size l) = int sz \<and> length bl < sz \<and> lh_n l = int (length bl)
     \<and> bl = take (length bl) (lh_block l) \<and> length (lh_block l) = LOGSIZE
     \<and> distinct bl \<and> set bl \<inter> log_blocks start sz = {}"

definition quiet :: "u32 set \<Rightarrow> bstore \<Rightarrow> bool" where
  "quiet X a \<longleftrightarrow> (\<forall>bn. \<not> st_locked a bn) \<and> {bn. st_refs a bn \<noteq> 0} \<subseteq> X \<and> (\<forall>bn. Suc (st_refs a bn) < 2 ^ 32)"

lemma quiet_write_all [simp]: "quiet X (write_all ws a) = quiet X a"
  by (simp add: quiet_def write_all_def)

lemma quiet_mono:
  assumes "quiet X a" "st_locked b = st_locked a" "\<And>bn. st_refs b bn \<le> st_refs a bn"
  shows "quiet X b"
proof -
  have "st_refs a bn \<noteq> 0" if "st_refs b bn \<noteq> 0" for bn using assms(3) [of bn] that by linarith
  moreover have "Suc (st_refs b bn) < 2 ^ 32" for bn
    using assms(1) assms(3) [of bn] unfolding quiet_def by (metis Suc_le_mono le_less_trans)
  ultimately show ?thesis using assms(1,2) unfolding quiet_def by (intro conjI) auto
qed

lemma txn_block:
  assumes "txn dev start sz bl l" "i < length bl"
  shows "lh_block l ! i = bl ! i" "bl ! i \<notin> log_blocks start sz" "i < LOGSIZE" "Suc i < sz"
proof -
  have "bl ! i = take (length bl) (lh_block l) ! i" using assms by (simp add: txn_def)
  then show "lh_block l ! i = bl ! i" using assms(2) by simp
  show "bl ! i \<notin> log_blocks start sz" using assms nth_mem [of i bl] unfolding txn_def by blast
  have "length bl \<le> LOGSIZE" using assms(1) unfolding txn_def by (metis length_take min.cobounded1)
  then show "i < LOGSIZE" using assms(2) by simp
  show "Suc i < sz" using assms unfolding txn_def by linarith
qed

lemma quiet_room: "quiet X a \<Longrightarrow> finite X \<Longrightarrow> card X < NBUF \<Longrightarrow> st_room bn a"
  unfolding quiet_def st_room_def by (metis card_mono le_less_trans)

text \<open>\<open>write_log\<close> copies the blocks of the transaction to the log.\<close>

lemma write_log_run:
  fixes s :: "'z logst_scheme"
  assumes "cache_inv dev p s" "txn dev start sz bl (log s)" "quiet (set bl) (cache_store dev s)"
    "\<And>bn. bn \<in> set bl \<Longrightarrow> st_refs (cache_store dev s) bn \<noteq> 0" "length bl < NBUF" "k \<le> length bl"
  shows "\<exists>t. kfor write_log_block [0..<k] s = Ok () t \<and> cache_inv dev p t \<and> cache_frame s t
    \<and> cache_store dev t = write_all (map (\<lambda>i. (slot start i, st_view (cache_store dev s) (bl ! i))) [0..<k]) (cache_store dev s)"
  using assms(6)
proof (induction k)
  case 0
  then show ?case using assms(1) cache_frame_refl by simp
next
  case (Suc k)
  let ?ws = "map (\<lambda>i. (slot start i, st_view (cache_store dev s) (bl ! i))) [0..<k]"
  obtain t where t: "kfor write_log_block [0..<k] s = Ok () t" "cache_inv dev p t" "cache_frame s t"
    "cache_store dev t = write_all ?ws (cache_store dev s)" using Suc by auto
  note b = txn_block [OF assms(2), of k]
  have lg: "log t = log s" using t(3) by (auto simp: cache_frame_def)
  have q: "quiet (set bl) (cache_store dev t)" using assms(3) t(4) by simp
  have "card (set bl) < NBUF" using assms(5) card_length [of bl] by linarith
  then have "st_room (slot start k) (cache_store dev t)" using quiet_room [OF q] by simp
  moreover have "slot start k \<noteq> bl ! k" using b slot_log [of k sz start] Suc.prems by auto
  moreover have "st_refs (cache_store dev t) (bl ! k) \<noteq> 0"
    using assms(4) [of "bl ! k"] Suc.prems t(4) by (simp add: write_all_def)
  ultimately obtain u where u: "kbind (bread dev (slot start k)) (\<lambda>to. kbind (bread dev (bl ! k)) (\<lambda>from.
      kbind (bdata from) (\<lambda>d. kdo [set_bdata to (\<lambda>_. d), bwrite to, brelse from, brelse to]))) t = Ok () u"
    "cache_inv dev p u" "cache_frame t u"
    "cache_store dev u = st_write (slot start k) (st_put (slot start k) (st_view (cache_store dev t) (bl ! k)) (cache_store dev t))"
    using cached.save_block [OF t(2), of "slot start k" "bl ! k"] q by (auto simp: quiet_def)
  have "bl ! k \<notin> fst ` set ?ws" using b Suc.prems slot_log [of _ sz start] by fastforce
  then have "st_view (cache_store dev t) (bl ! k) = st_view (cache_store dev s) (bl ! k)"
    using t(4) by (simp add: write_all_def upds_other)
  then have "cache_store dev u = write_all (?ws @ [(slot start k, st_view (cache_store dev s) (bl ! k))]) (cache_store dev s)"
    using u(4) t(4) by (simp add: write_all_snoc)
  moreover have "write_log_block k t = Ok () u"
    using u(1) b(1) Suc.prems assms(2) lg by (simp add: write_log_block_def kbind_Ok txn_def slot_def)
  ultimately show ?case using t u cache_frame_trans [OF t(3) u(3)] by (simp add: kfor_append kseq_Ok)
qed

text \<open>\<open>install_trans\<close> copies the logged blocks home; after a commit it drops the references that
  \<open>log_write\<close> took.\<close>

definition unpinned :: "bool \<Rightarrow> u32 list \<Rightarrow> (u32 \<Rightarrow> nat) \<Rightarrow> u32 \<Rightarrow> nat" where
  "unpinned recovering bs r = (\<lambda>bn. if \<not> recovering \<and> bn \<in> set bs then r bn - 1 else r bn)"

lemma install_trans_run:
  fixes s :: "'z logst_scheme"
  assumes "cache_inv dev p s" "txn dev start sz bl (log s)" "quiet (if recovering then {} else set bl) (cache_store dev s)"
    "\<not> recovering \<Longrightarrow> length bl < NBUF \<and> (\<forall>bn \<in> set bl. st_refs (cache_store dev s) bn \<noteq> 0)" "k \<le> length bl"
  shows "\<exists>t. kfor (install_block recovering) [0..<k] s = Ok () t \<and> cache_inv dev p t \<and> cache_frame s t
    \<and> cache_store dev t = (write_all (map (\<lambda>i. (bl ! i, st_view (cache_store dev s) (slot start i))) [0..<k]) (cache_store dev s))
        \<lparr>st_refs := unpinned recovering (take k bl) (st_refs (cache_store dev s))\<rparr>"
  using assms(5)
proof (induction k)
  case 0
  then show ?case using assms(1) cache_frame_refl by (simp add: unpinned_def)
next
  case (Suc k)
  let ?ws = "map (\<lambda>i. (bl ! i, st_view (cache_store dev s) (slot start i))) [0..<k]"
  let ?R = "unpinned recovering (take k bl) (st_refs (cache_store dev s))"
  let ?x = "slot start k" and ?y = "bl ! k"
  obtain t where t: "kfor (install_block recovering) [0..<k] s = Ok () t" "cache_inv dev p t" "cache_frame s t"
    "cache_store dev t = (write_all ?ws (cache_store dev s))\<lparr>st_refs := ?R\<rparr>" using Suc by auto
  note b = txn_block [OF assms(2), of k]
  have lg: "log t = log s" using t(3) by (auto simp: cache_frame_def)
  have y: "?y \<notin> set (take k bl)" using assms(2) Suc.prems
    by (auto simp: txn_def in_set_conv_nth nth_eq_iff_index_eq)
  have q: "quiet (if recovering then {} else set bl) (cache_store dev t)"
    using quiet_mono [OF assms(3)] t(4) by (simp add: unpinned_def write_all_def)
  have "card (if recovering then {} else set bl) < NBUF"
    using assms(4) card_length [of bl] by (auto simp: NBUF_def MAXOPBLOCKS_def)
  then have "st_room ?x (cache_store dev t)" using quiet_room [OF q] by simp
  moreover have "?x \<noteq> ?y" using b slot_log [of k sz start] Suc.prems by auto
  moreover have nz: "recovering \<or> st_refs (cache_store dev t) ?y \<noteq> 0"
    using assms(4) y nth_mem [OF Suc_le_lessD [OF Suc.prems]] t(4) by (cases recovering) (simp_all add: unpinned_def)
  moreover have "recovering \<Longrightarrow> {n. st_refs (cache_store dev t) n \<noteq> 0} = {}" using q by (simp add: quiet_def)
  then have "st_refs (cache_store dev t) ?y \<noteq> 0 \<or> Suc (card {n. st_refs (cache_store dev t) n \<noteq> 0}) < NBUF"
    using nz by (cases recovering) (simp_all add: NBUF_def MAXOPBLOCKS_def)
  ultimately obtain u where u: "kbind (bread dev ?x) (\<lambda>lbuf. kbind (bread dev ?y) (\<lambda>dbuf. kbind (bdata lbuf) (\<lambda>d. kdo
       [set_bdata dbuf (\<lambda>_. d), bwrite dbuf, kwhen (\<not> recovering) (bunpin dbuf), brelse lbuf, brelse dbuf]))) t = Ok () u"
    "cache_inv dev p u" "cache_frame t u"
    "cache_store dev u = st_write ?y (st_put ?y (st_view (cache_store dev t) ?x)
        (if recovering then cache_store dev t else st_unpin ?y (cache_store dev t)))"
    using cached.home_block [OF t(2), of ?x ?y recovering] q by (auto simp: quiet_def)
  have "?x \<notin> fst ` set ?ws" using txn_block(2) [OF assms(2)] slot_log [of k sz start] b Suc.prems by fastforce
  then have v: "st_view (cache_store dev t) ?x = st_view (cache_store dev s) ?x"
    using t(4) by (simp add: write_all_def upds_other)
  have R: "unpinned recovering (take (Suc k) bl) (st_refs (cache_store dev s)) = (if recovering then ?R else ?R(?y := ?R ?y - 1))"
    using y Suc.prems by (auto simp: unpinned_def fun_eq_iff take_Suc_conv_app_nth)
  have "cache_store dev u = (write_all (?ws @ [(?y, st_view (cache_store dev s) ?x)]) (cache_store dev s))
      \<lparr>st_refs := unpinned recovering (take (Suc k) bl) (st_refs (cache_store dev s))\<rparr>"
    unfolding u(4) v R unfolding t(4) by (rule bstore.equality) (simp_all add: write_all_def st_defs)
  moreover have "install_block recovering k t = Ok () u"
    using u(1) b(1) Suc.prems assms(2) lg by (simp add: install_block_def kbind_Ok txn_def slot_def)
  ultimately show ?case using t u cache_frame_trans [OF t(3) u(3)] by (simp add: kfor_append kseq_Ok)
qed

lemma write_head_run:
  fixes s :: "'z logst_scheme"
  assumes "cache_inv dev p s" "log_dev (log s) = dev" "log_start (log s) = start"
    "0 \<le> lh_n (log s)" "lh_n (log s) \<le> int LOGSIZE" "quiet X (cache_store dev s)" "finite X" "card X < NBUF"
  shows "\<exists>t. write_head s = Ok () t \<and> cache_inv dev p t \<and> cache_frame s t
    \<and> cache_store dev t = write_all [(start, put_header (lh_n (log s)) (lh_block (log s)) (st_view (cache_store dev s) start))]
        (cache_store dev s)"
proof -
  have "st_room start (cache_store dev s)" using quiet_room assms(6-8) .
  moreover have "length (put_header (lh_n (log s)) (lh_block (log s)) (st_view (cache_store dev s) start)) = BSIZE"
    using put_header_reads(1) assms(4,5) cache_size [OF assms(1)] by blast
  ultimately show ?thesis
    using cached.change_block [OF assms(1), of start "put_header (lh_n (log s)) (lh_block (log s))"] assms(2,3,6)
    by (simp add: quiet_def write_head_def kbind_Ok write_all_def st_defs)
qed

text \<open>The writes of a commit: the blocks to the log, the header that commits, the blocks to their home
  locations, and the header that clears the log.\<close>

definition logged :: "u32 \<Rightarrow> u32 list \<Rightarrow> (u32 \<Rightarrow> u8 list) \<Rightarrow> (u32 \<times> u8 list) list" where
  "logged start bl v = map (\<lambda>i. (slot start i, v (bl ! i))) [0..<length bl]"

definition homed :: "u32 list \<Rightarrow> (u32 \<Rightarrow> u8 list) \<Rightarrow> (u32 \<times> u8 list) list" where
  "homed bl v = map (\<lambda>i. (bl ! i, v (bl ! i))) [0..<length bl]"

definition commit_writes :: "u32 \<Rightarrow> u32 list \<Rightarrow> u32 list \<Rightarrow> (u32 \<Rightarrow> u8 list) \<Rightarrow> (u32 \<times> u8 list) list" where
  "commit_writes start bl blk v = (let h = put_header (int (length bl)) blk (v start) in
     logged start bl v @ [(start, h)] @ homed bl v @ [(start, put_header 0 blk h)])"

lemma logged_keys: "length bl \<le> LOGSIZE \<Longrightarrow> length bl < sz \<Longrightarrow> fst ` set (logged start bl v) \<subseteq> log_blocks start sz - {start}"
  using slot_log [of _ sz start] slot_header [of _ start] by (auto simp: logged_def)

lemma homed_keys: "fst ` set (homed bl v) = set bl"
  by (auto simp: homed_def in_set_conv_nth image_image)

lemma upds_logged:
  assumes "length bl \<le> LOGSIZE" "i < length bl"
  shows "upds f (logged start bl v) (slot start i) = v (bl ! i)"
proof (rule upds_same)
  have b: "length bl < 2 ^ 32" using assms(1) by (simp add: LOGSIZE_def MAXOPBLOCKS_def)
  fix d assume "(slot start i, d) \<in> set (logged start bl v)"
  then obtain j where "j < length bl" "slot start i = slot start j" "d = v (bl ! j)" by (auto simp: logged_def)
  then show "d = v (bl ! i)" using slot_inject [of i j start] assms(2) b by simp
next
  show "slot start i \<in> fst ` set (logged start bl v)" using assms(2) by (auto simp: logged_def image_image)
qed

lemma upds_homed: "upds f (homed bl v) bn = (if bn \<in> set bl then v bn else f bn)"
  using upds_same [of bn "homed bl v" "v bn" f] upds_other [of bn "homed bl v" f] homed_keys [of bl v]
  by (auto simp: homed_def)

lemma cache_log_upd [simp]:
  "cache_inv dev p (s\<lparr>log := l\<rparr>) = cache_inv dev p s" "cache_store dev (s\<lparr>log := l\<rparr>) = cache_store dev s"
  "cache_at dev (s\<lparr>log := l\<rparr>) = cache_at dev s"
  by (simp_all add: cache_inv_def wake_ready_def cache_store_def cache_at_def fun_eq_iff)

lemma txn_length: "txn dev start sz bl l \<Longrightarrow> length bl \<le> LOGSIZE"
  unfolding txn_def by (metis length_take min.cobounded1)

lemma commit_run:
  fixes s :: "'z logst_scheme"
  assumes "cache_inv dev p s" "txn dev start sz bl (log s)" "quiet (set bl) (cache_store dev s)"
    "\<And>bn. bn \<in> set bl \<Longrightarrow> st_refs (cache_store dev s) bn \<noteq> 0" "length bl < NBUF" "bl \<noteq> []"
  shows "\<exists>t. commit s = Ok () t \<and> cache_inv dev p t \<and> log t = (log s)\<lparr>lh_n := 0\<rparr>
    \<and> cache_store dev t = (write_all (commit_writes start bl (lh_block (log s)) (st_view (cache_store dev s))) (cache_store dev s))
        \<lparr>st_refs := unpinned False bl (st_refs (cache_store dev s))\<rparr>"
proof -
  let ?v = "st_view (cache_store dev s)" and ?blk = "lh_block (log s)" and ?n = "length bl"
  let ?h = "put_header (int ?n) ?blk (?v start)"
  have l: "log_dev (log s) = dev" "log_start (log s) = start" "lh_n (log s) = int ?n" "?n \<le> LOGSIZE" "?n < sz"
    using assms(2) txn_length [OF assms(2)] by (simp_all add: txn_def)
  have c: "card (set bl) < NBUF" using assms(5) card_length [of bl] by linarith
  obtain t1 where 1: "kfor write_log_block [0..<?n] s = Ok () t1" "cache_inv dev p t1" "cache_frame s t1"
    "cache_store dev t1 = write_all (logged start bl ?v) (cache_store dev s)"
    using write_log_run [OF assms(1-5) order_refl] by (auto simp: logged_def)
  have g1: "log t1 = log s" using 1(3) by (auto simp: cache_frame_def)
  have v1: "st_view (cache_store dev t1) start = ?v start"
    using logged_keys [OF l(4,5), of start ?v] unfolding 1 by (auto simp: write_all_def intro!: upds_other)
  have q1: "quiet (set bl) (cache_store dev t1)" using assms(3) by (simp add: 1(4))
  obtain t2 where 2: "write_head t1 = Ok () t2" "cache_inv dev p t2" "cache_frame t1 t2"
    "cache_store dev t2 = write_all [(start, ?h)] (cache_store dev t1)"
    using write_head_run [OF 1(2), of start "set bl"] q1 c by (auto simp: g1 v1 l)
  have g2: "log t2 = log s" using 2(3) g1 by (auto simp: cache_frame_def)
  have v2: "st_view (cache_store dev t2) (slot start i) = ?v (bl ! i)" if "i < ?n" for i
    using upds_logged [OF l(4) that] slot_header [of i start] that l(4) by (simp add: 2(4) 1(4) write_all_def)
  have q2: "quiet (set bl) (cache_store dev t2)" "st_refs (cache_store dev t2) = st_refs (cache_store dev s)"
    using assms(3) by (simp_all add: 2(4) 1(4)) (simp add: write_all_def)
  have w2: "map (\<lambda>i. (bl ! i, st_view (cache_store dev t2) (slot start i))) [0..<?n] = homed bl ?v"
    by (simp add: homed_def v2)
  obtain t3 where 3: "kfor (install_block False) [0..<?n] t2 = Ok () t3" "cache_inv dev p t3" "cache_frame t2 t3"
    "cache_store dev t3 = (write_all (homed bl ?v) (cache_store dev t2))\<lparr>st_refs := unpinned False bl (st_refs (cache_store dev s))\<rparr>"
    using install_trans_run [OF 2(2), of start sz bl False ?n] assms(2,4,5) q2
    by (auto simp: g2 w2)
  have g3: "log t3 = log s" using 3(3) g2 by (auto simp: cache_frame_def)
  let ?t = "t3\<lparr>log := (log s)\<lparr>lh_n := 0\<rparr>\<rparr>"
  have "start \<notin> set bl" using assms(2) header_log [of sz start] by (auto simp: txn_def)
  then have v3: "st_view (cache_store dev t3) start = ?h" by (simp add: 3(4) 2(4) write_all_def upds_homed)
  have q3: "quiet (set bl) (cache_store dev t3)"
    by (rule quiet_mono [OF assms(3)]) (simp_all add: 3(4) 2(4) 1(4) write_all_def unpinned_def)
  obtain t4 where 4: "write_head ?t = Ok () t4" "cache_inv dev p t4" "cache_frame ?t t4"
    "cache_store dev t4 = write_all [(start, put_header 0 ?blk ?h)] (cache_store dev t3)"
    using write_head_run [of dev p ?t start "set bl"] 3(2) q3 c by (auto simp: v3 l)
  have "commit s = Ok () t4"
    using 1(1) 2(1) 3(1) 4(1) l assms(6) g2 g3
    by (simp add: commit_def write_log_def install_trans_def kbind_Ok kseq_Ok)
  moreover have "log t4 = (log s)\<lparr>lh_n := 0\<rparr>" using 4(3) by (auto simp: cache_frame_def)
  moreover have "cache_store dev t4 = (write_all (commit_writes start bl ?blk ?v) (cache_store dev s))
        \<lparr>st_refs := unpinned False bl (st_refs (cache_store dev s))\<rparr>"
    by (rule bstore.equality) (simp_all add: 4(4) 3(4) 2(4) 1(4) write_all_def commit_writes_def Let_def)
  ultimately show ?thesis using 4(2) by blast
qed

section \<open>Recovery\<close>

text \<open>A machine that has just booted, with \<open>d\<close> on its disk: nothing of it is referenced in the cache.\<close>

definition booted :: "u32 \<Rightarrow> nat \<Rightarrow> (u32 \<Rightarrow> u8 list) \<Rightarrow> 'z logst_scheme \<Rightarrow> bool" where
  "booted dev p d s \<longleftrightarrow> cache_inv dev p s \<and> quiet {} (cache_store dev s) \<and> disk s = d \<and> length (lh_block (log s)) = LOGSIZE"

lemma quiet_empty_view:
  assumes "cache_inv dev p s" "quiet {} (cache_store dev s)"
  shows "st_view (cache_store dev s) = disk s"
proof
  fix bn
  have "st_refs (cache_store dev s) bn = 0" using assms(2) by (auto simp: quiet_def)
  then show "st_view (cache_store dev s) bn = disk s bn"
    using cache_clean [OF assms(1)] by (simp add: cache_store_def)
qed

lemma read_head_run:
  fixes s :: "'z logst_scheme"
  assumes "cache_inv dev p s" "quiet {} (cache_store dev s)" "log_dev (log s) = dev" "log_start (log s) = start"
    "hdr_n (disk s start) \<le> int LOGSIZE"
  shows "\<exists>t. read_head s = Ok () t \<and> cache_inv dev p t \<and> cache_store dev t = cache_store dev s
    \<and> log t = (log s)\<lparr>lh_n := hdr_n (disk s start), lh_block := map (hdr_block (disk s start)) [0..<nat (hdr_n (disk s start))]
        @ drop (nat (hdr_n (disk s start))) (lh_block (log s))\<rparr>"
proof -
  let ?d = "disk s start"
  let ?l = "(log s)\<lparr>lh_n := hdr_n ?d, lh_block := map (hdr_block ?d) [0..<nat (hdr_n ?d)] @ drop (nat (hdr_n ?d)) (lh_block (log s))\<rparr>"
  have v: "st_view (cache_store dev s) = disk s" using quiet_empty_view [OF assms(1,2)] .
  have q: "st_room start (cache_store dev s)" using quiet_room [OF assms(2)] by (simp add: NBUF_def MAXOPBLOCKS_def)
  obtain b t1 where 1: "bread dev start s = Ok b t1" "cache_inv dev p t1" "cache_frame s t1"
    "cache_store dev t1 = st_take start (cache_store dev s)" "cache_at dev t1 b start"
    using cached.rd [OF assms(1), of start] q assms(2) by (auto simp: quiet_def)
  have g: "b_data (bufs t1 ! b) = ?d" using cached.get [OF 1(2,5)] by (simp add: 1(4) st_take_def v)
  have l1: "log t1 = log s" using 1(3) by (auto simp: cache_frame_def)
  let ?t1 = "t1\<lparr>log := ?l\<rparr>"
  have "st_disk (cache_store dev s) = disk s" by (simp add: cache_store_def)
  then obtain t2 where 2: "brelse b ?t1 = Ok () t2" "cache_inv dev p t2" "cache_frame ?t1 t2"
    "cache_store dev t2 = st_drop start (cache_store dev t1)"
    using cached.rel [of dev p ?t1 b start] 1(2,5) by (auto simp: 1(4) v st_take_def)
  have "read_head s = Ok () t2"
    using assms(3-5) 1(1) 2(1) g l1 by (simp add: read_head_def kbind_Ok kseq_Ok Let_def)
  moreover have "log t2 = ?l" using 2(3) by (auto simp: cache_frame_def)
  moreover have "cache_store dev t2 = cache_store dev s"
    using assms(2) by (simp add: 2(4) 1(4) st_defs fun_upd_idem quiet_def)
  ultimately show ?thesis using 2(2) by blast
qed

text \<open>What recovery makes of the disk.\<close>

definition recovered :: "u32 \<Rightarrow> (u32 \<Rightarrow> u8 list) \<Rightarrow> (u32 \<times> u8 list) list" where
  "recovered start d = map (\<lambda>i. (hdr_block (d start) i, d (slot start i))) [0..<nat (hdr_n (d start))]"

lemma initlog_run:
  fixes r :: "'z logst_scheme"
  assumes "booted dev p d r" "0 \<le> hdr_n (d start)" "hdr_n (d start) \<le> int LOGSIZE"
    "distinct (map (hdr_block (d start)) [0..<nat (hdr_n (d start))])"
    "hdr_block (d start) ` {0..<nat (hdr_n (d start))} \<inter> log_blocks start sz = {}"
    "sint nlog = int sz" "nat (hdr_n (d start)) < sz"
  shows "\<exists>u h. initlog dev start nlog r = Ok () u \<and> disk u = (upds d (recovered start d))(start := h) \<and> hdr_n h = 0
    \<and> cache_inv dev p u \<and> quiet {} (cache_store dev u) \<and> lh_n (log u) = 0"
proof -
  let ?n = "nat (hdr_n (d start))"
  let ?bl = "map (hdr_block (d start)) [0..<?n]"
  let ?r = "r\<lparr>log := (log r)\<lparr>log_start := start, log_size := nlog, log_dev := dev\<rparr>\<rparr>"
  let ?l = "(log ?r)\<lparr>lh_n := int ?n, lh_block := ?bl @ drop ?n (lh_block (log r))\<rparr>"
  have r: "cache_inv dev p r" "quiet {} (cache_store dev r)" "disk r = d" "length (lh_block (log r)) = LOGSIZE"
    using assms(1) by (simp_all add: booted_def)
  have v: "st_view (cache_store dev r) = d" using quiet_empty_view [OF r(1,2)] r(3) by simp
  have n: "?n \<le> LOGSIZE" "int ?n = hdr_n (d start)" using assms(2,3) by linarith+
  obtain t1 where 1: "read_head ?r = Ok () t1" "cache_inv dev p t1" "cache_store dev t1 = cache_store dev r" "log t1 = ?l"
    using read_head_run [of dev p ?r start] r n assms(3) by auto
  have x: "txn dev start sz ?bl (log t1)"
    using assms(4-7) r(4) n(1) by (simp add: 1(4) txn_def)
  have w: "map (\<lambda>i. (?bl ! i, st_view (cache_store dev r) (slot start i))) [0..<?n] = recovered start d"
    by (simp add: recovered_def v)
  obtain t2 where 2: "kfor (install_block True) [0..<?n] t1 = Ok () t2" "cache_inv dev p t2" "cache_frame t1 t2"
    "cache_store dev t2 = (write_all (recovered start d) (cache_store dev r))\<lparr>st_refs := unpinned True (take ?n ?bl) (st_refs (cache_store dev r))\<rparr>"
    using install_trans_run [OF 1(2) x, of True ?n] r(2) by (auto simp: w 1(3))
  have g2: "log t2 = ?l" using 2(3) 1(4) by (auto simp: cache_frame_def)
  let ?t2 = "t2\<lparr>log := ?l\<lparr>lh_n := 0\<rparr>\<rparr>"
  have q2: "quiet {} (cache_store dev t2)" using r(2) by (simp add: 2(4) quiet_def unpinned_def write_all_def)
  let ?h = "put_header 0 (lh_block ?l) (st_view (cache_store dev t2) start)"
  obtain u where u: "write_head ?t2 = Ok () u" "cache_inv dev p u" "cache_frame ?t2 u"
    "cache_store dev u = write_all [(start, ?h)] (cache_store dev t2)"
    using write_head_run [of dev p ?t2 start "{}"] 2(2) q2 by (auto simp: NBUF_def MAXOPBLOCKS_def)
  have "initlog dev start nlog r = Ok () u"
    using 1(1) 2(1) u(1) g2 1(4) n(2)
    by (simp add: initlog_def recover_from_log_def install_trans_def kbind_Ok kseq_Ok LOGSIZE_def MAXOPBLOCKS_def BSIZE_def)
  moreover have "disk u = (upds d (recovered start d))(start := ?h)"
  proof -
    have "disk u = st_disk (cache_store dev u)" by (simp add: cache_store_def)
    also have "\<dots> = (upds (st_disk (cache_store dev r)) (recovered start d))(start := ?h)"
      by (simp add: u(4) 2(4) write_all_def)
    finally show ?thesis using r(3) by (simp add: cache_store_def)
  qed
  moreover have "hdr_n ?h = 0" using put_header_reads(2) [of 0] cache_size [OF 2(2)] by simp
  moreover have "quiet {} (cache_store dev u)" using q2 by (simp add: u(4))
  moreover have "lh_n (log u) = 0" using u(3) by (auto simp: cache_frame_def)
  ultimately show ?thesis using u(2) by blast
qed

section \<open>Atomicity\<close>

text \<open>The disk after a crash, and what recovery finds: either no transaction, or all of it.\<close>

lemma commit_writes_prefix:
  fixes f :: "u32 \<Rightarrow> u8 list"
  assumes "k \<le> length (commit_writes start bl blk v)" "length bl \<le> LOGSIZE" "length (v start) = BSIZE"
    "bl = take (length bl) blk" "length bl < sz" "set bl \<inter> log_blocks start sz = {}" "hdr_n (f start) = 0"
    "\<And>bn. bn \<notin> set bl \<Longrightarrow> v bn = f bn"
  defines "d \<equiv> upds f (take k (commit_writes start bl blk v))"
  shows "hdr_n (d start) = 0 \<and> (\<forall>bn. bn \<notin> log_blocks start sz \<longrightarrow> d bn = (if k \<le> length bl then f bn else v bn))
    \<or> length bl < k \<and> hdr_n (d start) = int (length bl) \<and> map (hdr_block (d start)) [0..<length bl] = bl
        \<and> recovered start d = homed bl v \<and> (\<forall>bn. bn \<notin> log_blocks start sz \<longrightarrow> bn \<notin> set bl \<longrightarrow> d bn = f bn)"
proof -
  let ?n = "length bl" and ?h = "put_header (int (length bl)) blk (v start)"
  let ?z = "put_header 0 blk ?h"
  note h = put_header_reads [where n = "int ?n" and d = "v start" and bl = blk, OF _ _ assms(3)]
  have hn: "length ?h = BSIZE" "hdr_n ?h = int ?n" "\<And>i. i < ?n \<Longrightarrow> hdr_block ?h i = blk ! i" "hdr_n ?z = 0"
    using h assms(2) put_header_reads(2) [of 0 ?h blk] by auto
  have len: "length (logged start bl v) = ?n" "length (homed bl v) = ?n" by (simp_all add: logged_def homed_def)
  have lk: "fst ` set (take j (logged start bl v)) \<subseteq> log_blocks start sz - {start}" for j
    using logged_keys [OF assms(2,5), of start v] set_take_subset [of j "logged start bl v"] by blast
  have hk: "fst ` set (take j (homed bl v)) \<subseteq> set bl" for j
    using homed_keys [of bl v] set_take_subset [of j "homed bl v"] by blast
  have s: "start \<notin> set bl" "start \<in> log_blocks start sz" using assms(5,6) header_log [of sz start] by auto
  have blk: "blk ! i = bl ! i" if "i < ?n" for i using that assms(4) by (metis nth_take)
  have kl: "k \<le> Suc (Suc (?n + ?n))" using assms(1) by (simp add: commit_writes_def Let_def len)
  consider "k \<le> ?n" | "?n < k" "k \<le> Suc (?n + ?n)" | "k = Suc (Suc (?n + ?n))" using kl by linarith
  then show ?thesis
  proof cases
    case 1
    then have "d = upds f (take k (logged start bl v))" by (simp add: d_def commit_writes_def Let_def len)
    then have "d bn = f bn" if "bn = start \<or> bn \<notin> log_blocks start sz" for bn
      using lk [of k] that by (auto intro!: upds_other)
    then show ?thesis using 1 assms(7) by simp
  next
    case 2
    define j where "j = k - Suc ?n"
    then have j: "k = Suc (?n + j)" "j \<le> ?n" using 2 by linarith+
    then have d: "d = upds ((upds f (logged start bl v))(start := ?h)) (take j (homed bl v))"
      by (simp add: d_def commit_writes_def Let_def len)
    have out: "d bn = ((upds f (logged start bl v))(start := ?h)) bn" if "bn \<notin> set bl" for bn
      unfolding d using hk [of j] that by (intro upds_other) blast
    have ds: "d start = ?h" using out s by simp
    have sl: "d (slot start i) = v (bl ! i)" if "i < ?n" for i
    proof -
      have "slot start i \<notin> set bl" using slot_log [of i sz start] that assms(5,6) by auto
      then show ?thesis
        using out slot_header [of i start] upds_logged [OF assms(2) that] that assms(2) by simp
    qed
    have "recovered start d = homed bl v"
      by (simp add: recovered_def homed_def ds hn blk sl)
    moreover have "map (hdr_block (d start)) [0..<?n] = bl"
      by (rule nth_equalityI) (simp_all add: ds hn blk)
    moreover have "d bn = f bn" if "bn \<notin> log_blocks start sz" "bn \<notin> set bl" for bn
      using out [OF that(2)] that(1) s(2) lk [of ?n] len by (auto intro!: upds_other)
    ultimately show ?thesis using 2 by (simp add: ds hn)
  next
    case 3
    then have d: "d = (upds ((upds f (logged start bl v))(start := ?h)) (homed bl v))(start := ?z)"
      by (simp add: d_def commit_writes_def Let_def len)
    have "d bn = v bn" if "bn \<notin> log_blocks start sz" for bn
    proof -
      have "upds f (logged start bl v) bn = f bn" using that lk [of ?n] len by (auto intro!: upds_other)
      then show ?thesis using that s assms(8) [of bn] by (auto simp: d upds_homed)
    qed
    then show ?thesis using 3 hn by (simp add: d)
  qed
qed

text \<open>C25. A transaction is atomic. For any transaction of different blocks that fits in the log and lies outside of it,
  where the log is the \<open>log.size\<close> blocks from the header on, \<open>commit\<close> returns, and leaves on the disk the contents the
  cache had for every block outside of the log. If the machine stops after any number \<open>k\<close> of the writes
  \<open>commit\<close> makes, \<open>initlog\<close> at the next boot returns with the log empty and with every block outside of the log as it was
  before the transaction, if the header was not yet written, or as the transaction left it.\<close>

theorem crash_atomic:
  fixes s :: "'z logst_scheme"
  assumes "cache_inv dev p s" "txn dev start sz bl (log s)" "bl \<noteq> []" "length bl < NBUF"
    "quiet (set bl) (cache_store dev s)" "\<forall>bn \<in> set bl. st_refs (cache_store dev s) bn \<noteq> 0"
    "hdr_n (disk s start) = 0"
  shows "\<exists>t ws. commit s = Ok () t \<and> disk_log t = rev ws @ disk_log s \<and> disk t = upds (disk s) ws
    \<and> (\<forall>bn. bn \<notin> log_blocks start sz \<longrightarrow> disk t bn = st_view (cache_store dev s) bn)
    \<and> (\<forall>k \<le> length ws. \<forall>q. \<forall>r :: 'z logst_scheme. booted dev q (upds (disk s) (take k ws)) r \<longrightarrow>
        (\<exists>u. initlog dev start (log_size (log s)) r = Ok () u \<and> hdr_n (disk u start) = 0
          \<and> (\<forall>bn. bn \<notin> log_blocks start sz \<longrightarrow>
               disk u bn = (if k \<le> length bl then disk s bn else st_view (cache_store dev s) bn))))"
proof -
  let ?v = "st_view (cache_store dev s)"
  let ?ws = "commit_writes start bl (lh_block (log s)) ?v"
  have n: "length bl \<le> LOGSIZE" "bl = take (length bl) (lh_block (log s))" "length bl < sz" "set bl \<inter> log_blocks start sz = {}" "distinct bl"
      "sint (log_size (log s)) = int sz"
    using txn_length [OF assms(2)] assms(2) by (simp_all add: txn_def)
  have v: "?v bn = disk s bn" if "bn \<notin> set bl" for bn
  proof -
    have "st_refs (cache_store dev s) bn = 0" using assms(5) that by (auto simp: quiet_def)
    then show ?thesis using cache_clean [OF assms(1)] by (simp add: cache_store_def)
  qed
  obtain t where t: "commit s = Ok () t" "cache_store dev t = (write_all ?ws (cache_store dev s))
      \<lparr>st_refs := unpinned False bl (st_refs (cache_store dev s))\<rparr>"
    using commit_run [OF assms(1,2,5) _ assms(4,3)] assms(6) by blast
  have d: "disk t = upds (disk s) ?ws" "disk_log t = rev ?ws @ disk_log s"
    using arg_cong [OF t(2), of st_disk] arg_cong [OF t(2), of st_writes]
    by (simp_all add: write_all_def cache_store_def)
  note w = commit_writes_prefix [where blk = "lh_block (log s)" and v = ?v and f = "disk s",
      OF _ n(1) cache_size [OF assms(1)] n(2,3,4) assms(7) v]
  have "disk t bn = ?v bn" if "bn \<notin> log_blocks start sz" for bn
  proof -
    have "bn \<noteq> start" using that header_log [of sz start] n(3) by auto
    moreover have "upds (disk s) (logged start bl ?v) bn = disk s bn"
      using logged_keys [OF n(1,3), of start ?v] that by (intro upds_other) blast
    ultimately show ?thesis using v by (simp add: d(1) commit_writes_def Let_def upds_homed)
  qed
  moreover have "\<exists>u. initlog dev start (log_size (log s)) r = Ok () u \<and> hdr_n (disk u start) = 0
      \<and> (\<forall>bn. bn \<notin> log_blocks start sz \<longrightarrow> disk u bn = (if k \<le> length bl then disk s bn else ?v bn))"
    if k: "k \<le> length ?ws" and b: "booted dev q (upds (disk s) (take k ?ws)) r" for k q and r :: "'z logst_scheme"
  proof -
    let ?d = "upds (disk s) (take k ?ws)"
    from w [OF k] show ?thesis
    proof
      assume a: "hdr_n (?d start) = 0 \<and> (\<forall>bn. bn \<notin> log_blocks start sz \<longrightarrow> ?d bn = (if k \<le> length bl then disk s bn else ?v bn))"
      then obtain u h where "initlog dev start (log_size (log s)) r = Ok () u" "disk u = (upds ?d (recovered start ?d))(start := h)" "hdr_n h = 0"
        using initlog_run [OF b, of start sz "log_size (log s)"] n by auto
      then show ?thesis using a header_log [of sz start] n(3) by (auto simp: recovered_def)
    next
      assume a: "length bl < k \<and> hdr_n (?d start) = int (length bl) \<and> map (hdr_block (?d start)) [0..<length bl] = bl
        \<and> recovered start ?d = homed bl ?v \<and> (\<forall>bn. bn \<notin> log_blocks start sz \<longrightarrow> bn \<notin> set bl \<longrightarrow> ?d bn = disk s bn)"
      then have e: "hdr_block (?d start) ` {0..<length bl} = set bl" by (metis set_map set_upt)
      obtain u h where "initlog dev start (log_size (log s)) r = Ok () u" "disk u = (upds ?d (homed bl ?v))(start := h)" "hdr_n h = 0"
        using initlog_run [OF b, of start sz "log_size (log s)"] a e n by auto
      then show ?thesis using a v header_log [of sz start] n(3) by (auto simp: upds_homed)
    qed
  qed
  ultimately show ?thesis using t(1) d by blast
qed

text \<open>A transaction of one block, the one right after a log of 30 blocks, and the machine booted on a given disk.\<close>

definition txn0 :: logst where
  "txn0 = cache0 (\<lambda>_. replicate BSIZE 0) (bufs1 32 (replicate BSIZE 7))
     \<lparr>log := (log logst0)\<lparr>lh_n := 1, lh_block := 32 # replicate 29 0\<rparr>\<rparr>"

lemma txn0_ready:
  "cache_inv 1 0 txn0" "txn 1 2 30 [32] (log txn0)" "quiet {32} (cache_store 1 txn0)" "st_refs (cache_store 1 txn0) 32 = 1"
  "st_view (cache_store 1 txn0) 32 = replicate BSIZE 7"
  "hdr_n (disk txn0 2) = 0" "disk txn0 = (\<lambda>_. replicate BSIZE 0)" "log_size (log txn0) = 30"
proof -
  let ?d = "\<lambda>_ :: u32. replicate BSIZE (0 :: u8)"
  note c = cache1_inv [of ?d "replicate BSIZE 7" 32] cache0_inv [of ?d]
  show "cache_inv 1 0 txn0" "st_refs (cache_store 1 txn0) 32 = 1"
    "st_view (cache_store 1 txn0) 32 = replicate BSIZE 7" "quiet {32} (cache_store 1 txn0)"
    using c by (simp_all add: txn0_def quiet_def)
  show "disk txn0 = (\<lambda>_. replicate BSIZE 0)" "log_size (log txn0) = 30" by (simp_all add: txn0_def logst0_defs)
  show "hdr_n (disk txn0 2) = 0"
    by (simp add: txn0_def hdr_n_def get_word_def BSIZE_def numeral_eq_Suc)
  have "of_nat x \<noteq> (30 :: u32)" if "x < 30" for x
  proof
    assume "of_nat x = (30 :: u32)"
    then have "unat (of_nat x :: u32) = 30" by simp
    then show False using that by (simp add: unat_of_nat take_bit_nat_eq_self)
  qed
  then have "(32 :: u32) \<notin> log_blocks 2 30" by (auto simp: log_blocks_def LOGSIZE_def MAXOPBLOCKS_def)
  then show "txn 1 2 30 [32] (log txn0)" by (simp add: txn0_def txn_def logst0_defs LOGSIZE_def MAXOPBLOCKS_def)
qed

theorem crash_atomic_witness:
  "\<exists>t. commit txn0 = Ok () t \<and> disk t 32 = replicate BSIZE 7
     \<and> (\<exists>u. initlog 1 2 30 (cache0 (\<lambda>_. replicate BSIZE 0) bufs0) = Ok () u \<and> disk u 32 = replicate BSIZE 0)"
proof -
  let ?d = "\<lambda>_ :: u32. replicate BSIZE (0 :: u8)"
  have b: "booted 1 0 (disk txn0) (cache0 ?d bufs0)"
    using cache0_inv [of ?d] by (simp add: booted_def quiet_def txn0_ready(7) logst0_defs LOGSIZE_def)
  have n: "(32 :: u32) \<notin> log_blocks 2 30" using txn0_ready(2) by (simp add: txn_def)
  have "length [32 :: u32] < NBUF" by (simp add: NBUF_def MAXOPBLOCKS_def)
  from crash_atomic [OF txn0_ready(1,2) _ this] obtain t ws where
    t: "commit txn0 = Ok () t" "\<forall>bn. bn \<notin> log_blocks 2 30 \<longrightarrow> disk t bn = st_view (cache_store 1 txn0) bn"
      "\<forall>k \<le> length ws. \<forall>q. \<forall>r :: logst. booted 1 q (upds (disk txn0) (take k ws)) r \<longrightarrow>
        (\<exists>u. initlog 1 2 30 r = Ok () u \<and> hdr_n (disk u 2) = 0 \<and> (\<forall>bn. bn \<notin> log_blocks 2 30 \<longrightarrow>
           disk u bn = (if k \<le> length [32 :: u32] then disk txn0 bn else st_view (cache_store 1 txn0) bn)))"
    using txn0_ready(3,4,6,8) by auto
  from t(3) [rule_format, of 0 0 "cache0 ?d bufs0"] b obtain u where
    "initlog 1 2 30 (cache0 ?d bufs0) = Ok () u" "disk u 32 = disk txn0 32" using n by auto
  then show ?thesis using t(1,2) n txn0_ready(5,7) by auto
qed

end
