(* ===== verification/Txn.thy ===== *)
theory Txn
  imports Crash
begin

text \<open>
  Properties of the transactions of \<open>kernel/log.c\<close> in memory: what \<open>log_write\<close> records, and that the space
  \<open>begin_op\<close> reserves is enough for it.
\<close>

section \<open>What the cache leaves alone\<close>

text \<open>A component of the state that does not depend on the locks, the processes, the buffers and the disk
  is kept by every function of the cache.\<close>

locale cache_apart =
  fixes f :: "'z bcache_scheme \<Rightarrow> 'b"
  assumes f_held: "f (s\<lparr>held := h\<rparr>) = f s"
    and f_procs: "f (s\<lparr>procs := ps\<rparr>) = f s"
    and f_sleeplocks: "f (s\<lparr>sleeplocks := sl\<rparr>) = f s"
    and f_bufs: "f (s\<lparr>bufs := bs\<rparr>) = f s"
    and f_disk: "f (s\<lparr>disk := d\<rparr>) = f s"
    and f_disk_log: "f (s\<lparr>disk_log := ws\<rparr>) = f s"
begin

lemma apart_lock: "keeps f (acquire l)" "keeps f (release l)"
  by (simp_all add: keeps_def acquire_def release_def f_held)

lemma apart_this_proc: "keeps f this_proc"
  unfolding this_proc_def myproc_def by (intro keeps)

lemma apart_wakeup: "keeps f (wakeup c)"
  unfolding wakeup_def myproc_def by (intro keeps apart_lock) (simp add: f_procs)

lemma apart_sleep: "keeps f (sleep c l)"
  unfolding sleep_def sched_def by (intro keeps apart_lock apart_this_proc) (simp_all add: f_procs)

lemma apart_sleeplock: "keeps f (acquiresleep lk)" "keeps f (releasesleep lk)" "keeps f (holdingsleep lk)"
  unfolding acquiresleep_def acquiresleep_loop_def releasesleep_def holdingsleep_def
  by (intro keeps apart_lock apart_this_proc apart_wakeup apart_sleep; simp add: f_sleeplocks)+

lemma apart_bscan: "keeps f (bscan dir P)"
  unfolding keeps_def bscan_def by (auto split: option.splits)

lemma apart_list: "keeps f (list_unlink b)" "keeps f (list_push b)"
  unfolding list_unlink_def list_push_def by (intro keeps; simp add: f_bufs)+

lemma apart_disk_rw: "keeps f (disk_rw b w)"
  unfolding disk_rw_def Let_def by (intro keeps) (simp add: f_bufs f_disk f_disk_log)

lemma apart_bread: "keeps f (bread dev bn)"
  unfolding bread_def bget_def
  by (intro keeps apart_lock apart_sleeplock apart_bscan apart_disk_rw) (simp_all add: f_bufs)

lemma apart_bwrite: "keeps f (bwrite b)"
  unfolding bwrite_def by (intro keeps apart_sleeplock apart_disk_rw)

lemma apart_brelse: "keeps f (brelse b)"
  unfolding brelse_def by (intro keeps apart_lock apart_sleeplock apart_list) (simp_all add: f_bufs)

lemma apart_bset: "keeps f (bset b g)"
  by (intro keeps) (simp add: f_bufs)

lemma apart_pin: "keeps f (bpin b)" "keeps f (bunpin b)"
  unfolding bpin_def bunpin_def by (intro keeps apart_lock; simp add: f_bufs)+

lemmas apart = apart_lock apart_wakeup apart_bread apart_bwrite apart_brelse apart_bset apart_pin

end

interpretation log_apart: cache_apart "log :: 'z logst_scheme \<Rightarrow> log"
  by unfold_locales simp_all

section \<open>What the operations do to the log in memory\<close>

lemma keeps_log_copy: "keeps log (write_log_block i)" "keeps log (install_block r i)" "keeps log write_head"
  unfolding write_log_block_def install_block_def write_head_def by (intro keeps log_apart.apart)+

text \<open>A commit that returns has emptied the transaction and left the rest of the log alone.\<close>

lemma commit_log:
  fixes s :: "'z logst_scheme"
  assumes "commit s = Ok u t" "0 \<le> lh_n (log s)"
  shows "log t = (log s)\<lparr>lh_n := 0\<rparr>"
proof (cases "lh_n (log s) > 0")
  case False
  then have n: "lh_n (log s) = 0" using assms(2) by simp
  have "(log s)\<lparr>lh_n := lh_n (log s)\<rparr> = log s" by simp
  then have "(log s)\<lparr>lh_n := 0\<rparr> = log s" by (simp only: n)
  moreover have "t = s" using assms(1) n by (simp add: commit_def kbind_Ok)
  ultimately show ?thesis by simp
next
  case True
  then obtain t1 t2 t3 where t: "write_log s = Ok () t1" "write_head t1 = Ok () t2" "install_trans False t2 = Ok () t3"
    "write_head (t3\<lparr>log := (log t3)\<lparr>lh_n := 0\<rparr>\<rparr>) = Ok () t"
    using assms(1) by (auto simp: commit_def kbind_Ok kseq_eq_Ok)
  have k: "keeps log (write_log :: ('z logst_scheme, unit) km)" "keeps log (install_trans False :: ('z logst_scheme, unit) km)"
    unfolding write_log_def install_trans_def by (intro keeps keeps_log_copy)+
  have "log t1 = log s" "log t3 = log t2" using keepsD [OF k(1) t(1)] keepsD [OF k(2) t(3)] by simp_all
  moreover have "log t2 = log t1" "log t = (log t3)\<lparr>lh_n := 0\<rparr>"
    using keepsD [OF keeps_log_copy(3) t(2)] keepsD [OF keeps_log_copy(3) t(4)] by simp_all
  ultimately show ?thesis by simp
qed

lemma sleep_no_return: "sleep c l s \<noteq> Ok a t"
  unfolding sleep_def sched_def kbind_eq_Ok kseq_eq_Ok
  by (auto simp: kbind_eq_Ok kseq_eq_Ok kblock_def kswitch_def split: option.splits if_splits)

lemma begin_op_log:
  fixes s :: "'z logst_scheme"
  assumes "begin_op s = Ok u t"
  shows "\<not> log_committing (log s)" "lh_n (log s) + (log_outstanding (log s) + 1) * int MAXOPBLOCKS \<le> int LOGSIZE"
    "log t = (log s)\<lparr>log_outstanding := log_outstanding (log s) + 1\<rparr>"
  using assms by (auto simp: sleep_no_return begin_op_def begin_op_loop_def kseq_eq_Ok acquire_Ok release_Ok split: if_splits)

lemma end_op_log:
  fixes s :: "'z logst_scheme"
  assumes "end_op s = Ok u t" "0 \<le> lh_n (log s)"
  shows "\<not> log_committing (log s)" "log t = (log s)\<lparr>log_outstanding := log_outstanding (log s) - 1,
     lh_n := if log_outstanding (log s) = 1 then 0 else lh_n (log s)\<rparr>"
proof -
  let ?l = "(log s)\<lparr>log_outstanding := log_outstanding (log s) - 1\<rparr>"
  let ?s = "s\<lparr>held := L_log # held s, log := ?l\<rparr>"
  have "\<not> log_committing (log s) \<and> log t = (log s)\<lparr>log_outstanding := log_outstanding (log s) - 1,
     lh_n := if log_outstanding (log s) = 1 then 0 else lh_n (log s)\<rparr>"
  proof (cases "log_outstanding (log s) = 1")
    case True
    then obtain t1 t2 where c: "\<not> log_committing (log s)"
      "commit (s\<lparr>held := held s, log := ?l\<lparr>log_committing := True\<rparr>\<rparr>) = Ok () t1"
      "wakeup (Some Ch_log) (t1\<lparr>held := L_log # held t1, log := (log t1)\<lparr>log_committing := False\<rparr>\<rparr>) = Ok () t2"
      "t = t2\<lparr>held := remove1 L_log (held t2)\<rparr>"
      using assms(1) by (auto simp: end_op_def kseq_eq_Ok kbind_eq_Ok acquire_Ok release_Ok split: if_splits)
    have "log t1 = ?l\<lparr>log_committing := True, lh_n := 0\<rparr>" using commit_log [OF c(2)] assms(2) by simp
    moreover have "log t2 = (log t1)\<lparr>log_committing := False\<rparr>" using keepsD [OF log_apart.apart_wakeup c(3)] by simp
    ultimately have "log t = ?l\<lparr>lh_n := 0, log_committing := False\<rparr>" using c(4) by simp
    also have "\<dots> = ?l\<lparr>lh_n := 0\<rparr>" by (rule log.equality) (use c(1) in simp_all)
    finally show ?thesis using True c(1) by simp
  next
    case False
    then obtain t2 where c: "\<not> log_committing (log s)" "wakeup (Some Ch_log) ?s = Ok () t2" "t = t2\<lparr>held := remove1 L_log (held t2)\<rparr>"
      using assms(1) by (auto simp: end_op_def kseq_eq_Ok kbind_eq_Ok acquire_Ok release_Ok split: if_splits)
    then show ?thesis using False keepsD [OF log_apart.apart_wakeup c(2)] by simp
  qed
  then show "\<not> log_committing (log s)" "log t = (log s)\<lparr>log_outstanding := log_outstanding (log s) - 1,
     lh_n := if log_outstanding (log s) = 1 then 0 else lh_n (log s)\<rparr>" by blast+
qed

definition log_slot :: "u32 \<Rightarrow> log \<Rightarrow> nat" where
  "log_slot bn l = (case first_index (\<lambda>x. x = bn) (take (nat (lh_n l)) (lh_block l)) of Some i \<Rightarrow> i | None \<Rightarrow> nat (lh_n l))"

lemma log_write_steps:
  fixes s :: "'z logst_scheme"
  assumes "L_log \<notin> set (held s)" "lh_n (log s) < int LOGSIZE" "lh_n (log s) < sint (log_size (log s)) - 1"
    "1 \<le> log_outstanding (log s)"
    "bn = b_blockno (bufs s ! b)"
  shows "log_write b s = kseq (kwhen (int (log_slot bn (log s)) = lh_n (log s)) (kdo [bpin b, lset (\<lambda>l. l\<lparr>lh_n := lh_n l + 1\<rparr>)]))
      (release L_log) (s\<lparr>held := L_log # held s, log := (log s)\<lparr>lh_block := (lh_block (log s))[log_slot bn (log s) := bn]\<rparr>\<rparr>)"
  using assms by (simp add: log_write_def kseq_Ok acquire_run Let_def log_slot_def cong: option.case_cong)

lemma log_write_log:
  fixes s :: "'z logst_scheme"
  assumes "log_write b s = Ok u t"
  shows "lh_n (log s) < int LOGSIZE" "lh_n (log s) < sint (log_size (log s)) - 1" "1 \<le> log_outstanding (log s)"
    "\<exists>bl n. log t = (log s)\<lparr>lh_block := bl, lh_n := n\<rparr> \<and> (n = lh_n (log s) \<or> n = lh_n (log s) + 1)"
proof -
  show g: "lh_n (log s) < int LOGSIZE" "lh_n (log s) < sint (log_size (log s)) - 1" "1 \<le> log_outstanding (log s)"
    using assms by (auto simp: log_write_def kseq_eq_Ok acquire_Ok split: if_splits)
  have "L_log \<notin> set (held s)" using assms by (auto simp: log_write_def kseq_eq_Ok acquire_Ok)
  note e = log_write_steps [OF this g refl, of b]
  let ?bn = "b_blockno (bufs s ! b)"
  let ?i = "log_slot ?bn (log s)" and ?bl = "(lh_block (log s))[log_slot ?bn (log s) := ?bn]"
  show "\<exists>bl n. log t = (log s)\<lparr>lh_block := bl, lh_n := n\<rparr> \<and> (n = lh_n (log s) \<or> n = lh_n (log s) + 1)"
  proof (cases "int ?i = lh_n (log s)")
    case True
    then obtain s2 where 2: "bpin b (s\<lparr>held := L_log # held s, log := (log s)\<lparr>lh_block := ?bl\<rparr>\<rparr>) = Ok () s2"
      "log t = (log s2)\<lparr>lh_n := lh_n (log s2) + 1\<rparr>"
      using assms unfolding e by (auto simp: kseq_eq_Ok release_Ok)
    then show ?thesis using keepsD [OF log_apart.apart_pin(1) 2(1)] by auto
  next
    case False
    then have "log t = (log s)\<lparr>lh_block := ?bl, lh_n := lh_n (log s)\<rparr>"
      using assms unfolding e by (auto simp: kseq_eq_Ok release_Ok)
    then show ?thesis by blast
  qed
qed

lemma cache_inv_held:
  "cache_inv dev p s \<Longrightarrow> cache_inv dev p (s\<lparr>held := L_log # held s\<rparr>)"
  by (auto simp: cache_inv_def wake_ready_def)

lemma cache_inv_held_back:
  "cache_inv dev p s \<Longrightarrow> cache_inv dev p (s\<lparr>held := remove1 L_log (held s)\<rparr>)"
  by (auto simp: cache_inv_def wake_ready_def dest!: notin_set_remove1)

lemma cache_held [simp]:
  "cache_store dev (s\<lparr>held := h\<rparr>) = cache_store dev s" "cache_at dev (s\<lparr>held := h\<rparr>) = cache_at dev s"
  by (simp_all add: cache_store_def cache_at_def fun_eq_iff)

lemma log_slot_txn:
  assumes "txn dev start sz bl l" "length bl < LOGSIZE"
  shows "bn \<in> set bl \<Longrightarrow> log_slot bn l < length bl \<and> lh_block l ! log_slot bn l = bn"
    and "bn \<notin> set bl \<Longrightarrow> log_slot bn l = length bl"
proof -
  have t: "take (nat (lh_n l)) (lh_block l) = bl" "nat (lh_n l) = length bl" using assms(1) by (simp_all add: txn_def)
  show "log_slot bn l < length bl \<and> lh_block l ! log_slot bn l = bn" if m: "bn \<in> set bl"
  proof -
    obtain i where i: "first_index (\<lambda>x. x = bn) bl = Some i" using m first_index_None [of "\<lambda>x. x = bn" bl] by (cases "first_index (\<lambda>x. x = bn) bl") auto
    then have "i < length bl" "bl ! i = bn" by (simp_all add: first_index_Some)
    then show ?thesis using txn_block(1) [OF assms(1)] i t by (simp add: log_slot_def)
  qed
  show "log_slot bn l = length bl" if "bn \<notin> set bl"
  proof -
    have "first_index (\<lambda>x. x = bn) bl = None" using that by (auto simp: first_index_None)
    then show ?thesis using t by (simp add: log_slot_def)
  qed
qed

lemma log_write_run:
  fixes s :: "'z logst_scheme"
  assumes "cache_inv dev p s" "txn dev start sz bl (log s)" "cache_at dev s b bn" "bn \<notin> log_blocks start sz"
    "st_refs (cache_store dev s) bn \<noteq> 0" "Suc (st_refs (cache_store dev s) bn) < 2 ^ 32"
    "L_log \<notin> set (held s)" "1 \<le> log_outstanding (log s)" "length bl < LOGSIZE" "int (length bl) < sint (log_size (log s)) - 1"
  shows "\<exists>t. log_write b s = Ok () t \<and> cache_inv dev p t \<and> cache_at dev t = cache_at dev s \<and> held t = held s
    \<and> txn dev start sz (if bn \<in> set bl then bl else bl @ [bn]) (log t)
    \<and> cache_store dev t = (if bn \<in> set bl then cache_store dev s else st_pin bn (cache_store dev s))"
proof -
  let ?i = "log_slot bn (log s)"
  let ?l = "(log s)\<lparr>lh_block := (lh_block (log s))[?i := bn]\<rparr>"
  let ?s = "s\<lparr>held := L_log # held s, log := ?l\<rparr>"
  have n: "lh_n (log s) = int (length bl)" "length (lh_block (log s)) = LOGSIZE" using assms(2) by (simp_all add: txn_def)
  have b: "b_blockno (bufs s ! b) = bn" using assms(3) by (simp add: cache_at_def buf_is_def)
  note e = log_write_steps [of s bn b, OF assms(7) _ _ assms(8) b [symmetric], unfolded n(1)]
  note sl = log_slot_txn [OF assms(2,9), of bn]
  have i: "cache_inv dev p ?s" using cache_inv_held [OF assms(1)] by simp
  show ?thesis
  proof (cases "bn \<in> set bl")
    case True
    then have same: "(lh_block (log s))[?i := bn] = lh_block (log s)" "?i \<noteq> length bl"
      using sl(1) list_update_id [of "lh_block (log s)" ?i] by auto
    then have "?l = log s" by simp
    then have "log_write b s = Ok () s"
      using e assms(9,10) same by (simp add: kseq_Ok release_run)
    then show ?thesis using True assms(1,2) by (intro exI [of _ s]) simp
  next
    case False
    then have new: "?i = length bl" using sl by simp
    obtain t where t: "bpin b ?s = Ok () t" "cache_inv dev p t" "cache_frame ?s t" "cache_store dev t = st_pin bn (cache_store dev s)"
      "cache_at dev t = cache_at dev s"
      using cached.pin [OF i, of b bn] assms(3,5,6) by auto
    let ?t = "t\<lparr>log := (log t)\<lparr>lh_n := lh_n (log t) + 1\<rparr>, held := remove1 L_log (held t)\<rparr>"
    have f: "log t = ?l" "held t = L_log # held s" using t(3) by (auto simp: cache_frame_def)
    have "log_write b s = Ok () ?t"
      using e assms(9,10) new t(1) f by (simp add: kseq_Ok release_run)
    moreover have "cache_inv dev p ?t" using cache_inv_held_back [OF t(2)] by (simp add: cache_inv_def wake_ready_def)
    moreover have "txn dev start sz (bl @ [bn]) (log ?t)"
    proof -
      have "take (length bl) (lh_block (log s)) = bl" using assms(2) by (simp add: txn_def)
      then have "take (Suc (length bl)) ((lh_block (log s))[length bl := bn]) = bl @ [bn]"
        using assms(9) n(2) by (simp add: take_Suc_conv_app_nth take_update_swap)
      then show ?thesis using assms(2,4,10) False f new by (simp add: txn_def)
    qed
    ultimately show ?thesis using False t f by (intro exI [of _ ?t]) simp
  qed
qed

text \<open>C32. \<open>log_write(b)\<close> records the block of \<open>b\<close> in the transaction: a block that is there already is absorbed,
  and another one is appended and its buffer pinned, so that the cache cannot recycle it before the
  commit. The contents of no block change and nothing is written. The transaction stays one that
  \<open>commit\<close> makes atomic: different blocks, outside of the log.\<close>

theorem log_write_records:
  fixes s :: "'z logst_scheme"
  assumes "cache_inv dev p s" "txn dev start sz bl (log s)" "cache_at dev s b bn" "bn \<notin> log_blocks start sz"
    "st_refs (cache_store dev s) bn \<noteq> 0" "Suc (st_refs (cache_store dev s) bn) < 2 ^ 32"
    "L_log \<notin> set (held s)" "1 \<le> log_outstanding (log s)" "length bl < LOGSIZE" "int (length bl) < sint (log_size (log s)) - 1"
  shows "\<exists>t. log_write b s = Ok () t \<and> cache_inv dev p t \<and> cache_at dev t = cache_at dev s
    \<and> txn dev start sz (if bn \<in> set bl then bl else bl @ [bn]) (log t)
    \<and> cache_store dev t = (if bn \<in> set bl then cache_store dev s else st_pin bn (cache_store dev s))"
  using log_write_run [OF assms] by blast

theorem log_write_records_witness:
  "\<exists>t. log_write 0 (cache0 (\<lambda>_. replicate BSIZE 0) (bufs1 32 (replicate BSIZE 7))
      \<lparr>log := (log logst0)\<lparr>log_outstanding := 1\<rparr>\<rparr>) = Ok () t \<and> txn 1 2 30 [32] (log t)"
proof -
  let ?d = "\<lambda>_ :: u32. replicate BSIZE (0 :: u8)"
  let ?c = "cache0 ?d (bufs1 32 (replicate BSIZE 7))"
  let ?s = "?c\<lparr>log := (log logst0)\<lparr>log_outstanding := 1\<rparr>\<rparr>"
  note c = cache1_inv [of ?d "replicate BSIZE 7" 32] cache0_inv [of ?d]
  have r: "st_refs (cache_store 1 ?c) 32 = 1" and i: "cache_inv 1 0 ?s" using c by simp_all
  have a: "cache_at 1 ?c 0 32"
    by (simp add: cache_at_def buf_is_def bufs1_def bufs0_nth NBUF_def MAXOPBLOCKS_def)
  have x: "txn 1 2 30 [] (log ?s)" by (simp add: txn_def logst0_defs)
  have o: "(32 :: u32) \<notin> log_blocks 2 30" using txn0_ready(2) by (simp add: txn_def)
  from log_write_records [OF i x, of 0 32] a r o show ?thesis
    by (auto simp: logst0_defs LOGSIZE_def MAXOPBLOCKS_def)
qed

section \<open>The reservation\<close>

text \<open>File system operations under way: for each the number of blocks it may still add to the log.
  \<open>begin_op\<close> starts one with \<open>MAXOPBLOCKS\<close>, \<open>log_write\<close> uses one up when it adds a block, \<open>end_op\<close> ends one.\<close>

inductive op_step :: "'z logst_scheme \<times> nat list \<Rightarrow> 'z logst_scheme \<times> nat list \<Rightarrow> bool" where
  begins: "begin_op s = Ok () t \<Longrightarrow> op_step (s, left) (t, MAXOPBLOCKS # left)"
| writes: "log_write b s = Ok () t \<Longrightarrow> i < length left \<Longrightarrow> 0 < left ! i \<Longrightarrow>
     op_step (s, left) (t, left[i := left ! i - nat (lh_n (log t) - lh_n (log s))])"
| ends: "end_op s = Ok () t \<Longrightarrow> i < length left \<Longrightarrow> op_step (s, left) (t, take i left @ drop (Suc i) left)"

definition op_init :: "'z logst_scheme \<times> nat list \<Rightarrow> bool" where
  "op_init x \<longleftrightarrow> snd x = [] \<and> lh_n (log (fst x)) = 0 \<and> log_outstanding (log (fst x)) = 0"

definition op_inv :: "'z logst_scheme \<times> nat list \<Rightarrow> bool" where
  "op_inv x \<longleftrightarrow> (let l = log (fst x) in 0 \<le> lh_n l \<and> log_outstanding l = int (length (snd x))
     \<and> (\<forall>n \<in> set (snd x). n \<le> MAXOPBLOCKS) \<and> lh_n l + int (sum_list (snd x)) \<le> int LOGSIZE)"

lemma sum_list_bound: "(\<And>n. n \<in> set xs \<Longrightarrow> n \<le> (b :: nat)) \<Longrightarrow> sum_list xs \<le> length xs * b"
  by (induction xs) (auto intro: add_mono)

lemma sum_list_upd: "i < length xs \<Longrightarrow> d \<le> xs ! i \<Longrightarrow> sum_list (xs[i := xs ! i - d]) = sum_list xs - (d :: nat)"
  by (simp add: sum_list_update)

lemma op_step_inv:
  assumes "op_inv x" "op_step x y"
  shows "op_inv y"
  using assms(2,1)
proof cases
  case (begins s t left)
  note l = begin_op_log [OF begins(3)]
  have "sum_list left \<le> length left * MAXOPBLOCKS"
    using assms(1) begins by (intro sum_list_bound) (simp add: op_inv_def Let_def)
  then have "int (sum_list left) \<le> int (length left) * int MAXOPBLOCKS" by (metis of_nat_mono of_nat_mult)
  then show ?thesis using assms(1) l(2) unfolding begins by (simp add: op_inv_def Let_def l(3) algebra_simps)
next
  case (writes b s t i left)
  obtain bl n where n: "log t = (log s)\<lparr>lh_block := bl, lh_n := n\<rparr>" "n = lh_n (log s) \<or> n = lh_n (log s) + 1"
    using log_write_log(4) [OF writes(3)] by blast
  have "left ! i \<le> sum_list left" using writes(4) by (simp add: elem_le_sum_list)
  moreover have "sum_list (left[i := left ! i - nat (lh_n (log t) - lh_n (log s))]) = sum_list left - nat (lh_n (log t) - lh_n (log s))"
    using n writes(4,5) by (intro sum_list_upd) auto
  moreover have "\<forall>k \<in> set (left[i := left ! i - nat (lh_n (log t) - lh_n (log s))]). k \<le> MAXOPBLOCKS"
    using assms(1) writes nth_mem [OF writes(4)]
    by (auto simp: op_inv_def Let_def dest!: set_update_subset_insert [THEN subsetD] intro: le_trans [OF diff_le_self])
  ultimately show ?thesis using assms(1) n writes(5) unfolding writes by (auto simp: op_inv_def Let_def)
next
  case (ends s t i left)
  let ?r = "take i left @ drop (Suc i) left"
  have i: "0 \<le> lh_n (log s)" "log_outstanding (log s) = int (length left)" "\<forall>n \<in> set left. n \<le> MAXOPBLOCKS"
    "lh_n (log s) + int (sum_list left) \<le> int LOGSIZE"
    using assms(1) ends(1) by (simp_all add: op_inv_def Let_def)
  note l = end_op_log [OF ends(3) i(1)]
  have t: "0 \<le> lh_n (log t)" "lh_n (log t) \<le> lh_n (log s)" "log_outstanding (log t) = int (length left) - 1"
    using l(2) i(1,2) by simp_all
  have "sum_list left = sum_list (take i left @ left ! i # drop (Suc i) left)" using id_take_nth_drop [OF ends(4)] by simp
  then have "sum_list ?r \<le> sum_list left" by simp
  moreover have "set ?r \<subseteq> set left" using set_take_subset [of i left] set_drop_subset [of "Suc i" left] by simp
  moreover have "int (length ?r) = int (length left) - 1" using ends(4) by auto
  ultimately show ?thesis using i t unfolding ends(2) op_inv_def Let_def by auto
qed

interpretation ops: step_system op_init op_step op_inv
  by (unfold_locales, simp add: op_init_def op_inv_def Let_def, rule op_step_inv)

text \<open>C30. The space \<open>begin_op\<close> reserves is enough. In every sequence of \<open>begin_op\<close>, \<open>log_write\<close> and \<open>end_op\<close> calls
  of any number of operations, on a log with room for a header and \<open>LOGSIZE\<close> blocks, an operation that
  has added fewer than \<open>MAXOPBLOCKS\<close> blocks finds a free slot: \<open>log_write\<close> does not panic because the
  transaction is too big, nor because no operation is under way.\<close>

theorem log_space_reserved:
  fixes s :: "'z logst_scheme"
  assumes "reach op_init op_step (s, left)" "int LOGSIZE < sint (log_size (log s))" "i < length left" "0 < left ! i"
  shows "lh_n (log s) < int LOGSIZE \<and> 1 \<le> log_outstanding (log s)
    \<and> log_write b s \<noteq> Panic ''too big a transaction'' \<and> log_write b s \<noteq> Panic ''log_write outside of trans''"
proof -
  have i: "0 \<le> lh_n (log s)" "log_outstanding (log s) = int (length left)"
    "lh_n (log s) + int (sum_list left) \<le> int LOGSIZE"
    using ops.reach_inv [OF assms(1)] by (simp_all add: op_inv_def Let_def)
  have "left ! i \<le> sum_list left" using assms(3) by (simp add: elem_le_sum_list)
  then have g: "lh_n (log s) < int LOGSIZE" "lh_n (log s) < sint (log_size (log s)) - 1" "1 \<le> log_outstanding (log s)"
    using i assms(2-4) by auto
  have "log_write b s \<noteq> Panic ''too big a transaction'' \<and> log_write b s \<noteq> Panic ''log_write outside of trans''"
  proof (cases "L_log \<in> set (held s)")
    case True
    then show ?thesis by (simp add: log_write_def acquire_def kseq_def kbind_def)
  next
    case False
    have "bpin b u \<noteq> Panic ''too big a transaction'' \<and> bpin b u \<noteq> Panic ''log_write outside of trans''" for u :: "'z logst_scheme"
      by (simp add: bpin_def kseq_def kbind_def acquire_def release_def)
    then show ?thesis
      unfolding log_write_steps [OF False g refl] by (auto simp: kseq_def kbind_def release_def split: res.splits)
  qed
  then show ?thesis using g by simp
qed

text \<open>A log of \<open>sz\<close> blocks, and buffers for different blocks.\<close>

definition oplog0 :: "u32 \<Rightarrow> logst" where
  "oplog0 sz = cache0 (\<lambda>_. replicate BSIZE 0) (map (\<lambda>i. (bufs0 ! i)\<lparr>b_blockno := 100 + of_nat i\<rparr>) [0..<Suc NBUF])
     \<lparr>log := (log logst0)\<lparr>log_size := sz\<rparr>\<rparr>"

lemma begin_op_run:
  assumes "L_log \<notin> set (held s)" "\<not> log_committing (log s)"
    "lh_n (log s) + (log_outstanding (log s) + 1) * int MAXOPBLOCKS \<le> int LOGSIZE"
  shows "begin_op s = Ok () (s\<lparr>log := (log s)\<lparr>log_outstanding := log_outstanding (log s) + 1\<rparr>\<rparr>)"
  using assms by (simp add: begin_op_def begin_op_loop_def kseq_Ok acquire_run release_run)

lemma oplog0_simps:
  "held (oplog0 sz) = []" "log_committing (log (oplog0 sz)) = False" "lh_n (log (oplog0 sz)) = 0"
  "log_outstanding (log (oplog0 sz)) = 0" "log_size (log (oplog0 sz)) = sz" "length (lh_block (log (oplog0 sz))) = LOGSIZE"
  "length (bufs (oplog0 sz)) = Suc NBUF" "i \<le> NBUF \<Longrightarrow> b_blockno (bufs (oplog0 sz) ! i) = 100 + of_nat i"
  by (simp_all add: oplog0_def logst0_defs cache0_def del: upt_Suc)

lemma oplog0_init: "reach op_init op_step (oplog0 sz, [])"
  by (rule reach_init) (simp add: op_init_def oplog0_simps)

theorem log_space_reserved_witness:
  "\<exists>t. begin_op (oplog0 31) = Ok () t \<and> log_write 0 t \<noteq> Panic ''too big a transaction''"
proof -
  let ?t = "oplog0 31\<lparr>log := (log (oplog0 31))\<lparr>log_outstanding := 1\<rparr>\<rparr>"
  have b: "begin_op (oplog0 31) = Ok () ?t"
    using begin_op_run [of "oplog0 31"] by (simp add: oplog0_simps MAXOPBLOCKS_def LOGSIZE_def)
  have "reach op_init op_step (?t, [MAXOPBLOCKS])"
    using reach_step [OF oplog0_init op_step.begins [OF b]] .
  moreover have "int LOGSIZE < sint (log_size (log ?t))" by (simp add: oplog0_simps LOGSIZE_def MAXOPBLOCKS_def)
  ultimately show ?thesis using log_space_reserved [of ?t "[MAXOPBLOCKS]" 0 0] b by (simp add: MAXOPBLOCKS_def)
qed

text \<open>Three operations that use their space up one after the other.\<close>

definition used :: "nat \<Rightarrow> nat list" where
  "used j = (if j < 10 then [10 - j, 10, 10] else if j < 20 then [0, 20 - j, 10] else [0, 0, 30 - j])"

lemma used_step:
  assumes "j < 30"
  shows "\<exists>i < length (used j). 0 < used j ! i \<and> (used j)[i := used j ! i - 1] = used (Suc j)"
proof -
  consider "j < 10" | "10 \<le> j" "j < 20" | "20 \<le> j" by linarith
  then show ?thesis
  proof cases
    case 1
    then show ?thesis by (intro exI [of _ 0]) (auto simp: used_def)
  next
    case 2
    then show ?thesis by (intro exI [of _ 1]) (auto simp: used_def)
  next
    case 3
    then show ?thesis using assms by (intro exI [of _ 2]) (auto simp: used_def)
  qed
qed

text \<open>The state after \<open>j\<close> blocks were written.\<close>

definition wrote :: "nat \<Rightarrow> logst \<Rightarrow> bool" where
  "wrote j s \<longleftrightarrow> reach op_init op_step (s, used j) \<and> held s = [] \<and> log_outstanding (log s) = 3
     \<and> log_size (log s) = of_nat LOGSIZE \<and> lh_n (log s) = int j \<and> length (lh_block (log s)) = LOGSIZE
     \<and> (\<forall>i < j. lh_block (log s) ! i = 100 + of_nat i)
     \<and> length (bufs s) = Suc NBUF \<and> (\<forall>i \<le> NBUF. b_blockno (bufs s ! i) = 100 + of_nat i)"

lemma of_nat_u32_eq: "i < 1000 \<Longrightarrow> j < 1000 \<Longrightarrow> (of_nat i :: u32) = of_nat j \<longleftrightarrow> i = j"
proof -
  assume "i < 1000" "j < 1000"
  then have "unat (of_nat i :: u32) = i" "unat (of_nat j :: u32) = j" by (simp_all add: unat_of_nat take_bit_nat_eq_self)
  then show ?thesis by metis
qed

lemma wrote_0: "\<exists>s. wrote 0 s"
proof -
  let ?s = "\<lambda>n. oplog0 (of_nat LOGSIZE)\<lparr>log := (log (oplog0 (of_nat LOGSIZE)))\<lparr>log_outstanding := n\<rparr>\<rparr>"
  have b: "begin_op (?s n) = Ok () (?s (n + 1))" if "n \<le> 2" for n
    using begin_op_run [of "?s n"] that by (simp add: oplog0_simps MAXOPBLOCKS_def LOGSIZE_def)
  have z: "?s 0 = oplog0 (of_nat LOGSIZE)"
    by (rule logst.equality) (simp_all, rule log.equality, simp_all add: oplog0_simps)
  have "reach op_init op_step (?s 0, [])" using oplog0_init z by simp
  then have "reach op_init op_step (?s 1, [MAXOPBLOCKS])" using reach_step op_step.begins [OF b [of 0]] by fastforce
  then have "reach op_init op_step (?s 2, [MAXOPBLOCKS, MAXOPBLOCKS])" using reach_step op_step.begins [OF b [of 1]] by fastforce
  then have "reach op_init op_step (?s 3, [MAXOPBLOCKS, MAXOPBLOCKS, MAXOPBLOCKS])" using reach_step op_step.begins [OF b [of 2]] by fastforce
  then have "wrote 0 (?s 3)" by (simp add: wrote_def used_def MAXOPBLOCKS_def oplog0_simps)
  then show ?thesis by blast
qed

lemma wrote_Suc:
  assumes "wrote j s" "j < 29"
  shows "\<exists>t. wrote (Suc j) t"
proof -
  let ?bn = "100 + of_nat j :: u32"
  let ?t = "s\<lparr>log := (log s)\<lparr>lh_block := (lh_block (log s))[j := ?bn], lh_n := int j + 1\<rparr>,
      bufs := (bufs s)[j := (bufs s ! j)\<lparr>b_refcnt := b_refcnt (bufs s ! j) + 1\<rparr>]\<rparr>"
  note w = assms(1)[unfolded wrote_def]
  have j: "j \<le> NBUF" "j < LOGSIZE" using assms(2) by (simp_all add: NBUF_def LOGSIZE_def MAXOPBLOCKS_def)
  have bn: "b_blockno (bufs s ! j) = ?bn" using w j by simp
  have "first_index (\<lambda>x. x = ?bn) (take (nat (lh_n (log s))) (lh_block (log s))) = None"
  proof -
    have "lh_block (log s) ! i \<noteq> ?bn" if "i < j" for i
      using w that assms(2) of_nat_u32_eq [of i j] by simp
    then show ?thesis using w j by (auto simp: first_index_None in_set_conv_nth)
  qed
  then have sl: "log_slot ?bn (log s) = j" using w by (simp add: log_slot_def)
  have "log_write j s = Ok () ?t"
    using log_write_steps [of s "?bn" j] w j sl bn assms(2)
    by (simp add: kseq_Ok bpin_def acquire_run release_run LOGSIZE_def MAXOPBLOCKS_def)
  moreover obtain i where "i < length (used j)" "0 < used j ! i" "(used j)[i := used j ! i - 1] = used (Suc j)"
    using used_step [of j] assms(2) by auto
  moreover have "nat (lh_n (log ?t) - lh_n (log s)) = 1" using w by simp
  ultimately have "op_step (s, used j) (?t, used (Suc j))"
    using op_step.writes [of j s ?t i "used j"] by simp
  then have "reach op_init op_step (?t, used (Suc j))" by (rule reach_step [OF conjunct1 [OF w]])
  moreover have "b_blockno ((bufs s)[j := (bufs s ! j)\<lparr>b_refcnt := b_refcnt (bufs s ! j) + 1\<rparr>] ! i) = 100 + of_nat i"
    if "i \<le> NBUF" for i using w j that by (cases "i = j") simp_all
  ultimately have "wrote (Suc j) ?t" using w j by (auto simp: wrote_def nth_list_update less_Suc_eq)
  then show ?thesis by blast
qed

text \<open>C31. The log the image builder makes, of \<open>LOGSIZE\<close> blocks with its header, is one block short of what
  \<open>begin_op\<close> reserves: there is a sequence of calls of three operations, each of which adds at most
  \<open>MAXOPBLOCKS\<close> blocks, after which \<open>log_write\<close> panics although an operation has a block left.\<close>

theorem log_one_block_short:
  "\<exists>(s :: logst) left b. reach op_init op_step (s, left) \<and> log_size (log s) = of_nat LOGSIZE
     \<and> (\<exists>i < length left. 0 < left ! i) \<and> log_write b s = Panic ''too big a transaction''"
proof -
  have "\<exists>s. wrote j s" if "j \<le> 29" for j
    using that by (induction j) (use wrote_0 wrote_Suc in auto)
  then obtain s where s: "wrote 29 s" by blast
  then have "log_write 0 s = Panic ''too big a transaction''"
    by (simp add: wrote_def log_write_def kseq_Ok acquire_run LOGSIZE_def MAXOPBLOCKS_def)
  moreover have "used 29 = [0, 0, 1]" by (simp add: used_def)
  ultimately show ?thesis using s unfolding wrote_def by (intro exI [of _ s] exI [of _ "[0, 0, 1]"] exI [of _ 0]) fastforce
qed

end
