(* ===== verification/Inode.thy ===== *)
theory Inode
  imports Fs Txn
begin

text \<open>
  Properties of the on-disk formats of \<open>kernel/fs.c\<close>: inodes read back as they were written and do not
  overlap, and a path is taken apart at its slashes.
\<close>

section \<open>Inodes on disk\<close>

lemma get_word_app:
  "get_word n (xs @ le_bytes n (v :: 'a::len word) @ ys) (length xs) = (take_bit (8 * n) v :: 'a word)"
  by (simp add: get_word_def le_word_le_bytes)

lemma concat_words_length: "length (concat (map (le_bytes n) (vs :: 'a::len word list))) = n * length vs"
  by (induction vs) auto

lemma concat_words_nth:
  "k < length vs \<Longrightarrow> slice (concat (map (le_bytes n) (vs :: 'a::len word list))) (n * k) n = le_bytes n (vs ! k)"
proof (induction vs arbitrary: k)
  case (Cons v vs)
  then show ?case by (cases k) (simp_all add: slice_def)
qed simp

text \<open>The 64 bytes of an inode.\<close>

definition dinode_bytes :: "inode \<Rightarrow> u8 list" where
  "dinode_bytes ip = le_bytes 2 (i_type ip) @ le_bytes 2 (i_major ip) @ le_bytes 2 (i_minor ip) @
     le_bytes 2 (i_nlink ip) @ le_bytes 4 (i_size ip) @ concat (map (le_bytes 4) (i_addrs ip))"

lemma dinode_bytes_length: "length (i_addrs ip) = NDIRECT + 1 \<Longrightarrow> length (dinode_bytes ip) = DINODE_SIZE"
  by (simp add: dinode_bytes_def concat_words_length NDIRECT_def DINODE_SIZE_def)

lemma get_word_in: "off + n \<le> m \<Longrightarrow> get_word n d (pos + off) = get_word n (slice d pos m) off"
  by (simp add: get_word_slice slice_slice)

lemma dinode_fields:
  assumes "length (i_addrs ip) = NDIRECT + 1"
  shows "get16 (dinode_bytes ip) 0 = i_type ip" "get16 (dinode_bytes ip) 2 = i_major ip"
    "get16 (dinode_bytes ip) 4 = i_minor ip" "get16 (dinode_bytes ip) 6 = i_nlink ip"
    "get32 (dinode_bytes ip) 8 = i_size ip"
    "k \<le> NDIRECT \<Longrightarrow> get32 (dinode_bytes ip) (12 + 4 * k) = i_addrs ip ! k"
proof -
  let ?a = "le_bytes 2 (i_type ip)" and ?b = "le_bytes 2 (i_major ip)" and ?c = "le_bytes 2 (i_minor ip)"
  let ?d = "le_bytes 2 (i_nlink ip)" and ?e = "le_bytes 4 (i_size ip)"
  let ?f = "concat (map (le_bytes 4) (i_addrs ip))"
  show "get16 (dinode_bytes ip) 0 = i_type ip"
    using get_word_app [of 2 "[]" "i_type ip" "?b @ ?c @ ?d @ ?e @ ?f"] by (simp add: dinode_bytes_def take_bit_word_eq_self)
  show "get16 (dinode_bytes ip) 2 = i_major ip"
    using get_word_app [of 2 ?a "i_major ip" "?c @ ?d @ ?e @ ?f"] by (simp add: dinode_bytes_def take_bit_word_eq_self)
  show "get16 (dinode_bytes ip) 4 = i_minor ip"
    using get_word_app [of 2 "?a @ ?b" "i_minor ip" "?d @ ?e @ ?f"] by (simp add: dinode_bytes_def take_bit_word_eq_self)
  show "get16 (dinode_bytes ip) 6 = i_nlink ip"
    using get_word_app [of 2 "?a @ ?b @ ?c" "i_nlink ip" "?e @ ?f"] by (simp add: dinode_bytes_def take_bit_word_eq_self)
  show "get32 (dinode_bytes ip) 8 = i_size ip"
    using get_word_app [of 4 "?a @ ?b @ ?c @ ?d" "i_size ip" ?f] by (simp add: dinode_bytes_def take_bit_word_eq_self)
  assume "k \<le> NDIRECT"
  then have "slice ?f (4 * k) 4 = le_bytes 4 (i_addrs ip ! k)" using concat_words_nth [of k "i_addrs ip" 4] assms by simp
  moreover have "slice (dinode_bytes ip) (12 + 4 * k) 4 = slice ?f (4 * k) 4"
    by (simp add: dinode_bytes_def slice_def)
  ultimately show "get32 (dinode_bytes ip) (12 + 4 * k) = i_addrs ip ! k"
    by (simp add: get_word_slice le_word_le_bytes take_bit_word_eq_self)
qed

lemma dinode_off_bound: "dinode_off inum + DINODE_SIZE \<le> BSIZE"
proof -
  have "unat inum mod 16 < 16" by simp
  then have "unat inum mod 16 * 64 \<le> 15 * 64" by (intro mult_le_mono1) linarith
  then show ?thesis by (simp add: dinode_off_def IPB_def BSIZE_def DINODE_SIZE_def)
qed

lemma dinode_off_apart:
  "unat i mod IPB \<noteq> unat j mod IPB \<Longrightarrow> dinode_off i + DINODE_SIZE \<le> dinode_off j \<or> dinode_off j + DINODE_SIZE \<le> dinode_off i"
  unfolding dinode_off_def DINODE_SIZE_def by (cases "unat i mod IPB < unat j mod IPB") auto

text \<open>An inode is read from its own 64 bytes.\<close>

lemma get_dinode_slice: "get_dinode pos d x = get_dinode 0 (slice d pos DINODE_SIZE) x"
proof -
  have h: "get16 d (pos + off) = get16 (slice d pos DINODE_SIZE) off" if "off + 2 \<le> DINODE_SIZE" for off
    using get_word_in [OF that] .
  have w: "get32 d (pos + off) = get32 (slice d pos DINODE_SIZE) off" if "off + 4 \<le> DINODE_SIZE" for off
    using get_word_in [OF that] .
  show ?thesis
    using h [of 0] h [of 2] h [of 4] h [of 6] w [of 8] w [of "12 + 4 * k" for k]
    by (simp add: get_dinode_def DINODE_SIZE_def NDIRECT_def add.assoc del: add_2_eq_Suc add_2_eq_Suc')
qed

lemma get_dinode_bytes:
  assumes "length (i_addrs ip) = NDIRECT + 1"
  shows "get_dinode 0 (dinode_bytes ip) old
      = ip\<lparr>i_dev := i_dev old, i_inum := i_inum old, i_ref := i_ref old, i_valid := i_valid old\<rparr>"
proof -
  have "map (\<lambda>k. get32 (dinode_bytes ip) (12 + 4 * k)) [0..<NDIRECT + 1] = i_addrs ip"
    using dinode_fields(6) [OF assms] assms by (intro nth_equalityI) (simp_all del: upt_Suc)
  then show ?thesis
    using dinode_fields(1-5) [OF assms] by (intro inode.equality) (simp_all add: get_dinode_def del: add_2_eq_Suc add_2_eq_Suc')
qed

lemma get_put_dinode:
  assumes "length (i_addrs ip) = NDIRECT + 1" "length d = BSIZE"
  shows "get_dinode (dinode_off inum) (put_dinode ip (dinode_off inum) d) old
      = ip\<lparr>i_dev := i_dev old, i_inum := i_inum old, i_ref := i_ref old, i_valid := i_valid old\<rparr>"
    and "length (put_dinode ip (dinode_off inum) d) = BSIZE"
    and "unat other mod IPB \<noteq> unat inum mod IPB \<Longrightarrow>
      get_dinode (dinode_off other) (put_dinode ip (dinode_off inum) d) x = get_dinode (dinode_off other) d x"
proof -
  let ?p = "dinode_off inum"
  have p: "put_dinode ip ?p d = splice d ?p (dinode_bytes ip)" by (simp add: put_dinode_def dinode_bytes_def)
  have l: "?p + length (dinode_bytes ip) \<le> length d" "length (dinode_bytes ip) = DINODE_SIZE"
    using dinode_off_bound [of inum] assms by (simp_all add: dinode_bytes_length)
  show "get_dinode ?p (put_dinode ip ?p d) old
      = ip\<lparr>i_dev := i_dev old, i_inum := i_inum old, i_ref := i_ref old, i_valid := i_valid old\<rparr>"
    unfolding get_dinode_slice [of ?p] p using get_dinode_bytes [OF assms(1)] l by (simp add: slice_splice)
  show "length (put_dinode ip ?p d) = BSIZE" unfolding p using l assms(2) by simp
  assume "unat other mod IPB \<noteq> unat inum mod IPB"
  then have "slice (put_dinode ip ?p d) (dinode_off other) DINODE_SIZE = slice d (dinode_off other) DINODE_SIZE"
    unfolding p using l dinode_off_apart [of other inum] dinode_off_bound [of other] assms(2)
    by (intro slice_splice_other) auto
  then show "get_dinode (dinode_off other) (put_dinode ip ?p d) x = get_dinode (dinode_off other) d x"
    by (simp add: get_dinode_slice [of "dinode_off other"])
qed

text \<open>C35. An inode reads back from its disk block as \<open>iupdate\<close> wrote it, whatever the in-memory copy \<open>ilock\<close>
  fills held before, and writing it leaves every other inode of the block as it was.\<close>

theorem dinode_roundtrip:
  assumes "length (i_addrs ip) = NDIRECT + 1" "length d = BSIZE"
  shows "get_dinode (dinode_off inum) (put_dinode ip (dinode_off inum) d) old
      = ip\<lparr>i_dev := i_dev old, i_inum := i_inum old, i_ref := i_ref old, i_valid := i_valid old\<rparr>
    \<and> (\<forall>other :: u32. unat other mod IPB \<noteq> unat inum mod IPB \<longrightarrow>
        get_dinode (dinode_off other) (put_dinode ip (dinode_off inum) d) x = get_dinode (dinode_off other) d x)"
  using get_put_dinode [OF assms] by blast

theorem dinode_roundtrip_witness:
  "get_dinode (dinode_off 5) (put_dinode ((itable fsst0 ! 0)\<lparr>i_type := T_FILE, i_size := 1500, i_nlink := 1\<rparr>)
      (dinode_off 5) (replicate BSIZE 0)) (itable fsst0 ! 0)
   = (itable fsst0 ! 0)\<lparr>i_type := T_FILE, i_size := 1500, i_nlink := 1\<rparr>"
proof -
  let ?ip = "(itable fsst0 ! 0)\<lparr>i_type := T_FILE, i_size := 1500, i_nlink := 1\<rparr>"
  have i: "length (i_addrs ?ip) = NDIRECT + 1" "length (replicate BSIZE (0 :: u8)) = BSIZE"
    by (simp_all add: fsst0_defs NINODE_def)
  from dinode_roundtrip [OF i, of 5 "itable fsst0 ! 0"] show ?thesis by simp
qed

section \<open>Paths\<close>

text \<open>The specification: the text up to the NUL, split at its slashes, without the empty parts.\<close>

fun split_at :: "'a \<Rightarrow> 'a list \<Rightarrow> 'a list list" where
  "split_at c [] = [[]]"
| "split_at c (x # xs) = (if x = c then [] # split_at c xs else (x # hd (split_at c xs)) # tl (split_at c xs))"

definition components :: "u8 list \<Rightarrow> u8 list list" where
  "components path = filter (\<lambda>e. e \<noteq> []) (split_at slash (takeWhile (\<lambda>c. c \<noteq> 0) path))"

lemma split_at_not_Nil [simp]: "split_at c xs \<noteq> []"
  by (cases xs) auto

lemma split_at_takeWhile:
  "split_at c xs = takeWhile (\<lambda>x. x \<noteq> c) xs # (if dropWhile (\<lambda>x. x \<noteq> c) xs = [] then [] else split_at c (tl (dropWhile (\<lambda>x. x \<noteq> c) xs)))"
  by (induction xs) auto

lemma slash_not_0: "slash \<noteq> 0"
  by (simp add: slash_def)

lemma components_skip: "components (dropWhile (\<lambda>c. c = slash) path) = components path"
  by (induction path) (auto simp: components_def slash_not_0)

lemma components_elem:
  assumes "p \<noteq> []" "hd p \<noteq> slash" "hd p \<noteq> 0"
  shows "components p = takeWhile (\<lambda>c. c \<noteq> slash \<and> c \<noteq> 0) p # components (dropWhile (\<lambda>c. c \<noteq> slash \<and> c \<noteq> 0) p)"
proof -
  have t: "takeWhile (\<lambda>x. x \<noteq> slash) (takeWhile (\<lambda>c. c \<noteq> 0) p) = takeWhile (\<lambda>c. c \<noteq> slash \<and> c \<noteq> 0) p" for p :: "u8 list"
    by (induction p) auto
  have d: "dropWhile (\<lambda>x. x \<noteq> slash) (takeWhile (\<lambda>c. c \<noteq> 0) p) = takeWhile (\<lambda>c. c \<noteq> 0) (dropWhile (\<lambda>c. c \<noteq> slash \<and> c \<noteq> 0) p)" for p :: "u8 list"
    by (induction p) auto
  have n: "takeWhile (\<lambda>c. c \<noteq> slash \<and> c \<noteq> 0) p \<noteq> []" using assms by (cases p) auto
  let ?r = "dropWhile (\<lambda>c. c \<noteq> slash \<and> c \<noteq> 0) p"
  have "components ?r = filter (\<lambda>e. e \<noteq> []) (if takeWhile (\<lambda>c. c \<noteq> 0) ?r = [] then [] else split_at slash (tl (takeWhile (\<lambda>c. c \<noteq> 0) ?r)))"
  proof (cases "?r")
    case Nil
    show ?thesis unfolding Nil by (simp add: components_def)
  next
    case (Cons x xs)
    have "x = slash \<or> x = 0" using hd_dropWhile [of "\<lambda>c. c \<noteq> slash \<and> c \<noteq> 0" p] unfolding Cons by simp
    then show ?thesis unfolding Cons using slash_not_0 by (auto simp: components_def)
  qed
  then show ?thesis
    unfolding components_def [of p] by (subst split_at_takeWhile) (use n in \<open>simp add: t d\<close>)
qed

text \<open>The names \<open>skipelem\<close> puts into its buffer, one call after the other.\<close>

definition name_str :: "u8 list \<Rightarrow> u8 list" where
  "name_str name = takeWhile (\<lambda>c. c \<noteq> 0) (take DIRSIZ name)"

lemma skipelem_shorter:
  assumes "skipelem path name = Some (rest, name')"
  shows "length rest < length path"
proof -
  let ?p = "dropWhile (\<lambda>c. c = slash) path"
  have p: "?p \<noteq> []" "hd ?p \<noteq> 0" and r: "rest = dropWhile (\<lambda>c. c = slash) (dropWhile (\<lambda>c. c \<noteq> slash \<and> c \<noteq> 0) ?p)"
    using assms by (auto simp: skipelem_def Let_def split: if_splits)
  have "hd ?p \<noteq> slash" using hd_dropWhile [of "\<lambda>c. c = slash" path] p(1) by simp
  then have "length (dropWhile (\<lambda>c. c \<noteq> slash \<and> c \<noteq> 0) ?p) < length ?p"
    using p by (cases ?p) (auto simp: less_Suc_eq_le length_dropWhile_le)
  moreover have "length rest \<le> length (dropWhile (\<lambda>c. c \<noteq> slash \<and> c \<noteq> 0) ?p)"
    unfolding r by (rule length_dropWhile_le)
  moreover have "length ?p \<le> length path" by (rule length_dropWhile_le)
  ultimately show ?thesis by linarith
qed

function path_names :: "u8 list \<Rightarrow> u8 list \<Rightarrow> u8 list list" where
  "path_names path name = (case skipelem path name of None \<Rightarrow> [] | Some (rest, name') \<Rightarrow> name_str name' # path_names rest name')"
  by auto
termination by (relation "measure (\<lambda>(path, name). length path)") (auto dest: skipelem_shorter)

declare path_names.simps [simp del]

lemma skipelem_exact:
  assumes "length name = DIRSIZ"
  shows "(case skipelem path name of None \<Rightarrow> components path = []
    | Some (rest, name') \<Rightarrow> length name' = DIRSIZ \<and> components path \<noteq> []
        \<and> name_str name' = take DIRSIZ (hd (components path)) \<and> components rest = tl (components path))"
proof -
  let ?p = "dropWhile (\<lambda>c. c = slash) path"
  have c: "components path = components ?p" by (simp add: components_skip)
  show ?thesis
  proof (cases "?p = [] \<or> hd ?p = 0")
    case True
    then show ?thesis using c by (cases ?p) (auto simp: skipelem_def components_def)
  next
    case False
    let ?s = "takeWhile (\<lambda>c. c \<noteq> slash \<and> c \<noteq> 0) ?p" and ?r = "dropWhile (\<lambda>c. c \<noteq> slash \<and> c \<noteq> 0) ?p"
    let ?n = "if length ?s \<ge> DIRSIZ then take DIRSIZ ?s else splice name 0 (?s @ [0])"
    have "hd ?p \<noteq> slash" using hd_dropWhile [of "\<lambda>c. c = slash" path] False by simp
    then have e: "components ?p = ?s # components ?r" using False by (intro components_elem) auto
    have k: "skipelem path name = Some (dropWhile (\<lambda>c. c = slash) ?r, ?n)" using False by (simp add: skipelem_def Let_def)
    have z: "\<forall>x \<in> set ?s. x \<noteq> 0" by (auto dest: set_takeWhileD)
    have "length ?n = DIRSIZ \<and> name_str ?n = take DIRSIZ ?s"
    proof (cases "length ?s \<ge> DIRSIZ")
      case True
      then show ?thesis using z by (auto simp: name_str_def takeWhile_eq_all_conv dest: in_set_takeD)
    next
      case False
      then have "takeWhile (\<lambda>c. c \<noteq> 0) (take DIRSIZ (?s @ 0 # drop (Suc (length ?s)) name)) = ?s"
        using z by (simp add: takeWhile_append2 take_Cons')
      then show ?thesis using False assms by (simp add: name_str_def splice_def)
    qed
    then show ?thesis using k c e by (simp add: components_skip)
  qed
qed

text \<open>C36. The names that \<open>skipelem\<close>, and so \<open>namex\<close>, takes from a path one after the other are the components of
  the path, cut to \<open>DIRSIZ\<close> characters: repeated, leading and trailing slashes make no difference, and
  every component is visited once and in order.\<close>

theorem path_names_components:
  assumes "length name = DIRSIZ"
  shows "path_names path name = map (take DIRSIZ) (components path)"
  using assms
proof (induction path name rule: path_names.induct)
  case (1 path name)
  note e = skipelem_exact [OF 1(2), of path]
  show ?case
  proof (cases "skipelem path name")
    case None
    then show ?thesis using e by (simp add: path_names.simps)
  next
    case (Some r)
    then obtain rest name' where r: "skipelem path name = Some (rest, name')" by (cases r) auto
    then have "path_names rest name' = map (take DIRSIZ) (components rest)" using 1(1) e by auto
    then show ?thesis using e r by (cases "components path") (auto simp: path_names.simps)
  qed
qed

theorem path_names_components_witness:
  "path_names [47, 47, 97, 47, 98, 99, 47, 47, 47] (replicate DIRSIZ 0) = [[97], [98, 99]]"
proof -
  have sl: "slash = 47" by (simp add: slash_def)
  have "components [47, 47, 97, 47, 98, 99, 47, 47, 47] = [[97], [98, 99]]" by (simp add: components_def sl)
  then show ?thesis using path_names_components [of "replicate DIRSIZ 0" "[47, 47, 97, 47, 98, 99, 47, 47, 47]"]
    by (simp add: DIRSIZ_def)
qed

end
