(* ===== verification/Balloc.thy ===== *)
theory Balloc
  imports Inode
begin

text \<open>
  Properties of the block allocator of \<open>kernel/fs.c\<close>, proved over the store of blocks that the buffer cache
  implements and the transaction that the log collects.
\<close>

section \<open>Changing a block in a transaction\<close>

interpretation fs_apart: cache_apart "\<lambda>s :: 'z fsst_scheme. (sb s, itable s)"
  by unfold_locales simp_all

lemma keeps_log_write: "keeps (\<lambda>s :: 'z fsst_scheme. (sb s, itable s)) (log_write b)"
  unfolding log_write_def Let_def by (intro keeps fs_apart.apart) simp_all

text \<open>A process inside of a transaction, with no buffer in hand.\<close>

definition in_txn :: "u32 \<Rightarrow> nat \<Rightarrow> u32 \<Rightarrow> nat \<Rightarrow> u32 list \<Rightarrow> 'z logst_scheme \<Rightarrow> bool" where
  "in_txn dev p start sz bl s \<longleftrightarrow> cache_inv dev p s \<and> txn dev start sz bl (log s) \<and> quiet (set bl) (cache_store dev s)
     \<and> (\<forall>bn \<in> set bl. st_refs (cache_store dev s) bn = 1) \<and> L_log \<notin> set (held s) \<and> 1 \<le> log_outstanding (log s)"

definition txn_room :: "nat \<Rightarrow> u32 list \<Rightarrow> log \<Rightarrow> bool" where
  "txn_room n bl l \<longleftrightarrow> length bl + n < NBUF \<and> int (length bl + n) < sint (log_size l)"

definition add_block :: "u32 \<Rightarrow> u32 list \<Rightarrow> u32 list" where
  "add_block bn bl = (if bn \<in> set bl then bl else bl @ [bn])"

lemma in_txn_room:
  assumes "in_txn dev p start sz bl s" "length bl < NBUF"
  shows "\<not> st_locked (cache_store dev s) bn" "st_room bn (cache_store dev s)" "Suc (st_refs (cache_store dev s) bn) < 2 ^ 32"
proof -
  have q: "quiet (set bl) (cache_store dev s)" using assms(1) by (simp add: in_txn_def)
  have "card (set bl) < NBUF" using card_length [of bl] assms(2) by linarith
  then show "st_room bn (cache_store dev s)" using quiet_room [OF q] by simp
  show "\<not> st_locked (cache_store dev s) bn" "Suc (st_refs (cache_store dev s) bn) < 2 ^ 32" using q by (simp_all add: quiet_def)
qed

text \<open>Reading a block and letting it go.\<close>

lemma look_block:
  fixes s :: "'z logst_scheme"
  assumes "in_txn dev p start sz bl s" "length bl < NBUF"
  shows "\<exists>b t u. bread dev bn s = Ok b t \<and> b_data (bufs t ! b) = st_view (cache_store dev s) bn \<and> brelse b t = Ok () u
    \<and> in_txn dev p start sz bl u \<and> cache_frame s u \<and> cache_store dev u = cache_store dev s"
proof -
  have i: "cache_inv dev p s" using assms(1) by (simp add: in_txn_def)
  note r = in_txn_room [OF assms, of bn]
  obtain b t where t: "bread dev bn s = Ok b t" "cache_inv dev p t" "cache_frame s t"
    "cache_store dev t = st_take bn (cache_store dev s)" "cache_at dev t b bn"
    using cached.rd [OF i r] by blast
  have g: "b_data (bufs t ! b) = st_view (cache_store dev s) bn" using cached.get [OF t(2,5)] by (simp add: t(4) st_take_def)
  have "1 < st_refs (cache_store dev t) bn \<or> st_view (cache_store dev t) bn = st_disk (cache_store dev t) bn"
    using cached.clean [OF i, of bn] by (auto simp: t(4) st_take_def)
  then obtain u where u: "brelse b t = Ok () u" "cache_inv dev p u" "cache_frame t u" "cache_store dev u = st_drop bn (cache_store dev t)"
    using cached.rel [OF t(2,5)] by (auto simp: t(4) st_take_def)
  have e: "cache_store dev u = cache_store dev s" using r(1) by (simp add: u(4) t(4) st_defs fun_upd_idem)
  have f: "cache_frame s u" using cache_frame_trans [OF t(3) u(3)] .
  then have "in_txn dev p start sz bl u" using assms(1) u(2) e by (auto simp: in_txn_def cache_frame_def)
  then show ?thesis using t(1) g u(1) e f by blast
qed

text \<open>Reading a block, changing it, adding it to the transaction and letting it go.\<close>

lemma log_block:
  fixes s :: "'z logst_scheme"
  assumes "in_txn dev p start sz bl s" "txn_room 1 bl (log s)" "bn \<notin> log_blocks start sz"
    "length (f (st_view (cache_store dev s) bn)) = BSIZE"
  shows "\<exists>b t. bread dev bn s = Ok b t \<and> b_data (bufs t ! b) = st_view (cache_store dev s) bn
    \<and> (\<exists>u. kdo [set_bdata b f, log_write b, brelse b] t = Ok () u \<and> in_txn dev p start sz (add_block bn bl) u
        \<and> st_view (cache_store dev u) = (st_view (cache_store dev s))(bn := f (st_view (cache_store dev s) bn))
        \<and> disk u = disk s \<and> log_size (log u) = log_size (log s))"
proof -
  have i: "cache_inv dev p s" "txn dev start sz bl (log s)" "L_log \<notin> set (held s)" "1 \<le> log_outstanding (log s)"
    "\<And>bn. bn \<in> set bl \<Longrightarrow> st_refs (cache_store dev s) bn = 1"
    using assms(1) by (simp_all add: in_txn_def)
  have n: "length bl < NBUF" "Suc (length bl) < NBUF" "length bl < LOGSIZE" "int (length bl) < sint (log_size (log s)) - 1"
    using assms(2) by (simp_all add: txn_room_def NBUF_def LOGSIZE_def)
  note r = in_txn_room [OF assms(1) n(1), of bn]
  have "{n. st_refs (cache_store dev s) n \<noteq> 0} \<subseteq> set bl" using assms(1) by (simp add: in_txn_def quiet_def)
  then have z: "st_refs (cache_store dev s) bn = (if bn \<in> set bl then 1 else 0)" using i(5) [of bn] by auto
  then have le1: "st_refs (cache_store dev s) bn \<le> 1" by simp
  obtain b t where t: "bread dev bn s = Ok b t" "cache_inv dev p t" "cache_frame s t"
    "cache_store dev t = st_take bn (cache_store dev s)" "cache_at dev t b bn"
    using cached.rd [OF i(1) r] by blast
  have g: "b_data (bufs t ! b) = st_view (cache_store dev s) bn" using cached.get [OF t(2,5)] by (simp add: t(4) st_take_def)
  have ft: "log t = log s" "held t = held s" using t(3) by (auto simp: cache_frame_def)
  obtain u where u: "set_bdata b f t = Ok () u" "cache_inv dev p u" "cache_frame t u" "cache_at dev u = cache_at dev t"
    "cache_store dev u = st_put bn (f (st_view (cache_store dev s) bn)) (cache_store dev t)"
    using cached.put [OF t(2,5), of f] assms(4) by (auto simp: t(4) st_take_def)
  have fu: "log u = log s" "held u = held s" using u(3) ft by (auto simp: cache_frame_def)
  obtain v where v: "log_write b u = Ok () v" "cache_inv dev p v" "cache_at dev v = cache_at dev u" "held v = held u"
    "txn dev start sz (add_block bn bl) (log v)"
    "cache_store dev v = (if bn \<in> set bl then cache_store dev u else st_pin bn (cache_store dev u))"
    using log_write_run [OF u(2), of start sz bl b bn] i n t(5) assms(3) le1 fu u(4)
    by (auto simp: u(5) t(4) st_put_def st_take_def add_block_def)
  have lv: "log_outstanding (log v) = log_outstanding (log s)" "log_size (log v) = log_size (log s)"
    using log_write_log(4) [OF v(1)] fu(1) by auto
  have s4: "st_refs (cache_store dev v) = (st_refs (cache_store dev s))(bn := 2)" "st_locked (cache_store dev v) bn"
    using z by (auto simp: v(6) u(5) t(4) st_defs)
  obtain w where w: "brelse b v = Ok () w" "cache_inv dev p w" "cache_frame v w" "cache_store dev w = st_drop bn (cache_store dev v)"
    using cached.rel [OF v(2), of b bn] t(5) u(4) v(3) s4 by auto
  have fw: "log w = log v" "held w = held s" using w(3) v(4) fu by (auto simp: cache_frame_def)
  have sw: "st_refs (cache_store dev w) = (st_refs (cache_store dev s))(bn := 1)"
    "st_locked (cache_store dev w) = st_locked (cache_store dev s)"
    "st_view (cache_store dev w) = (st_view (cache_store dev s))(bn := f (st_view (cache_store dev s) bn))"
    "st_disk (cache_store dev w) = st_disk (cache_store dev s)"
    using r(1) s4 by (auto simp: w(4) v(6) u(5) t(4) st_defs fun_upd_idem)
  have "in_txn dev p start sz (add_block bn bl) w"
    using assms(1) w(2) v(5) lv fw sw i(3,4) unfolding in_txn_def quiet_def by (auto simp: add_block_def)
  moreover have "disk w = disk s" using sw(4) by (simp add: cache_store_def)
  ultimately show ?thesis using t(1) g u(1) v(1) w(1) sw(3) lv fw
    by (intro exI [of _ b] exI [of _ t] conjI exI [of _ w]) (simp_all add: kseq_Ok)
qed

section \<open>The bitmap\<close>

lemma bit_used_bit: "bit_used d bi \<longleftrightarrow> bit (d ! (bi div 8)) (bi mod 8)"
  by (simp add: bit_used_def bmask_def bit_iff_and_push_bit_not_eq_0)

lemma mark_bits:
  assumes "bi < 8 * length d" "bj < 8 * length d"
  shows "bit_used (mark_used bi d) bj \<longleftrightarrow> bj = bi \<or> bit_used d bj"
    "bit_used (mark_free bi d) bj \<longleftrightarrow> bj \<noteq> bi \<and> bit_used d bj"
    "length (mark_used bi d) = length d" "length (mark_free bi d) = length d"
proof -
  have e: "bj = bi \<longleftrightarrow> bj div 8 = bi div 8 \<and> bj mod 8 = bi mod 8" by (metis mult_div_mod_eq)
  have l: "bi div 8 < length d" using assms(1) by linarith
  have m: "bit (bmask bi) k \<longleftrightarrow> k = bi mod 8" for k by (auto simp: bmask_def bit_exp_iff)
  have v: "bj mod 8 < 8" by simp
  show "bit_used (mark_used bi d) bj \<longleftrightarrow> bj = bi \<or> bit_used d bj"
    unfolding bit_used_bit mark_used_def e using l
    by (cases "bj div 8 = bi div 8") (auto simp: bit_or_iff m)
  show "bit_used (mark_free bi d) bj \<longleftrightarrow> bj \<noteq> bi \<and> bit_used d bj"
    unfolding bit_used_bit mark_free_def e using l v
    by (cases "bj div 8 = bi div 8") (auto simp: bit_and_iff bit_not_iff m)
qed (simp_all add: mark_used_def mark_free_def)

text \<open>Block \<open>x\<close> is in use, according to the bitmap blocks of the view \<open>v\<close>.\<close>

definition in_use :: "superblock \<Rightarrow> (u32 \<Rightarrow> u8 list) \<Rightarrow> nat \<Rightarrow> bool" where
  "in_use sp v x \<longleftrightarrow> bit_used (v (BBLOCK (of_nat x) sp)) (x mod BPB)"

lemma BPB_val: "BPB = 8192"
  by (simp add: BPB_def BSIZE_def)

lemma BBLOCK_nat: "x < 2 ^ 32 \<Longrightarrow> BBLOCK (of_nat x) sp = of_nat (x div BPB) + sb_bmapstart sp"
proof -
  assume "x < 2 ^ 32"
  then have "unat (of_nat x :: u32) = x" by (simp add: unat_of_nat take_bit_nat_eq_self)
  then have "unat (of_nat x div 8192 :: u32) = x div 8192" by (simp add: unat_div)
  moreover have "of_nat (unat (of_nat x div 8192 :: u32)) = (of_nat x div 8192 :: u32)" by simp
  ultimately have "of_nat x div 8192 = (of_nat (x div 8192) :: u32)" by (simp only:)
  then show ?thesis by (simp add: BBLOCK_def BPB_val)
qed

text \<open>The blocks of the bitmap are not those of the log, and a block that is not in use is neither.\<close>

definition bitmap_ok :: "u32 \<Rightarrow> nat \<Rightarrow> superblock \<Rightarrow> (u32 \<Rightarrow> u8 list) \<Rightarrow> bool" where
  "bitmap_ok start sz sp v \<longleftrightarrow> (\<forall>x < unat (sb_size sp). BBLOCK (of_nat x) sp \<notin> log_blocks start sz
     \<and> (\<not> in_use sp v x \<longrightarrow> of_nat x \<notin> log_blocks start sz \<and> (\<forall>y < unat (sb_size sp). BBLOCK (of_nat y) sp \<noteq> of_nat x)))"

lemma bzero_run:
  fixes s :: "'z fsst_scheme"
  assumes "in_txn dev p start sz bl s" "txn_room 1 bl (log s)" "bn \<notin> log_blocks start sz"
  shows "\<exists>u. bzero dev bn s = Ok () u \<and> in_txn dev p start sz (add_block bn bl) u
    \<and> st_view (cache_store dev u) = (st_view (cache_store dev s))(bn := replicate BSIZE 0)
    \<and> disk u = disk s \<and> sb u = sb s \<and> itable u = itable s"
proof -
  obtain b t u where t: "bread dev bn s = Ok b t" "kdo [set_bdata b (\<lambda>_. replicate BSIZE 0), log_write b, brelse b] t = Ok () u"
    "in_txn dev p start sz (add_block bn bl) u" "disk u = disk s"
    "st_view (cache_store dev u) = (st_view (cache_store dev s))(bn := replicate BSIZE 0)"
    using log_block [OF assms, of "\<lambda>_. replicate BSIZE 0"] by auto
  have z: "bzero dev bn s = Ok () u" using t(1,2) by (simp add: bzero_def kbind_Ok)
  have "keeps (\<lambda>s :: 'z fsst_scheme. (sb s, itable s)) (bzero dev bn)"
    unfolding bzero_def by (intro keeps fs_apart.apart keeps_log_write)
  from keepsD [OF this z] show ?thesis using t z by blast
qed

text \<open>One bitmap block of \<open>balloc\<close>: with no free bit, and with one.\<close>

definition group :: "superblock \<Rightarrow> nat \<Rightarrow> nat list" where
  "group sp b = [0..<min BPB (unat (sb_size sp) - b)]"

lemma balloc_loop_full:
  fixes s :: "'z fsst_scheme"
  assumes "in_txn dev p start sz bl s" "length bl < NBUF"
    "\<forall>bi \<in> set (group (sb s) b). bit_used (st_view (cache_store dev s) (BBLOCK (of_nat b) (sb s))) bi"
  shows "\<exists>u. balloc_loop dev (b # bs) s = balloc_loop dev bs u \<and> in_txn dev p start sz bl u \<and> cache_store dev u = cache_store dev s
    \<and> sb u = sb s \<and> itable u = itable s \<and> disk u = disk s \<and> log u = log s"
proof -
  let ?bb = "BBLOCK (of_nat b) (sb s)"
  obtain c t u where t: "bread dev ?bb s = Ok c t" "b_data (bufs t ! c) = st_view (cache_store dev s) ?bb" "brelse c t = Ok () u"
    "in_txn dev p start sz bl u" "cache_frame s u" "cache_store dev u = cache_store dev s"
    using look_block [OF assms(1,2), of ?bb] by blast
  have "first_index (\<lambda>bi. \<not> bit_used (st_view (cache_store dev s) ?bb) bi) (group (sb s) b) = None"
    using assms(3) by (simp add: first_index_None)
  then have "balloc_loop dev (b # bs) s = balloc_loop dev bs u"
    using t(1-3) by (simp add: group_def kbind_Ok kseq_Ok)
  moreover have "disk u = disk s" using arg_cong [OF t(6), of st_disk] by (simp add: cache_store_def)
  moreover have "sb u = sb s \<and> itable u = itable s \<and> log u = log s" using t(5) by (auto simp: cache_frame_def)
  ultimately show ?thesis using t(4,6) by blast
qed

lemma kdo_after: "kdo xs s = Ok u t \<Longrightarrow> kdo (xs @ ys) s = kdo ys t"
  by (induction xs arbitrary: s) (auto simp: kseq_eq_Ok kseq_Ok)

lemma balloc_loop_found:
  fixes s :: "'z fsst_scheme"
  assumes "in_txn dev p start sz bl s" "txn_room 2 bl (log s)" "x = b + bi" "bi < BPB" "x < unat (sb_size (sb s))"
    "BBLOCK (of_nat b) (sb s) = bb" "bb \<notin> log_blocks start sz" "of_nat x \<notin> log_blocks start sz" "bb \<noteq> of_nat x"
    "\<not> bit_used (st_view (cache_store dev s) bb) bi" "\<forall>bj < bi. bit_used (st_view (cache_store dev s) bb) bj"
  shows "\<exists>u. balloc_loop dev (b # bs) s = Ok (of_nat x) u \<and> in_txn dev p start sz (add_block (of_nat x) (add_block bb bl)) u
    \<and> st_view (cache_store dev u) = (st_view (cache_store dev s))
        (bb := mark_used bi (st_view (cache_store dev s) bb), of_nat x := replicate BSIZE 0)
    \<and> disk u = disk s \<and> sb u = sb s \<and> itable u = itable s"
proof -
  let ?v = "st_view (cache_store dev s)"
  have i: "cache_inv dev p s" using assms(1) by (simp add: in_txn_def)
  have r: "txn_room 1 bl (log s)" using assms(2) by (simp add: txn_room_def)
  have f: "first_index (\<lambda>bi. \<not> bit_used (?v bb) bi) (group (sb s) b) = Some bi"
    using assms(3-5,10,11) by (simp add: first_index_Some group_def)
  have ml: "length (mark_used bi (?v bb)) = BSIZE" using cache_size [OF i] by (simp add: mark_used_def)
  obtain c t u where t: "bread dev bb s = Ok c t" "b_data (bufs t ! c) = ?v bb"
    "kdo [set_bdata c (mark_used bi), log_write c, brelse c] t = Ok () u"
    "in_txn dev p start sz (add_block bb bl) u" "disk u = disk s" "log_size (log u) = log_size (log s)"
    "st_view (cache_store dev u) = ?v(bb := mark_used bi (?v bb))"
    using log_block [where f = "mark_used bi", OF assms(1) r assms(7) ml] by blast
  have "keeps (\<lambda>s :: 'z fsst_scheme. (sb s, itable s)) (bread dev bb)"
    "keeps (\<lambda>s :: 'z fsst_scheme. (sb s, itable s)) (kdo [set_bdata c (mark_used bi), log_write c, brelse c])"
    by (intro keeps fs_apart.apart keeps_log_write)+
  from keepsD [OF this(1) t(1)] keepsD [OF this(2) t(3)] have k: "sb u = sb s" "itable u = itable s" by simp_all
  have "length (add_block bb bl) \<le> Suc (length bl)" by (simp add: add_block_def)
  then have "txn_room 1 (add_block bb bl) (log u)" using assms(2) t(6) by (auto simp: txn_room_def)
  from bzero_run [OF t(4) this assms(8)] obtain w where w: "bzero dev (of_nat x) u = Ok () w"
    "in_txn dev p start sz (add_block (of_nat x) (add_block bb bl)) w" "disk w = disk u" "sb w = sb u" "itable w = itable u"
    "st_view (cache_store dev w) = (st_view (cache_store dev u))(of_nat x := replicate BSIZE 0)" by blast
  have "kdo [set_bdata c (mark_used bi), log_write c, brelse c, bzero dev (of_nat x)] t = Ok () w"
    using kdo_after [OF t(3), of "[bzero dev (of_nat x)]"] w(1) by (simp add: kseq_Ok)
  then have "balloc_loop dev (b # bs) s = Ok (of_nat x) w"
    using t(1,2) f assms(3,6) by (simp add: group_def kbind_Ok kseq_Ok del: kdo.simps of_nat_add)
  then show ?thesis using w t(5,7) k by (intro exI [of _ w]) simp
qed

lemma size32: "unat (sb_size (sb s)) < 2 ^ 32"
  using unsigned_less [of "sb_size (sb s)"] by simp

lemma balloc_loop_run:
  fixes s :: "'z fsst_scheme"
  assumes "in_txn dev p start sz bl s" "txn_room 2 bl (log s)" "bitmap_ok start sz (sb s) (st_view (cache_store dev s))"
    "x < unat (sb_size (sb s))" "\<not> in_use (sb s) (st_view (cache_store dev s)) x"
    "\<forall>y < x. in_use (sb s) (st_view (cache_store dev s)) y" "k \<le> x div BPB" "x div BPB < K"
  shows "\<exists>u. balloc_loop dev (map (\<lambda>k. k * BPB) [k..<K]) s = Ok (of_nat x) u
    \<and> in_txn dev p start sz (add_block (of_nat x) (add_block (BBLOCK (of_nat x) (sb s)) bl)) u
    \<and> st_view (cache_store dev u) = (st_view (cache_store dev s))
        (BBLOCK (of_nat x) (sb s) := mark_used (x mod BPB) (st_view (cache_store dev s) (BBLOCK (of_nat x) (sb s))),
         of_nat x := replicate BSIZE 0)
    \<and> disk u = disk s \<and> sb u = sb s \<and> itable u = itable s"
  using assms
proof (induction "x div BPB - k" arbitrary: k s)
  case 0
  let ?b = "k * BPB" and ?bb = "BBLOCK (of_nat x) (sb s)" and ?v = "st_view (cache_store dev s)"
  have x32: "x < 2 ^ 32" using 0(5) size32 [of s] by simp
  have k: "k = x div BPB" using 0(1,8) by simp
  have x: "x = ?b + x mod BPB" "x mod BPB < BPB" unfolding k by (simp_all add: BPB_val)
  have l: "map (\<lambda>k. k * BPB) [k..<K] = ?b # map (\<lambda>k. k * BPB) [Suc k..<K]" using 0(9) k by (simp add: upt_conv_Cons)
  have g: "BBLOCK (of_nat (?b + j)) (sb s) = ?bb" if "j < BPB" "?b + j \<le> x" for j
    using that x32 BBLOCK_nat [of "?b + j" "sb s"] BBLOCK_nat [of x "sb s"] k by (simp add: BPB_val)
  have m: "\<forall>bj < x mod BPB. bit_used (?v ?bb) bj"
  proof (intro allI impI)
    fix bj assume "bj < x mod BPB"
    moreover then have "?b + bj < x" "bj < BPB" using x by linarith+
    ultimately show "bit_used (?v ?bb) bj" using 0(7) g [of bj] by (auto simp: in_use_def BPB_val)
  qed
  have bo: "?bb \<notin> log_blocks start sz" "of_nat x \<notin> log_blocks start sz" "?bb \<noteq> of_nat x"
    using 0(4,5,6) by (auto simp: bitmap_ok_def)
  have gb: "BBLOCK (of_nat ?b) (sb s) = ?bb" using g [of 0] x by simp
  have "\<not> bit_used (?v ?bb) (x mod BPB)" using 0(6) by (simp add: in_use_def)
  then show ?case unfolding l by (rule balloc_loop_found [OF 0(2,3) x 0(5) gb bo _ m])
next
  case (Suc d)
  let ?b = "k * BPB" and ?v = "st_view (cache_store dev s)"
  have x32: "x < 2 ^ 32" using Suc(6) size32 [of s] by simp
  have k: "Suc k \<le> x div BPB" "d = x div BPB - Suc k" using Suc(2) by linarith+
  have "Suc k * BPB \<le> x div BPB * BPB" using k(1) by (intro mult_le_mono1)
  from order_trans [OF this div_times_less_eq_dividend] have bx: "?b + BPB \<le> x" by simp
  have l: "map (\<lambda>k. k * BPB) [k..<K] = ?b # map (\<lambda>k. k * BPB) [Suc k..<K]" using Suc(9,10) by (simp add: upt_conv_Cons)
  have "\<forall>bi \<in> set (group (sb s) ?b). bit_used (?v (BBLOCK (of_nat ?b) (sb s))) bi"
  proof
    fix bi assume "bi \<in> set (group (sb s) ?b)"
    then have bi: "bi < BPB" "?b + bi < x" using bx by (simp_all add: group_def)
    have "BBLOCK (of_nat (?b + bi)) (sb s) = BBLOCK (of_nat ?b) (sb s)"
      using bi x32 BBLOCK_nat [of "?b + bi" "sb s"] BBLOCK_nat [of ?b "sb s"] by (simp add: BPB_val)
    then show "bit_used (?v (BBLOCK (of_nat ?b) (sb s))) bi" using Suc(8) bi by (auto simp: in_use_def BPB_val)
  qed
  moreover have "length bl < NBUF" using Suc(4) by (simp add: txn_room_def)
  ultimately obtain u where u: "balloc_loop dev (map (\<lambda>k. k * BPB) [k..<K]) s = balloc_loop dev (map (\<lambda>k. k * BPB) [Suc k..<K]) u"
    "in_txn dev p start sz bl u" "cache_store dev u = cache_store dev s" "sb u = sb s" "itable u = itable s" "disk u = disk s" "log u = log s"
    using balloc_loop_full [OF Suc(3), of ?b] unfolding l by blast
  show ?case unfolding u(1)
    using Suc(1) [OF k(2) u(2)] Suc(4-8,10) k(1) by (simp add: u)
qed

text \<open>C34. \<open>balloc\<close>, called in a transaction on a disk with a free block, returns the free block with the lowest
  number. The block is marked in use in the bitmap and filled with zeros, no other block changes, and
  both changes are part of the transaction; nothing is written to the disk before it commits.\<close>

theorem balloc_first_free:
  fixes s :: "'z fsst_scheme"
  assumes "in_txn dev p start sz bl s" "txn_room 2 bl (log s)" "bitmap_ok start sz (sb s) (st_view (cache_store dev s))"
    "x < unat (sb_size (sb s))" "\<not> in_use (sb s) (st_view (cache_store dev s)) x"
    "\<forall>y < x. in_use (sb s) (st_view (cache_store dev s)) y"
  shows "\<exists>u. balloc dev s = Ok (of_nat x) u \<and> in_use (sb u) (st_view (cache_store dev u)) x
    \<and> (\<forall>y < unat (sb_size (sb s)). y \<noteq> x \<longrightarrow>
         in_use (sb u) (st_view (cache_store dev u)) y = in_use (sb s) (st_view (cache_store dev s)) y)
    \<and> st_view (cache_store dev u) (of_nat x) = replicate BSIZE 0
    \<and> (\<forall>bn. bn \<noteq> of_nat x \<longrightarrow> bn \<noteq> BBLOCK (of_nat x) (sb s) \<longrightarrow>
         st_view (cache_store dev u) bn = st_view (cache_store dev s) bn)
    \<and> in_txn dev p start sz (add_block (of_nat x) (add_block (BBLOCK (of_nat x) (sb s)) bl)) u \<and> disk u = disk s"
proof -
  let ?v = "st_view (cache_store dev s)" and ?bb = "BBLOCK (of_nat x) (sb s)" and ?K = "(unat (sb_size (sb s)) + BPB - 1) div BPB"
  have "x div BPB < ?K" using assms(4) by (simp add: BPB_val)
  from balloc_loop_run [OF assms le0 this] obtain u where u: "balloc dev s = Ok (of_nat x) u"
    "in_txn dev p start sz (add_block (of_nat x) (add_block ?bb bl)) u" "disk u = disk s" "sb u = sb s"
    "st_view (cache_store dev u) = ?v(?bb := mark_used (x mod BPB) (?v ?bb), of_nat x := replicate BSIZE 0)"
    by (auto simp: balloc_def)
  have len: "length (?v ?bb) = BSIZE" using assms(1) cache_size by (auto simp: in_txn_def)
  have use: "in_use (sb u) (st_view (cache_store dev u)) y \<longleftrightarrow> y = x \<or> in_use (sb s) ?v y" if y: "y < unat (sb_size (sb s))" for y
  proof -
    have y32: "y < 2 ^ 32" "x < 2 ^ 32" using y assms(4) size32 [of s] by simp_all
    have ne: "BBLOCK (of_nat y) (sb s) \<noteq> of_nat x" using assms(3-5) y by (auto simp: bitmap_ok_def)
    show ?thesis
    proof (cases "BBLOCK (of_nat y) (sb s) = ?bb")
      case True
      then have "(of_nat (y div BPB) :: u32) = of_nat (x div BPB)" using BBLOCK_nat y32 by simp
      moreover have "unat (of_nat (y div BPB) :: u32) = y div BPB" "unat (of_nat (x div BPB) :: u32) = x div BPB"
        using y32 by (simp_all add: BPB_val unat_of_nat take_bit_nat_eq_self)
      ultimately have "y div BPB = x div BPB" by metis
      then have "y mod BPB = x mod BPB \<longleftrightarrow> y = x" by (metis mult_div_mod_eq)
      then show ?thesis
        using True ne u(4,5) len mark_bits(1) [of "x mod BPB" "?v ?bb" "y mod BPB"] by (auto simp: in_use_def BPB_val BSIZE_def)
    next
      case False
      then show ?thesis using ne u(4,5) by (auto simp: in_use_def)
    qed
  qed
  show ?thesis using u use [OF assms(4)] use by (intro exI [of _ u]) simp
qed

text \<open>A small disk: eight blocks, the bitmap in block 1, and the first two blocks in use.\<close>

definition fs0 :: fsst where
  "fs0 = logst.extend (cache0 (\<lambda>bn. if bn = 1 then 3 # replicate 1023 0 else replicate BSIZE 0) bufs0
       \<lparr>log := (log logst0)\<lparr>log_start := 100, log_outstanding := 1\<rparr>\<rparr>)
     (fsst.fields ((sb fsst0)\<lparr>sb_size := 8, sb_bmapstart := 1\<rparr>) (itable fsst0))"

lemma cache_extend [simp]:
  "cache_inv dev p (logst.extend s x) = cache_inv dev p s" "cache_store dev (logst.extend s x) = cache_store dev s"
  by (simp_all add: cache_inv_def wake_ready_def cache_store_def logst.defs)

lemma logst0_log: "log logst0 = \<lparr>log_start = 2, log_size = 30, log_outstanding = 0, log_committing = False, log_dev = 1,
     lh_n = 0, lh_block = replicate LOGSIZE 0\<rparr>"
  by (simp add: logst0_defs)

lemma fs0_simps:
  "sb fs0 = (sb fsst0)\<lparr>sb_size := 8, sb_bmapstart := 1\<rparr>" "held fs0 = []"
  "log fs0 = (log logst0)\<lparr>log_start := 100, log_outstanding := 1\<rparr>"
  by (simp_all add: fs0_def logst.defs fsst.defs)

lemma fs0_ready:
  "in_txn 1 0 100 30 [] fs0" "st_view (cache_store 1 fs0) = (\<lambda>bn. if bn = 1 then 3 # replicate 1023 0 else replicate BSIZE 0)"
proof -
  let ?d = "\<lambda>bn :: u32. if bn = 1 then 3 # replicate 1023 0 else replicate BSIZE (0 :: u8)"
  note c = cache0_inv [of ?d]
  have l: "length (?d bn) = BSIZE" for bn by (simp add: BSIZE_def)
  have q: "quiet {} (cache_store 1 (cache0 ?d bufs0))" using c(2,3) l by (simp add: quiet_def)
  show "st_view (cache_store 1 fs0) = ?d"
    using quiet_empty_view [OF c(1) q] l by (simp add: fs0_def)
  have "cache_inv 1 0 fs0" "quiet {} (cache_store 1 fs0)" using c(1) q l by (simp_all add: fs0_def)
  then show "in_txn 1 0 100 30 [] fs0" by (simp add: in_txn_def fs0_simps txn_def logst0_log)
qed

theorem balloc_first_free_witness:
  "\<exists>u. balloc 1 fs0 = Ok 2 u \<and> in_use (sb u) (st_view (cache_store 1 u)) 2
     \<and> st_view (cache_store 1 u) 2 = replicate BSIZE 0"
proof -
  have bb: "BBLOCK (of_nat x) (sb fs0) = 1" if "x < 8" for x
    using BBLOCK_nat [of x "sb fs0"] that by (simp add: fs0_simps BPB_val)
  have use: "in_use (sb fs0) (st_view (cache_store 1 fs0)) x \<longleftrightarrow> x < 2" if "x < 8" for x
  proof -
    have "bit (3 :: u8) x \<longleftrightarrow> x < 2" using bit_mask_iff [of 2 x, where 'a = u8] that by (simp add: mask_eq_exp_minus_1)
    then show ?thesis using that by (simp add: in_use_def bb bit_used_bit BPB_val fs0_ready(2))
  qed
  have n8: "unat (sb_size (sb fs0)) = 8" by (simp add: fs0_simps)
  have nl: "of_nat x \<notin> log_blocks 100 30" if "x < 8" for x
  proof
    assume "of_nat x \<in> log_blocks 100 30"
    then obtain i where i: "i < 30" "(of_nat x :: u32) = 100 + of_nat i" by (auto simp: log_blocks_def LOGSIZE_def MAXOPBLOCKS_def)
    have "unat (of_nat x :: u32) = x" "unat (100 + of_nat i :: u32) = 100 + i"
      using that i(1) by (simp_all add: unat_of_nat take_bit_nat_eq_self unat_word_ariths)
    then show False using i(2) that by simp
  qed
  have ok: "bitmap_ok 100 30 (sb fs0) (st_view (cache_store 1 fs0))"
    unfolding bitmap_ok_def n8
  proof (intro allI impI conjI)
    fix x :: nat assume x: "x < 8"
    show "BBLOCK (of_nat x) (sb fs0) \<notin> log_blocks 100 30" using nl [of 1] by (simp add: bb x)
    show "of_nat x \<notin> log_blocks 100 30" using nl x .
    fix y :: nat assume "y < 8" "\<not> in_use (sb fs0) (st_view (cache_store 1 fs0)) x"
    then have "2 \<le> x" using use x by simp
    then have "unat (of_nat x :: u32) \<noteq> unat (1 :: u32)" using x by (simp add: unat_of_nat take_bit_nat_eq_self)
    then show "BBLOCK (of_nat y) (sb fs0) \<noteq> of_nat x" using bb [OF \<open>y < 8\<close>] by metis
  qed
  have "txn_room 2 [] (log fs0)" by (simp add: txn_room_def fs0_simps logst0_log NBUF_def MAXOPBLOCKS_def)
  from balloc_first_free [OF fs0_ready(1) this ok, of 2] show ?thesis
    using use n8 by auto
qed

end
