(* ===== verification/File.thy ===== *)
theory File
  imports Pipe
begin

text \<open>
  \<open>kernel/file.c\<close> and \<open>kernel/file.h\<close>: the table of open files, and \<open>pipealloc\<close> of \<open>kernel/pipe.c\<close>. A file is named
  by its index in \<open>ftable.file\<close>. The padding bytes that \<open>filestat\<close> copies out with \<open>struct stat\<close> are
  whatever the kernel stack held (\<open>stack_bytes\<close>).
\<close>

datatype fdtype = FD_NONE | FD_PIPE | FD_INODE | FD_DEVICE

definition NFILE :: nat where "NFILE = 100"

record kfile =
  f_type :: fdtype
  f_ref :: int
  f_readable :: bool
  f_writable :: bool
  f_pipe :: u64
  f_ip :: nat
  f_off :: u32
  f_major :: u16

record filest = pipest +
  ftable :: "kfile list"
  stack_bytes :: "u8 list"

abbreviation fget :: "nat \<Rightarrow> (kfile \<Rightarrow> 'a) \<Rightarrow> ('z filest_scheme, 'a) km" where
  "fget f g \<equiv> kget (\<lambda>s. g (ftable s ! f))"

abbreviation fset :: "nat \<Rightarrow> (kfile \<Rightarrow> kfile) \<Rightarrow> ('z filest_scheme, unit) km" where
  "fset f g \<equiv> kmodify (\<lambda>s. s\<lparr>ftable := (ftable s)[f := g (ftable s ! f)]\<rparr>)"

definition filealloc :: "('z filest_scheme, nat option) km" where
  "filealloc =
     kseq (acquire L_ftable)
    (kbind (kget (\<lambda>s. first_index (\<lambda>f. f_ref f = 0) (ftable s))) (\<lambda>found. case found of
       Some f \<Rightarrow> kseq (kdo [fset f (\<lambda>x. x\<lparr>f_ref := 1\<rparr>), release L_ftable]) (kreturn (Some f))
     | None \<Rightarrow> kseq (release L_ftable) (kreturn None)))"

definition filedup :: "nat \<Rightarrow> ('z filest_scheme, nat) km" where
  "filedup f =
     kseq (acquire L_ftable)
    (kbind (fget f f_ref) (\<lambda>ref.
     if ref < 1 then panic ''filedup''
     else kseq (kdo [fset f (\<lambda>x. x\<lparr>f_ref := f_ref x + 1\<rparr>), release L_ftable]) (kreturn f)))"

definition fileclose :: "nat \<Rightarrow> ('z filest_scheme, unit) km" where
  "fileclose f =
     kseq (acquire L_ftable)
    (kbind (fget f f_ref) (\<lambda>ref.
     if ref < 1 then panic ''fileclose''
     else
       kseq (fset f (\<lambda>x. x\<lparr>f_ref := f_ref x - 1\<rparr>))
      (kbind (fget f (\<lambda>x. x)) (\<lambda>ff.
       if f_ref ff > 0 then release L_ftable
       else
         kseq (kdo [fset f (\<lambda>x. x\<lparr>f_ref := 0, f_type := FD_NONE\<rparr>), release L_ftable])
        (if f_type ff = FD_PIPE then pipeclose (f_pipe ff) (f_writable ff)
         else if f_type ff = FD_INODE \<or> f_type ff = FD_DEVICE then kdo [begin_op, iput (f_ip ff), end_op]
         else kreturn ())))))"

definition stat_bytes :: "u8 list \<Rightarrow> stat \<Rightarrow> u8 list" where
  "stat_bytes pad st = le_bytes 4 (st_dev st) @ le_bytes 4 (st_ino st) @ le_bytes 2 (st_type st) @
     le_bytes 2 (st_nlink st) @ take 4 pad @ le_bytes 8 (st_size st)"

definition filestat :: "nat \<Rightarrow> u64 \<Rightarrow> ('z filest_scheme, int) km" where
  "filestat f addr =
     kbind this_proc (\<lambda>p.
     kbind (fget f (\<lambda>x. x)) (\<lambda>ff.
     if f_type ff = FD_INODE \<or> f_type ff = FD_DEVICE then
       kseq (ilock (f_ip ff))
      (kbind (stati (f_ip ff)) (\<lambda>st.
       kseq (iunlock (f_ip ff))
      (kbind (kget (\<lambda>s. (stack_bytes s, p_pagetable (procs s ! p)))) (\<lambda>(pad, pt).
       kbind (copyout pt addr (stat_bytes pad st)) (\<lambda>r.
       if r < 0 then kreturn (- 1) else kreturn 0)))))
     else kreturn (- 1)))"

definition fileread :: "nat \<Rightarrow> u64 \<Rightarrow> int \<Rightarrow> ('z filest_scheme, int) km" where
  "fileread f addr n =
     kbind (fget f (\<lambda>x. x)) (\<lambda>ff.
     if \<not> f_readable ff then kreturn (- 1)
     else case f_type ff of
       FD_PIPE \<Rightarrow> piperead (f_pipe ff) addr n
     | FD_DEVICE \<Rightarrow>
         if sint (f_major ff) < 0 \<or> sint (f_major ff) \<ge> int NDEV then kreturn (- 1)
         else kbind (kget (\<lambda>s. dev_read (devsw s ! unat (f_major ff)))) (\<lambda>d. case d of
           None \<Rightarrow> kreturn (- 1)
         | Some Consoleread \<Rightarrow> consoleread (User addr) n)
     | FD_INODE \<Rightarrow>
         kseq (ilock (f_ip ff))
        (kbind (readi (f_ip ff) (User addr) (f_off ff) (of_int n)) (\<lambda>(r, _).
         kseq (kwhen (r > 0) (fset f (\<lambda>x. x\<lparr>f_off := f_off x + of_int r\<rparr>)))
        (kseq (iunlock (f_ip ff))
        (kreturn r))))
     | FD_NONE \<Rightarrow> panic ''fileread'')"

text \<open>The loop of \<open>filewrite\<close> on an inode, which writes at most \<open>((MAXOPBLOCKS-1-1-2)/2)*BSIZE\<close> bytes per
  transaction; it returns how far it got.\<close>

definition WRITE_MAX :: int where "WRITE_MAX = int ((MAXOPBLOCKS - 1 - 1 - 2) div 2 * BSIZE)"

primrec filewrite_loop :: "nat \<Rightarrow> nat \<Rightarrow> u64 \<Rightarrow> int \<Rightarrow> int \<Rightarrow> ('z filest_scheme, int) km" where
  "filewrite_loop 0 f addr n i = kspin"
| "filewrite_loop (Suc k) f addr n i =
     (if i < n then
        let n1 = min (n - i) WRITE_MAX in
        kbind (fget f f_ip) (\<lambda>ip.
        kseq (kdo [begin_op, ilock ip])
       (kbind (fget f f_off) (\<lambda>off.
        kbind (writei ip (User (addr + of_int i)) off (of_int n1)) (\<lambda>r.
        kseq (kdo [kwhen (r > 0) (fset f (\<lambda>x. x\<lparr>f_off := f_off x + of_int r\<rparr>)), iunlock ip, end_op])
       (if r \<noteq> n1 then kreturn i else filewrite_loop k f addr n (i + r))))))
      else kreturn i)"

definition filewrite :: "nat \<Rightarrow> u64 \<Rightarrow> int \<Rightarrow> ('z filest_scheme, int) km" where
  "filewrite f addr n =
     kbind (fget f (\<lambda>x. x)) (\<lambda>ff.
     if \<not> f_writable ff then kreturn (- 1)
     else case f_type ff of
       FD_PIPE \<Rightarrow> pipewrite (f_pipe ff) addr n
     | FD_DEVICE \<Rightarrow>
         if sint (f_major ff) < 0 \<or> sint (f_major ff) \<ge> int NDEV then kreturn (- 1)
         else kbind (kget (\<lambda>s. dev_write (devsw s ! unat (f_major ff)))) (\<lambda>d. case d of
           None \<Rightarrow> kreturn (- 1)
         | Some Consolewrite \<Rightarrow> consolewrite (User addr) n)
     | FD_INODE \<Rightarrow>
         kbind (filewrite_loop (Suc (Suc (nat (n div WRITE_MAX)))) f addr n 0) (\<lambda>i.
         kreturn (if i = n then n else - 1))
     | FD_NONE \<Rightarrow> panic ''filewrite'')"

definition fileopencount :: "('z filest_scheme, int) km" where
  "fileopencount =
     kseq (acquire L_ftable)
    (kbind (kget (\<lambda>s. int (length (filter (\<lambda>f. f_ref f > 0) (ftable s))))) (\<lambda>count.
     kseq (release L_ftable)
    (kreturn count)))"

section \<open>pipealloc\<close>

text \<open>The error exit of \<open>pipealloc\<close>, reached before the pipe itself is allocated.\<close>

definition pipealloc_bad :: "nat option \<Rightarrow> nat option \<Rightarrow> ('z filest_scheme, (nat \<times> nat) option) km" where
  "pipealloc_bad f0 f1 = kseq (kdo
     [case f0 of None \<Rightarrow> kreturn () | Some f \<Rightarrow> fileclose f,
      case f1 of None \<Rightarrow> kreturn () | Some f \<Rightarrow> fileclose f])
     (kreturn None)"

definition pipealloc :: "('z filest_scheme, (nat \<times> nat) option) km" where
  "pipealloc =
     kbind filealloc (\<lambda>f0. case f0 of None \<Rightarrow> pipealloc_bad None None | Some r \<Rightarrow>
     kbind filealloc (\<lambda>f1. case f1 of None \<Rightarrow> pipealloc_bad (Some r) None | Some w \<Rightarrow>
     kbind kalloc (\<lambda>pi.
     if pi = 0 then pipealloc_bad (Some r) (Some w)
     else kseq (kdo
       [piset pi (\<lambda>q. q\<lparr>pi_readopen := True, pi_writeopen := True, pi_nwrite := 0, pi_nread := 0\<rparr>),
        fset r (\<lambda>x. x\<lparr>f_type := FD_PIPE, f_readable := True, f_writable := False, f_pipe := pi\<rparr>),
        fset w (\<lambda>x. x\<lparr>f_type := FD_PIPE, f_readable := False, f_writable := True, f_pipe := pi\<rparr>)])
       (kreturn (Some (r, w))))))"

end
