(* ===== verification/Args.thy ===== *)
theory Args
  imports Proc
begin

text \<open>
  System call arguments, from \<open>kernel/syscall.c\<close>: they are in the saved registers of the calling process,
  and pointers among them are checked when they are used.
\<close>

definition argraw :: "nat \<Rightarrow> ('z ptable_scheme, u64) km" where
  "argraw n = kbind this_proc (\<lambda>p.
     if n = 0 then tf_get p TF_a0
     else if n = 1 then tf_get p TF_a1
     else if n = 2 then tf_get p TF_a2
     else if n = 3 then tf_get p TF_a3
     else if n = 4 then tf_get p TF_a4
     else if n = 5 then tf_get p TF_a5
     else panic ''argraw'')"

definition argint :: "nat \<Rightarrow> ('z ptable_scheme, int) km" where
  "argint n = kbind (argraw n) (\<lambda>x. kreturn (sint (ucast x :: u32)))"

definition argaddr :: "nat \<Rightarrow> ('z ptable_scheme, u64) km" where
  "argaddr n = argraw n"

text \<open>\<open>fetchaddr\<close> returns the word with its status.\<close>

definition fetchaddr :: "u64 \<Rightarrow> ('z ptable_scheme, int \<times> u64) km" where
  "fetchaddr addr =
     kbind this_proc (\<lambda>p.
     kbind (pget p (\<lambda>q. (p_pagetable q, p_sz q))) (\<lambda>(pt, sz).
     if addr \<ge> sz \<or> addr + 8 > sz then kreturn (- 1, 0)
     else kbind (copyin pt addr 8) (\<lambda>(r, bs).
       if r \<noteq> 0 then kreturn (- 1, 0) else kreturn (0, le_word bs))))"

text \<open>\<open>fetchstr\<close> returns what it has put into the buffer with the length of the string.\<close>

definition fetchstr :: "u64 \<Rightarrow> nat \<Rightarrow> ('z ptable_scheme, int \<times> u8 list) km" where
  "fetchstr addr n =
     kbind this_proc (\<lambda>p.
     kbind (pget p p_pagetable) (\<lambda>pt.
     kbind (copyinstr pt addr n) (\<lambda>(r, bs).
     if r < 0 then kreturn (- 1, bs)
     else kbind (kopt (strlen bs)) (\<lambda>l. kreturn (int l, bs)))))"

definition argstr :: "nat \<Rightarrow> nat \<Rightarrow> ('z ptable_scheme, int \<times> u8 list) km" where
  "argstr n len = kbind (argaddr n) (\<lambda>addr. fetchstr addr len)"

end
