(* ===== verification/Exec.thy ===== *)
theory Exec
  imports File Args
begin

text \<open>
  \<open>kernel/exec.c\<close>: replacing the image of a process by a program from the file system. The argument strings
  are in pages of physical memory, as \<open>sys_exec\<close> has allocated them.
\<close>

unbundle bit_operations_syntax

definition ELF_MAGIC :: u32 where "ELF_MAGIC = 0x464C457F"
definition ELF_PROG_LOAD :: u32 where "ELF_PROG_LOAD = 1"
definition MAXARG :: nat where "MAXARG = 32"
definition USERSTACK :: u64 where "USERSTACK = 1"
definition ELFHDR_SIZE :: nat where "ELFHDR_SIZE = 64"
definition PROGHDR_SIZE :: nat where "PROGHDR_SIZE = 56"

text \<open>The fields of \<open>struct elfhdr\<close> and \<open>struct proghdr\<close> that the kernel reads.\<close>

record elfhdr =
  elf_magic :: u32
  elf_entry :: u64
  elf_phoff :: u64
  elf_phnum :: u16

record proghdr =
  ph_type :: u32
  ph_flags :: u32
  ph_off :: u64
  ph_vaddr :: u64
  ph_filesz :: u64
  ph_memsz :: u64

definition parse_elfhdr :: "u8 list \<Rightarrow> elfhdr" where
  "parse_elfhdr d = \<lparr>elf_magic = get32 d 0, elf_entry = get_word 8 d 24, elf_phoff = get_word 8 d 32, elf_phnum = get16 d 56\<rparr>"

definition parse_proghdr :: "u8 list \<Rightarrow> proghdr" where
  "parse_proghdr d = \<lparr>ph_type = get32 d 0, ph_flags = get32 d 4, ph_off = get_word 8 d 8, ph_vaddr = get_word 8 d 16,
     ph_filesz = get_word 8 d 32, ph_memsz = get_word 8 d 40\<rparr>"

definition flags2perm :: "u32 \<Rightarrow> u64" where
  "flags2perm flags = (if flags AND 1 \<noteq> 0 then PTE_X else 0) OR (if flags AND 2 \<noteq> 0 then PTE_W else 0)"

text \<open>The loop of \<open>loadseg\<close> over the page offsets. The offset is a natural number: the segment lies in the address space that
  \<open>uvmalloc\<close> made, and has fewer than \<open>2 ^ 32 - 4096\<close> bytes.\<close>

primrec loadseg_loop :: "u64 \<Rightarrow> u64 \<Rightarrow> nat \<Rightarrow> u32 \<Rightarrow> u32 \<Rightarrow> nat list \<Rightarrow> ('z fsst_scheme, int) km" where
  "loadseg_loop pagetable va ip offset sz [] = kreturn 0"
| "loadseg_loop pagetable va ip offset sz (i # is) =
     kbind (walkaddr pagetable (va + of_nat i)) (\<lambda>pa.
     if pa = 0 then panic ''loadseg: address should exist''
     else let n = min (unat sz - i) 4096 in
       kbind (readi ip (Kern pa) (offset + of_nat i) (of_nat n)) (\<lambda>(r, _).
       if r \<noteq> int n then kreturn (- 1) else loadseg_loop pagetable va ip offset sz is))"

definition loadseg :: "u64 \<Rightarrow> u64 \<Rightarrow> nat \<Rightarrow> u32 \<Rightarrow> u32 \<Rightarrow> ('z fsst_scheme, int) km" where
  "loadseg pagetable va ip offset sz =
     loadseg_loop pagetable va ip offset sz (map (\<lambda>k. k * 4096) [0..<(unat sz + 4095) div 4096])"

text \<open>The loading loop of \<open>exec\<close>: \<open>k\<close> program headers to go from file offset \<open>off\<close>. \<open>Inl\<close> is a jump to \<open>bad\<close>; both
  carry the size reached.\<close>

primrec exec_load :: "nat \<Rightarrow> u64 \<Rightarrow> nat \<Rightarrow> u32 \<Rightarrow> u64 \<Rightarrow> ('z fsst_scheme, u64 + u64) km" where
  "exec_load 0 pagetable ip off sz = kreturn (Inr sz)"
| "exec_load (Suc k) pagetable ip off sz =
     kbind (readi ip (Local []) off (of_nat PROGHDR_SIZE)) (\<lambda>(r, d).
     if r \<noteq> int PROGHDR_SIZE then kreturn (Inl sz)
     else let ph = parse_proghdr d; rest = exec_load k pagetable ip (off + of_nat PROGHDR_SIZE) in
       if ph_type ph \<noteq> ELF_PROG_LOAD then rest sz
       else if ph_memsz ph < ph_filesz ph then kreturn (Inl sz)
       else if ph_vaddr ph + ph_memsz ph < ph_vaddr ph then kreturn (Inl sz)
       else if ph_vaddr ph mod PGSIZE \<noteq> 0 then kreturn (Inl sz)
       else kbind (uvmalloc pagetable sz (ph_vaddr ph + ph_memsz ph) (flags2perm (ph_flags ph))) (\<lambda>sz1.
         if sz1 = 0 then kreturn (Inl sz)
         else kbind (loadseg pagetable (ph_vaddr ph) ip (ucast (ph_off ph)) (ucast (ph_filesz ph))) (\<lambda>r.
           if r < 0 then kreturn (Inl sz1) else rest sz1)))"

text \<open>Pushing the argument strings: from the remaining argument pointers, \<open>sp\<close> and the stack pointers
  pushed so far; \<open>None\<close> is a jump to \<open>bad\<close>.\<close>

primrec exec_push :: "u64 \<Rightarrow> u64 \<Rightarrow> u64 list \<Rightarrow> u64 \<Rightarrow> u64 list \<Rightarrow> ('z fsst_scheme, (u64 \<times> u64 list) option) km" where
  "exec_push pagetable stackbase [] sp ustack = kreturn (Some (sp, ustack))"
| "exec_push pagetable stackbase (a # argv) sp ustack =
     (if a = 0 then kreturn (Some (sp, ustack))
      else if length ustack \<ge> MAXARG then kreturn None
      else kbind (kget (\<lambda>s. read_bytes (mem s) a 4096)) (\<lambda>bs.
        kbind (kopt (strlen bs)) (\<lambda>l.
        let sp1 = sp - of_nat (l + 1); sp2 = sp1 - sp1 mod 16 in
        if sp2 < stackbase then kreturn None
        else kbind (copyout pagetable sp2 (take (l + 1) bs)) (\<lambda>r.
          if r < 0 then kreturn None
          else exec_push pagetable stackbase argv sp2 (ustack @ [sp2])))))"

text \<open>The last element of a path.\<close>

fun last_elem :: "u8 list \<Rightarrow> u8 list \<Rightarrow> u8 list" where
  "last_elem l [] = l"
| "last_elem l (c # s) = (if c = 0 then l else if c = slash then last_elem s s else last_elem l s)"

definition exec_bad :: "u64 \<Rightarrow> u64 \<Rightarrow> nat option \<Rightarrow> ('z fsst_scheme, int) km" where
  "exec_bad pagetable sz ip = kseq (kdo
     [kwhen (pagetable \<noteq> 0) (proc_freepagetable pagetable sz),
      case ip of None \<Rightarrow> kreturn () | Some i \<Rightarrow> kdo [iunlockput i, end_op]])
     (kreturn (- 1))"

text \<open>From the loaded image on: the stack, the arguments, and the switch to the new image.\<close>

definition exec_commit :: "nat \<Rightarrow> u8 list \<Rightarrow> u64 list \<Rightarrow> u64 \<Rightarrow> u64 \<Rightarrow> u64 \<Rightarrow> ('z fsst_scheme, int) km" where
  "exec_commit p path argv entry pagetable sz0 =
     kbind (pget p p_sz) (\<lambda>oldsz.
     let sz = PGROUNDUP sz0 in
     kbind (uvmalloc pagetable sz (sz + (USERSTACK + 1) * PGSIZE) PTE_W) (\<lambda>sz1.
     if sz1 = 0 then exec_bad pagetable sz None
     else
       kseq (uvmclear pagetable (sz1 - (USERSTACK + 1) * PGSIZE))
      (let stackbase = sz1 - USERSTACK * PGSIZE in
       kbind (exec_push pagetable stackbase argv sz1 []) (\<lambda>pushed. case pushed of
         None \<Rightarrow> exec_bad pagetable sz1 None
       | Some (sp, ustack) \<Rightarrow>
           if length ustack \<ge> MAXARG then kundef
           else let argc = length ustack; sp1 = sp - of_nat (argc + 1) * 8; sp2 = sp1 - sp1 mod 16 in
           if sp2 < stackbase then exec_bad pagetable sz1 None
           else kbind (copyout pagetable sp2 (concat (map (le_bytes 8) (ustack @ [0])))) (\<lambda>r.
             if r < 0 then exec_bad pagetable sz1 None
             else
               kseq (tf_set p TF_a1 sp2)
              (kbind (pget p (\<lambda>q. (p_name q, p_pagetable q))) (\<lambda>(nm, oldpagetable).
               kbind (kopt (safestrcpy nm (last_elem path path) 16)) (\<lambda>nm'.
               kseq (kdo
                 [pset p (\<lambda>q. q\<lparr>p_name := nm', p_pagetable := pagetable, p_sz := sz1\<rparr>),
                  tf_set p TF_epc entry,
                  tf_set p TF_sp sp2,
                  proc_freepagetable oldpagetable oldsz])
               (kreturn (int argc))))))))))"

definition exec :: "u8 list \<Rightarrow> u64 list \<Rightarrow> ('z fsst_scheme, int) km" where
  "exec path argv =
     kbind this_proc (\<lambda>p.
     kseq begin_op
    (kbind (namei path) (\<lambda>ip. case ip of None \<Rightarrow> kseq end_op (kreturn (- 1)) | Some ip \<Rightarrow>
     kseq (ilock ip)
    (kbind (readi ip (Local []) 0 (of_nat ELFHDR_SIZE)) (\<lambda>(r, d).
     if r \<noteq> int ELFHDR_SIZE then exec_bad 0 0 (Some ip)
     else let elf = parse_elfhdr d in
       if elf_magic elf \<noteq> ELF_MAGIC then exec_bad 0 0 (Some ip)
       else kbind (proc_pagetable p) (\<lambda>pagetable.
         if pagetable = 0 then exec_bad 0 0 (Some ip)
         else kbind (exec_load (unat (elf_phnum elf)) pagetable ip (ucast (elf_phoff elf)) 0) (\<lambda>loaded. case loaded of
           Inl sz \<Rightarrow> exec_bad pagetable sz (Some ip)
         | Inr sz \<Rightarrow>
             kseq (kdo [iunlockput ip, end_op])
            (exec_commit p path argv (elf_entry elf) pagetable sz))))))))"

end
