(* ===== verification/Lifecycle.thy ===== *)
theory Lifecycle
  imports Exec
begin

text \<open>
  The functions of \<open>kernel/proc.c\<close> that create and end processes and need the file system: \<open>userinit\<close>, \<open>fork\<close>
  and \<open>exit\<close>.
\<close>

definition initcode :: "u8 list" where
  "initcode =
    [0x17, 0x05, 0x00, 0x00, 0x13, 0x05, 0x45, 0x02,
     0x97, 0x05, 0x00, 0x00, 0x93, 0x85, 0x35, 0x02,
     0x93, 0x08, 0x70, 0x00, 0x73, 0x00, 0x00, 0x00,
     0x93, 0x08, 0x20, 0x00, 0x73, 0x00, 0x00, 0x00,
     0xef, 0xf0, 0x9f, 0xff, 0x2f, 0x69, 0x6e, 0x69,
     0x74, 0x00, 0x00, 0x24, 0x00, 0x00, 0x00, 0x00,
     0x00, 0x00, 0x00, 0x00]"

definition userinit :: "('z fsst_scheme, unit) km" where
  "userinit =
     kbind allocproc (\<lambda>found.
     kseq (kmodify (\<lambda>s. s\<lparr>initproc := found\<rparr>))
    (case found of None \<Rightarrow> panic ''kerneltrap'' | Some p \<Rightarrow>
     kbind (pget p p_pagetable) (\<lambda>pt.
     kseq (kdo
       [uvmfirst pt initcode,
        pset p (\<lambda>q. q\<lparr>p_sz := PGSIZE\<rparr>),
        tf_set p TF_epc 0,
        tf_set p TF_sp PGSIZE])
    (kbind (pget p p_name) (\<lambda>nm.
     kbind (kopt (safestrcpy nm (bytes_of ''initcode'' @ [0]) 16)) (\<lambda>nm'.
     kseq (pset p (\<lambda>q. q\<lparr>p_name := nm'\<rparr>))
    (kbind (namei [slash]) (\<lambda>cwd. kdo
       [pset p (\<lambda>q. q\<lparr>p_cwd := cwd\<rparr>),
        pset p (\<lambda>q. q\<lparr>p_state := RUNNABLE\<rparr>),
        release (L_proc p)]))))))))"

text \<open>Sharing the parent's open files with the child.\<close>

definition fork_ofile :: "nat \<Rightarrow> nat \<Rightarrow> nat \<Rightarrow> ('z filest_scheme, unit) km" where
  "fork_ofile p np i =
     kbind (pget p (\<lambda>q. p_ofile q ! i)) (\<lambda>f. case f of None \<Rightarrow> kreturn () | Some f \<Rightarrow>
     kbind (filedup f) (\<lambda>f. pset np (\<lambda>q. q\<lparr>p_ofile := (p_ofile q)[i := Some f]\<rparr>)))"

definition fork :: "('z filest_scheme, int) km" where
  "fork =
     kbind this_proc (\<lambda>p.
     kbind allocproc (\<lambda>found. case found of None \<Rightarrow> kreturn (- 1) | Some np \<Rightarrow>
     kbind (kget (\<lambda>s. (p_pagetable (procs s ! p), p_pagetable (procs s ! np), p_sz (procs s ! p)))) (\<lambda>(old, new, sz).
     kbind (uvmcopy old new sz) (\<lambda>r.
     if r < 0 then kseq (kdo [freeproc np, release (L_proc np)]) (kreturn (- 1))
     else
       kseq (kdo
         [pset np (\<lambda>q. q\<lparr>p_sz := sz\<rparr>),
          kmodify (\<lambda>s. s\<lparr>mem := write_bytes (mem s) (p_trapframe (procs s ! np))
            (read_bytes (mem s) (p_trapframe (procs s ! p)) TF_SIZE)\<rparr>),
          tf_set np TF_a0 0,
          kfor (fork_ofile p np) [0..<NOFILE]])
      (kbind (pget p p_cwd) (\<lambda>cwd.
       kbind (case cwd of None \<Rightarrow> panic ''kerneltrap'' | Some c \<Rightarrow> idup c) (\<lambda>c.
       kseq (pset np (\<lambda>q. q\<lparr>p_cwd := Some c\<rparr>))
      (kbind (kget (\<lambda>s. (p_name (procs s ! np), p_name (procs s ! p)))) (\<lambda>(nnm, nm).
       kbind (kopt (safestrcpy nnm nm 16)) (\<lambda>nnm'.
       kseq (pset np (\<lambda>q. q\<lparr>p_name := nnm'\<rparr>))
      (kbind (pget np p_pid) (\<lambda>pid.
       kseq (kdo
         [release (L_proc np),
          acquire L_wait,
          pset np (\<lambda>q. q\<lparr>p_parent := Some p\<rparr>),
          release L_wait,
          acquire (L_proc np),
          pset np (\<lambda>q. q\<lparr>p_state := RUNNABLE\<rparr>),
          release (L_proc np),
          kmodify (\<lambda>s. s\<lparr>procs := (procs s)[np := (procs s ! np)\<lparr>p_trace_mask := p_trace_mask (procs s ! p)\<rparr>]\<rparr>)])
      (kreturn pid)))))))))))))"

definition exit_ofile :: "nat \<Rightarrow> nat \<Rightarrow> ('z filest_scheme, unit) km" where
  "exit_ofile p fd =
     kbind (pget p (\<lambda>q. p_ofile q ! fd)) (\<lambda>f. case f of None \<Rightarrow> kreturn () | Some f \<Rightarrow> kdo
       [fileclose f,
        pset p (\<lambda>q. q\<lparr>p_ofile := (p_ofile q)[fd := None]\<rparr>)])"

definition exit :: "int \<Rightarrow> ('z filest_scheme, 'a) km" where
  "exit status =
     kbind this_proc (\<lambda>p.
     kbind (kget initproc) (\<lambda>ini.
     if Some p = ini then panic ''init exiting''
     else
       kseq (kdo [kfor (exit_ofile p) [0..<NOFILE], begin_op])
      (kbind (pget p p_cwd) (\<lambda>cwd.
       kseq (kdo
         [case cwd of None \<Rightarrow> panic ''kerneltrap'' | Some c \<Rightarrow> iput c,
          end_op,
          pset p (\<lambda>q. q\<lparr>p_cwd := None\<rparr>),
          acquire L_wait,
          reparent p])
      (kbind (pget p p_parent) (\<lambda>par.
       kseq (kdo
         [wakeup (map_option Ch_proc par),
          acquire (L_proc p),
          pset p (\<lambda>q. q\<lparr>p_xstate := status, p_state := ZOMBIE\<rparr>),
          release L_wait,
          sched])
      (panic ''zombie exit'')))))))"

end
