(* ===== verification/Sysfile.thy ===== *)
theory Sysfile
  imports Lifecycle
begin

text \<open>
  \<open>kernel/sysfile.c\<close>: the system calls on files. A system call returns the 64-bit value that \<open>syscall\<close> puts into
  the caller's \<open>a0\<close>.
\<close>

unbundle bit_operations_syntax

definition MAXPATH :: nat where "MAXPATH = 128"
definition O_RDONLY :: u32 where "O_RDONLY = 0"
definition O_WRONLY :: u32 where "O_WRONLY = 1"
definition O_RDWR :: u32 where "O_RDWR = 2"
definition O_CREATE :: u32 where "O_CREATE = 0x200"
definition O_TRUNC :: u32 where "O_TRUNC = 0x400"

abbreviation kret :: "int \<Rightarrow> ('s, u64) km" where "kret r \<equiv> kreturn (of_int r)"

section \<open>Descriptors\<close>

definition argfd :: "nat \<Rightarrow> ('z filest_scheme, (nat \<times> nat) option) km" where
  "argfd n =
     kbind (argint n) (\<lambda>fd.
     if fd < 0 \<or> fd \<ge> int NOFILE then kreturn None
     else kbind this_proc (\<lambda>p.
       kbind (pget p (\<lambda>q. p_ofile q ! nat fd)) (\<lambda>f. case f of
         None \<Rightarrow> kreturn None
       | Some f \<Rightarrow> kreturn (Some (nat fd, f)))))"

definition fdalloc :: "nat \<Rightarrow> ('z filest_scheme, int) km" where
  "fdalloc f =
     kbind this_proc (\<lambda>p.
     kbind (pget p (\<lambda>q. first_index (\<lambda>o'. o' = None) (p_ofile q))) (\<lambda>found. case found of
       Some fd \<Rightarrow> kseq (pset p (\<lambda>q. q\<lparr>p_ofile := (p_ofile q)[fd := Some f]\<rparr>)) (kreturn (int fd))
     | None \<Rightarrow> kreturn (- 1)))"

definition clear_fd :: "nat \<Rightarrow> ('z filest_scheme, unit) km" where
  "clear_fd fd = kbind this_proc (\<lambda>p. pset p (\<lambda>q. q\<lparr>p_ofile := (p_ofile q)[fd := None]\<rparr>))"

definition sys_dup :: "('z filest_scheme, u64) km" where
  "sys_dup =
     kbind (argfd 0) (\<lambda>a. case a of None \<Rightarrow> kret (- 1) | Some (_, f) \<Rightarrow>
     kbind (fdalloc f) (\<lambda>fd.
     if fd < 0 then kret (- 1) else kbind (filedup f) (\<lambda>_. kret fd)))"

definition sys_read :: "('z filest_scheme, u64) km" where
  "sys_read =
     kbind (argaddr 1) (\<lambda>p.
     kbind (argint 2) (\<lambda>n.
     kbind (argfd 0) (\<lambda>a. case a of None \<Rightarrow> kret (- 1) | Some (_, f) \<Rightarrow>
     kbind (fileread f p n) (\<lambda>r. kret r))))"

definition sys_write :: "('z filest_scheme, u64) km" where
  "sys_write =
     kbind (argaddr 1) (\<lambda>p.
     kbind (argint 2) (\<lambda>n.
     kbind (argfd 0) (\<lambda>a. case a of None \<Rightarrow> kret (- 1) | Some (_, f) \<Rightarrow>
     kbind (filewrite f p n) (\<lambda>r. kret r))))"

definition sys_close :: "('z filest_scheme, u64) km" where
  "sys_close =
     kbind (argfd 0) (\<lambda>a. case a of None \<Rightarrow> kret (- 1) | Some (fd, f) \<Rightarrow>
     kseq (kdo [clear_fd fd, fileclose f]) (kret 0))"

definition sys_fstat :: "('z filest_scheme, u64) km" where
  "sys_fstat =
     kbind (argaddr 1) (\<lambda>st.
     kbind (argfd 0) (\<lambda>a. case a of None \<Rightarrow> kret (- 1) | Some (_, f) \<Rightarrow>
     kbind (filestat f st) (\<lambda>r. kret r)))"

section \<open>Links\<close>

definition link_bad :: "nat \<Rightarrow> ('z filest_scheme, u64) km" where
  "link_bad ip = kseq (kdo
     [ilock ip,
      iset ip (\<lambda>x. x\<lparr>i_nlink := i_nlink x - 1\<rparr>),
      iupdate ip,
      iunlockput ip,
      end_op])
     (kret (- 1))"

definition sys_link :: "('z filest_scheme, u64) km" where
  "sys_link =
     kbind (argstr 0 MAXPATH) (\<lambda>(r, old). if r < 0 then kret (- 1) else
     kbind (argstr 1 MAXPATH) (\<lambda>(r, new). if r < 0 then kret (- 1) else
     kseq begin_op
    (kbind (namei old) (\<lambda>found. case found of None \<Rightarrow> kseq end_op (kret (- 1)) | Some ip \<Rightarrow>
     kseq (ilock ip)
    (kbind (iget_field ip i_type) (\<lambda>type.
     if type = T_DIR then kseq (kdo [iunlockput ip, end_op]) (kret (- 1))
     else
       kseq (kdo [iset ip (\<lambda>x. x\<lparr>i_nlink := i_nlink x + 1\<rparr>), iupdate ip, iunlock ip])
      (kbind (nameiparent new (replicate DIRSIZ 0)) (\<lambda>(found, name). case found of None \<Rightarrow> link_bad ip | Some dp \<Rightarrow>
       kseq (ilock dp)
      (kbind (kget (\<lambda>s. (i_dev (itable s ! dp), i_dev (itable s ! ip), i_inum (itable s ! ip)))) (\<lambda>(dd, di, inum).
       kbind (if dd \<noteq> di then kreturn (- 1) else dirlink dp name inum) (\<lambda>r.
       if r < 0 then kseq (iunlockput dp) (link_bad ip)
       else kseq (kdo [iunlockput dp, iput ip, end_op]) (kret 0))))))))))))"

text \<open>\<open>isdirempty\<close> skips the entries \<open>.\<close> and \<open>..\<close>.\<close>

primrec isdirempty_loop :: "nat \<Rightarrow> nat list \<Rightarrow> ('z fsst_scheme, bool) km" where
  "isdirempty_loop dp [] = kreturn True"
| "isdirempty_loop dp (off # offs) =
     kbind (readi dp (Local []) (of_nat off) (of_nat DIRENT_SIZE)) (\<lambda>(r, de).
     if r \<noteq> int DIRENT_SIZE then panic ''isdirempty: readi''
     else if de_inum de \<noteq> 0 then kreturn False
     else isdirempty_loop dp offs)"

definition isdirempty :: "nat \<Rightarrow> ('z fsst_scheme, bool) km" where
  "isdirempty dp = kbind (iget_field dp i_size) (\<lambda>sz. isdirempty_loop dp (dir_offs 2 sz))"

definition unlink_bad :: "nat \<Rightarrow> ('z fsst_scheme, u64) km" where
  "unlink_bad dp = kseq (kdo [iunlockput dp, end_op]) (kret (- 1))"

definition sys_unlink :: "('z filest_scheme, u64) km" where
  "sys_unlink =
     kbind (argstr 0 MAXPATH) (\<lambda>(r, path). if r < 0 then kret (- 1) else
     kseq begin_op
    (kbind (nameiparent path (replicate DIRSIZ 0)) (\<lambda>(found, name). case found of None \<Rightarrow> kseq end_op (kret (- 1)) | Some dp \<Rightarrow>
     kseq (ilock dp)
    (kbind (kopt (namecmp name (bytes_of ''.'' @ [0]))) (\<lambda>dot.
     kbind (kopt (namecmp name (bytes_of ''..'' @ [0]))) (\<lambda>dotdot.
     if dot = 0 \<or> dotdot = 0 then unlink_bad dp
     else kbind (dirlookup dp name) (\<lambda>found. case found of None \<Rightarrow> unlink_bad dp | Some (ip, off) \<Rightarrow>
       kseq (ilock ip)
      (kbind (iget_field ip (\<lambda>x. (i_nlink x, i_type x))) (\<lambda>(nlink, type).
       if sint nlink < 1 then panic ''unlink: nlink < 1''
       else kbind (if type = T_DIR then isdirempty ip else kreturn True) (\<lambda>ok.
         if \<not> ok then kseq (iunlockput ip) (unlink_bad dp)
         else kbind (writei dp (Local (replicate DIRENT_SIZE 0)) off (of_nat DIRENT_SIZE)) (\<lambda>r.
           if r \<noteq> int DIRENT_SIZE then panic ''unlink: writei''
           else kseq (kdo
             [kwhen (type = T_DIR) (kdo [iset dp (\<lambda>x. x\<lparr>i_nlink := i_nlink x - 1\<rparr>), iupdate dp]),
              iunlockput dp,
              iset ip (\<lambda>x. x\<lparr>i_nlink := i_nlink x - 1\<rparr>),
              iupdate ip,
              iunlockput ip,
              end_op])
             (kret 0))))))))))))"

section \<open>Creating and opening\<close>

definition create_fail :: "nat \<Rightarrow> nat \<Rightarrow> ('z fsst_scheme, nat option) km" where
  "create_fail ip dp = kseq (kdo
     [iset ip (\<lambda>x. x\<lparr>i_nlink := 0\<rparr>),
      iupdate ip,
      iunlockput ip,
      iunlockput dp])
     (kreturn None)"

text \<open>The entries \<open>.\<close> and \<open>..\<close> of a new directory.\<close>

definition create_dots :: "nat \<Rightarrow> nat \<Rightarrow> ('z fsst_scheme, int) km" where
  "create_dots ip dp =
     kbind (kget (\<lambda>s. (i_inum (itable s ! ip), i_inum (itable s ! dp)))) (\<lambda>(self, up).
     kbind (dirlink ip (bytes_of ''.'' @ [0]) self) (\<lambda>r.
     if r < 0 then kreturn (- 1) else dirlink ip (bytes_of ''..'' @ [0]) up))"

definition create :: "u8 list \<Rightarrow> u16 \<Rightarrow> u16 \<Rightarrow> u16 \<Rightarrow> ('z fsst_scheme, nat option) km" where
  "create path type major minor =
     kbind (nameiparent path (replicate DIRSIZ 0)) (\<lambda>(found, name). case found of None \<Rightarrow> kreturn None | Some dp \<Rightarrow>
     kseq (ilock dp)
    (kbind (dirlookup dp name) (\<lambda>found. case found of
       Some (ip, _) \<Rightarrow>
         kseq (kdo [iunlockput dp, ilock ip])
        (kbind (iget_field ip i_type) (\<lambda>t.
         if type = T_FILE \<and> (t = T_FILE \<or> t = T_DEVICE) then kreturn (Some ip)
         else kseq (iunlockput ip) (kreturn None)))
     | None \<Rightarrow>
         kbind (iget_field dp i_dev) (\<lambda>dev.
         kbind (ialloc dev type) (\<lambda>new. case new of None \<Rightarrow> kseq (iunlockput dp) (kreturn None) | Some ip \<Rightarrow>
         kseq (kdo [ilock ip, iset ip (\<lambda>x. x\<lparr>i_major := major, i_minor := minor, i_nlink := 1\<rparr>), iupdate ip])
        (kbind (if type = T_DIR then create_dots ip dp else kreturn 0) (\<lambda>r.
         if r < 0 then create_fail ip dp
         else kbind (iget_field ip i_inum) (\<lambda>inum.
           kbind (dirlink dp name inum) (\<lambda>r.
           if r < 0 then create_fail ip dp
           else kseq (kdo
             [kwhen (type = T_DIR) (kdo [iset dp (\<lambda>x. x\<lparr>i_nlink := i_nlink x + 1\<rparr>), iupdate dp]),
              iunlockput dp])
             (kreturn (Some ip)))))))))))"

definition open_fail :: "nat \<Rightarrow> ('z fsst_scheme, u64) km" where
  "open_fail ip = kseq (kdo [iunlockput ip, end_op]) (kret (- 1))"

text \<open>\<open>sys_open\<close> from the point where it has the locked inode.\<close>

definition open_inode :: "u32 \<Rightarrow> nat \<Rightarrow> ('z filest_scheme, u64) km" where
  "open_inode omode ip =
     kbind (iget_field ip (\<lambda>x. (i_type x, i_major x))) (\<lambda>(type, major).
     if type = T_DEVICE \<and> (sint major < 0 \<or> sint major \<ge> int NDEV) then open_fail ip
     else kbind filealloc (\<lambda>new. case new of None \<Rightarrow> open_fail ip | Some f \<Rightarrow>
       kbind (fdalloc f) (\<lambda>fd.
       if fd < 0 then kseq (fileclose f) (open_fail ip)
       else kseq (kdo
         [if type = T_DEVICE then fset f (\<lambda>x. x\<lparr>f_type := FD_DEVICE, f_major := major\<rparr>)
          else fset f (\<lambda>x. x\<lparr>f_type := FD_INODE, f_off := 0\<rparr>),
          fset f (\<lambda>x. x\<lparr>f_ip := ip, f_readable := omode AND O_WRONLY = 0,
            f_writable := omode AND O_WRONLY \<noteq> 0 \<or> omode AND O_RDWR \<noteq> 0\<rparr>),
          kwhen (omode AND O_TRUNC \<noteq> 0 \<and> type = T_FILE) (itrunc ip),
          iunlock ip,
          end_op])
         (kret fd))))"

definition sys_open :: "('z filest_scheme, u64) km" where
  "sys_open =
     kbind (argint 1) (\<lambda>om. let omode = of_int om :: u32 in
     kbind (argstr 0 MAXPATH) (\<lambda>(n, path). if n < 0 then kret (- 1) else
     kseq begin_op
    (if omode AND O_CREATE \<noteq> 0 then
       kbind (create path T_FILE 0 0) (\<lambda>found. case found of
         None \<Rightarrow> kseq end_op (kret (- 1))
       | Some ip \<Rightarrow> open_inode omode ip)
     else
       kbind (namei path) (\<lambda>found. case found of None \<Rightarrow> kseq end_op (kret (- 1)) | Some ip \<Rightarrow>
       kseq (ilock ip)
      (kbind (iget_field ip i_type) (\<lambda>type.
       if type = T_DIR \<and> omode \<noteq> O_RDONLY then open_fail ip
       else open_inode omode ip))))))"

definition sys_mkdir :: "('z filest_scheme, u64) km" where
  "sys_mkdir =
     kseq begin_op
    (kbind (argstr 0 MAXPATH) (\<lambda>(r, path).
     kbind (if r < 0 then kreturn None else create path T_DIR 0 0) (\<lambda>new. case new of
       None \<Rightarrow> kseq end_op (kret (- 1))
     | Some ip \<Rightarrow> kseq (kdo [iunlockput ip, end_op]) (kret 0))))"

definition sys_mknod :: "('z filest_scheme, u64) km" where
  "sys_mknod =
     kseq begin_op
    (kbind (argint 1) (\<lambda>major.
     kbind (argint 2) (\<lambda>minor.
     kbind (argstr 0 MAXPATH) (\<lambda>(r, path).
     kbind (if r < 0 then kreturn None else create path T_DEVICE (of_int major) (of_int minor)) (\<lambda>new. case new of
       None \<Rightarrow> kseq end_op (kret (- 1))
     | Some ip \<Rightarrow> kseq (kdo [iunlockput ip, end_op]) (kret 0))))))"

definition sys_chdir :: "('z filest_scheme, u64) km" where
  "sys_chdir =
     kbind this_proc (\<lambda>p.
     kseq begin_op
    (kbind (argstr 0 MAXPATH) (\<lambda>(r, path).
     kbind (if r < 0 then kreturn None else namei path) (\<lambda>found. case found of
       None \<Rightarrow> kseq end_op (kret (- 1))
     | Some ip \<Rightarrow>
         kseq (ilock ip)
        (kbind (iget_field ip i_type) (\<lambda>type.
         if type \<noteq> T_DIR then kseq (kdo [iunlockput ip, end_op]) (kret (- 1))
         else
           kseq (iunlock ip)
          (kbind (pget p p_cwd) (\<lambda>cwd.
           kseq (kdo
             [case cwd of None \<Rightarrow> panic ''kerneltrap'' | Some c \<Rightarrow> iput c,
              end_op,
              pset p (\<lambda>q. q\<lparr>p_cwd := Some ip\<rparr>)])
           (kret 0)))))))))"

section \<open>exec and pipe\<close>

text \<open>Fetching the argument strings of \<open>sys_exec\<close> into pages of their own; \<open>None\<close> is a jump to \<open>bad\<close>, and the
  pages allocated so far are returned in both cases.\<close>

primrec fetch_args :: "nat \<Rightarrow> u64 \<Rightarrow> u64 list \<Rightarrow> ('z filest_scheme, bool \<times> u64 list) km" where
  "fetch_args 0 uargv argv = kreturn (False, argv)"
| "fetch_args (Suc k) uargv argv =
     kbind (fetchaddr (uargv + 8 * of_nat (length argv))) (\<lambda>(r, uarg).
     if r < 0 then kreturn (False, argv)
     else if uarg = 0 then kreturn (True, argv)
     else kbind kalloc (\<lambda>pg.
       if pg = 0 then kreturn (False, argv)
       else kbind (fetchstr uarg 4096) (\<lambda>(r, bs).
         kseq (kmodify (\<lambda>s. s\<lparr>mem := write_bytes (mem s) pg bs\<rparr>))
        (if r < 0 then kreturn (False, argv @ [pg])
         else fetch_args k uargv (argv @ [pg])))))"

definition sys_exec :: "('z filest_scheme, u64) km" where
  "sys_exec =
     kbind (argaddr 1) (\<lambda>uargv.
     kbind (argstr 0 MAXPATH) (\<lambda>(r, path). if r < 0 then kret (- 1) else
     kbind (fetch_args MAXARG uargv []) (\<lambda>(ok, argv).
     if ok then
       kbind (exec path (argv @ [0])) (\<lambda>ret.
       kseq (kfor kfree argv) (kret ret))
     else kseq (kfor kfree argv) (kret (- 1)))))"

definition pipe_undo :: "nat \<Rightarrow> nat \<Rightarrow> ('z filest_scheme, u64) km" where
  "pipe_undo rfile wfile = kseq (kdo [fileclose rfile, fileclose wfile]) (kret (- 1))"

definition sys_pipe :: "('z filest_scheme, u64) km" where
  "sys_pipe =
     kbind this_proc (\<lambda>p.
     kbind (argaddr 0) (\<lambda>fdarray.
     kbind pipealloc (\<lambda>new. case new of None \<Rightarrow> kret (- 1) | Some (rfile, wfile) \<Rightarrow>
     kbind (fdalloc rfile) (\<lambda>fd0.
     if fd0 < 0 then pipe_undo rfile wfile
     else kbind (fdalloc wfile) (\<lambda>fd1.
       if fd1 < 0 then kseq (clear_fd (nat fd0)) (pipe_undo rfile wfile)
       else kbind (pget p p_pagetable) (\<lambda>pt.
         kbind (copyout pt fdarray (le_bytes 4 (of_int fd0 :: u32))) (\<lambda>r0.
         kbind (if r0 < 0 then kreturn (- 1) else copyout pt (fdarray + 4) (le_bytes 4 (of_int fd1 :: u32))) (\<lambda>r1.
         if r1 < 0 then kseq (kdo [clear_fd (nat fd0), clear_fd (nat fd1)]) (pipe_undo rfile wfile)
         else kret 0))))))))"

end
