(* ===== verification/Virtio.thy ===== *)
theory Virtio
  imports Sysfile
begin

text \<open>
  \<open>kernel/virtio_disk.c\<close> and \<open>kernel/virtio.h\<close>: the driver of the virtio block device. The queue that the driver
  shares with the device (descriptors, available and used ring) is part of the state; an address in
  a descriptor is named by what it points to. The driver waits for the device by sleeping, so that
  \<open>virtio_disk_rw\<close> ends in \<open>Block\<close> once the request is submitted and continues with \<open>virtio_wait\<close>.
\<close>

unbundle bit_operations_syntax

section \<open>Device registers and queue\<close>

datatype virtio_reg =
    VIRTIO_MMIO_MAGIC_VALUE
  | VIRTIO_MMIO_VERSION
  | VIRTIO_MMIO_DEVICE_ID
  | VIRTIO_MMIO_VENDOR_ID
  | VIRTIO_MMIO_DEVICE_FEATURES
  | VIRTIO_MMIO_DRIVER_FEATURES
  | VIRTIO_MMIO_QUEUE_SEL
  | VIRTIO_MMIO_QUEUE_NUM_MAX
  | VIRTIO_MMIO_QUEUE_NUM
  | VIRTIO_MMIO_QUEUE_READY
  | VIRTIO_MMIO_QUEUE_NOTIFY
  | VIRTIO_MMIO_INTERRUPT_STATUS
  | VIRTIO_MMIO_INTERRUPT_ACK
  | VIRTIO_MMIO_STATUS
  | VIRTIO_MMIO_QUEUE_DESC_LOW
  | VIRTIO_MMIO_QUEUE_DESC_HIGH
  | VIRTIO_MMIO_DRIVER_DESC_LOW
  | VIRTIO_MMIO_DRIVER_DESC_HIGH
  | VIRTIO_MMIO_DEVICE_DESC_LOW
  | VIRTIO_MMIO_DEVICE_DESC_HIGH

fun vreg_off :: "virtio_reg \<Rightarrow> u64" where
  "vreg_off VIRTIO_MMIO_MAGIC_VALUE = 0x000"
| "vreg_off VIRTIO_MMIO_VERSION = 0x004"
| "vreg_off VIRTIO_MMIO_DEVICE_ID = 0x008"
| "vreg_off VIRTIO_MMIO_VENDOR_ID = 0x00c"
| "vreg_off VIRTIO_MMIO_DEVICE_FEATURES = 0x010"
| "vreg_off VIRTIO_MMIO_DRIVER_FEATURES = 0x020"
| "vreg_off VIRTIO_MMIO_QUEUE_SEL = 0x030"
| "vreg_off VIRTIO_MMIO_QUEUE_NUM_MAX = 0x034"
| "vreg_off VIRTIO_MMIO_QUEUE_NUM = 0x038"
| "vreg_off VIRTIO_MMIO_QUEUE_READY = 0x044"
| "vreg_off VIRTIO_MMIO_QUEUE_NOTIFY = 0x050"
| "vreg_off VIRTIO_MMIO_INTERRUPT_STATUS = 0x060"
| "vreg_off VIRTIO_MMIO_INTERRUPT_ACK = 0x064"
| "vreg_off VIRTIO_MMIO_STATUS = 0x070"
| "vreg_off VIRTIO_MMIO_QUEUE_DESC_LOW = 0x080"
| "vreg_off VIRTIO_MMIO_QUEUE_DESC_HIGH = 0x084"
| "vreg_off VIRTIO_MMIO_DRIVER_DESC_LOW = 0x090"
| "vreg_off VIRTIO_MMIO_DRIVER_DESC_HIGH = 0x094"
| "vreg_off VIRTIO_MMIO_DEVICE_DESC_LOW = 0x0a0"
| "vreg_off VIRTIO_MMIO_DEVICE_DESC_HIGH = 0x0a4"

declare vreg_off.simps [simp del]

definition VIRTIO_CONFIG_S_ACKNOWLEDGE :: u32 where "VIRTIO_CONFIG_S_ACKNOWLEDGE = 1"
definition VIRTIO_CONFIG_S_DRIVER :: u32 where "VIRTIO_CONFIG_S_DRIVER = 2"
definition VIRTIO_CONFIG_S_DRIVER_OK :: u32 where "VIRTIO_CONFIG_S_DRIVER_OK = 4"
definition VIRTIO_CONFIG_S_FEATURES_OK :: u32 where "VIRTIO_CONFIG_S_FEATURES_OK = 8"

text \<open>The feature bits that the driver refuses.\<close>

definition refused_features :: "nat list" where
  "refused_features = [5, 7, 11, 12, 27, 29, 28]"

definition NUM :: nat where "NUM = 8"
definition VRING_DESC_F_NEXT :: u16 where "VRING_DESC_F_NEXT = 1"
definition VRING_DESC_F_WRITE :: u16 where "VRING_DESC_F_WRITE = 2"
definition VIRTIO_BLK_T_IN :: u32 where "VIRTIO_BLK_T_IN = 0"
definition VIRTIO_BLK_T_OUT :: u32 where "VIRTIO_BLK_T_OUT = 1"

datatype dma_addr = A_null | A_req nat | A_data nat | A_status nat

record virtq_desc =
  d_addr :: dma_addr
  d_len :: u32
  d_flags :: u16
  d_next :: u16

record virtio_blk_req =
  r_type :: u32
  r_reserved :: u32
  r_sector :: u64

record vdisk_info =
  in_b :: "nat option"
  in_status :: u8

record vdisk = filest +
  vq_desc :: "virtq_desc list"
  avail_idx :: u16
  avail_ring :: "u16 list"
  used_ring_idx :: u16                 \<comment> \<open>\<open>disk.used->idx\<close>, written by the device\<close>
  used_ring :: "(u32 \<times> u32) list"        \<comment> \<open>id and length of completed chains\<close>
  vq_pages :: "u64 \<times> u64 \<times> u64"           \<comment> \<open>the pages of \<open>desc\<close>, \<open>avail\<close> and \<open>used\<close>\<close>
  d_free :: "bool list"
  used_idx :: u16
  d_info :: "vdisk_info list"
  d_ops :: "virtio_blk_req list"

abbreviation vreg :: "virtio_reg \<Rightarrow> ('z vdisk_scheme, u32) km" where "vreg r \<equiv> mmio_read (VIRTIO0 + vreg_off r)"
abbreviation set_vreg :: "virtio_reg \<Rightarrow> u32 \<Rightarrow> ('z vdisk_scheme, unit) km" where "set_vreg r v \<equiv> mmio_write (VIRTIO0 + vreg_off r) v"

section \<open>Initialisation\<close>

definition null_desc :: virtq_desc where
  "null_desc = \<lparr>d_addr = A_null, d_len = 0, d_flags = 0, d_next = 0\<rparr>"

definition virtio_probe :: "('z vdisk_scheme, bool) km" where
  "virtio_probe =
     kbind (vreg VIRTIO_MMIO_MAGIC_VALUE) (\<lambda>a. if a \<noteq> 0x74726976 then kreturn False else
     kbind (vreg VIRTIO_MMIO_VERSION) (\<lambda>a. if a \<noteq> 2 then kreturn False else
     kbind (vreg VIRTIO_MMIO_DEVICE_ID) (\<lambda>a. if a \<noteq> 2 then kreturn False else
     kbind (vreg VIRTIO_MMIO_VENDOR_ID) (\<lambda>a. kreturn (a = 0x554d4551)))))"

definition virtio_set_queue :: "u64 \<Rightarrow> u64 \<Rightarrow> u64 \<Rightarrow> ('z vdisk_scheme, unit) km" where
  "virtio_set_queue desc avail used = kdo
     [set_vreg VIRTIO_MMIO_QUEUE_NUM (of_nat NUM),
      set_vreg VIRTIO_MMIO_QUEUE_DESC_LOW (ucast desc),
      set_vreg VIRTIO_MMIO_QUEUE_DESC_HIGH (ucast (drop_bit 32 desc)),
      set_vreg VIRTIO_MMIO_DRIVER_DESC_LOW (ucast avail),
      set_vreg VIRTIO_MMIO_DRIVER_DESC_HIGH (ucast (drop_bit 32 avail)),
      set_vreg VIRTIO_MMIO_DEVICE_DESC_LOW (ucast used),
      set_vreg VIRTIO_MMIO_DEVICE_DESC_HIGH (ucast (drop_bit 32 used)),
      set_vreg VIRTIO_MMIO_QUEUE_READY 1]"

definition virtio_disk_init :: "('z vdisk_scheme, unit) km" where
  "virtio_disk_init =
     kbind virtio_probe (\<lambda>ok.
     if \<not> ok then panic ''could not find virtio disk''
     else
       let st1 = VIRTIO_CONFIG_S_ACKNOWLEDGE; st2 = st1 OR VIRTIO_CONFIG_S_DRIVER;
           st3 = st2 OR VIRTIO_CONFIG_S_FEATURES_OK in
       kseq (kdo [set_vreg VIRTIO_MMIO_STATUS 0, set_vreg VIRTIO_MMIO_STATUS st1, set_vreg VIRTIO_MMIO_STATUS st2])
      (kbind (vreg VIRTIO_MMIO_DEVICE_FEATURES) (\<lambda>features.
       kseq (kdo [set_vreg VIRTIO_MMIO_DRIVER_FEATURES (fold (\<lambda>k f. f AND NOT (push_bit k 1)) refused_features features),
                  set_vreg VIRTIO_MMIO_STATUS st3])
      (kbind (vreg VIRTIO_MMIO_STATUS) (\<lambda>status.
       if status AND VIRTIO_CONFIG_S_FEATURES_OK = 0 then panic ''virtio disk FEATURES_OK unset''
       else
         kseq (set_vreg VIRTIO_MMIO_QUEUE_SEL 0)
        (kbind (vreg VIRTIO_MMIO_QUEUE_READY) (\<lambda>ready.
         if ready \<noteq> 0 then panic ''virtio disk should not be ready''
         else kbind (vreg VIRTIO_MMIO_QUEUE_NUM_MAX) (\<lambda>qmax.
           if qmax = 0 then panic ''virtio disk has no queue 0''
           else if qmax < of_nat NUM then panic ''virtio disk max queue too short''
           else kbind kalloc (\<lambda>desc. kbind kalloc (\<lambda>avail. kbind kalloc (\<lambda>used.
             if desc = 0 \<or> avail = 0 \<or> used = 0 then panic ''virtio disk kalloc''
             else kdo
               [zero_page desc, zero_page avail, zero_page used,
                kmodify (\<lambda>s. s\<lparr>vq_pages := (desc, avail, used), vq_desc := replicate NUM null_desc, avail_idx := 0,
                  avail_ring := replicate NUM 0, used_ring_idx := 0, used_ring := replicate NUM (0, 0)\<rparr>),
                virtio_set_queue desc avail used,
                kmodify (\<lambda>s. s\<lparr>d_free := replicate NUM True\<rparr>),
                set_vreg VIRTIO_MMIO_STATUS (status OR VIRTIO_CONFIG_S_DRIVER_OK)])))))))))))"

section \<open>Descriptors\<close>

definition alloc_desc :: "('z vdisk_scheme, nat option) km" where
  "alloc_desc = kbind (kget (\<lambda>s. first_index (\<lambda>f. f) (d_free s))) (\<lambda>found. case found of
     Some i \<Rightarrow> kseq (kmodify (\<lambda>s. s\<lparr>d_free := (d_free s)[i := False]\<rparr>)) (kreturn (Some i))
   | None \<Rightarrow> kreturn None)"

definition free_desc :: "nat \<Rightarrow> ('z vdisk_scheme, unit) km" where
  "free_desc i =
     (if i \<ge> NUM then panic ''free_desc 1''
      else kbind (kget (\<lambda>s. d_free s ! i)) (\<lambda>f.
        if f then panic ''free_desc 2''
        else kdo
          [kmodify (\<lambda>s. s\<lparr>vq_desc := (vq_desc s)[i := null_desc], d_free := (d_free s)[i := True]\<rparr>),
           wakeup (Some Ch_disk_free)]))"

text \<open>\<open>free_chain\<close> frees a descriptor in each round, and \<open>free_desc\<close> panics on a free one.\<close>

primrec free_chain_loop :: "nat \<Rightarrow> nat \<Rightarrow> ('z vdisk_scheme, unit) km" where
  "free_chain_loop 0 i = kspin"
| "free_chain_loop (Suc k) i =
     kbind (kget (\<lambda>s. (d_flags (vq_desc s ! i), d_next (vq_desc s ! i)))) (\<lambda>(flag, nxt).
     kseq (free_desc i)
    (if flag AND VRING_DESC_F_NEXT \<noteq> 0 then free_chain_loop k (unat nxt) else kreturn ()))"

definition vq_free_chain :: "nat \<Rightarrow> ('z vdisk_scheme, unit) km" where
  "vq_free_chain i = free_chain_loop (Suc NUM) i"

definition alloc3_desc :: "('z vdisk_scheme, (nat \<times> nat \<times> nat) option) km" where
  "alloc3_desc =
     kbind alloc_desc (\<lambda>a. case a of None \<Rightarrow> kreturn None | Some i0 \<Rightarrow>
     kbind alloc_desc (\<lambda>b. case b of None \<Rightarrow> kseq (free_desc i0) (kreturn None) | Some i1 \<Rightarrow>
     kbind alloc_desc (\<lambda>c. case c of
       None \<Rightarrow> kseq (kdo [free_desc i0, free_desc i1]) (kreturn None)
     | Some i2 \<Rightarrow> kreturn (Some (i0, i1, i2)))))"

section \<open>Requests\<close>

text \<open>The three descriptors of a request.\<close>

definition format_descs :: "nat \<Rightarrow> bool \<Rightarrow> nat \<Rightarrow> nat \<Rightarrow> nat \<Rightarrow> virtq_desc list \<Rightarrow> virtq_desc list" where
  "format_descs b write i0 i1 i2 d =
     d[i0 := \<lparr>d_addr = A_req i0, d_len = 16, d_flags = VRING_DESC_F_NEXT, d_next = of_nat i1\<rparr>,
       i1 := \<lparr>d_addr = A_data b, d_len = of_nat BSIZE,
              d_flags = (if write then 0 else VRING_DESC_F_WRITE) OR VRING_DESC_F_NEXT, d_next = of_nat i2\<rparr>,
       i2 := \<lparr>d_addr = A_status i0, d_len = 1, d_flags = VRING_DESC_F_WRITE, d_next = 0\<rparr>]"

definition virtio_submit :: "nat \<Rightarrow> bool \<Rightarrow> nat \<Rightarrow> nat \<Rightarrow> nat \<Rightarrow> ('z vdisk_scheme, unit) km" where
  "virtio_submit b write i0 i1 i2 =
     kbind (kget (\<lambda>s. ucast (b_blockno (bufs s ! b) * of_nat (BSIZE div 512)))) (\<lambda>sector. kdo
       [kmodify (\<lambda>s. s\<lparr>d_ops := (d_ops s)[i0 := \<lparr>r_type = if write then VIRTIO_BLK_T_OUT else VIRTIO_BLK_T_IN,
          r_reserved = 0, r_sector = sector\<rparr>]\<rparr>),
        kmodify (\<lambda>s. s\<lparr>vq_desc := format_descs b write i0 i1 i2 (vq_desc s)\<rparr>),
        kmodify (\<lambda>s. s\<lparr>d_info := (d_info s)[i0 := \<lparr>in_b = Some b, in_status = 0xff\<rparr>]\<rparr>),
        bset b (\<lambda>x. x\<lparr>b_disk := True\<rparr>),
        kmodify (\<lambda>s. s\<lparr>avail_ring := (avail_ring s)[unat (avail_idx s) mod NUM := of_nat i0]\<rparr>),
        kmodify (\<lambda>s. s\<lparr>avail_idx := avail_idx s + 1\<rparr>),
        set_vreg VIRTIO_MMIO_QUEUE_NOTIFY 0])"

definition virtio_wait :: "nat \<Rightarrow> nat \<Rightarrow> ('z vdisk_scheme, unit) km" where
  "virtio_wait b i0 =
     kbind (bget_field b b_disk) (\<lambda>busy.
     if busy then sleep (Ch_buf b) L_vdisk
     else kdo
       [kmodify (\<lambda>s. s\<lparr>d_info := (d_info s)[i0 := (d_info s ! i0)\<lparr>in_b := None\<rparr>]\<rparr>),
        vq_free_chain i0,
        release L_vdisk])"

definition virtio_rw_loop :: "nat \<Rightarrow> bool \<Rightarrow> ('z vdisk_scheme, unit) km" where
  "virtio_rw_loop b write =
     kbind alloc3_desc (\<lambda>idx. case idx of
       None \<Rightarrow> sleep Ch_disk_free L_vdisk
     | Some (i0, i1, i2) \<Rightarrow> kseq (virtio_submit b write i0 i1 i2) (virtio_wait b i0))"

definition virtio_disk_rw :: "nat \<Rightarrow> bool \<Rightarrow> ('z vdisk_scheme, unit) km" where
  "virtio_disk_rw b write = kseq (acquire L_vdisk) (virtio_rw_loop b write)"

text \<open>The completion loop: the 16-bit counters meet after less than \<open>2 ^ 16\<close> rounds.\<close>

primrec virtio_intr_loop :: "nat \<Rightarrow> ('z vdisk_scheme, unit) km" where
  "virtio_intr_loop 0 = kspin"
| "virtio_intr_loop (Suc k) =
     kbind (kget (\<lambda>s. (used_idx s = used_ring_idx s, fst (used_ring s ! (unat (used_idx s) mod NUM))))) (\<lambda>(fin, id).
     if fin then kreturn ()
     else if unat id \<ge> NUM then kundef
     else kbind (kget (\<lambda>s. d_info s ! unat id)) (\<lambda>inf.
       if in_status inf \<noteq> 0 then panic ''virtio_disk_intr status''
       else case in_b inf of None \<Rightarrow> panic ''kerneltrap'' | Some b \<Rightarrow>
         kseq (kdo
           [bset b (\<lambda>x. x\<lparr>b_disk := False\<rparr>),
            wakeup (Some (Ch_buf b)),
            kmodify (\<lambda>s. s\<lparr>used_idx := used_idx s + 1\<rparr>)])
         (virtio_intr_loop k)))"

definition virtio_disk_intr :: "('z vdisk_scheme, unit) km" where
  "virtio_disk_intr =
     kseq (acquire L_vdisk)
    (kbind (vreg VIRTIO_MMIO_INTERRUPT_STATUS) (\<lambda>st.
     kseq (set_vreg VIRTIO_MMIO_INTERRUPT_ACK (st AND 3))
    (kbind (kget (\<lambda>s. unat (used_ring_idx s - used_idx s))) (\<lambda>n.
     kseq (virtio_intr_loop (Suc n))
    (release L_vdisk)))))"

end
