(* ===== verification/Vdisk.thy ===== *)
theory Vdisk
  imports Virtio Pipes
begin

text \<open>
  The disk driver and its device together. The device is a parameter, of which the virtio specification is
  assumed; a request that a process submits, the device serves and the interrupt handler completes
  is the \<open>disk_rw\<close> on which the buffer cache is built.
\<close>

unbundle bit_operations_syntax

section \<open>The device\<close>

text \<open>What the device keeps to itself: how many entries of the available ring it has fetched, as a 16-bit counter, and how many
  of the driver's writes to device registers it has taken notice of.\<close>

record vdev =
  seen :: u16
  noticed :: nat

text \<open>The driver offers the chain that begins at descriptor \<open>h\<close>: it is in the slot of the available ring that the device
  looks at next, the index of the ring says that the entry has been published, and the queue
  has been notified since the device last looked. Otherwise nothing is promised of the device.\<close>

definition offered :: "vdev \<Rightarrow> nat \<Rightarrow> 'z vdisk_scheme \<Rightarrow> bool" where
  "offered v h s \<longleftrightarrow> h < NUM \<and> avail_ring s ! (unat (seen v) mod NUM) = of_nat h \<and> seen v \<noteq> avail_idx s \<and>
     (VIRTIO0 + vreg_off VIRTIO_MMIO_QUEUE_NOTIFY, 0) \<in> set (take (length (mmio_log s) - noticed v) (mmio_log s))"

text \<open>A chain as section 5.2 of the specification asks for it: a header, the data, and a byte for the status, the last
  written by the device, the data written by the device if the request is a read.\<close>

definition blk_chain :: "nat \<Rightarrow> nat \<Rightarrow> bool \<Rightarrow> 'z vdisk_scheme \<Rightarrow> bool" where
  "blk_chain h b write s \<longleftrightarrow>
     (let d0 = vq_desc s ! h; d1 = vq_desc s ! unat (d_next d0); d2 = vq_desc s ! unat (d_next d1) in
      r_type (d_ops s ! h) = (if write then VIRTIO_BLK_T_OUT else VIRTIO_BLK_T_IN) \<and>
      d_addr d0 = A_req h \<and> d_len d0 = 16 \<and> d_flags d0 = VRING_DESC_F_NEXT \<and>
      d_addr d1 = A_data b \<and> d_len d1 = of_nat BSIZE \<and>
      d_flags d1 = (if write then VRING_DESC_F_NEXT else VRING_DESC_F_WRITE OR VRING_DESC_F_NEXT) \<and>
      d_addr d2 = A_status h \<and> d_len d2 = 1 \<and> d_flags d2 = VRING_DESC_F_WRITE)"

definition sector_block :: "u64 \<Rightarrow> u32" where
  "sector_block sec = ucast (sec div 2)"

text \<open>What the device leaves in the queue when it has served the chain that begins at descriptor \<open>h\<close>: the
  status byte, and an entry in the used ring. It has fetched one more entry of the available ring.\<close>

definition completes :: "nat \<Rightarrow> vdev \<Rightarrow> 'z vdisk_scheme \<Rightarrow> vdev \<times> 'z vdisk_scheme \<Rightarrow> bool" where
  "completes h v s r \<longleftrightarrow> (\<exists>n k. k \<le> length (mmio_log s) \<and> r = (\<lparr>seen = seen v + 1, noticed = k\<rparr>,
     s\<lparr>used_ring_idx := used_ring_idx s + 1,
       used_ring := (used_ring s)[unat (used_ring_idx s) mod NUM := (of_nat h, n)],
       d_info := (d_info s)[h := (d_info s ! h)\<lparr>in_status := 0\<rparr>]\<rparr>))"

text \<open>The device serves a request that it is offered, if the chain is well-formed: it transfers the data, and completes the
  request.\<close>

definition virtio_blk :: "(vdev \<Rightarrow> 'z vdisk_scheme \<Rightarrow> vdev \<times> 'z vdisk_scheme) \<Rightarrow> bool" where
  "virtio_blk dev \<longleftrightarrow> (\<forall>v h b s. offered v h s \<longrightarrow> (let bn = sector_block (r_sector (d_ops s ! h)) in
     (blk_chain h b True s \<longrightarrow> completes h v (s\<lparr>disk := (disk s)(bn := b_data (bufs s ! b)),
        disk_log := (bn, b_data (bufs s ! b)) # disk_log s\<rparr>) (dev v s)) \<and>
     (blk_chain h b False s \<longrightarrow> completes h v (s\<lparr>bufs := (bufs s)[b := (bufs s ! b)\<lparr>b_data := disk s bn\<rparr>]\<rparr>) (dev v s))))"

section \<open>Descriptors\<close>

definition free_count :: "bool list \<Rightarrow> nat" where
  "free_count fs = length (filter (\<lambda>f. f) fs)"

lemma free_first:
  assumes "0 < free_count fs"
  obtains i where "first_index (\<lambda>f. f) fs = Some i" "i < length fs" "fs ! i" "Suc (free_count (fs[i := False])) = free_count fs"
proof -
  obtain i where i: "first_index (\<lambda>f. f) fs = Some i"
    using assms by (cases "first_index (\<lambda>f. f) fs") (auto simp: first_index_None free_count_def filter_empty_conv)
  then have il: "i < length fs" "fs ! i" by (auto simp: first_index_Some)
  have "Suc (free_count (fs[i := False])) = free_count fs"
  proof -
    define u v where "u = take i fs" and "v = drop (Suc i) fs"
    have "fs = u @ True # v" using id_take_nth_drop [OF il(1)] il(2) by (simp add: u_def v_def)
    moreover have "i = length u" using il(1) by (simp add: u_def)
    ultimately show ?thesis by (simp add: free_count_def)
  qed
  with i il show thesis by (rule that)
qed

lemma alloc_desc_run:
  assumes "first_index (\<lambda>f. f) (d_free s) = Some i"
  shows "alloc_desc s = Ok (Some i) (s\<lparr>d_free := (d_free s)[i := False]\<rparr>)"
  using assms by (simp add: alloc_desc_def kbind_Ok kseq_Ok)

lemma alloc3_run:
  assumes "3 \<le> free_count (d_free s)"
  obtains i0 i1 i2 where "alloc3_desc s = Ok (Some (i0, i1, i2)) (s\<lparr>d_free := (d_free s)[i0 := False, i1 := False, i2 := False]\<rparr>)"
    "i0 < length (d_free s)" "i1 < length (d_free s)" "i2 < length (d_free s)" "distinct [i0, i1, i2]"
    "d_free s ! i0" "d_free s ! i1" "d_free s ! i2"
proof -
  obtain i0 where 0: "first_index (\<lambda>f. f) (d_free s) = Some i0" "i0 < length (d_free s)" "d_free s ! i0"
      "Suc (free_count ((d_free s)[i0 := False])) = free_count (d_free s)"
    using assms by (auto intro: free_first [of "d_free s"])
  obtain i1 where 1: "first_index (\<lambda>f. f) ((d_free s)[i0 := False]) = Some i1" "i1 < length (d_free s)" "(d_free s)[i0 := False] ! i1"
      "Suc (free_count ((d_free s)[i0 := False, i1 := False])) = free_count ((d_free s)[i0 := False])"
    using assms 0(4) by (auto intro: free_first [of "(d_free s)[i0 := False]"])
  obtain i2 where 2: "first_index (\<lambda>f. f) ((d_free s)[i0 := False, i1 := False]) = Some i2" "i2 < length (d_free s)"
      "(d_free s)[i0 := False, i1 := False] ! i2"
    using assms 0(4) 1(4) by (auto intro: free_first [of "(d_free s)[i0 := False, i1 := False]"])
  have "distinct [i0, i1, i2]" "d_free s ! i1" "d_free s ! i2"
    using 0(2) 1(2,3) 2(2,3) by (auto simp: nth_list_update split: if_splits)
  moreover have "alloc3_desc s = Ok (Some (i0, i1, i2)) (s\<lparr>d_free := (d_free s)[i0 := False, i1 := False, i2 := False]\<rparr>)"
    by (simp add: alloc3_desc_def kbind_Ok alloc_desc_run [OF 0(1)] alloc_desc_run 1(1) 2(1))
  ultimately show thesis using that 0 1 2 by blast
qed

section \<open>A request\<close>

text \<open>A state in which a process \<open>p\<close> may start a request for the buffer \<open>b\<close>: it holds no lock, three descriptors are free,
  the completions of earlier requests have been seen, and the buffer is not in use by the device. Other requests may be
  in flight.\<close>

definition vq_ready :: "nat \<Rightarrow> nat \<Rightarrow> 'z vdisk_scheme \<Rightarrow> bool" where
  "vq_ready p b s \<longleftrightarrow> curproc s = Some p \<and> held s = [] \<and> p < NPROC \<and> length (procs s) = NPROC \<and>
     p_state (procs s ! p) = RUNNING \<and> p_chan (procs s ! p) = None \<and>
     b < length (bufs s) \<and> \<not> b_disk (bufs s ! b) \<and> b_blockno (bufs s ! b) < 2 ^ 31 \<and>
     length (vq_desc s) = NUM \<and> length (avail_ring s) = NUM \<and> length (used_ring s) = NUM \<and>
     length (d_free s) = NUM \<and> length (d_info s) = NUM \<and> length (d_ops s) = NUM \<and>
     3 \<le> free_count (d_free s) \<and> used_idx s = used_ring_idx s"

text \<open>The state in which the process sleeps.\<close>

definition submitted :: "nat \<Rightarrow> nat \<Rightarrow> bool \<Rightarrow> nat \<Rightarrow> nat \<Rightarrow> nat \<Rightarrow> 'z vdisk_scheme \<Rightarrow> 'z vdisk_scheme" where
  "submitted p b write i0 i1 i2 s = s\<lparr>held := [L_proc p],
     procs := (procs s)[p := (procs s ! p)\<lparr>p_chan := Some (Ch_buf b), p_state := SLEEPING\<rparr>],
     mmio_log := (VIRTIO0 + vreg_off VIRTIO_MMIO_QUEUE_NOTIFY, 0) # mmio_log s,
     bufs := (bufs s)[b := (bufs s ! b)\<lparr>b_disk := True\<rparr>],
     vq_desc := format_descs b write i0 i1 i2 (vq_desc s),
     avail_idx := avail_idx s + 1,
     avail_ring := (avail_ring s)[unat (avail_idx s) mod NUM := of_nat i0],
     d_free := (d_free s)[i0 := False, i1 := False, i2 := False],
     d_info := (d_info s)[i0 := \<lparr>in_b = Some b, in_status = 0xff\<rparr>],
     d_ops := (d_ops s)[i0 := \<lparr>r_type = if write then VIRTIO_BLK_T_OUT else VIRTIO_BLK_T_IN,
       r_reserved = 0, r_sector = ucast (b_blockno (bufs s ! b) * of_nat (BSIZE div 512))\<rparr>]\<rparr>"

lemma virtio_submit_state:
  fixes s :: "'z vdisk_scheme"
  assumes "b < length (bufs s)"
  shows "virtio_submit b write i0 i1 i2 s = Ok () (s\<lparr>
     mmio_log := (VIRTIO0 + vreg_off VIRTIO_MMIO_QUEUE_NOTIFY, 0) # mmio_log s,
     bufs := (bufs s)[b := (bufs s ! b)\<lparr>b_disk := True\<rparr>],
     vq_desc := format_descs b write i0 i1 i2 (vq_desc s),
     avail_idx := avail_idx s + 1,
     avail_ring := (avail_ring s)[unat (avail_idx s) mod NUM := of_nat i0],
     d_info := (d_info s)[i0 := \<lparr>in_b = Some b, in_status = 0xff\<rparr>],
     d_ops := (d_ops s)[i0 := \<lparr>r_type = if write then VIRTIO_BLK_T_OUT else VIRTIO_BLK_T_IN,
       r_reserved = 0, r_sector = ucast (b_blockno (bufs s ! b) * of_nat (BSIZE div 512))\<rparr>]\<rparr>)"
  by (simp add: virtio_submit_def kbind_Ok kseq_Ok mmio_write_def)

lemma virtio_submit_run:
  assumes "vq_ready p b s"
  obtains i0 i1 i2 where "virtio_disk_rw b write s = Block (Ch_buf b) (submitted p b write i0 i1 i2 s)"
    "i0 < NUM" "i1 < NUM" "i2 < NUM" "distinct [i0, i1, i2]" "d_free s ! i0" "d_free s ! i1" "d_free s ! i2"
proof -
  define s1 where "s1 = s\<lparr>held := [L_vdisk]\<rparr>"
  have acq: "acquire L_vdisk s = Ok () s1" using assms by (simp add: s1_def vq_ready_def acquire_run)
  have "3 \<le> free_count (d_free s1)" using assms by (simp add: vq_ready_def s1_def)
  then obtain i0 i1 i2 where a: "alloc3_desc s1 = Ok (Some (i0, i1, i2)) (s1\<lparr>d_free := (d_free s1)[i0 := False, i1 := False, i2 := False]\<rparr>)"
      "i0 < length (d_free s1)" "i1 < length (d_free s1)" "i2 < length (d_free s1)" "distinct [i0, i1, i2]"
      "d_free s1 ! i0" "d_free s1 ! i1" "d_free s1 ! i2"
    by (rule alloc3_run)
  define s2 where "s2 = s1\<lparr>d_free := (d_free s1)[i0 := False, i1 := False, i2 := False]\<rparr>"
  have b: "b < length (bufs s2)" using assms by (simp add: vq_ready_def s1_def s2_def)
  have loop: "virtio_rw_loop b write s1 = kseq (virtio_submit b write i0 i1 i2) (virtio_wait b i0) s2"
    by (simp add: virtio_rw_loop_def kbind_Ok a(1) s2_def)
  have "virtio_disk_rw b write s = kseq (virtio_submit b write i0 i1 i2) (virtio_wait b i0) s2"
    by (simp add: virtio_disk_rw_def kseq_Ok acq loop)
  also have "\<dots> = Block (Ch_buf b) (submitted p b write i0 i1 i2 s)"
    using assms by (simp add: kseq_Ok virtio_submit_state [OF b])
      (simp add: virtio_wait_def kbind_Ok s1_def s2_def vq_ready_def sleep_run submitted_def)
  finally have "virtio_disk_rw b write s = Block (Ch_buf b) (submitted p b write i0 i1 i2 s)" .
  then show thesis using that a assms by (auto simp: s1_def vq_ready_def)
qed

lemma unat_ucast_32_64: "unat (ucast (x :: u32) :: u64) = unat x"
proof -
  have "unat x < 2 ^ 64" using unsigned_less [of x, where ?'a = nat] by simp
  then show ?thesis by (simp add: unsigned_ucast_eq take_bit_nat_eq_self)
qed

lemma sector_block_of:
  assumes "bn < (2 ^ 31 :: u32)"
  shows "sector_block (ucast (bn * of_nat (BSIZE div 512))) = bn"
proof -
  have lt: "unat bn < 2 ^ 31" using assms by (simp add: word_less_nat_alt)
  have "unat (bn * 2) = unat bn * 2" using lt by (subst unat_mult_lem [THEN iffD1]) simp_all
  then have "unat ((ucast (bn * 2) :: u64) div 2) = unat bn"
    by (simp add: unat_div unat_ucast_32_64)
  moreover have "unat (ucast y :: u32) = take_bit 32 (unat y)" for y :: u64 by (simp add: unsigned_ucast_eq)
  ultimately have "unat (sector_block (ucast (bn * 2))) = unat bn"
    unfolding sector_block_def using take_bit_nat_eq_self [of "unat bn" 32] lt by simp
  then show ?thesis by (simp add: BSIZE_def word_unat_eq_iff)
qed

lemma unat_index: "i < NUM \<Longrightarrow> unat (of_nat i :: u16) = i" "i < NUM \<Longrightarrow> unat (of_nat i :: u32) = i"
  by (simp_all add: NUM_def unat_of_nat)

lemmas desc_flags = VRING_DESC_F_NEXT_def VRING_DESC_F_WRITE_def

lemma format_descs_nth:
  assumes "i0 < NUM" "i1 < NUM" "i2 < NUM" "distinct [i0, i1, i2]" "length d = NUM"
  shows "format_descs b write i0 i1 i2 d ! i0 = \<lparr>d_addr = A_req i0, d_len = 16, d_flags = VRING_DESC_F_NEXT, d_next = of_nat i1\<rparr>"
    and "format_descs b write i0 i1 i2 d ! i1 = \<lparr>d_addr = A_data b, d_len = of_nat BSIZE,
      d_flags = (if write then 0 else VRING_DESC_F_WRITE) OR VRING_DESC_F_NEXT, d_next = of_nat i2\<rparr>"
    and "format_descs b write i0 i1 i2 d ! i2 = \<lparr>d_addr = A_status i0, d_len = 1, d_flags = VRING_DESC_F_WRITE, d_next = 0\<rparr>"
  using assms by (simp_all add: format_descs_def)

lemma submitted_chain:
  assumes "vq_ready p b s" and i: "i0 < NUM" "i1 < NUM" "i2 < NUM" "distinct [i0, i1, i2]"
  shows "blk_chain i0 b write ((submitted p b write i0 i1 i2 s)\<lparr>held := h, curproc := me\<rparr>)"
proof -
  have l: "length (vq_desc s) = NUM" "length (d_ops s) = NUM"
    using assms(1) by (simp_all add: vq_ready_def)
  then show ?thesis
    using i by (simp add: blk_chain_def submitted_def Let_def format_descs_nth [OF i l(1)] unat_index)
qed

text \<open>The device that has fetched all earlier requests.\<close>

definition dev_ready :: "vdev \<Rightarrow> 'z vdisk_scheme \<Rightarrow> bool" where
  "dev_ready v s \<longleftrightarrow> seen v = avail_idx s \<and> noticed v \<le> length (mmio_log s)"

lemma submitted_offered:
  assumes "vq_ready p b s" and "dev_ready v s" and "i0 < NUM"
  shows "offered v i0 ((submitted p b write i0 i1 i2 s)\<lparr>held := h, curproc := me\<rparr>)"
proof -
  have "unat (avail_idx s) mod NUM < length (avail_ring s)" using assms(1) by (simp add: vq_ready_def NUM_def)
  then show ?thesis using assms(2,3) by (simp add: offered_def submitted_def dev_ready_def Suc_diff_le)
qed

section \<open>The interrupt\<close>

lemma virtio_intr_run:
  fixes s :: "'z vdisk_scheme"
  assumes "held s = []" and "length (procs s) = NPROC" and "used_ring_idx s = used_idx s + 1"
    and "used_ring s ! (unat (used_idx s) mod NUM) = (of_nat h, n)" and "h < NUM"
    and "d_info s ! h = \<lparr>in_b = Some b, in_status = 0\<rparr>"
  shows "virtio_disk_intr s = Ok () (s\<lparr>procs := woken (Some (Ch_buf b)) (curproc s) (procs s),
    mmio_clk := Suc (mmio_clk s),
    mmio_log := (VIRTIO0 + vreg_off VIRTIO_MMIO_INTERRUPT_ACK, mmio_in s (mmio_clk s) (VIRTIO0 + vreg_off VIRTIO_MMIO_INTERRUPT_STATUS) AND 3) # mmio_log s,
    bufs := (bufs s)[b := (bufs s ! b)\<lparr>b_disk := False\<rparr>], used_idx := used_idx s + 1\<rparr>)"
proof -
  define s1 where "s1 = s\<lparr>held := [L_vdisk], mmio_clk := Suc (mmio_clk s),
    mmio_log := (VIRTIO0 + vreg_off VIRTIO_MMIO_INTERRUPT_ACK, mmio_in s (mmio_clk s) (VIRTIO0 + vreg_off VIRTIO_MMIO_INTERRUPT_STATUS) AND 3) # mmio_log s\<rparr>"
  define s2 where "s2 = s1\<lparr>bufs := (bufs s1)[b := (bufs s1 ! b)\<lparr>b_disk := False\<rparr>]\<rparr>"
  define s3 where "s3 = s2\<lparr>procs := woken (Some (Ch_buf b)) (curproc s2) (procs s2)\<rparr>"
  define s4 where "s4 = s3\<lparr>used_idx := used_idx s3 + 1\<rparr>"
  have w: "wakeup (Some (Ch_buf b)) s2 = Ok () s3"
    unfolding s3_def by (rule wakeup_run) (simp_all add: s2_def s1_def assms)
  have one: "unat (used_ring_idx s1 - used_idx s1) = 1" using assms(3) by (simp add: s1_def)
  have last: "virtio_intr_loop (Suc 0) s4 = Ok () s4"
    using assms(3) by (simp add: kbind_Ok s4_def s3_def s2_def s1_def)
  have c: "used_idx s1 \<noteq> used_ring_idx s1" "fst (used_ring s1 ! (unat (used_idx s1) mod NUM)) = of_nat h"
      "d_info s1 ! h = \<lparr>in_b = Some b, in_status = 0\<rparr>" "\<not> NUM \<le> h"
    using assms by (simp_all add: s1_def)
  have "virtio_intr_loop (Suc (Suc 0)) s1 = virtio_intr_loop (Suc 0) s4"
    unfolding virtio_intr_loop.simps(2) [of "Suc 0"]
    by (simp add: kbind_Ok kseq_Ok c unat_index assms(5) s2_def [symmetric] w s4_def [symmetric] del: virtio_intr_loop.simps)
  then have "kseq (virtio_intr_loop (Suc (Suc 0))) (release L_vdisk) s1 = release L_vdisk s4"
    using last by (simp add: kseq_Ok del: virtio_intr_loop.simps)
  moreover have "virtio_disk_intr s = kseq (virtio_intr_loop (Suc (Suc 0))) (release L_vdisk) s1"
    using assms(1) one by (simp add: virtio_disk_intr_def kseq_Ok kbind_Ok acquire_run mmio_read_def mmio_write_def s1_def [symmetric] del: virtio_intr_loop.simps)
  ultimately show ?thesis
    using assms(1) by (simp add: release_run s4_def s3_def s2_def s1_def)
qed

section \<open>The end of a request\<close>

lemma free_desc_run:
  fixes s :: "'z vdisk_scheme"
  assumes "i < NUM" and "\<not> d_free s ! i" and "held s = [L_vdisk]" and "length (procs s) = NPROC"
  shows "free_desc i s = Ok () (s\<lparr>procs := woken (Some Ch_disk_free) (curproc s) (procs s),
    vq_desc := (vq_desc s)[i := null_desc], d_free := (d_free s)[i := True]\<rparr>)"
proof -
  define s1 where "s1 = s\<lparr>vq_desc := (vq_desc s)[i := null_desc], d_free := (d_free s)[i := True]\<rparr>"
  have "wakeup (Some Ch_disk_free) s1 = Ok () (s1\<lparr>procs := woken (Some Ch_disk_free) (curproc s1) (procs s1)\<rparr>)"
    by (rule wakeup_run) (simp_all add: s1_def assms)
  then show ?thesis using assms(1,2) by (simp add: free_desc_def not_le kbind_Ok kseq_Ok s1_def)
qed

lemma woken_twice: "woken c me (woken c me ps) = woken c me ps"
  by (rule nth_equalityI) (simp_all add: woken_def)

lemma free_chain_run:
  fixes s :: "'z vdisk_scheme"
  assumes i: "i0 < NUM" "i1 < NUM" "i2 < NUM" "distinct [i0, i1, i2]" and len: "length d = NUM" "length (d_free s) = NUM"
    and "\<not> d_free s ! i0" "\<not> d_free s ! i1" "\<not> d_free s ! i2" and "held s = [L_vdisk]" and "length (procs s) = NPROC"
    and "vq_desc s = format_descs b write i0 i1 i2 d"
  shows "vq_free_chain i0 s = Ok () (s\<lparr>procs := woken (Some Ch_disk_free) (curproc s) (procs s),
    vq_desc := d[i0 := null_desc, i1 := null_desc, i2 := null_desc], d_free := (d_free s)[i0 := True, i1 := True, i2 := True]\<rparr>)"
proof -
  define s1 where "s1 = s\<lparr>procs := woken (Some Ch_disk_free) (curproc s) (procs s),
    vq_desc := (vq_desc s)[i0 := null_desc], d_free := (d_free s)[i0 := True]\<rparr>"
  define s2 where "s2 = s1\<lparr>procs := woken (Some Ch_disk_free) (curproc s1) (procs s1),
    vq_desc := (vq_desc s1)[i1 := null_desc], d_free := (d_free s1)[i1 := True]\<rparr>"
  define s3 where "s3 = s2\<lparr>procs := woken (Some Ch_disk_free) (curproc s2) (procs s2),
    vq_desc := (vq_desc s2)[i2 := null_desc], d_free := (d_free s2)[i2 := True]\<rparr>"
  note f = format_descs_nth [OF i len(1)]
  have 1: "free_desc i0 s = Ok () s1" unfolding s1_def by (rule free_desc_run) (use assms in simp_all)
  have 2: "free_desc i1 s1 = Ok () s2" unfolding s2_def by (rule free_desc_run) (use assms in \<open>simp_all add: s1_def\<close>)
  have 3: "free_desc i2 s2 = Ok () s3" unfolding s3_def by (rule free_desc_run) (use assms in \<open>simp_all add: s1_def s2_def\<close>)
  have d0: "vq_desc s ! i0 = \<lparr>d_addr = A_req i0, d_len = 16, d_flags = VRING_DESC_F_NEXT, d_next = of_nat i1\<rparr>"
    by (simp add: assms(12) f)
  have d1: "d_flags (vq_desc s1 ! i1) AND VRING_DESC_F_NEXT \<noteq> 0" "d_next (vq_desc s1 ! i1) = of_nat i2"
    using i by (simp_all add: s1_def assms(12) f desc_flags)
  have d2: "d_flags (vq_desc s2 ! i2) AND VRING_DESC_F_NEXT = 0"
    using i by (simp add: s1_def s2_def assms(12) f desc_flags)
  have "free_chain_loop (Suc k) i2 s2 = Ok () s3" for k
    by (simp add: kbind_Ok kseq_Ok 3 d2)
  then have "free_chain_loop (Suc (Suc k)) i1 s1 = Ok () s3" for k
    unfolding free_chain_loop.simps(2) [of "Suc k"] using i(3)
    by (simp add: kbind_Ok kseq_Ok 2 d1 unat_index del: free_chain_loop.simps)
  then have "free_chain_loop (Suc (Suc (Suc k))) i0 s = Ok () s3" for k
    unfolding free_chain_loop.simps(2) [of "Suc (Suc k)"] using i(2)
    by (simp add: kbind_Ok kseq_Ok 1 d0 unat_index VRING_DESC_F_NEXT_def del: free_chain_loop.simps)
  from this [of 6] have "vq_free_chain i0 s = Ok () s3" unfolding vq_free_chain_def NUM_def by (simp del: free_chain_loop.simps)
  moreover have "(format_descs b write i0 i1 i2 d)[i0 := null_desc, i1 := null_desc, i2 := null_desc] =
      d[i0 := null_desc, i1 := null_desc, i2 := null_desc]"
    using i len by (simp add: format_descs_def list_update_swap)
  ultimately show ?thesis
    by (simp add: s3_def s2_def s1_def woken_twice assms(12))
qed

lemma virtio_resume_run:
  fixes s :: "'z vdisk_scheme"
  assumes i: "i0 < NUM" "i1 < NUM" "i2 < NUM" "distinct [i0, i1, i2]" and len: "length d = NUM" "length (d_free s) = NUM"
    and fr: "\<not> d_free s ! i0" "\<not> d_free s ! i1" "\<not> d_free s ! i2"
    and s: "held s = [L_proc p]" "length (procs s) = NPROC" "\<not> b_disk (bufs s ! b)"
    and d: "vq_desc s = format_descs b write i0 i1 i2 d"
  shows "kseq (sleep_resume p L_vdisk) (virtio_wait b i0) s = Ok () (s\<lparr>held := [],
    procs := woken (Some Ch_disk_free) (curproc s) ((procs s)[p := (procs s ! p)\<lparr>p_chan := None\<rparr>]),
    vq_desc := d[i0 := null_desc, i1 := null_desc, i2 := null_desc], d_free := (d_free s)[i0 := True, i1 := True, i2 := True],
    d_info := (d_info s)[i0 := (d_info s ! i0)\<lparr>in_b := None\<rparr>]\<rparr>)"
proof -
  define s1 where "s1 = s\<lparr>held := [L_vdisk], procs := (procs s)[p := (procs s ! p)\<lparr>p_chan := None\<rparr>]\<rparr>"
  define s2 where "s2 = s1\<lparr>d_info := (d_info s1)[i0 := (d_info s1 ! i0)\<lparr>in_b := None\<rparr>]\<rparr>"
  have "sleep_resume p L_vdisk s = Ok () s1"
    using s(1) by (simp add: sleep_resume_def kseq_Ok release_run acquire_run s1_def)
  moreover have "virtio_wait b i0 s1 = kseq (vq_free_chain i0) (kseq (release L_vdisk) (kreturn ())) s2"
    using s(3) by (simp add: virtio_wait_def kbind_Ok kseq_Ok s2_def) (simp add: s1_def)
  moreover have "vq_free_chain i0 s2 = Ok () (s2\<lparr>procs := woken (Some Ch_disk_free) (curproc s2) (procs s2),
      vq_desc := d[i0 := null_desc, i1 := null_desc, i2 := null_desc], d_free := (d_free s2)[i0 := True, i1 := True, i2 := True]\<rparr>)"
    using d by (intro free_chain_run [OF i len(1)]) (use assms in \<open>simp_all add: s1_def s2_def\<close>)
  ultimately show ?thesis
    by (simp add: kseq_Ok release_run s1_def s2_def)
qed

lemma device_transfers:
  assumes "virtio_blk dev" and "offered v h s" and "blk_chain h b write s"
    and "sector_block (r_sector (d_ops s ! h)) = b_blockno (bufs s ! b)"
  obtains u where "disk_rw b write s = Ok () u" "completes h v u (dev v s)"
proof -
  note d = assms(1) [unfolded virtio_blk_def Let_def, rule_format, OF assms(2), of b]
  show thesis
  proof (rule that)
    show "disk_rw b write s = Ok () (if write then s\<lparr>disk := (disk s)(b_blockno (bufs s ! b) := b_data (bufs s ! b)),
        disk_log := (b_blockno (bufs s ! b), b_data (bufs s ! b)) # disk_log s\<rparr>
      else s\<lparr>bufs := (bufs s)[b := (bufs s ! b)\<lparr>b_data := disk s (b_blockno (bufs s ! b))\<rparr>]\<rparr>)"
      by (simp add: disk_rw_def Let_def)
    show "completes h v (if write then s\<lparr>disk := (disk s)(b_blockno (bufs s ! b) := b_data (bufs s ! b)),
        disk_log := (b_blockno (bufs s ! b), b_data (bufs s ! b)) # disk_log s\<rparr>
      else s\<lparr>bufs := (bufs s)[b := (bufs s ! b)\<lparr>b_data := disk s (b_blockno (bufs s ! b))\<rparr>]\<rparr>) (dev v s)"
      using d assms(3,4) by (cases "write") simp_all
  qed
qed

lemma buf_idle: "\<not> b_disk x \<Longrightarrow> x\<lparr>b_disk := False\<rparr> = x"
  by (cases x) simp

text \<open>The state in which the process runs again, when the interrupt has been handled.\<close>

definition scheduled :: "nat \<Rightarrow> 'z vdisk_scheme \<Rightarrow> 'z vdisk_scheme" where
  "scheduled p s = s\<lparr>held := [L_proc p], curproc := Some p, procs := (procs s)[p := (procs s ! p)\<lparr>p_state := RUNNING\<rparr>]\<rparr>"

text \<open>What is left to do for the process when it runs again in the state \<open>t\<close>, where \<open>v\<close> is the state after the transfer.\<close>

definition served :: "nat \<Rightarrow> nat \<Rightarrow> bool \<Rightarrow> nat \<Rightarrow> nat \<Rightarrow> nat \<Rightarrow> 'z vdisk_scheme \<Rightarrow> 'z vdisk_scheme \<Rightarrow> 'z vdisk_scheme \<Rightarrow> bool" where
  "served p b write i0 i1 i2 s v t \<longleftrightarrow>
     d_free t = (d_free s)[i0 := False, i1 := False, i2 := False] \<and> vq_desc t = format_descs b write i0 i1 i2 (vq_desc s) \<and>
     bufs t = (bufs v)[b := (bufs v ! b)\<lparr>b_disk := False\<rparr>] \<and> disk t = disk v \<and> disk_log t = disk_log v \<and>
     length (d_info t) = NUM \<and> length (d_ops t) = NUM \<and> length (avail_ring t) = NUM \<and> length (used_ring t) = NUM \<and>
     used_idx t = used_ring_idx t \<and> held t = [L_proc p] \<and> curproc t = Some p \<and> length (procs t) = NPROC \<and>
     procs t ! p = (procs s ! p)\<lparr>p_chan := Some (Ch_buf b), p_state := RUNNING\<rparr>"

lemma virtio_served:
  fixes dev :: "vdev \<Rightarrow> 'z vdisk_scheme \<Rightarrow> vdev \<times> 'z vdisk_scheme"
  assumes dev: "virtio_blk dev" and ready: "vq_ready p b s" and idle: "dev_ready x s" and me: "me \<noteq> Some p"
    and i: "i0 < NUM" "i1 < NUM" "i2 < NUM" "distinct [i0, i1, i2]"
  obtains x' t2 t3 v where "dev x ((submitted p b write i0 i1 i2 s)\<lparr>held := [], curproc := me\<rparr>) = (x', t2)"
    "virtio_disk_intr t2 = Ok () t3" "dev_ready x' (scheduled p t3)"
    "p_state (procs t3 ! p) = RUNNABLE" "served p b write i0 i1 i2 s v (scheduled p t3)"
    "disk_rw b write ((submitted p b write i0 i1 i2 s)\<lparr>held := [], curproc := me\<rparr>) = Ok () v"
proof -
  define t1 where "t1 = (submitted p b write i0 i1 i2 s)\<lparr>held := [], curproc := me\<rparr>"
  have ch: "blk_chain i0 b write t1" unfolding t1_def by (rule submitted_chain [OF ready i])
  have off: "offered x i0 t1" unfolding t1_def by (rule submitted_offered [OF ready idle i(1)])
  have r: "length (procs s) = NPROC" "p < NPROC" "b < length (bufs s)" "\<not> b_disk (bufs s ! b)" "b_blockno (bufs s ! b) < 2 ^ 31"
      "length (vq_desc s) = NUM" "length (d_free s) = NUM" "length (d_info s) = NUM" "length (d_ops s) = NUM"
      "length (used_ring s) = NUM" "used_idx s = used_ring_idx s"
    using ready by (simp_all add: vq_ready_def)
  have sec: "sector_block (r_sector (d_ops t1 ! i0)) = b_blockno (bufs t1 ! b)"
    using r i by (simp add: t1_def submitted_def sector_block_of)
  obtain v where v: "disk_rw b write t1 = Ok () v" "completes i0 x v (dev x t1)"
    by (rule device_transfers [OF dev off ch sec])
  define t2 where "t2 = snd (dev x t1)"
  obtain n k where k: "k \<le> length (mmio_log v)" "dev x t1 = (\<lparr>seen = seen x + 1, noticed = k\<rparr>, t2)" and t2: "t2 = v\<lparr>used_ring_idx := used_ring_idx v + 1,
      used_ring := (used_ring v)[unat (used_ring_idx v) mod NUM := (of_nat i0, n)],
      d_info := (d_info v)[i0 := (d_info v ! i0)\<lparr>in_status := 0\<rparr>]\<rparr>"
    using v(2) by (auto simp: completes_def t2_def)
  have keep: "held v = []" "curproc v = me" "used_ring v = used_ring s" "used_ring_idx v = used_ring_idx s" "used_idx v = used_idx s"
      "procs v = (procs s)[p := (procs s ! p)\<lparr>p_chan := Some (Ch_buf b), p_state := SLEEPING\<rparr>]"
      "d_info v = (d_info s)[i0 := \<lparr>in_b = Some b, in_status = 0xff\<rparr>]" "vq_desc v = format_descs b write i0 i1 i2 (vq_desc s)"
      "d_free v = (d_free s)[i0 := False, i1 := False, i2 := False]" "length (avail_ring v) = NUM" "length (d_ops v) = NUM"
      "length (bufs v) = length (bufs s)" "avail_idx v = avail_idx s + 1" "length (mmio_log v) = Suc (length (mmio_log s))"
    using v(1) ready by (auto simp: disk_rw_def Let_def t1_def submitted_def vq_ready_def split: if_splits)
  define t3 where "t3 = t2\<lparr>procs := woken (Some (Ch_buf b)) (curproc t2) (procs t2), mmio_clk := Suc (mmio_clk t2),
    mmio_log := (VIRTIO0 + vreg_off VIRTIO_MMIO_INTERRUPT_ACK, mmio_in t2 (mmio_clk t2) (VIRTIO0 + vreg_off VIRTIO_MMIO_INTERRUPT_STATUS) AND 3) # mmio_log t2,
    bufs := (bufs t2)[b := (bufs t2 ! b)\<lparr>b_disk := False\<rparr>], used_idx := used_idx t2 + 1\<rparr>"
  have slot: "unat (used_ring_idx s) mod NUM < NUM" by (simp add: NUM_def)
  have intr: "virtio_disk_intr t2 = Ok () t3"
    unfolding t3_def by (rule virtio_intr_run [where h = i0 and n = n]) (use keep r i slot in \<open>simp_all add: t2\<close>)
  have p3: "procs t3 ! p = (procs s ! p)\<lparr>p_chan := Some (Ch_buf b), p_state := RUNNABLE\<rparr>" "length (procs t3) = NPROC"
    using keep r me by (simp_all add: t3_def t2 woken_def)
  have "served p b write i0 i1 i2 s v (scheduled p t3)"
    using keep r p3 by (simp add: served_def scheduled_def) (simp add: t3_def t2)
  moreover have "dev_ready \<lparr>seen = seen x + 1, noticed = k\<rparr> (scheduled p t3)"
    using keep(13,14) k(1) idle by (simp add: dev_ready_def scheduled_def) (simp add: t3_def t2)
  moreover have "p_state (procs t3 ! p) = RUNNABLE" using p3(1) by simp
  ultimately show thesis using that k(2) intr v(1) unfolding t1_def by blast
qed

text \<open>The transfer is the one that \<open>disk_rw\<close> makes before the request.\<close>

lemma transfer_same:
  assumes ready: "vq_ready p b s"
    and v: "disk_rw b write ((submitted p b write i0 i1 i2 s)\<lparr>held := [], curproc := me\<rparr>) = Ok () v"
  obtains u where "disk_rw b write s = Ok () u" "disk v = disk u" "disk_log v = disk_log u"
    "(bufs v)[b := (bufs v ! b)\<lparr>b_disk := False\<rparr>] = bufs u" "length (bufs u) = length (bufs s)"
    "\<not> b_disk (bufs u ! b)" "b_blockno (bufs u ! b) = b_blockno (bufs s ! b)"
proof -
  have b: "b < length (bufs s)" "\<not> b_disk (bufs s ! b)" using ready by (simp_all add: vq_ready_def)
  obtain u where u: "disk_rw b write s = Ok () u" by (simp add: disk_rw_def)
  from u v b show thesis
    by (intro that [of u]) (auto simp: disk_rw_def Let_def submitted_def buf_idle split: if_splits)
qed

lemma virtio_finished:
  assumes ready: "vq_ready p b s" and i: "i0 < NUM" "i1 < NUM" "i2 < NUM" "distinct [i0, i1, i2]"
    and fr: "d_free s ! i0" "d_free s ! i1" "d_free s ! i2" and t: "served p b write i0 i1 i2 s v t"
    and v: "disk_rw b write ((submitted p b write i0 i1 i2 s)\<lparr>held := [], curproc := me\<rparr>) = Ok () v"
  obtains t5 u where "kseq (sleep_resume p L_vdisk) (virtio_wait b i0) t = Ok () t5"
    "disk_rw b write s = Ok () u" "disk t5 = disk u" "disk_log t5 = disk_log u" "bufs t5 = bufs u" "vq_ready p b t5"
    "avail_idx t5 = avail_idx t" "mmio_log t5 = mmio_log t"
proof -
  obtain u where u: "disk_rw b write s = Ok () u" "disk v = disk u" "disk_log v = disk_log u"
      "(bufs v)[b := (bufs v ! b)\<lparr>b_disk := False\<rparr>] = bufs u" "length (bufs u) = length (bufs s)"
      "\<not> b_disk (bufs u ! b)" "b_blockno (bufs u ! b) = b_blockno (bufs s ! b)"
    by (rule transfer_same [OF ready v])
  have r: "length (vq_desc s) = NUM" "length (d_free s) = NUM" "p < NPROC" using ready by (simp_all add: vq_ready_def)
  have n: "\<not> d_free t ! i0" "\<not> d_free t ! i1" "\<not> d_free t ! i2" "length (d_free t) = NUM" "\<not> b_disk (bufs t ! b)"
    using i r t u(4,6) by (simp_all add: served_def nth_list_update)
  have free: "(d_free t)[i0 := True, i1 := True, i2 := True] = d_free s"
    using fr t i r(2) by (intro nth_equalityI) (auto simp: served_def nth_list_update)
  define t5 where "t5 = t\<lparr>held := [], procs := woken (Some Ch_disk_free) (curproc t) ((procs t)[p := (procs t ! p)\<lparr>p_chan := None\<rparr>]),
    vq_desc := (vq_desc s)[i0 := null_desc, i1 := null_desc, i2 := null_desc],
    d_free := (d_free t)[i0 := True, i1 := True, i2 := True], d_info := (d_info t)[i0 := (d_info t ! i0)\<lparr>in_b := None\<rparr>]\<rparr>"
  have fin: "kseq (sleep_resume p L_vdisk) (virtio_wait b i0) t = Ok () t5"
    unfolding t5_def using t by (intro virtio_resume_run [OF i r(1) n(4,1-3) _ _ n(5)]) (simp_all add: served_def)
  have "vq_ready p b t5"
    using t ready u free r by (simp add: vq_ready_def served_def t5_def woken_def)
  moreover have "avail_idx t5 = avail_idx t" "mmio_log t5 = mmio_log t" by (simp_all add: t5_def)
  moreover have "disk t5 = disk u" "disk_log t5 = disk_log u" "bufs t5 = bufs u" using t u by (simp_all add: t5_def served_def)
  ultimately show thesis using that fin u(1) by blast
qed

text \<open>C26. The disk driver implements the disk that the buffer cache is built on, for every device that serves the requests it
  is offered as the virtio specification says: those whose head is in the next slot of the available
  ring, that the index of the ring publishes, and of which the device is notified. A process that
  calls \<open>virtio_disk_rw\<close> while three descriptors are free and the device has fetched all earlier requests, any of
  which may still be in flight, offers it a well-formed chain of descriptors and sleeps; when the device has served
  the chain, as the next one that it completes, and raised its interrupt, \<open>virtio_disk_intr\<close> makes the process
  runnable; and when the process has run again, the disk, the history of its writes and all
  buffers are what one \<open>disk_rw\<close> would have made of them, and the queue and the device are ready for the
  next request, with the descriptors free again.\<close>

theorem virtio_implements_disk:
  fixes dev :: "vdev \<Rightarrow> 'z vdisk_scheme \<Rightarrow> vdev \<times> 'z vdisk_scheme"
  assumes "virtio_blk dev" and "vq_ready p b s" and "dev_ready v s" and "me \<noteq> Some p"
  shows "\<exists>h v' t1 t2 t3 t5 u. virtio_disk_rw b write s = Block (Ch_buf b) t1 \<and>
    dev v (t1\<lparr>held := [], curproc := me\<rparr>) = (v', t2) \<and>
    virtio_disk_intr t2 = Ok () t3 \<and> p_state (procs t3 ! p) = RUNNABLE \<and>
    kseq (sleep_resume p L_vdisk) (virtio_wait b h) (scheduled p t3) = Ok () t5 \<and>
    disk_rw b write s = Ok () u \<and> disk t5 = disk u \<and> disk_log t5 = disk_log u \<and> bufs t5 = bufs u \<and>
    vq_ready p b t5 \<and> dev_ready v' t5"
proof -
  obtain i0 i1 i2 where sub: "virtio_disk_rw b write s = Block (Ch_buf b) (submitted p b write i0 i1 i2 s)"
    and i: "i0 < NUM" "i1 < NUM" "i2 < NUM" "distinct [i0, i1, i2]" and fr: "d_free s ! i0" "d_free s ! i1" "d_free s ! i2"
    by (rule virtio_submit_run [OF assms(2)])
  obtain v' t2 t3 x where t3: "dev v ((submitted p b write i0 i1 i2 s)\<lparr>held := [], curproc := me\<rparr>) = (v', t2)"
    "virtio_disk_intr t2 = Ok () t3" "p_state (procs t3 ! p) = RUNNABLE" and d3: "dev_ready v' (scheduled p t3)"
    and served: "served p b write i0 i1 i2 s x (scheduled p t3)"
    and x: "disk_rw b write ((submitted p b write i0 i1 i2 s)\<lparr>held := [], curproc := me\<rparr>) = Ok () x"
    by (rule virtio_served [OF assms i])
  obtain t5 u where t5: "kseq (sleep_resume p L_vdisk) (virtio_wait b i0) (scheduled p t3) = Ok () t5"
    "disk_rw b write s = Ok () u" "disk t5 = disk u" "disk_log t5 = disk_log u" "bufs t5 = bufs u" "vq_ready p b t5"
    "avail_idx t5 = avail_idx (scheduled p t3)" "mmio_log t5 = mmio_log (scheduled p t3)"
    by (rule virtio_finished [OF assms(2) i fr served x])
  then have "dev_ready v' t5" using d3 by (simp add: dev_ready_def)
  with sub t3 t5(1-6) show ?thesis by blast
qed

text \<open>A device that obeys the specification, and a queue at rest.\<close>

definition ram_disk :: "vdev \<Rightarrow> 'z vdisk_scheme \<Rightarrow> vdev \<times> 'z vdisk_scheme" where
  "ram_disk v s =
     (if seen v = avail_idx s then (v, s)
      else let h = unat (avail_ring s ! (unat (seen v) mod NUM));
          bn = sector_block (r_sector (d_ops s ! h));
          b = (case d_addr (vq_desc s ! unat (d_next (vq_desc s ! h))) of A_data b \<Rightarrow> b | _ \<Rightarrow> 0);
          t = (if r_type (d_ops s ! h) = VIRTIO_BLK_T_OUT
               then s\<lparr>disk := (disk s)(bn := b_data (bufs s ! b)), disk_log := (bn, b_data (bufs s ! b)) # disk_log s\<rparr>
               else s\<lparr>bufs := (bufs s)[b := (bufs s ! b)\<lparr>b_data := disk s bn\<rparr>]\<rparr>)
      in (\<lparr>seen = seen v + 1, noticed = length (mmio_log s)\<rparr>, t\<lparr>used_ring_idx := used_ring_idx t + 1,
         used_ring := (used_ring t)[unat (used_ring_idx t) mod NUM := (of_nat h, 1)],
         d_info := (d_info t)[h := (d_info t ! h)\<lparr>in_status := 0\<rparr>]\<rparr>))"

lemma ram_disk_obeys: "virtio_blk ram_disk"
proof -
  have "completes h v (s\<lparr>disk := (disk s)(bn := b_data (bufs s ! b)), disk_log := (bn, b_data (bufs s ! b)) # disk_log s\<rparr>) (ram_disk v s)"
    if "offered v h s" "blk_chain h b True s" "bn = sector_block (r_sector (d_ops s ! h))" for v h b bn s
    unfolding completes_def ram_disk_def using that
    by (intro exI [of _ 1] exI [of _ "length (mmio_log s)"]) (simp add: offered_def unat_index blk_chain_def Let_def)
  moreover have "completes h v (s\<lparr>bufs := (bufs s)[b := (bufs s ! b)\<lparr>b_data := disk s bn\<rparr>]\<rparr>) (ram_disk v s)"
    if "offered v h s" "blk_chain h b False s" "bn = sector_block (r_sector (d_ops s ! h))" for v h b bn s
    unfolding completes_def ram_disk_def using that
    by (intro exI [of _ 1] exI [of _ "length (mmio_log s)"])
      (simp add: offered_def unat_index blk_chain_def Let_def VIRTIO_BLK_T_OUT_def VIRTIO_BLK_T_IN_def)
  ultimately show ?thesis unfolding virtio_blk_def Let_def by blast
qed

definition vdisk0 :: vdisk where
  "vdisk0 = filest.extend (pipest.extend (pipest0\<lparr>bufs := bufs0\<rparr>) (filest.fields [] []))
     (vdisk.fields (replicate NUM null_desc) 0 (replicate NUM 0) 0 (replicate NUM (0, 0)) (0, 0, 0) (replicate NUM True) 0
       (replicate NUM \<lparr>in_b = None, in_status = 0\<rparr>) (replicate NUM \<lparr>r_type = 0, r_reserved = 0, r_sector = 0\<rparr>))"

lemma vdisk0_ready: "vq_ready 0 0 vdisk0"
proof -
  have "procs vdisk0 = procs pipest0" "curproc vdisk0 = curproc pipest0" "held vdisk0 = held pipest0" "bufs vdisk0 = bufs0"
    by (simp_all add: vdisk0_def filest.defs pipest.defs vdisk.defs)
  moreover have "vq_desc vdisk0 = replicate NUM null_desc" "avail_ring vdisk0 = replicate NUM 0" "used_ring vdisk0 = replicate NUM (0, 0)"
      "d_free vdisk0 = replicate NUM True" "length (d_info vdisk0) = NUM" "length (d_ops vdisk0) = NUM" "used_idx vdisk0 = used_ring_idx vdisk0"
    by (simp_all add: vdisk0_def filest.defs pipest.defs vdisk.defs)
  moreover have "bufs0 ! 0 = \<lparr>b_valid = False, b_disk = False, b_dev = 0, b_blockno = 0, b_refcnt = 0,
      b_prev = 1, b_next = bhead, b_data = replicate BSIZE 0\<rparr>" "0 < length bufs0"
    by (simp_all add: bufs0_def NBUF_def MAXOPBLOCKS_def nth_append)
  ultimately show ?thesis
    by (simp add: vq_ready_def pipest0_simps NPROC_def proc0_def free_count_def NUM_def)
qed

lemma vdisk0_dev: "dev_ready \<lparr>seen = 0, noticed = 0\<rparr> vdisk0"
  by (simp add: dev_ready_def vdisk0_def filest.defs pipest.defs vdisk.defs)

theorem virtio_implements_disk_witness:
  "\<exists>h v t1 t2 t3 t5. virtio_disk_rw 0 True vdisk0 = Block (Ch_buf 0) t1 \<and>
    ram_disk \<lparr>seen = 0, noticed = 0\<rparr> (t1\<lparr>held := [], curproc := None\<rparr>) = (v, t2) \<and> virtio_disk_intr t2 = Ok () t3 \<and>
    kseq (sleep_resume 0 L_vdisk) (virtio_wait 0 h) (scheduled 0 t3) = Ok () t5 \<and>
    disk t5 0 = b_data (bufs vdisk0 ! 0)"
proof -
  have "b_blockno (bufs vdisk0 ! 0) = 0"
    by (simp add: vdisk0_def filest.defs pipest.defs vdisk.defs bufs0_def NBUF_def MAXOPBLOCKS_def nth_append)
  then have "disk u 0 = b_data (bufs vdisk0 ! 0)" if "disk_rw 0 True vdisk0 = Ok () u" for u
    using that by (auto simp: disk_rw_def)
  then show ?thesis
    using virtio_implements_disk [OF ram_disk_obeys vdisk0_ready vdisk0_dev, of None True] by fastforce
qed

end
