(* ===== verification/Sysproc.thy ===== *)
theory Sysproc
  imports Virtio
begin

text \<open>
  \<open>kernel/sysproc.c\<close>: the system calls on processes, time, and the lab's \<open>hello\<close>, \<open>trace\<close> and \<open>sysinfo\<close>.
\<close>

record sysst = vdisk +
  ticks :: u32

definition sys_exit :: "('z sysst_scheme, u64) km" where
  "sys_exit = kbind (argint 0) (\<lambda>n. exit n)"

definition sys_getpid :: "('z sysst_scheme, u64) km" where
  "sys_getpid = kbind this_proc (\<lambda>p. kbind (pget p p_pid) (\<lambda>pid. kret pid))"

definition sys_fork :: "('z sysst_scheme, u64) km" where
  "sys_fork = kbind fork (\<lambda>r. kret r)"

definition sys_wait :: "('z sysst_scheme, u64) km" where
  "sys_wait = kbind (argaddr 0) (\<lambda>p. kbind (wait p) (\<lambda>r. kret r))"

definition sys_sbrk :: "('z sysst_scheme, u64) km" where
  "sys_sbrk =
     kbind (argint 0) (\<lambda>n.
     kbind this_proc (\<lambda>p.
     kbind (pget p p_sz) (\<lambda>addr.
     kbind (growproc n) (\<lambda>r.
     if r < 0 then kret (- 1) else kreturn addr))))"

text \<open>The loop of \<open>sys_sleep\<close>, which is where it resumes after each tick.\<close>

definition sys_sleep_loop :: "u32 \<Rightarrow> int \<Rightarrow> ('z sysst_scheme, u64) km" where
  "sys_sleep_loop ticks0 n =
     kbind (kget (\<lambda>s. int (unat (ticks s - ticks0)) < n)) (\<lambda>waiting.
     if waiting then
       kbind this_proc (\<lambda>p.
       kbind (killed p) (\<lambda>k.
       if k then kseq (release L_ticks) (kret (- 1))
       else sleep Ch_ticks L_ticks))
     else kseq (release L_ticks) (kret 0))"

definition sys_sleep :: "('z sysst_scheme, u64) km" where
  "sys_sleep =
     kbind (argint 0) (\<lambda>n.
     kseq (acquire L_ticks)
    (kbind (kget ticks) (\<lambda>ticks0. sys_sleep_loop ticks0 (max n 0))))"

definition sys_kill :: "('z sysst_scheme, u64) km" where
  "sys_kill = kbind (argint 0) (\<lambda>pid. kbind (kill pid) (\<lambda>r. kret r))"

definition sys_uptime :: "('z sysst_scheme, u64) km" where
  "sys_uptime =
     kseq (acquire L_ticks)
    (kbind (kget ticks) (\<lambda>xticks.
     kseq (release L_ticks)
    (kreturn (ucast xticks))))"

definition sys_hello :: "('z sysst_scheme, u64) km" where
  "sys_hello = kseq (printf (bytes_of (''Hello, world! '' @ [CHR 0x0A])) []) (kret 0)"

definition sys_trace :: "('z sysst_scheme, u64) km" where
  "sys_trace =
     kbind (argint 0) (\<lambda>mask.
     if mask < 0 then kret (- 1)
     else kbind this_proc (\<lambda>p.
       kseq (pset p (\<lambda>q. q\<lparr>p_trace_mask := of_int mask\<rparr>)) (kret 0)))"

text \<open>\<open>struct sysinfo\<close>: three ints.\<close>

definition sysinfo_bytes :: "int \<Rightarrow> int \<Rightarrow> int \<Rightarrow> u8 list" where
  "sysinfo_bytes fm np nf = le_bytes 4 (of_int fm :: u32) @ le_bytes 4 (of_int np :: u32) @ le_bytes 4 (of_int nf :: u32)"

definition sysinfo :: "u64 \<Rightarrow> ('z sysst_scheme, int) km" where
  "sysinfo addr =
     kbind this_proc (\<lambda>p.
     kbind freemem (\<lambda>fm.
     kbind nproc (\<lambda>np.
     kbind fileopencount (\<lambda>nf.
     kbind (pget p p_pagetable) (\<lambda>pt.
     kbind (copyout pt addr (sysinfo_bytes fm np nf)) (\<lambda>r.
     if r < 0 then kreturn (- 1) else kreturn 0))))))"

text \<open>The test \<open>info < 0\<close> is on an unsigned value.\<close>

definition sys_sysinfo :: "('z sysst_scheme, u64) km" where
  "sys_sysinfo = kbind (argaddr 0) (\<lambda>info. if info < 0 then kret 1 else kbind (sysinfo info) (\<lambda>r. kret r))"

end
