(* ===== verification/Syscall.thy ===== *)
theory Syscall
  imports Sysproc
begin

text \<open>
  The dispatch of system calls in \<open>kernel/syscall.c\<close>, with the tracing of the lab. The table of functions and
  the table of names have an entry for each number of \<open>kernel/syscall.h\<close>, and a null entry 0.
\<close>

unbundle bit_operations_syntax

datatype sysnum = SYS_fork | SYS_exit | SYS_wait | SYS_pipe | SYS_read | SYS_kill | SYS_exec | SYS_fstat
  | SYS_chdir | SYS_dup | SYS_getpid | SYS_sbrk | SYS_sleep | SYS_uptime | SYS_open | SYS_write
  | SYS_mknod | SYS_unlink | SYS_link | SYS_mkdir | SYS_close | SYS_hello | SYS_trace | SYS_sysinfo

text \<open>The numbers 1 to 24, in order.\<close>

definition sysnums :: "sysnum list" where
  "sysnums = [SYS_fork, SYS_exit, SYS_wait, SYS_pipe, SYS_read, SYS_kill, SYS_exec, SYS_fstat,
     SYS_chdir, SYS_dup, SYS_getpid, SYS_sbrk, SYS_sleep, SYS_uptime, SYS_open, SYS_write,
     SYS_mknod, SYS_unlink, SYS_link, SYS_mkdir, SYS_close, SYS_hello, SYS_trace, SYS_sysinfo]"

primrec syscalls :: "sysnum \<Rightarrow> ('z sysst_scheme, u64) km" where
  "syscalls SYS_fork = sys_fork"
| "syscalls SYS_exit = sys_exit"
| "syscalls SYS_wait = sys_wait"
| "syscalls SYS_pipe = sys_pipe"
| "syscalls SYS_read = sys_read"
| "syscalls SYS_kill = sys_kill"
| "syscalls SYS_exec = sys_exec"
| "syscalls SYS_fstat = sys_fstat"
| "syscalls SYS_chdir = sys_chdir"
| "syscalls SYS_dup = sys_dup"
| "syscalls SYS_getpid = sys_getpid"
| "syscalls SYS_sbrk = sys_sbrk"
| "syscalls SYS_sleep = sys_sleep"
| "syscalls SYS_uptime = sys_uptime"
| "syscalls SYS_open = sys_open"
| "syscalls SYS_write = sys_write"
| "syscalls SYS_mknod = sys_mknod"
| "syscalls SYS_unlink = sys_unlink"
| "syscalls SYS_link = sys_link"
| "syscalls SYS_mkdir = sys_mkdir"
| "syscalls SYS_close = sys_close"
| "syscalls SYS_hello = sys_hello"
| "syscalls SYS_trace = sys_trace"
| "syscalls SYS_sysinfo = sys_sysinfo"

definition sys_name :: "string list" where
  "sys_name = [''fork'', ''exit'', ''wait'', ''pipe'', ''read'', ''kill'', ''exec'', ''fstat'',
     ''chdir'', ''dup'', ''getpid'', ''sbrk'', ''sleep'', ''uptime'', ''open'', ''write'',
     ''mknod'', ''unlink'', ''link'', ''mkdir'', ''close'', ''hello'', ''trace'', ''sysinfo'']"

text \<open>\<open>sys_name[num]\<close>: null for 0, undefined outside the table.\<close>

definition sys_name_at :: "int \<Rightarrow> ('s, u8 list option) km" where
  "sys_name_at num =
     (if num = 0 then kreturn None
      else if 0 < num \<and> num \<le> int (length sys_name) then kreturn (Some (bytes_of (sys_name ! nat (num - 1)) @ [0]))
      else kundef)"

text \<open>The trace at the end of \<open>syscall\<close>; the shift instruction takes the low five bits of \<open>num\<close>.\<close>

definition syscall_trace :: "nat \<Rightarrow> int \<Rightarrow> ('z sysst_scheme, unit) km" where
  "syscall_trace p num =
     kbind (pget p (\<lambda>q. (p_trace_mask q, p_pid q))) (\<lambda>(mask, pid).
     kwhen (mask AND push_bit (nat (num mod 32)) 1 \<noteq> 0)
       (kbind (sys_name_at num) (\<lambda>nm.
        kbind (tf_get p TF_a0) (\<lambda>a0.
        printf (bytes_of (''%d: syscall %s -> %lu'' @ [CHR 0x0A])) [VInt (of_int pid), VStr nm, VInt a0]))))"

definition syscall :: "('z sysst_scheme, unit) km" where
  "syscall =
     kbind this_proc (\<lambda>p.
     kbind (tf_get p TF_a7) (\<lambda>a7.
     let num = sint (ucast a7 :: u32) in
     kseq
      (if num > 0 \<and> num \<le> int (length sysnums) then
         kbind (syscalls (sysnums ! nat (num - 1))) (\<lambda>r. tf_set p TF_a0 r)
       else
         kbind (pget p (\<lambda>q. (p_pid q, p_name q))) (\<lambda>(pid, nm). kdo
           [printf (bytes_of (''%d %s: unknown sys call %d'' @ [CHR 0x0A])) [VInt (of_int pid), VStr (Some nm), VInt (of_int num)],
            tf_set p TF_a0 (- 1)]))
     (syscall_trace p num)))"

end
