(* ===== verification/Trap.thy ===== *)
theory Trap
  imports Syscall
begin

text \<open>
  \<open>kernel/trap.c\<close>, \<open>kernel/plic.c\<close>, \<open>forkret\<close> of \<open>kernel/proc.c\<close>, and the boot code \<open>kernel/start.c\<close> and \<open>kernel/main.c\<close>, over
  the control and status registers of a hart. Leaving the kernel is the jump to \<open>userret\<close> in the
  trampoline: \<open>usertrapret\<close> returns its address and the page table it is given. Addresses of code are
  placed by the linker.
\<close>

unbundle bit_operations_syntax

section \<open>Control and status registers\<close>

definition SSTATUS_SPP :: u64 where "SSTATUS_SPP = push_bit 8 1"
definition SSTATUS_SPIE :: u64 where "SSTATUS_SPIE = push_bit 5 1"
definition SSTATUS_SIE :: u64 where "SSTATUS_SIE = push_bit 1 1"
definition MSTATUS_MPP_MASK :: u64 where "MSTATUS_MPP_MASK = push_bit 11 3"
definition MSTATUS_MPP_S :: u64 where "MSTATUS_MPP_S = push_bit 11 1"
definition SIE_SEIE :: u64 where "SIE_SEIE = push_bit 9 1"
definition SIE_STIE :: u64 where "SIE_STIE = push_bit 5 1"
definition SIE_SSIE :: u64 where "SIE_SSIE = push_bit 1 1"
definition MIE_STIE :: u64 where "MIE_STIE = push_bit 5 1"
definition UART0_IRQ :: nat where "UART0_IRQ = 10"
definition VIRTIO0_IRQ :: nat where "VIRTIO0_IRQ = 1"

record csrs =
  sstatus :: u64
  stvec :: u64
  sepc :: u64
  scause :: u64
  stval :: u64
  sie_csr :: u64
  stimecmp :: u64
  time :: u64
  mstatus :: u64
  mepc :: u64
  medeleg :: u64
  mideleg :: u64
  mie :: u64
  menvcfg :: u64
  mcounteren :: u64
  pmpaddr0 :: u64
  pmpcfg0 :: u64
  mhartid :: u64

record code =
  kernelvec :: u64
  uservec :: u64
  userret :: u64
  usertrap_pc :: u64
  main_pc :: u64

record trapst = sysst +
  csr :: csrs
  code :: code
  forkret_first :: bool
  started :: bool

abbreviation cget :: "(csrs \<Rightarrow> 'a) \<Rightarrow> ('z trapst_scheme, 'a) km" where "cget f \<equiv> kget (\<lambda>s. f (csr s))"
abbreviation cset :: "(csrs \<Rightarrow> csrs) \<Rightarrow> ('z trapst_scheme, unit) km" where "cset f \<equiv> kmodify (\<lambda>s. s\<lparr>csr := f (csr s)\<rparr>)"

definition csr_intr_on :: "('z trapst_scheme, unit) km" where
  "csr_intr_on = cset (\<lambda>c. c\<lparr>sstatus := sstatus c OR SSTATUS_SIE\<rparr>)"

definition csr_intr_off :: "('z trapst_scheme, unit) km" where
  "csr_intr_off = cset (\<lambda>c. c\<lparr>sstatus := sstatus c AND NOT SSTATUS_SIE\<rparr>)"

definition csr_intr_get :: "csrs \<Rightarrow> bool" where
  "csr_intr_get c \<longleftrightarrow> sstatus c AND SSTATUS_SIE \<noteq> 0"

section \<open>The interrupt controller\<close>

definition PLIC_SENABLE :: "u64 \<Rightarrow> u64" where "PLIC_SENABLE hart = PLIC + 0x2080 + hart * 0x100"
definition PLIC_SPRIORITY :: "u64 \<Rightarrow> u64" where "PLIC_SPRIORITY hart = PLIC + 0x201000 + hart * 0x2000"
definition PLIC_SCLAIM :: "u64 \<Rightarrow> u64" where "PLIC_SCLAIM hart = PLIC + 0x201004 + hart * 0x2000"

definition plicinit :: "('z trapst_scheme, unit) km" where
  "plicinit = kdo [mmio_write (PLIC + of_nat UART0_IRQ * 4) 1, mmio_write (PLIC + of_nat VIRTIO0_IRQ * 4) 1]"

definition plicinithart :: "('z trapst_scheme, unit) km" where
  "plicinithart = kbind cpuid (\<lambda>hart. kdo
     [mmio_write (PLIC_SENABLE (of_int hart)) (push_bit UART0_IRQ 1 OR push_bit VIRTIO0_IRQ 1),
      mmio_write (PLIC_SPRIORITY (of_int hart)) 0])"

definition plic_claim :: "('z trapst_scheme, u32) km" where
  "plic_claim = kbind cpuid (\<lambda>hart. mmio_read (PLIC_SCLAIM (of_int hart)))"

definition plic_complete :: "u32 \<Rightarrow> ('z trapst_scheme, unit) km" where
  "plic_complete irq = kbind cpuid (\<lambda>hart. mmio_write (PLIC_SCLAIM (of_int hart)) irq)"

section \<open>Interrupts\<close>

definition trapinithart :: "('z trapst_scheme, unit) km" where
  "trapinithart = kmodify (\<lambda>s. s\<lparr>csr := (csr s)\<lparr>stvec := kernelvec (code s)\<rparr>\<rparr>)"

definition clockintr :: "('z trapst_scheme, unit) km" where
  "clockintr =
     kbind cpuid (\<lambda>id. kdo
       [kwhen (id = 0) (kdo
          [acquire L_ticks,
           kmodify (\<lambda>s. s\<lparr>ticks := ticks s + 1\<rparr>),
           wakeup (Some Ch_ticks),
           release L_ticks]),
        cset (\<lambda>c. c\<lparr>stimecmp := time c + 1000000\<rparr>)])"

definition devintr :: "('z trapst_scheme, nat) km" where
  "devintr =
     kbind (cget scause) (\<lambda>cause.
     if cause = 0x8000000000000009 then
       kbind plic_claim (\<lambda>irq.
       kseq (kdo
         [if irq = of_nat UART0_IRQ then uartintr
          else if irq = of_nat VIRTIO0_IRQ then virtio_disk_intr
          else kwhen (irq \<noteq> 0) (printf (bytes_of (''unexpected interrupt irq=%d'' @ [CHR 0x0A])) [VInt (scast irq)]),
          kwhen (irq \<noteq> 0) (plic_complete irq)])
       (kreturn 1))
     else if cause = 0x8000000000000005 then kseq clockintr (kreturn 2)
     else kreturn 0)"

section \<open>Traps from user space\<close>

definition usertrapret :: "('z trapst_scheme, u64 \<times> u64) km" where
  "usertrapret =
     kbind this_proc (\<lambda>p.
     kseq (kdo
       [csr_intr_off,
        kmodify (\<lambda>s. s\<lparr>csr := (csr s)\<lparr>stvec := TRAMPOLINE + (uservec (code s) - trampoline s)\<rparr>\<rparr>)])
    (kbind (kget (\<lambda>s. (satp s, p_kstack (procs s ! p), usertrap_pc (code s), tp s))) (\<lambda>(sat, kst, ut, hart).
     kseq (kdo
       [tf_set p TF_kernel_satp sat,
        tf_set p TF_kernel_sp (kst + PGSIZE),
        tf_set p TF_kernel_trap ut,
        tf_set p TF_kernel_hartid hart,
        cset (\<lambda>c. c\<lparr>sstatus := (sstatus c AND NOT SSTATUS_SPP) OR SSTATUS_SPIE\<rparr>)])
    (kbind (tf_get p TF_epc) (\<lambda>epc.
     kseq (cset (\<lambda>c. c\<lparr>sepc := epc\<rparr>))
    (kget (\<lambda>s. (TRAMPOLINE + (userret (code s) - trampoline s), MAKE_SATP (p_pagetable (procs s ! p))))))))))"

text \<open>The end of \<open>usertrap\<close>, from the second test of \<open>killed\<close>; when the process gave up the CPU it continues
  with \<open>usertrap_resume\<close>.\<close>

definition usertrap_end :: "nat \<Rightarrow> nat \<Rightarrow> ('z trapst_scheme, u64 \<times> u64) km" where
  "usertrap_end p which_dev =
     kbind (killed p) (\<lambda>k.
     kseq (kwhen k (exit (- 1)))
    (kseq (kwhen (which_dev = 2) yield)
    usertrapret))"

definition usertrap_resume :: "nat \<Rightarrow> ('z trapst_scheme, u64 \<times> u64) km" where
  "usertrap_resume p = kseq (yield_resume p) usertrapret"

definition usertrap :: "('z trapst_scheme, u64 \<times> u64) km" where
  "usertrap =
     kbind (cget sstatus) (\<lambda>st.
     if st AND SSTATUS_SPP \<noteq> 0 then panic ''usertrap: not from user mode''
     else
       kseq trapinithart
      (kbind this_proc (\<lambda>p.
       kbind (cget sepc) (\<lambda>pc.
       kseq (tf_set p TF_epc pc)
      (kbind (cget scause) (\<lambda>cause.
       if cause = 8 then
         kbind (killed p) (\<lambda>k.
         kseq (kdo
           [kwhen k (exit (- 1)),
            kbind (tf_get p TF_epc) (\<lambda>e. tf_set p TF_epc (e + 4)),
            csr_intr_on,
            syscall])
         (usertrap_end p 0))
       else kbind devintr (\<lambda>which_dev.
         kseq (kwhen (which_dev = 0)
           (kbind (kget (\<lambda>s. (scause (csr s), p_pid (procs s ! p), sepc (csr s), stval (csr s)))) (\<lambda>(c, pid, e, v). kdo
             [printf (bytes_of (''usertrap(): unexpected scause 0x%lx pid=%d'' @ [CHR 0x0A])) [VInt c, VInt (of_int pid)],
              printf (bytes_of (''            sepc=0x%lx stval=0x%lx'' @ [CHR 0x0A])) [VInt e, VInt v],
              setkilled p])))
         (usertrap_end p which_dev))))))))"

section \<open>Traps from the kernel\<close>

definition kerneltrap_end :: "u64 \<Rightarrow> u64 \<Rightarrow> ('z trapst_scheme, unit) km" where
  "kerneltrap_end pc st = cset (\<lambda>c. c\<lparr>sepc := pc, sstatus := st\<rparr>)"

definition kerneltrap :: "('z trapst_scheme, unit) km" where
  "kerneltrap =
     kbind (cget (\<lambda>c. c)) (\<lambda>c.
     if sstatus c AND SSTATUS_SPP = 0 then panic ''kerneltrap: not from supervisor mode''
     else if csr_intr_get c then panic ''kerneltrap: interrupts enabled''
     else kbind devintr (\<lambda>which_dev.
       if which_dev = 0 then
         kseq (kbind (cget (\<lambda>d. (sepc d, stval d))) (\<lambda>(e, v).
           printf (bytes_of (''scause=0x%lx sepc=0x%lx stval=0x%lx'' @ [CHR 0x0A])) [VInt (scause c), VInt e, VInt v]))
        (panic ''kerneltrap'')
       else kbind myproc (\<lambda>me.
         kseq (kwhen (which_dev = 2 \<and> me \<noteq> None) yield)
        (kerneltrap_end (sepc c) (sstatus c)))))"

section \<open>The first run of a process\<close>

definition forkret :: "('z trapst_scheme, u64 \<times> u64) km" where
  "forkret =
     kbind this_proc (\<lambda>p.
     kseq (release (L_proc p))
    (kbind (kget forkret_first) (\<lambda>first.
     kseq (kwhen first (kdo [fsinit ROOTDEV, kmodify (\<lambda>s. s\<lparr>forkret_first := False\<rparr>)]))
    usertrapret)))"

section \<open>Boot\<close>

definition timerinit :: "('z trapst_scheme, unit) km" where
  "timerinit = kdo
     [cset (\<lambda>c. c\<lparr>mie := mie c OR MIE_STIE\<rparr>),
      cset (\<lambda>c. c\<lparr>menvcfg := menvcfg c OR push_bit 63 1\<rparr>),
      cset (\<lambda>c. c\<lparr>mcounteren := mcounteren c OR 2\<rparr>),
      cset (\<lambda>c. c\<lparr>stimecmp := time c + 1000000\<rparr>)]"

text \<open>\<open>start\<close> returns where its \<open>mret\<close> goes.\<close>

definition start :: "('z trapst_scheme, u64) km" where
  "start = kseq (kdo
     [cset (\<lambda>c. c\<lparr>mstatus := (mstatus c AND NOT MSTATUS_MPP_MASK) OR MSTATUS_MPP_S\<rparr>),
      kmodify (\<lambda>s. s\<lparr>csr := (csr s)\<lparr>mepc := main_pc (code s)\<rparr>\<rparr>),
      kmodify (\<lambda>s. s\<lparr>satp := 0\<rparr>),
      cset (\<lambda>c. c\<lparr>medeleg := 0xffff, mideleg := 0xffff\<rparr>),
      cset (\<lambda>c. c\<lparr>sie_csr := sie_csr c OR SIE_SEIE OR SIE_STIE OR SIE_SSIE\<rparr>),
      cset (\<lambda>c. c\<lparr>pmpaddr0 := 0x3fffffffffffff, pmpcfg0 := 0xf\<rparr>),
      timerinit,
      kmodify (\<lambda>s. s\<lparr>tp := scast (ucast (mhartid (csr s)) :: u32)\<rparr>)])
     (cget mepc)"

text \<open>\<open>main\<close> ends in the scheduler's first pass over the process table.\<close>

definition kmain :: "('z trapst_scheme, nat option) km" where
  "kmain =
     kbind cpuid (\<lambda>id.
     kseq
      (if id = 0 then kdo
         [consoleinit,
          printfinit,
          printf [10] [],
          printf (bytes_of (''xv6 kernel is booting'' @ [CHR 0x0A])) [],
          printf [10] [],
          kinit,
          kvminit,
          kvminithart,
          procinit,
          trapinithart,
          plicinit,
          plicinithart,
          binit,
          iinit,
          virtio_disk_init,
          userinit,
          kmodify (\<lambda>s. s\<lparr>started := True\<rparr>)]
       else
         kbind (kget started) (\<lambda>go.
         if \<not> go then kspin
         else kdo
           [printf (bytes_of (''hart %d starting'' @ [CHR 0x0A])) [VInt (of_int id)],
            kvminithart,
            trapinithart,
            plicinithart]))
     (kseq (kmodify (\<lambda>s. s\<lparr>curproc := None\<rparr>))
     (kseq csr_intr_on
     (scheduler_scan [0..<NPROC]))))"

end
