(* ===== verification/Ulib.thy ===== *)
theory Ulib
  imports Prelude
begin

text \<open>
  \<open>user/ulib.c\<close> and the system call interface of \<open>user/user.h\<close>. A user program is a tree of system calls: a
  node is a call, and has a subtree for each answer the kernel can give, so that what is proved of a
  program holds for every kernel. A procedure that makes system calls takes what the program does
  afterwards as its last argument. A C string in memory is a byte list that contains its NUL; \<open>None\<close>
  is the result of a string function that runs past the end of the list.
\<close>

section \<open>Programs\<close>

datatype sysreq =
    Read int nat
  | Write int "u8 list"
  | Open "u8 list" int
  | Close int
  | Dup int
  | Pipe
  | Fstat int
  | Mkdir "u8 list"
  | Mknod "u8 list" int int
  | Link "u8 list" "u8 list"
  | Unlink "u8 list"
  | Chdir "u8 list"
  | Kill int
  | Wait
  | Getpid
  | Sbrk u32
  | Sleep int
  | Uptime
  | Hello
  | Trace int
  | Sysinfo

text \<open>The result of a call, and the bytes it stored in the caller's memory.\<close>

datatype sysres = Res (res_val: int) (res_bytes: "u8 list")

text \<open>\<open>UFork child parent\<close>: the child runs the first program and the parent goes on with the pid, or \<open>-1\<close>.
  \<open>UExec path argv p\<close>: the program is replaced, or goes on as \<open>p\<close> if there is no such program. \<open>UStuck\<close> is
  undefined behaviour, or the end of the fuel of a loop that the answers keep going.\<close>

datatype uproc =
    UExit int
  | UStuck
  | USys sysreq "sysres \<Rightarrow> uproc"
  | UFork uproc "int \<Rightarrow> uproc"
  | UExec "u8 list" "u8 list list" uproc

text \<open>A program run against a kernel \<open>os\<close> that answers each call from a state of its own: the exit status and
  the state left.\<close>

primrec urun :: "(sysreq \<Rightarrow> 's \<Rightarrow> sysres \<times> 's) \<Rightarrow> uproc \<Rightarrow> 's \<Rightarrow> (int \<times> 's) option" where
  "urun os (UExit n) s = Some (n, s)"
| "urun os UStuck s = None"
| "urun os (USys r k) s = (let (a, s') = os r s in urun os (k a) s')"
| "urun os (UFork c p) s = None"
| "urun os (UExec path argv p) s = None"

definition start :: "(uproc \<Rightarrow> uproc) \<Rightarrow> uproc" where
  "start main = main (UExit 0)"

section \<open>Strings\<close>

definition str :: "string \<Rightarrow> u8 list" where "str = map of_char"

fun strcpy :: "u8 list \<Rightarrow> u8 list \<Rightarrow> u8 list option" where
  "strcpy (_ # s) (c # t) = (if c = 0 then Some (0 # s) else map_option ((#) c) (strcpy s t))"
| "strcpy _ _ = None"

fun strcmp :: "u8 list \<Rightarrow> u8 list \<Rightarrow> int option" where
  "strcmp (a # p) (b # q) = (if a \<noteq> 0 \<and> a = b then strcmp p q else Some (uint a - uint b))"
| "strcmp _ _ = None"

primrec strlen :: "u8 list \<Rightarrow> nat option" where
  "strlen [] = None"
| "strlen (c # s) = (if c = 0 then Some 0 else map_option Suc (strlen s))"

definition memset :: "u8 list \<Rightarrow> u8 \<Rightarrow> nat \<Rightarrow> u8 list option" where
  "memset dst c n = (if n \<le> length dst then Some (replicate n c @ drop n dst) else None)"

text \<open>\<open>strchr\<close> returns a pointer into the string, which is the rest of the list, or null.\<close>

primrec strchr :: "u8 list \<Rightarrow> u8 \<Rightarrow> u8 list option option" where
  "strchr [] c = None"
| "strchr (x # s) c = (if x = 0 then Some None else if x = c then Some (Some (x # s)) else strchr s c)"

text \<open>\<open>atoi\<close> computes with \<open>int\<close>; where the C result is undefined, the compiled code wraps.\<close>

primrec atoi_loop :: "u32 \<Rightarrow> u8 list \<Rightarrow> u32 option" where
  "atoi_loop n [] = None"
| "atoi_loop n (c # s) = (if 48 \<le> c \<and> c \<le> 57 then atoi_loop (n * 10 + ucast c - 48) s else Some n)"

definition atoi :: "u8 list \<Rightarrow> int option" where
  "atoi s = map_option sint (atoi_loop 0 s)"

text \<open>\<open>memmove\<close> copies upwards when the source is above the destination, and downwards otherwise.\<close>

primrec copy_up :: "memory \<Rightarrow> u64 \<Rightarrow> u64 \<Rightarrow> nat \<Rightarrow> memory" where
  "copy_up m dst src 0 = m"
| "copy_up m dst src (Suc n) = copy_up (m(dst := m src)) (dst + 1) (src + 1) n"

primrec copy_down :: "memory \<Rightarrow> u64 \<Rightarrow> u64 \<Rightarrow> nat \<Rightarrow> memory" where
  "copy_down m dst src 0 = m"
| "copy_down m dst src (Suc n) = copy_down (m(dst + of_nat n := m (src + of_nat n))) dst src n"

definition memmove :: "memory \<Rightarrow> u64 \<Rightarrow> u64 \<Rightarrow> int \<Rightarrow> memory" where
  "memmove m dst src n = (if src > dst then copy_up m dst src (nat n) else copy_down m dst src (nat n))"

fun memcmp :: "u8 list \<Rightarrow> u8 list \<Rightarrow> nat \<Rightarrow> int option" where
  "memcmp p q 0 = Some 0"
| "memcmp (a # p) (b # q) (Suc n) = (if a \<noteq> b then Some (uint a - uint b) else memcmp p q n)"
| "memcmp _ _ (Suc n) = None"

definition memcpy :: "memory \<Rightarrow> u64 \<Rightarrow> u64 \<Rightarrow> u32 \<Rightarrow> memory" where
  "memcpy m dst src n = memmove m dst src (sint n)"

section \<open>Procedures with system calls\<close>

text \<open>The answer of \<open>read\<close> to a program: the bytes it stored are as many as it says, and no more than were
  asked for. A program cannot go on from any other answer.\<close>

definition read_ok :: "nat \<Rightarrow> sysres \<Rightarrow> bool" where
  "read_ok n r \<longleftrightarrow> res_val r \<le> int n \<and> int (length (res_bytes r)) = (if 0 < res_val r then res_val r else 0)"

definition sys_read :: "int \<Rightarrow> nat \<Rightarrow> (int \<Rightarrow> u8 list \<Rightarrow> uproc) \<Rightarrow> uproc" where
  "sys_read fd n k = USys (Read fd n) (\<lambda>r. if read_ok n r then k (res_val r) (res_bytes r) else UStuck)"

text \<open>The loop of \<open>gets\<close>, with \<open>n = max - 1 - i\<close> characters to go and \<open>line\<close> read so far.\<close>

primrec gets_loop :: "nat \<Rightarrow> u8 list \<Rightarrow> (u8 list \<Rightarrow> uproc) \<Rightarrow> uproc" where
  "gets_loop 0 line k = k line"
| "gets_loop (Suc n) line k = sys_read 0 1 (\<lambda>cc c.
     if cc < 1 then k line
     else if hd c = 10 \<or> hd c = 13 then k (line @ c)
     else gets_loop n (line @ c) k)"

definition gets :: "u8 list \<Rightarrow> nat \<Rightarrow> (u8 list \<Rightarrow> uproc) \<Rightarrow> uproc" where
  "gets buf mx k = gets_loop (mx - 1) [] (\<lambda>line.
     if length line < length buf then k (line @ 0 # drop (Suc (length line)) buf) else UStuck)"

definition O_RDONLY :: int where "O_RDONLY = 0x000"
definition O_WRONLY :: int where "O_WRONLY = 0x001"
definition O_RDWR :: int where "O_RDWR = 0x002"
definition O_CREATE :: int where "O_CREATE = 0x200"
definition O_TRUNC :: int where "O_TRUNC = 0x400"

text \<open>\<open>stat\<close> gives its caller the result and the \<open>struct stat\<close> that \<open>fstat\<close> stored.\<close>

definition stat :: "u8 list \<Rightarrow> (int \<Rightarrow> u8 list \<Rightarrow> uproc) \<Rightarrow> uproc" where
  "stat n k = USys (Open n O_RDONLY) (\<lambda>fd.
     if res_val fd < 0 then k (- 1) []
     else USys (Fstat (res_val fd)) (\<lambda>r. USys (Close (res_val fd)) (\<lambda>_. k (res_val r) (res_bytes r))))"

section \<open>Strings up to their NUL\<close>

definition cstr :: "u8 list \<Rightarrow> u8 list" where "cstr = takeWhile (\<lambda>c. c \<noteq> 0)"

text \<open>The character at an index of a string given without its NUL, or with more bytes after it.\<close>

definition char_at :: "u8 list \<Rightarrow> nat \<Rightarrow> u8" where
  "char_at s i = (if i < length s then s ! i else 0)"

lemma char_at_Nil [simp]: "char_at [] i = 0"
  by (simp add: char_at_def)

lemma char_at_Cons [simp]: "char_at (c # s) 0 = c" "char_at (c # s) (Suc i) = char_at s i"
  by (simp_all add: char_at_def)

lemma cstr_Cons [simp]: "cstr [] = []" "cstr (c # s) = (if c = 0 then [] else c # cstr s)"
  by (simp_all add: cstr_def)

lemma cstr_id: "0 \<notin> set s \<Longrightarrow> cstr s = s"
  by (auto simp: cstr_def takeWhile_eq_all_conv)

lemma cstr_nul: "0 \<notin> set s \<Longrightarrow> cstr (s @ 0 # t) = s"
  by (induction s) auto

lemma cstr_split: "0 \<in> set s \<Longrightarrow> \<exists>t. s = cstr s @ 0 # t"
  by (induction s) auto

lemma cstr_no_nul [simp]: "0 \<notin> set (cstr s)"
  by (auto simp: cstr_def dest: set_takeWhileD)

lemma strlen_cstr: "strlen s = (if 0 \<in> set s then Some (length (cstr s)) else None)"
  by (induction s) auto

lemma strchr_found:
  assumes "c \<notin> set u" and "0 \<notin> set u" and "c \<noteq> 0"
  shows "strchr (u @ c # v) c = Some (Some (c # v))"
  using assms by (induction u) auto

lemma strchr_missing:
  assumes "c \<notin> set u" and "0 \<notin> set u"
  shows "strchr (u @ 0 # v) c = Some None"
  using assms by (induction u) auto

end
