(* ===== verification/Uprintf.thy ===== *)
theory Uprintf
  imports Ulib
begin

text \<open>
  \<open>user/printf.c\<close>: every character is written with a system call of its own. The variable arguments are a
  list of the values the caller put in registers; a conversion that finds none left, or one of the
  wrong kind, is undefined.
\<close>

unbundle bit_operations_syntax

definition digits :: "u8 list" where "digits = str ''0123456789ABCDEF''"

definition putc :: "int \<Rightarrow> u8 \<Rightarrow> uproc \<Rightarrow> uproc" where
  "putc fd c k = USys (Write fd [c]) (\<lambda>_. k)"

text \<open>The digits of \<open>x\<close>, the last one first.\<close>

function print_digits :: "u32 \<Rightarrow> u32 \<Rightarrow> u8 list" where
  "print_digits base x = digits ! unat (x mod base) #
     (if base \<le> 1 \<or> x div base = 0 then [] else print_digits base (x div base))"
  by auto

termination
proof (relation "measure (\<lambda>(base, x). unat x)")
  fix base x :: u32
  assume "\<not> (base \<le> 1 \<or> x div base = 0)"
  then have "1 < unat base" "unat x div unat base \<noteq> 0"
    by (auto simp: word_le_nat_alt word_unat_eq_iff unat_div)
  then have "unat x div unat base < unat x" by (intro div_less_dividend) (auto intro: gr0I)
  then show "((base, x div base), base, x) \<in> measure (\<lambda>(base, x). unat x)" by (simp add: unat_div)
qed simp

declare print_digits.simps [simp del]

text \<open>\<open>buf\<close> has 16 bytes.\<close>

definition printint :: "int \<Rightarrow> u32 \<Rightarrow> u32 \<Rightarrow> bool \<Rightarrow> uproc \<Rightarrow> uproc" where
  "printint fd xx base sg k =
     (let neg = sg \<and> sint xx < 0;
          x = if neg then - xx else xx;
          buf = print_digits base x @ (if neg then str ''-'' else []) in
      if length buf > 16 then UStuck else foldr (putc fd) (rev buf) k)"

definition printptr :: "int \<Rightarrow> u64 \<Rightarrow> uproc \<Rightarrow> uproc" where
  "printptr fd x k = foldr (putc fd)
     (str ''0x'' @ map (\<lambda>i. digits ! unat (drop_bit 60 (push_bit (4 * i) x))) [0..<16]) k"

datatype va_arg = VInt u64 | VStr "u8 list option"

text \<open>\<open>va_arg(ap, int)\<close> and \<open>va_arg(ap, uint64)\<close>, passed to \<open>printint\<close> as an \<open>int\<close>: both take a register of
  which the low 32 bits are printed.\<close>

definition print_num :: "int \<Rightarrow> va_arg list \<Rightarrow> u32 \<Rightarrow> bool \<Rightarrow> (va_arg list \<Rightarrow> uproc) \<Rightarrow> uproc" where
  "print_num fd ap base sg k = (case ap of VInt x # r \<Rightarrow> printint fd (ucast x) base sg (k r) | _ \<Rightarrow> UStuck)"

text \<open>One conversion: \<open>fmt\<close> is the format after the \<open>%\<close>, not empty, and what follows is told how many of its
  characters the conversion took.\<close>

definition print_conv :: "int \<Rightarrow> u8 list \<Rightarrow> va_arg list \<Rightarrow> (nat \<Rightarrow> va_arg list \<Rightarrow> uproc) \<Rightarrow> uproc" where
  "print_conv fd fmt ap k =
     (let c0 = char_at fmt 0; c1 = char_at fmt 1; c2 = if c1 \<noteq> 0 then char_at fmt 2 else 0;
          is = (\<lambda>c ch. c = (of_char ch :: u8)) in
      if is c0 (CHR ''d'') then print_num fd ap 10 True (k 1)
      else if is c0 (CHR ''l'') \<and> is c1 (CHR ''d'') then print_num fd ap 10 True (k 2)
      else if is c0 (CHR ''l'') \<and> is c1 (CHR ''l'') \<and> is c2 (CHR ''d'') then print_num fd ap 10 True (k 3)
      else if is c0 (CHR ''u'') then print_num fd ap 10 False (k 1)
      else if is c0 (CHR ''l'') \<and> is c1 (CHR ''u'') then print_num fd ap 10 False (k 2)
      else if is c0 (CHR ''l'') \<and> is c1 (CHR ''l'') \<and> is c2 (CHR ''u'') then print_num fd ap 10 False (k 3)
      else if is c0 (CHR ''x'') then print_num fd ap 16 False (k 1)
      else if is c0 (CHR ''l'') \<and> is c1 (CHR ''x'') then print_num fd ap 16 False (k 2)
      else if is c0 (CHR ''l'') \<and> is c1 (CHR ''l'') \<and> is c2 (CHR ''x'') then print_num fd ap 16 False (k 3)
      else if is c0 (CHR ''p'') then (case ap of VInt x # r \<Rightarrow> printptr fd x (k 1 r) | _ \<Rightarrow> UStuck)
      else if is c0 (CHR ''s'') then
        (case ap of VStr p # r \<Rightarrow> foldr (putc fd) (case p of None \<Rightarrow> str ''(null)'' | Some s \<Rightarrow> cstr s) (k 1 r)
         | _ \<Rightarrow> UStuck)
      else if is c0 (CHR ''%'') then putc fd c0 (k 1 ap)
      else putc fd (of_char (CHR ''%'')) (putc fd c0 (k 1 ap)))"

text \<open>\<open>fmt\<close> is the format without its NUL; the argument before it bounds the number of its characters.\<close>

fun vprintf_loop :: "nat \<Rightarrow> int \<Rightarrow> u8 list \<Rightarrow> va_arg list \<Rightarrow> uproc \<Rightarrow> uproc" where
  "vprintf_loop n fd [] ap k = k"
| "vprintf_loop 0 fd (c # fmt) ap k = UStuck"
| "vprintf_loop (Suc n) fd (c # fmt) ap k =
     (if c \<noteq> of_char (CHR ''%'') then putc fd c (vprintf_loop n fd fmt ap k)
      else if fmt = [] then k
      else print_conv fd fmt ap (\<lambda>i ap'. vprintf_loop n fd (drop i fmt) ap' k))"

definition vprintf :: "int \<Rightarrow> u8 list \<Rightarrow> va_arg list \<Rightarrow> uproc \<Rightarrow> uproc" where
  "vprintf fd fmt ap k = vprintf_loop (length fmt) fd fmt ap k"

definition fprintf :: "int \<Rightarrow> u8 list \<Rightarrow> va_arg list \<Rightarrow> uproc \<Rightarrow> uproc" where
  "fprintf fd fmt ap k = vprintf fd fmt ap k"

definition printf :: "u8 list \<Rightarrow> va_arg list \<Rightarrow> uproc \<Rightarrow> uproc" where
  "printf fmt ap k = vprintf 1 fmt ap k"

text \<open>A 32-bit number has at most ten decimal digits, so that the buffer of \<open>printint\<close> is large enough.\<close>

lemma uprint_digits_length:
  "unat x < unat base ^ Suc n \<Longrightarrow> length (print_digits base x) \<le> Suc n"
proof (induction n arbitrary: x)
  case 0
  then show ?case by (simp add: print_digits.simps [of base x] word_unat_eq_iff unat_div)
next
  case (Suc n)
  show ?case
  proof (cases "base \<le> 1 \<or> x div base = 0")
    case True
    then show ?thesis by (simp add: print_digits.simps [of base x])
  next
    case False
    have "unat x < unat base * unat base ^ Suc n" using Suc.prems by simp
    then have "unat (x div base) < unat base ^ Suc n"
      unfolding unat_div by (intro less_mult_imp_div_less) (simp add: mult.commute)
    then show ?thesis using Suc.IH [of "x div base"] False by (simp add: print_digits.simps [of base x])
  qed
qed

lemma printint_fits:
  assumes "base \<in> {10, 16}"
  shows "printint fd xx base sg k =
    foldr (putc fd) (rev (print_digits base (if sg \<and> sint xx < 0 then - xx else xx) @
      (if sg \<and> sint xx < 0 then str ''-'' else []))) k"
proof -
  have "unat x < unat base ^ Suc 9" for x :: u32
  proof -
    have "unat x < 2 ^ 32" using unsigned_less [of x, where ?'a = nat] by simp
    also have "\<dots> \<le> unat base ^ Suc 9" using assms by auto
    finally show ?thesis .
  qed
  then have "length (print_digits base x) \<le> Suc 9" for x by (rule uprint_digits_length)
  then have *: "length (print_digits base x) \<le> 10" for x by simp
  have "length (str ''-'') = 1" by (simp add: str_def)
  then show ?thesis unfolding printint_def Let_def using * [of xx] * [of "- xx"] by auto
qed

end
