(* ===== verification/Grep.thy ===== *)
theory Grep
  imports Uprintf
begin

text \<open>
  \<open>user/grep.c\<close>: the matcher, the loop over the lines of a file, and \<open>main\<close>. The matcher is compared with the
  language of the pattern, and the loop with the list of the lines of the file.
\<close>

section \<open>The program\<close>

function matchhere :: "u8 list \<Rightarrow> u8 list \<Rightarrow> bool"
  and matchstar :: "u8 \<Rightarrow> u8 list \<Rightarrow> u8 list \<Rightarrow> bool" where
  "matchhere re text =
     (if char_at re 0 = 0 then True
      else if char_at re 1 = of_char (CHR ''*'') then matchstar (char_at re 0) (drop 2 re) text
      else if char_at re 0 = of_char (CHR ''$'') \<and> char_at re 1 = 0 then char_at text 0 = 0
      else if char_at text 0 \<noteq> 0 \<and> (char_at re 0 = of_char (CHR ''.'') \<or> char_at re 0 = char_at text 0)
        then matchhere (drop 1 re) (drop 1 text)
      else False)"
| "matchstar c re text =
     (if matchhere re text then True
      else if char_at text 0 \<noteq> 0 \<and> (char_at text 0 = c \<or> c = of_char (CHR ''.'')) then matchstar c re (drop 1 text)
      else False)"
  by pat_completeness auto

termination
  by (relation "measures [\<lambda>p. case p of Inl (re, text) \<Rightarrow> length re + length text
        | Inr (c, re, text) \<Rightarrow> length re + length text, \<lambda>p. case p of Inl _ \<Rightarrow> 0 | Inr _ \<Rightarrow> 1]")
    (auto simp: char_at_def neq_Nil_conv split: if_splits)

declare matchhere.simps [simp del] matchstar.simps [simp del]

text \<open>The \<open>do\<close> loop of \<open>match\<close>, over the positions of \<open>text\<close> up to its NUL.\<close>

fun match_loop :: "u8 list \<Rightarrow> u8 list \<Rightarrow> bool" where
  "match_loop re [] = matchhere re []"
| "match_loop re (c # text) =
     (if matchhere re (c # text) then True else if c \<noteq> 0 then match_loop re text else False)"

definition match :: "u8 list \<Rightarrow> u8 list \<Rightarrow> bool" where
  "match re text =
     (if char_at re 0 = of_char (CHR ''^'') then matchhere (drop 1 re) text else match_loop re text)"

text \<open>The loop over the lines of the buffer: \<open>p\<close> is the buffer from the pointer \<open>p\<close> to its NUL, and what is left
  when no newline is found is passed on. The line is ended by a NUL while it is matched.\<close>

function grep_lines :: "u8 list \<Rightarrow> u8 list \<Rightarrow> (u8 list \<Rightarrow> uproc) \<Rightarrow> uproc" where
  "grep_lines pattern p k =
     (case strchr (p @ [0]) 10 of
        Some (Some q) \<Rightarrow>
          (let n = length p + 1 - length q in
           if match pattern (take n p @ 0 # drop (n + 1) p)
           then USys (Write 1 (take (n + 1) p)) (\<lambda>_. grep_lines pattern (drop (n + 1) p) k)
           else grep_lines pattern (drop (n + 1) p) k)
      | _ \<Rightarrow> k p)"
  by pat_completeness auto

termination by (relation "measure (\<lambda>(pattern, p, k). length p)") (auto split: if_splits simp: neq_Nil_conv intro!: diff_less)

declare grep_lines.simps [simp del]

text \<open>The bytes read and not yet matched are \<open>pend\<close>, at the start of the buffer of 1024 bytes. The first argument bounds
  the number of calls of \<open>read\<close>.\<close>

primrec grep_loop :: "nat \<Rightarrow> u8 list \<Rightarrow> int \<Rightarrow> u8 list \<Rightarrow> uproc \<Rightarrow> uproc" where
  "grep_loop 0 pattern fd pend k = UStuck"
| "grep_loop (Suc fuel) pattern fd pend k =
     sys_read fd (1024 - length pend - 1) (\<lambda>n bs.
       if n > 0 then grep_lines pattern (pend @ bs) (\<lambda>p. grep_loop fuel pattern fd p k) else k)"

definition grep :: "nat \<Rightarrow> u8 list \<Rightarrow> int \<Rightarrow> uproc \<Rightarrow> uproc" where
  "grep fuel pattern fd k = grep_loop fuel pattern fd [] k"

primrec grep_files :: "nat \<Rightarrow> u8 list \<Rightarrow> u8 list list \<Rightarrow> uproc" where
  "grep_files fuel pattern [] = UExit 0"
| "grep_files fuel pattern (f # fs) = USys (Open f O_RDONLY) (\<lambda>fd.
     if res_val fd < 0 then printf (str ''grep: cannot open %s'' @ [10]) [VStr (Some f)] (UExit 1)
     else grep fuel pattern (res_val fd) (USys (Close (res_val fd)) (\<lambda>_. grep_files fuel pattern fs)))"

definition grep_main :: "nat \<Rightarrow> u8 list list \<Rightarrow> uproc" where
  "grep_main fuel argv =
     (if length argv \<le> 1 then fprintf 2 (str ''usage: grep pattern [file ...]'' @ [10]) [] (UExit 1)
      else if length argv \<le> 2 then grep fuel (argv ! 1) 0 (UExit 0)
      else grep_files fuel (argv ! 1) (drop 2 argv))"

section \<open>What a pattern means\<close>

text \<open>A pattern is a sequence of items, each a character or any number of a character, where a dot is any
  character; a dollar at the end asks for the end of the text. The text matches if a part of it is in the
  language of the items, which begins at the start of the text if the pattern begins with a caret.\<close>

datatype item = One u8 | Many u8

definition fits :: "u8 \<Rightarrow> u8 \<Rightarrow> bool" where
  "fits p c \<longleftrightarrow> p = c \<or> p = of_char (CHR ''.'')"

fun items :: "u8 list \<Rightarrow> item list" where
  "items [] = []"
| "items [p] = (if p = of_char (CHR ''$'') then [] else [One p])"
| "items (p # q # re) = (if q = of_char (CHR ''*'') then Many p # items re else One p # items (q # re))"

fun to_end :: "u8 list \<Rightarrow> bool" where
  "to_end [] = False"
| "to_end [p] = (p = of_char (CHR ''$''))"
| "to_end (p # q # re) = (if q = of_char (CHR ''*'') then to_end re else to_end (q # re))"

primrec item_lang :: "item \<Rightarrow> u8 list set" where
  "item_lang (One p) = {[c] | c. fits p c}"
| "item_lang (Many p) = {w. \<forall>c\<in>set w. fits p c}"

primrec lang :: "item list \<Rightarrow> u8 list set" where
  "lang [] = {[]}"
| "lang (i # is) = {u @ v | u v. u \<in> item_lang i \<and> v \<in> lang is}"

definition starts :: "u8 list set \<Rightarrow> bool \<Rightarrow> u8 list \<Rightarrow> bool" where
  "starts L whole t \<longleftrightarrow> (\<exists>w v. t = w @ v \<and> w \<in> L \<and> (whole \<longrightarrow> v = []))"

definition begins :: "u8 list \<Rightarrow> u8 list \<Rightarrow> bool" where
  "begins re t \<longleftrightarrow> starts (lang (items re)) (to_end re) t"

fun matches :: "u8 list \<Rightarrow> u8 list \<Rightarrow> bool" where
  "matches re t = (if re \<noteq> [] \<and> hd re = of_char (CHR ''^'') then begins (tl re) t
     else \<exists>u v. t = u @ v \<and> begins re v)"

section \<open>The matcher decides the language\<close>

lemma ex_split_Cons:
  "(\<exists>u v. x # t = u @ v \<and> P u v) \<longleftrightarrow> P [] (x # t) \<or> (\<exists>u v. t = u @ v \<and> P (x # u) v)"
  unfolding Cons_eq_append_conv by blast

lemma matchstar_splits:
  "0 \<notin> set t \<Longrightarrow>
   matchstar c re t \<longleftrightarrow> (\<exists>u v. t = u @ v \<and> (\<forall>x\<in>set u. fits c x) \<and> matchhere re v)"
proof (induction t)
  case Nil
  then show ?case by (subst matchstar.simps) simp
next
  case (Cons x t)
  have "(\<exists>u v. x # t = u @ v \<and> (\<forall>y\<in>set u. fits c y) \<and> matchhere re v) \<longleftrightarrow>
      matchhere re (x # t) \<or> fits c x \<and> (\<exists>u v. t = u @ v \<and> (\<forall>y\<in>set u. fits c y) \<and> matchhere re v)"
    by (subst ex_split_Cons) auto
  then show ?case using Cons by (subst matchstar.simps) (simp, auto simp: fits_def)
qed

lemma starts_conc:
  "starts {u @ v | u v. u \<in> A \<and> v \<in> B} e t \<longleftrightarrow> (\<exists>u r. t = u @ r \<and> u \<in> A \<and> starts B e r)"
proof
  assume "starts {u @ v | u v. u \<in> A \<and> v \<in> B} e t"
  then obtain u w v where "t = u @ w @ v" "u \<in> A" "w \<in> B" "e \<longrightarrow> v = []"
    unfolding starts_def mem_Collect_eq by (metis append_assoc)
  then show "\<exists>u r. t = u @ r \<and> u \<in> A \<and> starts B e r" unfolding starts_def by blast
next
  assume "\<exists>u r. t = u @ r \<and> u \<in> A \<and> starts B e r"
  then obtain u w v where "t = (u @ w) @ v" "u \<in> A" "w \<in> B" "e \<longrightarrow> v = []"
    unfolding starts_def by (metis append_assoc)
  then show "starts {u @ v | u v. u \<in> A \<and> v \<in> B} e t" unfolding starts_def by blast
qed

lemma begins_One:
  assumes "items (p # re) = One p # items re" and "to_end (p # re) = to_end re"
  shows "begins (p # re) t \<longleftrightarrow> (\<exists>c r. t = c # r \<and> fits p c \<and> begins re r)"
proof -
  have "(\<exists>u r. t = u @ r \<and> u \<in> item_lang (One p) \<and> B r) \<longleftrightarrow> (\<exists>c r. t = c # r \<and> fits p c \<and> B r)" for B
    unfolding item_lang.simps mem_Collect_eq by (metis append_Cons append_Nil)
  then show ?thesis unfolding begins_def assms lang.simps starts_conc .
qed

lemma begins_Many:
  "begins (p # of_char (CHR ''*'') # re) t \<longleftrightarrow> (\<exists>u v. t = u @ v \<and> (\<forall>c\<in>set u. fits p c) \<and> begins re v)"
proof -
  have "items (p # of_char (CHR ''*'') # re) = Many p # items re" "to_end (p # of_char (CHR ''*'') # re) = to_end re"
    by simp_all
  then show ?thesis unfolding begins_def by (simp only: lang.simps starts_conc) simp
qed

lemma begins_Nil: "begins [] t"
  by (simp add: begins_def starts_def)

lemma matchhere_begins:
  "0 \<notin> set re \<Longrightarrow> 0 \<notin> set t \<Longrightarrow> matchhere re t = begins re t"
proof (induction re arbitrary: t rule: items.induct)
  case 1
  then show ?case by (simp add: matchhere.simps [of "[]"] begins_Nil)
next
  case (2 p)
  show ?case
  proof (cases "p = of_char (CHR ''$'')")
    case True
    with 2 show ?thesis by (cases t) (auto simp: matchhere.simps [of "[_]"] begins_def starts_def)
  next
    case False
    with 2 show ?thesis
      by (cases t) (auto simp: matchhere.simps [of "[_]"] matchhere.simps [of "[]"] begins_One begins_Nil fits_def)
  qed
next
  case (3 p q re)
  show ?case
  proof (cases "q = of_char (CHR ''*'')")
    case True
    have "matchstar p re t = (\<exists>u v. t = u @ v \<and> (\<forall>c\<in>set u. fits p c) \<and> begins re v)"
      unfolding matchstar_splits [OF \<open>0 \<notin> set t\<close>]
    proof (intro ex_cong1 conj_cong refl)
      fix u v
      assume "t = u @ v"
      then show "matchhere re v = begins re v" using 3 True by simp
    qed
    then show ?thesis using 3 unfolding True begins_Many by (simp add: matchhere.simps [of "p # _"])
  next
    case False
    with 3 show ?thesis
      by (cases t) (auto simp: matchhere.simps [of "p # _"] begins_One fits_def)
  qed
qed

text \<open>A string ends at its NUL, for the matcher too.\<close>

lemma matchhere_cstr:
  "matchhere re t = matchhere (cstr re) (cstr t)"
  "matchstar c re t = matchstar c (cstr re) (cstr t)"
proof (induction re t and c re t rule: matchhere_matchstar.induct)
  case (1 re t)
  have "char_at (cstr re) 0 = char_at re 0" by (cases re) auto
  moreover have "char_at re 0 \<noteq> 0 \<Longrightarrow> char_at (cstr re) 1 = char_at re 1"
    by (cases re; cases "tl re") auto
  moreover have "char_at re 0 \<noteq> 0 \<Longrightarrow> drop 1 (cstr re) = cstr (drop 1 re)" by (cases re) auto
  moreover have "char_at re 0 \<noteq> 0 \<Longrightarrow> char_at re 1 = of_char (CHR ''*'') \<Longrightarrow> drop 2 (cstr re) = cstr (drop 2 re)"
    by (cases re; cases "tl re") auto
  moreover have "char_at (cstr t) 0 = char_at t 0" by (cases t) auto
  moreover have "char_at t 0 \<noteq> 0 \<Longrightarrow> drop 1 (cstr t) = cstr (drop 1 t)" by (cases t) auto
  ultimately show ?case
    using 1 unfolding matchhere.simps [of re t] matchhere.simps [of "cstr re" "cstr t"] by auto
next
  case (2 c re t)
  have "char_at (cstr t) 0 = char_at t 0" by (cases t) auto
  moreover have "char_at t 0 \<noteq> 0 \<Longrightarrow> drop 1 (cstr t) = cstr (drop 1 t)" by (cases t) auto
  ultimately show ?case
    using 2 unfolding matchstar.simps [of c re t] matchstar.simps [of c "cstr re" "cstr t"] by auto
qed

lemma match_loop_begins:
  "match_loop re t \<longleftrightarrow> (\<exists>u v. cstr t = u @ v \<and> begins (cstr re) v)"
proof (induction t)
  case Nil
  then show ?case by (simp add: matchhere_cstr(1) [of re] matchhere_begins)
next
  case (Cons c t)
  have "matchhere re (c # t) = begins (cstr re) (cstr (c # t))"
    by (simp only: matchhere_cstr(1) [of re] matchhere_begins cstr_no_nul not_False_eq_True)
  then show ?case using Cons by (cases "c = 0") (auto simp: ex_split_Cons)
qed

lemma match_matches: "match re t = matches (cstr re) (cstr t)"
proof (cases re)
  case Nil
  then show ?thesis by (simp add: match_def match_loop_begins)
next
  case (Cons p re')
  show ?thesis
    by (simp add: Cons match_def match_loop_begins matchhere_cstr(1) [of re'] matchhere_begins)
qed

text \<open>C40. The regular expression matcher of \<open>grep\<close> (\<open>match\<close>, \<open>matchhere\<close> and \<open>matchstar\<close> of \<open>user/grep.c\<close>) always returns, and
  it answers 1 exactly when some part of the text is in the language that the pattern denotes: a
  sequence of characters, dots and starred characters, tied to the start of the text by a caret and to its
  end by a dollar.\<close>

theorem match_decides_language: "match re t \<longleftrightarrow> matches (cstr re) (cstr t)"
  by (rule match_matches)

section \<open>The lines of a file\<close>

text \<open>A kernel that gives the program the bytes of a file in chunks of any size, and collects what it writes.\<close>

fun stream_os :: "sysreq \<Rightarrow> u8 list list \<times> u8 list \<Rightarrow> sysres \<times> u8 list list \<times> u8 list" where
  "stream_os (Read fd n) (cs, out) = (case cs of [] \<Rightarrow> (Res 0 [], cs, out)
     | c # cs' \<Rightarrow> if length c \<le> n then (Res (int (length c)) c, cs', out)
       else (Res (int n) (take n c), drop n c # cs', out))"
| "stream_os (Write fd bs) (cs, out) = (Res (int (length bs)) [], cs, out @ bs)"
| "stream_os _ s = (Res (- 1) [], s)"

definition as_lines :: "u8 list list \<Rightarrow> u8 list" where
  "as_lines ls = concat (map (\<lambda>l. l @ [10]) ls)"

definition plain :: "u8 list \<Rightarrow> bool" where
  "plain l \<longleftrightarrow> 0 \<notin> set l \<and> 10 \<notin> set l \<and> length l \<le> 1022"

lemma as_lines_simps [simp]: "as_lines [] = []" "as_lines (l # ls) = l @ 10 # as_lines ls"
  "as_lines (ls @ ms) = as_lines ls @ as_lines ms"
  by (simp_all add: as_lines_def)

lemma stream_read:
  assumes "[] \<notin> set cs" and "0 < n"
  obtains (eof) "cs = []" "stream_os (Read fd n) (cs, out) = (Res 0 [], [], out)"
    | (data) bs cs' where "bs \<noteq> []" "[] \<notin> set cs'" "concat cs = bs @ concat cs'" "read_ok n (Res (int (length bs)) bs)"
        "stream_os (Read fd n) (cs, out) = (Res (int (length bs)) bs, cs', out)"
proof (cases cs)
  case Nil
  then show ?thesis by (intro eof) simp_all
next
  case (Cons c cs')
  show ?thesis
  proof (cases "length c \<le> n")
    case True
    then show ?thesis using Cons assms by (intro data [of c cs']) (auto simp: read_ok_def)
  next
    case False
    then show ?thesis using Cons assms
      by (intro data [of "take n c" "drop n c # cs'"]) (auto simp: read_ok_def)
  qed
qed

lemma grep_lines_line:
  assumes "10 \<notin> set l" and "0 \<notin> set l"
  shows "urun stream_os (grep_lines pattern (l @ 10 # p) k) (cs, out) =
    urun stream_os (grep_lines pattern p k) (cs, out @ (if match pattern l then l @ [10] else []))"
proof -
  have q: "strchr (l @ 10 # p @ [0]) 10 = Some (Some (10 # p @ [0]))"
    using strchr_found [OF assms, of "p @ [0]"] by simp
  have m: "match pattern (l @ 0 # p) = match pattern l"
    by (simp add: match_matches cstr_nul cstr_id assms)
  show ?thesis by (subst grep_lines.simps) (simp add: q m Let_def)
qed

lemma grep_lines_end:
  assumes "10 \<notin> set r" and "0 \<notin> set r"
  shows "grep_lines pattern r k = k r"
  using strchr_missing [OF assms, of "[]"] by (subst grep_lines.simps) simp

lemma grep_lines_run:
  assumes "\<forall>l\<in>set ls. plain l" and "10 \<notin> set r" and "0 \<notin> set r"
  shows "urun stream_os (grep_lines pattern (as_lines ls @ r) k) (cs, out) =
    urun stream_os (k r) (cs, out @ as_lines (filter (match pattern) ls))"
  using assms(1)
proof (induction ls arbitrary: out)
  case Nil
  show ?case by (simp only: as_lines_simps append_Nil grep_lines_end [OF assms(2,3)] filter.simps append_Nil2)
next
  case (Cons l ls)
  then have l: "10 \<notin> set l" "0 \<notin> set l" by (simp_all add: plain_def)
  show ?case using Cons
    by (simp only: as_lines_simps append_assoc append_Cons grep_lines_line [OF l]) simp
qed

text \<open>A part of the file is some whole lines and the beginning of the next.\<close>

lemma split_lines:
  assumes "p @ q = as_lines ls @ rest"
  obtains ls1 ls2 r where "ls = ls1 @ ls2" "p = as_lines ls1 @ r" "r @ q = as_lines ls2 @ rest"
    "\<exists>r'. (if ls2 = [] then rest else hd ls2) = r @ r'"
  using assms
proof (induction ls arbitrary: p thesis)
  case Nil
  show ?case using Nil.prems(2) by (intro Nil.prems(1) [of "[]" "[]" p]) auto
next
  case (Cons l ls)
  have eq: "p @ q = l @ 10 # as_lines ls @ rest" using Cons.prems(2) by simp
  show ?case
  proof (cases "length p \<le> length l")
    case True
    then obtain r' where "l = p @ r'" using eq by (metis append_eq_append_conv_if append_take_drop_id)
    then show ?thesis using Cons.prems(2) by (intro Cons.prems(1) [of "[]" "l # ls" p]) auto
  next
    case False
    then obtain p' where p: "p = l @ 10 # p'"
      using eq by (auto simp: append_eq_append_conv2 append_eq_Cons_conv)
    then have "p' @ q = as_lines ls @ rest" using eq by simp
    then obtain ls1 ls2 r where "ls = ls1 @ ls2" "p' = as_lines ls1 @ r" "r @ q = as_lines ls2 @ rest"
        "\<exists>r'. (if ls2 = [] then rest else hd ls2) = r @ r'"
      by (rule Cons.IH [rotated])
    with p show ?thesis by (intro Cons.prems(1) [of "l # ls1" ls2 r]) auto
  qed
qed

lemma grep_loop_run:
  assumes "\<forall>l\<in>set ls. plain l" and "[] \<notin> set cs" and "pend @ concat cs = as_lines ls @ rest"
    and "plain pend" and "length (concat cs) < fuel" and "plain rest"
  shows "urun stream_os (grep_loop fuel pattern fd pend k) (cs, out) =
    urun stream_os k ([], out @ as_lines (filter (match pattern) ls))"
  using assms
proof (induction fuel arbitrary: cs pend ls out)
  case (Suc fuel)
  have "0 < 1024 - length pend - 1" using Suc.prems(4) by (simp add: plain_def)
  from Suc.prems(2) this show ?case
  proof (cases rule: stream_read [where fd = fd and out = out])
    case eof
    have "pend = as_lines ls @ rest" using Suc.prems(3) eof(1) by simp
    then have "ls = []" using Suc.prems(4) by (cases ls) (auto simp: plain_def)
    then show ?thesis using eof by (simp add: sys_read_def read_ok_def)
  next
    case (data bs cs')
    have "(pend @ bs) @ concat cs' = as_lines ls @ rest" using Suc.prems(3) data(3) by simp
    then obtain ls1 ls2 r where ls: "ls = ls1 @ ls2" "pend @ bs = as_lines ls1 @ r" "r @ concat cs' = as_lines ls2 @ rest"
        "\<exists>r'. (if ls2 = [] then rest else hd ls2) = r @ r'"
      by (rule split_lines)
    have "plain (if ls2 = [] then rest else hd ls2)" using Suc.prems(1,6) ls(1) by (cases ls2) auto
    then have r: "plain r" using ls(4) by (auto simp: plain_def)
    have "urun stream_os (grep_loop (Suc fuel) pattern fd pend k) (cs, out) =
        urun stream_os (grep_lines pattern (as_lines ls1 @ r) (\<lambda>p. grep_loop fuel pattern fd p k)) (cs', out)"
      using data ls(2) by (simp add: sys_read_def)
    moreover have "urun stream_os (grep_lines pattern (as_lines ls1 @ r) (\<lambda>p. grep_loop fuel pattern fd p k)) (cs', out) =
        urun stream_os (grep_loop fuel pattern fd r k) (cs', out @ as_lines (filter (match pattern) ls1))"
      using Suc.prems(1) ls(1) r by (intro grep_lines_run) (auto simp: plain_def)
    moreover have "length (concat cs') < fuel"
      using Suc.prems(5) data(1,3) by (cases bs) (simp_all only: length_append length_Cons, simp_all)
    then have "urun stream_os (grep_loop fuel pattern fd r k) (cs', out @ as_lines (filter (match pattern) ls1)) =
        urun stream_os k ([], (out @ as_lines (filter (match pattern) ls1)) @ as_lines (filter (match pattern) ls2))"
      using Suc.prems(1,6) ls(1,3) data(2) r by (intro Suc.IH) simp_all
    ultimately show ?thesis using ls(1) by simp
  qed
qed simp

text \<open>C38. For a file without a NUL, of whose lines none is longer than 1022 bytes, \<open>grep\<close> prints the lines that match and no
  others, each once and in order: whatever the sizes of the pieces in which the kernel delivers the file, and for every
  pattern, it writes exactly those lines of which a part is in the language of the pattern, and goes on when it has
  read the whole file; as many calls of \<open>read\<close> as the file has bytes, and one more, are enough. What follows the last
  newline is not a line: it is not printed, whether it matches or not.\<close>

theorem grep_prints_matching_lines:
  assumes "\<forall>l\<in>set ls. plain l" and "[] \<notin> set cs" and "concat cs = as_lines ls @ rest" and "plain rest"
    and "length (concat cs) < fuel"
  shows "urun stream_os (grep fuel pattern fd k) (cs, out) =
    urun stream_os k ([], out @ as_lines (filter (\<lambda>l. matches (cstr pattern) l) ls))"
proof -
  have "filter (match pattern) ls = filter (\<lambda>l. matches (cstr pattern) l) ls"
    using assms(1) by (intro filter_cong) (auto simp: match_matches plain_def cstr_id)
  moreover have "plain []" by (simp add: plain_def)
  ultimately show ?thesis
    unfolding grep_def using grep_loop_run [OF assms(1,2) _ _ assms(5,4), of "[]"] assms(3) by simp
qed

text \<open>Three lines, and one without a newline, which would match.\<close>

theorem grep_prints_matching_lines_witness:
  "urun stream_os (grep 10 [97, 42, 98] 0 (UExit 0)) ([[98, 10, 99], [10, 97, 97, 98, 10, 98]], []) =
    Some (0, ([], [98, 10, 97, 97, 98, 10]))"
proof -
  have "concat [[98, 10, 99], [10, 97, 97, 98, 10, 98]] = as_lines [[98], [99], [97, 97, 98]] @ [98]" by simp
  moreover have "matches (cstr [97, 42, 98]) [98]" "\<not> matches (cstr [97, 42, 98]) [99]" "matches (cstr [97, 42, 98]) [97, 97, 98]"
    using match_matches [of "[97, 42, 98]" "[98]"] match_matches [of "[97, 42, 98]" "[99]"]
      match_matches [of "[97, 42, 98]" "[97, 97, 98]"]
    by (simp_all add: match_def matchhere.simps matchstar.simps)
  ultimately show ?thesis
    using grep_prints_matching_lines [of "[[98], [99], [97, 97, 98]]" "[[98, 10, 99], [10, 97, 97, 98, 10, 98]]" "[98]" 10
        "[97, 42, 98]" 0 "UExit 0" "[]"]
    by (simp add: plain_def)
qed

text \<open>Nothing is printed after a line that fills the buffer: \<open>read\<close> is then asked for no bytes, and its answer is taken for
  the end of the file.\<close>

lemma grep_stops_at_long_line:
  assumes "length pend = 1023" and "c \<noteq> []"
  shows "urun stream_os (grep_loop (Suc fuel) pattern fd pend k) (c # cs, out) = urun stream_os k (c # cs, out)"
  using assms by (simp add: sys_read_def read_ok_def)

end
