(* ===== verification/Shell.thy ===== *)
theory Shell
  imports Uprintf
begin

text \<open>
  \<open>user/sh.c\<close>: the parser, \<open>runcmd\<close> and the main loop. The line from the pointer \<open>s\<close> to its end \<open>es\<close> is a byte list, and a
  pointer into it is the number of bytes from there to \<open>es\<close>; the nodes that the parser allocates are values
  of a datatype, so that a \<open>malloc\<close> that fails, which the shell does not check, is left out.
\<close>

unbundle bit_operations_syntax

section \<open>Commands\<close>

text \<open>The parser makes commands whose words are pairs of pointers, to the start and to the end of the word;
  \<open>runcmd\<close> runs commands whose words are strings.\<close>

datatype 'w cmd =
    EXEC (argv: "'w list")
  | REDIR "'w cmd" 'w int int
  | PIPE "'w cmd" "'w cmd"
  | LIST "'w cmd" "'w cmd"
  | BACK "'w cmd"

type_synonym ptrs = "nat \<times> nat"

text \<open>\<open>Deep\<close> is the end of the fuel of the parser.\<close>

datatype 'a parsed = Parsed 'a | Panic string | Leftovers "u8 list" | Deep

primrec pbind :: "'a parsed \<Rightarrow> ('a \<Rightarrow> 'b parsed) \<Rightarrow> 'b parsed" where
  "pbind (Parsed x) f = f x"
| "pbind (Panic m) f = Panic m"
| "pbind (Leftovers s) f = Leftovers s"
| "pbind Deep f = Deep"

definition MAXARGS :: nat where "MAXARGS = 10"

section \<open>Tokens\<close>

definition whitespace :: "u8 list" where "whitespace = [32, 9, 13, 10, 11]"

definition symbols :: "u8 list" where "symbols = str ''<|>&;()''"

definition skip :: "u8 list \<Rightarrow> u8 list" where
  "skip = dropWhile (\<lambda>c. c \<in> set whitespace)"

definition wordchar :: "u8 \<Rightarrow> bool" where
  "wordchar c \<longleftrightarrow> c \<notin> set whitespace \<and> c \<notin> set symbols"

text \<open>The token, pointers to its start and its end, and the rest of the line.\<close>

definition gettoken :: "u8 list \<Rightarrow> u8 \<times> ptrs \<times> u8 list" where
  "gettoken s0 =
     (let s = skip s0;
          (ret, s') =
            (if char_at s 0 = 0 then (0, s)
             else if char_at s 0 \<in> set (str ''|();&<'') then (char_at s 0, drop 1 s)
             else if char_at s 0 = of_char (CHR ''>'') then
               (if char_at s 1 = of_char (CHR ''>'') then (of_char (CHR ''+''), drop 2 s) else (char_at s 0, drop 1 s))
             else (of_char (CHR ''a''), dropWhile wordchar s))
      in (ret, (length s, length s'), skip s'))"

definition peek :: "u8 list \<Rightarrow> u8 list \<Rightarrow> u8 list \<times> bool" where
  "peek s toks = (skip s, char_at (skip s) 0 \<noteq> 0 \<and> char_at (skip s) 0 \<in> set toks)"

lemma length_skip: "length (skip s) \<le> length s"
  by (simp add: skip_def length_dropWhile_le)

lemma skip_head: "skip s = c # t \<Longrightarrow> c \<notin> set whitespace"
  unfolding skip_def by (metis dropWhile_eq_Cons_conv)

lemma symbols_set: "set symbols = insert (of_char (CHR ''>'')) (set (str ''|();&<''))"
  by (simp add: symbols_def str_def insert_commute)

text \<open>What \<open>gettoken\<close> can find.\<close>

lemma gettoken_cases:
  obtains (nul) "char_at (skip s) 0 = 0" "gettoken s = (0, (length (skip s), length (skip s)), skip (skip s))"
  | (sym) c t where "skip s = c # t" "c \<in> set (str ''|();&<'')" "gettoken s = (c, (Suc (length t), length t), skip t)"
  | (app) t where "skip s = of_char (CHR ''>'') # of_char (CHR ''>'') # t"
      "gettoken s = (of_char (CHR ''+''), (Suc (Suc (length t)), length t), skip t)"
  | (gt) t where "skip s = of_char (CHR ''>'') # t" "char_at t 0 \<noteq> of_char (CHR ''>'')"
      "gettoken s = (of_char (CHR ''>''), (Suc (length t), length t), skip t)"
  | (word) w t where "skip s = w @ t" "w \<noteq> []" "\<forall>c\<in>set w. wordchar c" "t = [] \<or> \<not> wordchar (hd t)"
      "gettoken s = (of_char (CHR ''a''), (length w + length t, length t), skip t)"
proof (cases "char_at (skip s) 0 = 0")
  case True
  then show thesis by (intro nul) (simp_all add: gettoken_def Let_def)
next
  case False
  then obtain c t where t: "skip s = c # t" and "c \<noteq> 0" by (cases "skip s") auto
  consider "c \<in> set (str ''|();&<'')" | "c \<notin> set (str ''|();&<'')" "c = of_char (CHR ''>'')"
    | "c \<notin> set symbols" by (auto simp: symbols_set)
  then show thesis
  proof cases
    case 1
    then show thesis using t \<open>c \<noteq> 0\<close> by (intro sym [of c t]) (simp_all add: gettoken_def)
  next
    case 2
    show thesis
    proof (cases "char_at t 0 = of_char (CHR ''>'')")
      case True
      then obtain u where "t = of_char (CHR ''>'') # u" by (cases t) auto
      then show thesis using t 2 \<open>c \<noteq> 0\<close> by (intro app [of u]) (simp_all add: gettoken_def)
    next
      case False
      then show thesis using t 2 \<open>c \<noteq> 0\<close> by (intro gt [of t]) (simp_all add: gettoken_def)
    qed
  next
    case 3
    define w where "w = takeWhile wordchar (skip s)"
    define u where "u = dropWhile wordchar (skip s)"
    have wu: "skip s = w @ u" by (simp add: w_def u_def)
    have "wordchar c" using 3 skip_head [OF t] by (simp add: wordchar_def)
    then have "w \<noteq> []" by (simp add: w_def t)
    moreover have "\<forall>c\<in>set w. wordchar c" by (auto simp: w_def dest: set_takeWhileD)
    moreover have "u = [] \<or> \<not> wordchar (hd u)" unfolding u_def using hd_dropWhile by blast
    moreover have "gettoken s = (of_char (CHR ''a''), (length (skip s), length u), skip u)"
      using 3 t \<open>c \<noteq> 0\<close> by (simp add: gettoken_def symbols_set u_def)
    ultimately show thesis using wu by (intro word [of w u]) simp_all
  qed
qed

lemma gettoken_shorter:
  assumes "gettoken s = (tok, w, r)"
  shows "length r \<le> length s" and "tok \<noteq> 0 \<Longrightarrow> length r < length s"
proof -
  have "length r \<le> length s \<and> (tok \<noteq> 0 \<longrightarrow> length r < length s)"
  proof (cases rule: gettoken_cases [of s])
    case nul
    then show ?thesis using assms length_skip [of "skip s"] length_skip [of s] by simp
  next
    case (sym c t)
    then show ?thesis using assms length_skip [of t] length_skip [of s] by simp
  next
    case (app t)
    then show ?thesis using assms length_skip [of t] length_skip [of s] by simp
  next
    case (gt t)
    then show ?thesis using assms length_skip [of t] length_skip [of s] by simp
  next
    case (word u t)
    then have "length t < length (skip s)" by simp
    then show ?thesis using word(5) assms length_skip [of t] length_skip [of s] by simp
  qed
  then show "length r \<le> length s" and "tok \<noteq> 0 \<Longrightarrow> length r < length s" by simp_all
qed

section \<open>The parser\<close>

text \<open>A redirection: its file, its mode and its descriptor. The node of a simple command gets its arguments
  after redirection nodes have been put around it, so the redirections are collected and put around
  the finished node.\<close>

type_synonym 'w redir = "'w \<times> int \<times> int"

definition redircmd :: "'w cmd \<Rightarrow> 'w redir \<Rightarrow> 'w cmd" where
  "redircmd c r = (case r of (file, mode, fd) \<Rightarrow> REDIR c file mode fd)"

definition pipecmd :: "'w cmd \<Rightarrow> 'w cmd \<Rightarrow> 'w cmd" where [simp]: "pipecmd left right = PIPE left right"

definition listcmd :: "'w cmd \<Rightarrow> 'w cmd \<Rightarrow> 'w cmd" where [simp]: "listcmd left right = LIST left right"

definition backcmd :: "'w cmd \<Rightarrow> 'w cmd" where [simp]: "backcmd subcmd = BACK subcmd"

definition redir_of :: "u8 \<Rightarrow> 'w \<Rightarrow> 'w redir" where
  "redir_of tok w =
     (if tok = of_char (CHR ''<'') then (w, O_RDONLY, 0)
      else if tok = of_char (CHR ''>'') then (w, O_WRONLY OR O_CREATE OR O_TRUNC, 1)
      else (w, O_WRONLY OR O_CREATE, 1))"

lemma peek_shorter: "peek s toks = (r, b) \<Longrightarrow> length r \<le> length s"
  by (auto simp: peek_def length_skip)

lemma gettoken_less:
  "(tok, w, r) = gettoken s \<Longrightarrow> length r \<le> length s \<and> (tok \<noteq> 0 \<longrightarrow> length r < length s)"
  using gettoken_shorter [of s tok w r] by simp

lemma peek_less: "(r, b) = peek s toks \<Longrightarrow> length r \<le> length s"
  using peek_shorter [of s toks r b] by simp

function parseredirs :: "ptrs redir list \<Rightarrow> u8 list \<Rightarrow> (ptrs redir list \<times> u8 list) parsed" where
  "parseredirs rs s =
     (case peek s (str ''<>'') of (s1, b) \<Rightarrow>
      if \<not> b then Parsed (rs, s1)
      else case gettoken s1 of (tok, _, s2) \<Rightarrow>
        case gettoken s2 of (tok2, w, s3) \<Rightarrow>
        if tok2 \<noteq> of_char (CHR ''a'') then Panic ''missing file for redirection''
        else parseredirs (rs @ [redir_of tok w]) s3)"
  by pat_completeness auto

termination
  by (relation "measure (\<lambda>(rs, s). length s)") (auto dest!: peek_less gettoken_less)

declare parseredirs.simps [simp del]

lemma parseredirs_shorter: "parseredirs rs s = Parsed (rs', r) \<Longrightarrow> length r \<le> length s"
proof (induction s arbitrary: rs rule: measure_induct_rule [of length])
  case (less s)
  obtain s1 b where p: "peek s (str ''<>'') = (s1, b)" by fastforce
  obtain tok p1 s2 where g1: "gettoken s1 = (tok, p1, s2)" by (metis prod_cases3)
  obtain tok2 w s3 where g2: "gettoken s2 = (tok2, w, s3)" by (metis prod_cases3)
  note l = peek_shorter [OF p] gettoken_shorter [OF g1] gettoken_shorter [OF g2]
  show ?case
    using less.prems l less.IH [of s3 "rs @ [redir_of tok w]"]
    by (subst (asm) parseredirs.simps) (auto simp: p g1 g2 split: if_splits)
qed

text \<open>The loop of \<open>parseexec\<close> over the words of a simple command.\<close>

function parseargs :: "ptrs list \<Rightarrow> ptrs redir list \<Rightarrow> u8 list \<Rightarrow> (ptrs list \<times> ptrs redir list \<times> u8 list) parsed" where
  "parseargs args rs s =
     (case peek s (str ''|)&;'') of (s1, b) \<Rightarrow>
      if b then Parsed (args, rs, s1)
      else case gettoken s1 of (tok, w, s2) \<Rightarrow>
        if tok = 0 then Parsed (args, rs, s2)
        else if tok \<noteq> of_char (CHR ''a'') then Panic ''syntax''
        else if length args + 1 \<ge> MAXARGS then Panic ''too many args''
        else case parseredirs rs s2 of
            Parsed (rs', s3) \<Rightarrow> parseargs (args @ [w]) rs' s3
          | Panic m \<Rightarrow> Panic m | Leftovers l \<Rightarrow> Leftovers l | Deep \<Rightarrow> Deep)"
  by pat_completeness auto

termination
  by (relation "measure (\<lambda>(args, rs, s). length s)")
    (auto dest!: peek_less gettoken_less parseredirs_shorter)

declare parseargs.simps [simp del]

lemma parseargs_shorter: "parseargs args rs s = Parsed (args', rs', r) \<Longrightarrow> length r \<le> length s"
proof (induction s arbitrary: args rs rule: measure_induct_rule [of length])
  case (less s)
  obtain s1 b where p: "peek s (str ''|)&;'') = (s1, b)" by fastforce
  obtain tok w s2 where g: "gettoken s1 = (tok, w, s2)" by (metis prod_cases3)
  note l = peek_shorter [OF p] gettoken_shorter [OF g]
  show ?case
  proof (cases "parseredirs rs s2")
    case (Parsed x)
    then obtain rs1 s3 where r: "parseredirs rs s2 = Parsed (rs1, s3)" by (cases x) simp
    show ?thesis
      using less.prems l parseredirs_shorter [OF r] less.IH [of s3 "args @ [w]" rs1]
      by (subst (asm) parseargs.simps) (auto simp: p g r split: if_splits)
  qed (use less.prems l in \<open>subst (asm) parseargs.simps, auto simp: p g split: if_splits\<close>)+
qed

lemma skip_skip [simp]: "skip (skip s) = skip s"
  by (simp add: skip_def)

lemma peek_token:
  assumes "(s1, True) = peek s toks" and "(tok, w, r) = gettoken s1"
  shows "length r < length s"
proof -
  have s1: "s1 = skip s" "char_at s1 0 \<noteq> 0" using assms(1) by (auto simp: peek_def)
  have "tok \<noteq> 0"
    using s1 assms(2) by (cases rule: gettoken_cases [of s1]) (auto simp: str_def)
  then show ?thesis using gettoken_less [OF assms(2)] peek_less [OF assms(1)] by simp
qed

text \<open>The loop of \<open>parseline\<close> over \<open>&\<close>.\<close>

function parseback :: "ptrs cmd \<Rightarrow> u8 list \<Rightarrow> ptrs cmd \<times> u8 list" where
  "parseback c s =
     (case peek s (str ''&'') of (s1, b) \<Rightarrow>
      if b then case gettoken s1 of (_, _, s2) \<Rightarrow> parseback (backcmd c) s2
      else (c, s1))"
  by pat_completeness auto

termination by (relation "measure (\<lambda>(c, s). length s)") (auto dest: peek_token)

declare parseback.simps [simp del]

lemma parseback_shorter: "parseback c s = (c', r) \<Longrightarrow> length r \<le> length s"
proof (induction s arbitrary: c rule: measure_induct_rule [of length])
  case (less s)
  obtain s1 b where p: "peek s (str ''&'') = (s1, b)" by fastforce
  obtain tok w s2 where g: "gettoken s1 = (tok, w, s2)" by (metis prod_cases3)
  show ?case
    using less.prems peek_shorter [OF p] peek_token [of s1 s "str ''&''" tok w s2] less.IH [of s2 "BACK c"]
    by (subst (asm) parseback.simps) (auto simp: p g split: if_splits)
qed

text \<open>The first argument bounds the depth of the recursion.\<close>

fun parseline :: "nat \<Rightarrow> u8 list \<Rightarrow> (ptrs cmd \<times> u8 list) parsed"
  and parsepipe :: "nat \<Rightarrow> u8 list \<Rightarrow> (ptrs cmd \<times> u8 list) parsed"
  and parseblock :: "nat \<Rightarrow> u8 list \<Rightarrow> (ptrs cmd \<times> u8 list) parsed"
  and parseexec :: "nat \<Rightarrow> u8 list \<Rightarrow> (ptrs cmd \<times> u8 list) parsed" where
  "parseline 0 s = Deep"
| "parseline (Suc n) s = pbind (parsepipe n s) (\<lambda>(c, s1).
     case parseback c s1 of (c', s2) \<Rightarrow>
     case peek s2 (str '';'') of (s3, b) \<Rightarrow>
     if b then case gettoken s3 of (_, _, s4) \<Rightarrow>
       pbind (parseline n s4) (\<lambda>(d, s5). Parsed (listcmd c' d, s5))
     else Parsed (c', s3))"
| "parsepipe 0 s = Deep"
| "parsepipe (Suc n) s = pbind (parseexec n s) (\<lambda>(c, s1).
     case peek s1 (str ''|'') of (s2, b) \<Rightarrow>
     if b then case gettoken s2 of (_, _, s3) \<Rightarrow>
       pbind (parsepipe n s3) (\<lambda>(d, s4). Parsed (pipecmd c d, s4))
     else Parsed (c, s2))"
| "parseblock 0 s = Deep"
| "parseblock (Suc n) s =
     (case peek s (str ''('') of (s1, b) \<Rightarrow>
      if \<not> b then Panic ''parseblock''
      else case gettoken s1 of (_, _, s2) \<Rightarrow>
        pbind (parseline n s2) (\<lambda>(c, s3).
        case peek s3 (str '')'') of (s4, b') \<Rightarrow>
        if \<not> b' then Panic ''syntax - missing )''
        else case gettoken s4 of (_, _, s5) \<Rightarrow>
          pbind (parseredirs [] s5) (\<lambda>(rs, s6). Parsed (foldl redircmd c rs, s6))))"
| "parseexec 0 s = Deep"
| "parseexec (Suc n) s =
     (case peek s (str ''('') of (s1, b) \<Rightarrow>
      if b then parseblock n s1
      else pbind (parseredirs [] s1) (\<lambda>(rs, s2).
        pbind (parseargs [] rs s2) (\<lambda>(args, rs', s3). Parsed (foldl redircmd (EXEC args) rs', s3))))"

text \<open>\<open>nulterminate\<close> stores a NUL at the end of each word of the command; \<open>es\<close> is the offset of the end of the line
  in the buffer.\<close>

primrec nulterminate :: "nat \<Rightarrow> ptrs cmd \<Rightarrow> u8 list \<Rightarrow> u8 list" where
  "nulterminate es (EXEC args) buf = foldl (\<lambda>b (q, eq). b[es - eq := 0]) buf args"
| "nulterminate es (REDIR c w mode fd) buf = (nulterminate es c buf)[es - snd w := 0]"
| "nulterminate es (PIPE l r) buf = nulterminate es r (nulterminate es l buf)"
| "nulterminate es (LIST l r) buf = nulterminate es r (nulterminate es l buf)"
| "nulterminate es (BACK c) buf = nulterminate es c buf"

text \<open>\<open>buf\<close> holds the line and its NUL. The depth given is enough for every line.\<close>

definition parsecmd :: "u8 list \<Rightarrow> (ptrs cmd \<times> u8 list) parsed" where
  "parsecmd buf =
     (let s = cstr buf in
      pbind (parseline (4 * length s + 4) s) (\<lambda>(c, s1).
      case peek s1 [] of (s2, _) \<Rightarrow>
      if s2 \<noteq> [] then Leftovers s2 else Parsed (c, nulterminate (length s) c buf)))"

section \<open>Running commands\<close>

definition panic :: "u8 list \<Rightarrow> uproc" where
  "panic m = fprintf 2 (str ''%s'' @ [10]) [VStr (Some m)] (UExit 1)"

definition fork1 :: "uproc \<Rightarrow> (int \<Rightarrow> uproc) \<Rightarrow> uproc" where
  "fork1 child parent = UFork child (\<lambda>pid. if pid = - 1 then panic (str ''fork'') else parent pid)"

definition sys_do :: "sysreq \<Rightarrow> uproc \<Rightarrow> uproc" where
  "sys_do r k = USys r (\<lambda>_. k)"

primrec runcmd :: "u8 list cmd \<Rightarrow> uproc" where
  "runcmd (EXEC args) =
     (case args of [] \<Rightarrow> UExit 1
      | a # _ \<Rightarrow> UExec a args (fprintf 2 (str ''exec %s failed'' @ [10]) [VStr (Some a)] (UExit 0)))"
| "runcmd (REDIR c file mode fd) =
     sys_do (Close fd) (USys (Open file mode) (\<lambda>r.
       if res_val r < 0 then fprintf 2 (str ''open %s failed'' @ [10]) [VStr (Some file)] (UExit 1)
       else runcmd c))"
| "runcmd (LIST l r) = fork1 (runcmd l) (\<lambda>_. sys_do Wait (runcmd r))"
| "runcmd (PIPE l r) = USys Pipe (\<lambda>res.
     if res_val res < 0 then panic (str ''pipe'')
     else let p0 = sint (get32 (res_bytes res) 0); p1 = sint (get32 (res_bytes res) 4) in
       fork1 (sys_do (Close 1) (sys_do (Dup p1) (sys_do (Close p0) (sys_do (Close p1) (runcmd l))))) (\<lambda>_.
       fork1 (sys_do (Close 0) (sys_do (Dup p0) (sys_do (Close p0) (sys_do (Close p1) (runcmd r))))) (\<lambda>_.
       sys_do (Close p0) (sys_do (Close p1) (sys_do Wait (sys_do Wait (UExit 0)))))))"
| "runcmd (BACK c) = fork1 (runcmd c) (\<lambda>_. UExit 0)"

text \<open>The string at a pointer.\<close>

definition string_at :: "nat \<Rightarrow> u8 list \<Rightarrow> ptrs \<Rightarrow> u8 list" where
  "string_at es buf w = cstr (drop (es - fst w) buf)"

text \<open>\<open>runcmd(parsecmd(buf))\<close>.\<close>

definition run_line :: "u8 list \<Rightarrow> uproc" where
  "run_line buf = (case parsecmd buf of
       Parsed (c, buf') \<Rightarrow> runcmd (map_cmd (string_at (length (cstr buf)) buf') c)
     | Panic m \<Rightarrow> panic (str m)
     | Leftovers s \<Rightarrow> fprintf 2 (str ''leftovers: %s'' @ [10]) [VStr (Some s)] (panic (str ''syntax''))
     | Deep \<Rightarrow> UStuck)"

definition getcmd :: "u8 list \<Rightarrow> nat \<Rightarrow> (int \<Rightarrow> u8 list \<Rightarrow> uproc) \<Rightarrow> uproc" where
  "getcmd buf nbuf k = sys_do (Write 2 (str ''$ '')) (gets (replicate nbuf 0) nbuf (\<lambda>buf.
     if char_at buf 0 = 0 then k (- 1) buf else k 0 buf))"

text \<open>The first argument of the loops of \<open>main\<close> bounds the number of their rounds.\<close>

primrec open_console :: "nat \<Rightarrow> uproc \<Rightarrow> uproc" where
  "open_console 0 k = UStuck"
| "open_console (Suc n) k = USys (Open (str ''console'') O_RDWR) (\<lambda>fd.
     if res_val fd < 0 then k
     else if res_val fd \<ge> 3 then sys_do (Close (res_val fd)) k else open_console n k)"

primrec sh_loop :: "nat \<Rightarrow> u8 list \<Rightarrow> uproc" where
  "sh_loop 0 buf = UStuck"
| "sh_loop (Suc n) buf = getcmd buf 100 (\<lambda>r buf.
     if r < 0 then UExit 0
     else if take 3 buf = str ''cd '' then
       (let buf' = buf[length (cstr buf) - 1 := 0] in
        USys (Chdir (cstr (drop 3 buf'))) (\<lambda>a.
          if res_val a < 0 then fprintf 2 (str ''cannot cd %s'' @ [10]) [VStr (Some (drop 3 buf'))] (sh_loop n buf')
          else sh_loop n buf'))
     else fork1 (run_line buf) (\<lambda>_. sys_do Wait (sh_loop n buf)))"

definition sh_main :: "nat \<Rightarrow> uproc" where
  "sh_main n = open_console n (sh_loop n (replicate 100 0))"

end
