(* ===== verification/ShellParse.thy ===== *)
theory ShellParse
  imports Shell "HOL-Library.Sublist"
begin

text \<open>
  What the parser of the shell makes of a line: it always returns, and the words of the commands it makes
  are the words of the line.
\<close>

section \<open>Well-formed commands\<close>

definition redir_modes :: "(int \<times> int) list" where
  "redir_modes = [(0, 0), (0x601, 1), (0x201, 1)]"

text \<open>At most nine arguments, words of one kind, and the three kinds of redirection.\<close>

primrec wf_cmd :: "('w \<Rightarrow> bool) \<Rightarrow> 'w cmd \<Rightarrow> bool" where
  "wf_cmd W (EXEC args) \<longleftrightarrow> length args < MAXARGS \<and> (\<forall>w\<in>set args. W w)"
| "wf_cmd W (REDIR c w mode fd) \<longleftrightarrow> wf_cmd W c \<and> W w \<and> (mode, fd) \<in> set redir_modes"
| "wf_cmd W (PIPE l r) \<longleftrightarrow> wf_cmd W l \<and> wf_cmd W r"
| "wf_cmd W (LIST l r) \<longleftrightarrow> wf_cmd W l \<and> wf_cmd W r"
| "wf_cmd W (BACK c) \<longleftrightarrow> wf_cmd W c"

definition is_word :: "u8 list \<Rightarrow> bool" where
  "is_word w \<longleftrightarrow> w \<noteq> [] \<and> 0 \<notin> set w \<and> (\<forall>c\<in>set w. wordchar c)"

text \<open>The part of a line between two pointers, and pointers that delimit a word of it.\<close>

definition word_at :: "u8 list \<Rightarrow> ptrs \<Rightarrow> u8 list" where
  "word_at line w = take (fst w - snd w) (drop (length line - fst w) line)"

definition typed_word :: "u8 list \<Rightarrow> ptrs \<Rightarrow> bool" where
  "typed_word line w \<longleftrightarrow> snd w < fst w \<and> fst w \<le> length line \<and> is_word (word_at line w) \<and>
     (snd w = 0 \<or> \<not> wordchar (line ! (length line - snd w)))"

lemma wf_cmd_map: "wf_cmd W (map_cmd f c) \<longleftrightarrow> wf_cmd (\<lambda>w. W (f w)) c"
  by (induction c) auto

lemma wf_cmd_mono: "wf_cmd W c \<Longrightarrow> (\<And>w. W w \<Longrightarrow> W' w) \<Longrightarrow> wf_cmd W' c"
  by (induction c) auto

lemma wf_cmd_words: "wf_cmd W c \<Longrightarrow> w \<in> set_cmd c \<Longrightarrow> W w"
  by (induction c) auto

lemma wf_redirs:
  "wf_cmd W (foldl redircmd c rs) \<longleftrightarrow> wf_cmd W c \<and> (\<forall>(w, m)\<in>set rs. W w \<and> m \<in> set redir_modes)"
  by (induction rs arbitrary: c) (auto simp: redircmd_def split: prod.splits)

lemma redir_of_modes: "redir_of tok w = (w', m) \<Longrightarrow> w' = w \<and> m \<in> set redir_modes"
  by (auto simp: redir_of_def redir_modes_def O_RDONLY_def O_WRONLY_def O_CREATE_def O_TRUNC_def split: if_splits)

section \<open>Tokens of a line\<close>

lemma suffix_skip: "suffix (skip s) s"
  by (simp add: skip_def suffix_dropWhile)

lemma suffix_peek: "peek s toks = (r, b) \<Longrightarrow> suffix r s"
  by (auto simp: peek_def suffix_skip)

lemma suffix_gettoken:
  assumes "gettoken s = (tok, w, r)"
  shows "suffix r s"
proof (cases rule: gettoken_cases [of s])
  case nul
  then show ?thesis using assms by (simp add: suffix_skip)
next
  case (sym c t)
  then have "suffix t (skip s)" by (simp add: suffix_ConsI)
  then show ?thesis using sym assms suffix_skip suffix_order.trans by (metis Pair_inject)
next
  case (app t)
  then have "suffix t (skip s)" by (simp add: suffix_ConsI)
  then show ?thesis using app assms suffix_skip suffix_order.trans by (metis Pair_inject)
next
  case (gt t)
  then have "suffix t (skip s)" by (simp add: suffix_ConsI)
  then show ?thesis using gt assms suffix_skip suffix_order.trans by (metis Pair_inject)
next
  case (word w t)
  then have "suffix t (skip s)" by (simp add: suffixI)
  then show ?thesis using word assms suffix_skip suffix_order.trans by (metis Pair_inject)
qed

lemma typed_wordI:
  assumes "line = u @ w @ t" and "is_word w" and "t = [] \<or> \<not> wordchar (hd t)"
  shows "typed_word line (length w + length t, length t)"
proof -
  have "word_at line (length w + length t, length t) = w" by (simp add: word_at_def assms(1))
  moreover have "t = [] \<or> line ! (length line - length t) = hd t"
    by (cases t) (simp_all add: assms(1) nth_append)
  ultimately show ?thesis using assms by (auto simp: typed_word_def is_word_def)
qed

lemma gettoken_typed:
  assumes "gettoken s = (of_char (CHR ''a''), w, r)" and "suffix s line" and "0 \<notin> set line"
  shows "typed_word line w"
proof (cases rule: gettoken_cases [of s])
  case (word v t)
  obtain u where u: "line = u @ v @ t"
    using suffix_order.trans [OF suffix_skip assms(2)] word(1) by (metis suffix_def)
  then have "is_word v" using word assms(3) by (simp add: is_word_def)
  then show ?thesis using typed_wordI [OF u] word assms(1) by simp
qed (use assms in \<open>auto simp: str_def\<close>)

section \<open>Every line is parsed\<close>

text \<open>The messages with which the parser gives up.\<close>

definition syntax_errors :: "string list" where
  "syntax_errors = [''missing file for redirection'', ''syntax'', ''too many args'', ''syntax - missing )'']"

definition ok_parse :: "('a \<Rightarrow> bool) \<Rightarrow> 'a parsed \<Rightarrow> bool" where
  "ok_parse R p = (case p of Parsed x \<Rightarrow> R x | Panic m \<Rightarrow> m \<in> set syntax_errors | Leftovers _ \<Rightarrow> False | Deep \<Rightarrow> False)"

lemma ok_parse_simps [simp]: "ok_parse R (Parsed x) = R x" "ok_parse R (Panic m) = (m \<in> set syntax_errors)"
  by (simp_all add: ok_parse_def)

lemma ok_bind: "ok_parse R p \<Longrightarrow> (\<And>x. R x \<Longrightarrow> ok_parse S (f x)) \<Longrightarrow> ok_parse S (pbind p f)"
  by (cases p) (simp_all add: ok_parse_def)

definition typed_redirs :: "u8 list \<Rightarrow> ptrs redir list \<Rightarrow> bool" where
  "typed_redirs line rs \<longleftrightarrow> (\<forall>(w, m)\<in>set rs. typed_word line w \<and> m \<in> set redir_modes)"

lemma parseredirs_ok:
  assumes "suffix s line" and "0 \<notin> set line" and "typed_redirs line rs"
  shows "ok_parse (\<lambda>(rs', r). suffix r s \<and> typed_redirs line rs') (parseredirs rs s)"
  using assms(1,3)
proof (induction s arbitrary: rs rule: measure_induct_rule [of length])
  case (less s)
  obtain s1 b where p: "peek s (str ''<>'') = (s1, b)" by fastforce
  obtain tok p1 s2 where g1: "gettoken s1 = (tok, p1, s2)" by (metis prod_cases3)
  obtain tok2 w s3 where g2: "gettoken s2 = (tok2, w, s3)" by (metis prod_cases3)
  have s2: "suffix s2 s" using suffix_peek [OF p] suffix_gettoken [OF g1] by (metis suffix_order.trans)
  then have s3: "suffix s3 s" using suffix_gettoken [OF g2] by (metis suffix_order.trans)
  show ?case
  proof (cases "b \<and> tok2 = of_char (CHR ''a'')")
    case True
    have "typed_word line w"
      using gettoken_typed [of s2 w s3 line] g2 True s2 less.prems(1) assms(2) by (metis suffix_order.trans)
    then have "typed_redirs line (rs @ [redir_of tok w])"
      using less.prems(2) redir_of_modes by (cases "redir_of tok w") (fastforce simp: typed_redirs_def)
    moreover have "length s3 < length s"
      using True peek_shorter [OF p] gettoken_shorter [OF g1] gettoken_shorter [OF g2] by simp
    ultimately have "ok_parse (\<lambda>(rs', r). suffix r s3 \<and> typed_redirs line rs') (parseredirs (rs @ [redir_of tok w]) s3)"
      using less.IH s3 less.prems(1) by (metis suffix_order.trans)
    then show ?thesis using True s3
      by (subst parseredirs.simps) (auto simp: p g1 g2 ok_parse_def split: parsed.splits intro: suffix_order.trans)
  next
    case False
    then show ?thesis using less.prems suffix_peek [OF p]
      by (subst parseredirs.simps) (auto simp: p g1 g2 syntax_errors_def)
  qed
qed

lemma parseargs_ok:
  assumes "suffix s line" and "0 \<notin> set line" and "typed_redirs line rs"
    and "length args < MAXARGS" and "\<forall>w\<in>set args. typed_word line w"
  shows "ok_parse (\<lambda>(args', rs', r). suffix r s \<and> typed_redirs line rs' \<and> length args' < MAXARGS \<and>
    (\<forall>w\<in>set args'. typed_word line w)) (parseargs args rs s)"
  using assms(1,3-5)
proof (induction s arbitrary: args rs rule: measure_induct_rule [of length])
  case (less s)
  obtain s1 b where p: "peek s (str ''|)&;'') = (s1, b)" by fastforce
  obtain tok w s2 where g: "gettoken s1 = (tok, w, s2)" by (metis prod_cases3)
  have s1: "suffix s1 s" by (rule suffix_peek [OF p])
  then have s2: "suffix s2 s" using suffix_gettoken [OF g] by (metis suffix_order.trans)
  show ?case
  proof (cases "\<not> b \<and> tok = of_char (CHR ''a'') \<and> length args + 1 < MAXARGS")
    case True
    have w: "typed_word line w"
      using gettoken_typed [of s1 w s2 line] g True s1 less.prems(1) assms(2) by (metis suffix_order.trans)
    have len: "length s2 < length s" using True peek_shorter [OF p] gettoken_shorter [OF g] by simp
    have "ok_parse (\<lambda>(rs', r). suffix r s2 \<and> typed_redirs line rs') (parseredirs rs s2)"
      using s2 less.prems assms(2) by (metis parseredirs_ok suffix_order.trans)
    then have "ok_parse (\<lambda>(args', rs', r). suffix r s \<and> typed_redirs line rs' \<and> length args' < MAXARGS \<and>
        (\<forall>w\<in>set args'. typed_word line w)) (pbind (parseredirs rs s2) (\<lambda>(rs', s3). parseargs (args @ [w]) rs' s3))"
    proof (rule ok_bind)
      fix x
      assume x: "case x of (rs', r) \<Rightarrow> suffix r s2 \<and> typed_redirs line rs'"
      obtain rs' s3 where [simp]: "x = (rs', s3)" by fastforce
      have s3: "suffix s3 s" "length s3 < length s"
        using x s2 len by (auto intro: suffix_order.trans dest: suffix_length_le)
      then have "ok_parse (\<lambda>(args', rs', r). suffix r s3 \<and> typed_redirs line rs' \<and> length args' < MAXARGS \<and>
          (\<forall>w\<in>set args'. typed_word line w)) (parseargs (args @ [w]) rs' s3)"
        using less.IH [of s3 rs' "args @ [w]"] less.prems w x True by (auto intro: suffix_order.trans)
      then show "ok_parse (\<lambda>(args', rs', r). suffix r s \<and> typed_redirs line rs' \<and> length args' < MAXARGS \<and>
          (\<forall>w\<in>set args'. typed_word line w)) (case x of (rs', s3) \<Rightarrow> parseargs (args @ [w]) rs' s3)"
        using s3 by (auto simp: ok_parse_def split: parsed.splits intro: suffix_order.trans)
    qed
    then show ?thesis using True
      by (subst parseargs.simps) (cases "parseredirs rs s2"; simp add: p g)
  next
    case False
    then show ?thesis using less.prems s1 s2
      by (subst parseargs.simps) (auto simp: p g syntax_errors_def)
  qed
qed

lemma parseback_ok:
  "parseback c s = (c', r) \<Longrightarrow> wf_cmd W c \<Longrightarrow> suffix r s \<and> wf_cmd W c'"
proof (induction s arbitrary: c rule: measure_induct_rule [of length])
  case (less s)
  obtain s1 b where p: "peek s (str ''&'') = (s1, b)" by fastforce
  obtain tok w s2 where g: "gettoken s1 = (tok, w, s2)" by (metis prod_cases3)
  have s2: "suffix s1 s" "suffix s2 s"
    using suffix_peek [OF p] suffix_gettoken [OF g] by (auto intro: suffix_order.trans)
  show ?case
  proof (cases b)
    case True
    then have "parseback (BACK c) s2 = (c', r)" using less.prems(1) by (subst (asm) parseback.simps) (simp add: p g)
    moreover have "length s2 < length s" using peek_token [of s1 s "str ''&''" tok w s2] p g True by simp
    ultimately have "suffix r s2 \<and> wf_cmd W c'" using less.IH less.prems(2) by simp
    then show ?thesis using s2 by (auto intro: suffix_order.trans)
  next
    case False
    then show ?thesis using less.prems s2 by (subst (asm) parseback.simps) (simp add: p)
  qed
qed

definition parsed_ok :: "u8 list \<Rightarrow> u8 list \<Rightarrow> (ptrs cmd \<times> u8 list) parsed \<Rightarrow> bool" where
  "parsed_ok line s = ok_parse (\<lambda>(c, r). suffix r s \<and> wf_cmd (typed_word line) c)"

lemma parsed_ok_mono: "parsed_ok line s' p \<Longrightarrow> suffix s' s \<Longrightarrow> parsed_ok line s p"
  by (auto simp: parsed_ok_def ok_parse_def split: parsed.splits intro: suffix_order.trans)

lemma parsed_ok_bind:
  assumes "parsed_ok line s p" and "\<And>c r. suffix r s \<Longrightarrow> wf_cmd (typed_word line) c \<Longrightarrow> ok_parse S (f (c, r))"
  shows "ok_parse S (pbind p f)"
  using assms(1) unfolding parsed_ok_def by (rule ok_bind) (use assms(2) in auto)

text \<open>A token that is announced by \<open>peek\<close> is taken by \<open>gettoken\<close>.\<close>

lemma peek_gettoken:
  assumes "peek s toks = (s1, True)" and "gettoken s1 = (tok, w, s2)"
  shows "suffix s2 s" and "length s2 < length s"
proof -
  show "suffix s2 s" using suffix_peek [OF assms(1)] suffix_gettoken [OF assms(2)] by (metis suffix_order.trans)
  show "length s2 < length s" using assms by (metis peek_token)
qed

text \<open>One step of each procedure, from what the procedures it calls do.\<close>

lemma parseline_step:
  assumes "parsed_ok line s (parsepipe n s)"
    and "\<And>s'. suffix s' s \<Longrightarrow> length s' < length s \<Longrightarrow> parsed_ok line s' (parseline n s')"
  shows "parsed_ok line s (parseline (Suc n) s)"
  unfolding parseline.simps parsed_ok_def
proof (rule parsed_ok_bind [OF assms(1)])
  fix c s1
  assume s1: "suffix s1 s" and c: "wf_cmd (typed_word line) c"
  obtain c' s2 where b: "parseback c s1 = (c', s2)" by fastforce
  obtain s3 more where p: "peek s2 (str '';'') = (s3, more)" by fastforce
  obtain tok w s4 where g: "gettoken s3 = (tok, w, s4)" by (metis prod_cases3)
  have s2: "suffix s2 s1" "wf_cmd (typed_word line) c'" using parseback_ok [OF b c] by simp_all
  have s3: "suffix s3 s" using suffix_peek [OF p] s1 s2 by (meson suffix_order.trans)
  have "parsed_ok line s (pbind (parseline n s4) (\<lambda>(d, s5). Parsed (listcmd c' d, s5)))" if more
  proof -
    have s4: "suffix s4 s2" "length s4 < length s2" using peek_gettoken p g that by simp_all
    then have "suffix s4 s" "length s4 < length s"
      using s1 s2 by (auto intro: suffix_order.trans dest!: suffix_length_le)
    then show ?thesis unfolding parsed_ok_def
      by (intro parsed_ok_bind [OF assms(2) [of s4]]) (use s2(2) in \<open>auto intro: suffix_order.trans\<close>)
  qed
  then show "ok_parse (\<lambda>(c, r). suffix r s \<and> wf_cmd (typed_word line) c)
      (case (c, s1) of (c, s1) \<Rightarrow> case parseback c s1 of (c', s2) \<Rightarrow> case peek s2 (str '';'') of (s3, b) \<Rightarrow>
        if b then case gettoken s3 of (_, _, s4) \<Rightarrow> pbind (parseline n s4) (\<lambda>(d, s5). Parsed (listcmd c' d, s5))
        else Parsed (c', s3))"
    using s2 s3 by (simp add: b p g parsed_ok_def)
qed

lemma parsepipe_step:
  assumes "parsed_ok line s (parseexec n s)"
    and "\<And>s'. suffix s' s \<Longrightarrow> length s' < length s \<Longrightarrow> parsed_ok line s' (parsepipe n s')"
  shows "parsed_ok line s (parsepipe (Suc n) s)"
  unfolding parsepipe.simps parsed_ok_def
proof (rule parsed_ok_bind [OF assms(1)])
  fix c s1
  assume s1: "suffix s1 s" and c: "wf_cmd (typed_word line) c"
  obtain s2 more where p: "peek s1 (str ''|'') = (s2, more)" by fastforce
  obtain tok w s3 where g: "gettoken s2 = (tok, w, s3)" by (metis prod_cases3)
  have s2: "suffix s2 s" using suffix_peek [OF p] s1 by (meson suffix_order.trans)
  have "parsed_ok line s (pbind (parsepipe n s3) (\<lambda>(d, s4). Parsed (pipecmd c d, s4)))" if more
  proof -
    have s3: "suffix s3 s1" "length s3 < length s1" using peek_gettoken p g that by simp_all
    then have "suffix s3 s" "length s3 < length s"
      using s1 by (auto intro: suffix_order.trans dest!: suffix_length_le)
    then show ?thesis unfolding parsed_ok_def
      by (intro parsed_ok_bind [OF assms(2) [of s3]]) (use c in \<open>auto intro: suffix_order.trans\<close>)
  qed
  then show "ok_parse (\<lambda>(c, r). suffix r s \<and> wf_cmd (typed_word line) c)
      (case (c, s1) of (c, s1) \<Rightarrow> case peek s1 (str ''|'') of (s2, b) \<Rightarrow>
        if b then case gettoken s2 of (_, _, s3) \<Rightarrow> pbind (parsepipe n s3) (\<lambda>(d, s4). Parsed (pipecmd c d, s4))
        else Parsed (c, s2))"
    using c s2 by (simp add: p g parsed_ok_def)
qed

lemma parseblock_step:
  assumes "suffix s line" and "0 \<notin> set line" and "snd (peek s (str ''(''))"
    and "\<And>s'. suffix s' s \<Longrightarrow> length s' < length s \<Longrightarrow> parsed_ok line s' (parseline n s')"
  shows "parsed_ok line s (parseblock (Suc n) s)"
proof -
  obtain s1 where p: "peek s (str ''('') = (s1, True)" using assms(3) by (cases "peek s (str ''('')") simp
  obtain tok w s2 where g: "gettoken s1 = (tok, w, s2)" by (metis prod_cases3)
  have s2: "suffix s2 s" "length s2 < length s" using peek_gettoken [OF p g] by simp_all
  have "ok_parse (\<lambda>(c, r). suffix r s \<and> wf_cmd (typed_word line) c) (pbind (parseline n s2) (\<lambda>(c, s3).
      case peek s3 (str '')'') of (s4, b') \<Rightarrow> if \<not> b' then Panic ''syntax - missing )''
      else case gettoken s4 of (_, _, s5) \<Rightarrow>
        pbind (parseredirs [] s5) (\<lambda>(rs, s6). Parsed (foldl redircmd c rs, s6))))"
  proof (rule parsed_ok_bind [OF assms(4) [OF s2]])
    fix c s3
    assume s3: "suffix s3 s2" and c: "wf_cmd (typed_word line) c"
    obtain s4 b where p': "peek s3 (str '')'') = (s4, b)" by fastforce
    obtain tok w s5 where g': "gettoken s4 = (tok, w, s5)" by (metis prod_cases3)
    have "suffix s5 s3" using suffix_peek [OF p'] suffix_gettoken [OF g'] by (metis suffix_order.trans)
    then have s5: "suffix s5 s" using s3 s2 by (meson suffix_order.trans)
    have "ok_parse (\<lambda>(rs', r). suffix r s5 \<and> typed_redirs line rs') (parseredirs [] s5)"
      using s5 assms(1,2) by (intro parseredirs_ok) (auto simp: typed_redirs_def intro: suffix_order.trans)
    then have "ok_parse (\<lambda>(c, r). suffix r s \<and> wf_cmd (typed_word line) c)
        (pbind (parseredirs [] s5) (\<lambda>(rs, s6). Parsed (foldl redircmd c rs, s6)))"
      by (rule ok_bind) (use s5 c in \<open>auto simp: wf_redirs typed_redirs_def intro: suffix_order.trans\<close>)
    then show "ok_parse (\<lambda>(c, r). suffix r s \<and> wf_cmd (typed_word line) c) (case (c, s3) of (c, s3) \<Rightarrow>
        case peek s3 (str '')'') of (s4, b') \<Rightarrow> if \<not> b' then Panic ''syntax - missing )''
        else case gettoken s4 of (_, _, s5) \<Rightarrow>
          pbind (parseredirs [] s5) (\<lambda>(rs, s6). Parsed (foldl redircmd c rs, s6)))"
      by (simp add: p' g' syntax_errors_def)
  qed
  then show ?thesis by (simp add: p g parsed_ok_def)
qed

lemma parseexec_step:
  assumes "suffix s line" and "0 \<notin> set line"
    and "\<And>s'. suffix s' s \<Longrightarrow> snd (peek s' (str ''('')) \<Longrightarrow> parsed_ok line s' (parseblock n s')"
  shows "parsed_ok line s (parseexec (Suc n) s)"
proof (cases "snd (peek s (str ''(''))")
  case True
  then have "parsed_ok line (skip s) (parseblock n (skip s))"
    by (intro assms(3) suffix_skip) (simp add: peek_def)
  then show ?thesis using True by (simp add: peek_def parsed_ok_mono [OF _ suffix_skip])
next
  case False
  obtain s1 where p: "peek s (str ''('') = (s1, False)" using False by (cases "peek s (str ''('')") simp
  have s1: "suffix s1 s" by (rule suffix_peek [OF p])
  have "ok_parse (\<lambda>(rs', r). suffix r s1 \<and> typed_redirs line rs') (parseredirs [] s1)"
    using s1 assms(1,2) by (intro parseredirs_ok) (auto simp: typed_redirs_def intro: suffix_order.trans)
  then have "parsed_ok line s (pbind (parseredirs [] s1) (\<lambda>(rs, s2).
      pbind (parseargs [] rs s2) (\<lambda>(args, rs', s3). Parsed (foldl redircmd (EXEC args) rs', s3))))"
    unfolding parsed_ok_def
  proof (rule ok_bind)
    fix x
    assume x: "case x of (rs', r) \<Rightarrow> suffix r s1 \<and> typed_redirs line rs'"
    obtain rs s2 where [simp]: "x = (rs, s2)" by fastforce
    have s2: "suffix s2 s" using x s1 by (auto intro: suffix_order.trans)
    have "ok_parse (\<lambda>(args', rs', r). suffix r s2 \<and> typed_redirs line rs' \<and> length args' < MAXARGS \<and>
        (\<forall>w\<in>set args'. typed_word line w)) (parseargs [] rs s2)"
      using s2 assms(1,2) x by (intro parseargs_ok) (auto simp: MAXARGS_def intro: suffix_order.trans)
    then show "ok_parse (\<lambda>(c, r). suffix r s \<and> wf_cmd (typed_word line) c) (case x of (rs, s2) \<Rightarrow>
        pbind (parseargs [] rs s2) (\<lambda>(args, rs', s3). Parsed (foldl redircmd (EXEC args) rs', s3)))"
      unfolding \<open>x = (rs, s2)\<close> prod.case
      by (rule ok_bind) (use s2 in \<open>auto simp: wf_redirs typed_redirs_def intro: suffix_order.trans\<close>)
  qed
  then show ?thesis by (simp add: p)
qed

lemma parse_ok:
  assumes "0 \<notin> set line"
  shows "suffix s line \<Longrightarrow>
    (4 * length s + 4 \<le> n \<longrightarrow> parsed_ok line s (parseline n s)) \<and>
    (4 * length s + 3 \<le> n \<longrightarrow> parsed_ok line s (parsepipe n s)) \<and>
    (4 * length s + 1 \<le> n \<longrightarrow> snd (peek s (str ''('')) \<longrightarrow> parsed_ok line s (parseblock n s)) \<and>
    (4 * length s + 2 \<le> n \<longrightarrow> parsed_ok line s (parseexec n s))"
proof (induction n arbitrary: s)
  case (Suc n)
  have IH: "parsed_ok line s' (parseline n s')" "parsed_ok line s' (parsepipe n s')"
    if "4 * length s + 1 \<le> Suc n" "suffix s' s" "length s' < length s" for s'
    using Suc.IH [of s'] Suc.prems that by (auto intro: suffix_order.trans)
  have "parsed_ok line s (parseline (Suc n) s)" if "4 * length s + 4 \<le> Suc n"
    using Suc.IH [of s] Suc.prems that by (intro parseline_step IH(1)) auto
  moreover have "parsed_ok line s (parsepipe (Suc n) s)" if "4 * length s + 3 \<le> Suc n"
    using Suc.IH [of s] Suc.prems that by (intro parsepipe_step IH(2)) auto
  moreover have "parsed_ok line s (parseblock (Suc n) s)" if "4 * length s + 1 \<le> Suc n" "snd (peek s (str ''(''))"
    using Suc.prems that assms by (intro parseblock_step IH(1)) auto
  moreover have "parsed_ok line s (parseexec (Suc n) s)" if n: "4 * length s + 2 \<le> Suc n"
  proof (rule parseexec_step [OF Suc.prems assms])
    fix s'
    assume s': "suffix s' s" "snd (peek s' (str ''(''))"
    then have "4 * length s' + 1 \<le> n" "suffix s' line"
      using n Suc.prems by (auto intro: suffix_order.trans dest!: suffix_length_le)
    then show "parsed_ok line s' (parseblock n s')" using Suc.IH s' by blast
  qed
  ultimately show ?case by blast
qed simp

section \<open>The words after \<open>nulterminate\<close>\<close>

lemma list_update_map: "xs[i := v] = map (\<lambda>j. if j = i then v else xs ! j) [0..<length xs]"
  by (rule nth_equalityI) (auto simp: nth_list_update)

lemma foldl_nul:
  "foldl (\<lambda>b (q, eq). b[es - eq := 0]) buf ws = map (\<lambda>i. if i \<in> (\<lambda>w. es - snd w) ` set ws then 0 else buf ! i) [0..<length buf]"
proof (induction ws arbitrary: buf)
  case (Cons w ws)
  have "foldl (\<lambda>b (q, eq). b[es - eq := 0]) buf (w # ws) = foldl (\<lambda>b (q, eq). b[es - eq := 0]) (buf[es - snd w := 0]) ws"
    by (cases w) simp
  also have "\<dots> = map (\<lambda>i. if i \<in> (\<lambda>w. es - snd w) ` set (w # ws) then 0 else buf ! i) [0..<length buf]"
    unfolding Cons.IH unfolding list_update_map by (rule nth_equalityI) auto
  finally show ?case .
qed (simp add: map_nth)

lemma nulterminate_nth:
  "nulterminate es c buf = map (\<lambda>i. if i \<in> (\<lambda>w. es - snd w) ` set_cmd c then 0 else buf ! i) [0..<length buf]"
proof (induction c arbitrary: buf)
  case (EXEC args)
  show ?case by (simp add: foldl_nul)
next
  case (REDIR c w mode fd)
  show ?case unfolding nulterminate.simps REDIR.IH list_update_map by (rule nth_equalityI) auto
next
  case (PIPE l r)
  show ?case unfolding nulterminate.simps PIPE.IH by (rule nth_equalityI) auto
next
  case (LIST l r)
  show ?case unfolding nulterminate.simps LIST.IH by (rule nth_equalityI) auto
qed simp

lemma nulterminate_length [simp]: "length (nulterminate es c buf) = length buf"
  by (simp add: nulterminate_nth)

lemma nulterminate_at:
  "i < length buf \<Longrightarrow> nulterminate es c buf ! i = (if i \<in> (\<lambda>w. es - snd w) ` set_cmd c then 0 else buf ! i)"
  by (simp add: nulterminate_nth)

lemma cstr_take:
  assumes "n < length s" and "s ! n = 0" and "\<And>i. i < n \<Longrightarrow> s ! i \<noteq> 0"
  shows "cstr s = take n s"
  unfolding cstr_def using assms by (intro takeWhile_eq_take_P_nth) auto

lemma string_at_word:
  assumes line: "buf = line @ 0 # junk" and c: "wf_cmd (typed_word line) c" and w: "w \<in> set_cmd c"
  shows "string_at (length line) (nulterminate (length line) c buf) w = word_at line w"
proof -
  let ?es = "length line" and ?b = "nulterminate (length line) c buf"
  have tw: "typed_word line w" using c w by (rule wf_cmd_words)
  define q eq where "q = fst w" and "eq = snd w"
  have eq: "eq < q" "q \<le> ?es" using tw by (simp_all add: typed_word_def q_def eq_def)
  have word: "word_at line w = take (q - eq) (drop (?es - q) line)" by (simp add: word_at_def q_def eq_def)
  have chars: "line ! (?es - q + i) \<noteq> 0 \<and> wordchar (line ! (?es - q + i))" if "i < q - eq" for i
  proof -
    have "word_at line w ! i = line ! (?es - q + i)" "i < length (word_at line w)"
      using that eq by (simp_all add: word)
    then show ?thesis using tw unfolding typed_word_def is_word_def by (metis nth_mem)
  qed
  have keep: "?b ! (?es - q + i) = line ! (?es - q + i)" if "i < q - eq" for i
  proof -
    have "?es - q + i \<noteq> ?es - snd w'" if w': "w' \<in> set_cmd c" for w'
    proof
      assume at: "?es - q + i = ?es - snd w'"
      then have "snd w' \<noteq> 0" using \<open>i < q - eq\<close> eq by simp
      then have "\<not> wordchar (line ! (?es - q + i))"
        using wf_cmd_words [OF c w'] at by (simp add: typed_word_def)
      then show False using chars [OF \<open>i < q - eq\<close>] by simp
    qed
    then have "?es - q + i \<notin> (\<lambda>w. ?es - snd w) ` set_cmd c" by auto
    moreover have "?es - q + i < ?es" using that eq by simp
    ultimately show ?thesis by (simp add: nulterminate_at line nth_append)
  qed
  have "?b ! (?es - q + (q - eq)) = 0"
    using w eq by (simp add: nulterminate_at line eq_def)
  then have "cstr (drop (?es - q) ?b) = take (q - eq) (drop (?es - q) ?b)"
    using eq chars keep by (intro cstr_take) (simp_all add: line)
  also have "\<dots> = take (q - eq) (drop (?es - q) line)"
    using eq keep by (intro nth_equalityI) (simp_all add: line)
  finally show ?thesis by (simp add: string_at_def q_def word)
qed

text \<open>C39. The parser of the shell returns for every line, with a well-formed command whose words are strings of the line.
  Whatever the buffer holds before its NUL, \<open>parsecmd\<close> ends in a command, in one of the shell's four
  syntax errors, or in the report of what is left of the line. A command it makes has at most nine arguments at each
  node, one of the three kinds of redirection at each redirection, and every word is a maximal
  run of characters of the line that are neither blank nor symbols. After \<open>nulterminate\<close> has
  stored its NULs in the line, the string at the pointer to each word, which is what \<open>runcmd\<close> passes to
  \<open>exec\<close> and \<open>open\<close>, is that word: no NUL has cut another word short.\<close>

theorem parsecmd_typed:
  assumes "0 \<in> set buf"
  shows "case parsecmd buf of
      Parsed (c, buf') \<Rightarrow> wf_cmd (typed_word (cstr buf)) c \<and>
        map_cmd (string_at (length (cstr buf)) buf') c = map_cmd (word_at (cstr buf)) c \<and>
        wf_cmd is_word (map_cmd (string_at (length (cstr buf)) buf') c)
    | Panic m \<Rightarrow> m \<in> set syntax_errors
    | Leftovers s \<Rightarrow> s \<noteq> [] \<and> suffix s (cstr buf)
    | Deep \<Rightarrow> False"
proof -
  define line where "line = cstr buf"
  obtain junk where buf: "buf = line @ 0 # junk"
    using cstr_split [OF assms] unfolding line_def by blast
  have "parsed_ok line line (parseline (4 * length line + 4) line)"
    using parse_ok [of line line "4 * length line + 4"] by (simp add: line_def)
  then consider (ok) c r where "parseline (4 * length line + 4) line = Parsed (c, r)" "suffix r line" "wf_cmd (typed_word line) c"
    | (err) m where "parseline (4 * length line + 4) line = Panic m" "m \<in> set syntax_errors"
    by (auto simp: parsed_ok_def ok_parse_def split: parsed.splits)
  then show ?thesis
  proof cases
    case ok
    define b' where "b' = nulterminate (length line) c buf"
    have "map_cmd (string_at (length line) b') c = map_cmd (word_at line) c"
      unfolding b'_def by (rule cmd.map_cong0) (rule string_at_word [OF buf ok(3)])
    moreover have "wf_cmd is_word (map_cmd (word_at line) c)"
      unfolding wf_cmd_map using ok(3) by (rule wf_cmd_mono) (simp add: typed_word_def)
    moreover have "suffix (skip r) line" using suffix_skip ok(2) by (rule suffix_order.trans)
    ultimately show ?thesis using ok by (simp add: parsecmd_def peek_def line_def [symmetric] b'_def)
  next
    case err
    then show ?thesis by (simp add: parsecmd_def line_def [symmetric])
  qed
qed

theorem parsecmd_typed_witness:
  "\<exists>c buf'. parsecmd [97, 32, 62, 98, 10, 0] = Parsed (c, buf') \<and>
     map_cmd (string_at (length (cstr [97, 32, 62, 98, 10, 0])) buf') c = REDIR (EXEC [[97]]) [98] 0x601 1"
proof -
  have p: "parsecmd [97, 32, 62, 98, 10, 0] = Parsed (REDIR (EXEC [(5, 4)]) (2, 1) 0x601 1, [97, 0, 62, 98, 0, 0])"
    by code_simp
  have "0 \<in> set [97, 32, 62, 98, 10, 0 :: u8]" by simp
  from parsecmd_typed [OF this] have
    "map_cmd (string_at (length (cstr [97, 32, 62, 98, 10, 0])) [97, 0, 62, 98, 0, 0]) (REDIR (EXEC [(5, 4)]) (2, 1) 0x601 1) =
      map_cmd (word_at (cstr [97, 32, 62, 98, 10, 0])) (REDIR (EXEC [(5, 4)]) (2, 1) 0x601 1)"
    unfolding p parsed.case prod.case by (elim conjE)
  also have "\<dots> = REDIR (EXEC [[97]]) [98] 0x601 1" by code_simp
  finally show ?thesis using p by blast
qed

end
