(* ===== verification/ShellShow.thy ===== *)
theory ShellShow
  imports ShellParse
begin

text \<open>
  Commands of the shell written out as lines, and the proof that the parser reads them back.
\<close>

section \<open>Commands written out\<close>

primrec simple :: "'w cmd \<Rightarrow> bool" where
  "simple (EXEC args) = True"
| "simple (REDIR c w mode fd) = True"
| "simple (PIPE l r) = False"
| "simple (LIST l r) = False"
| "simple (BACK c) = False"

text \<open>Symbols are numbers here: 38 is an ampersand, 40 and 41 the parentheses, 59 a semicolon, 60 and 62 the angle
  brackets, 124 a bar, and 32 a blank.\<close>

definition paren :: "'w cmd \<Rightarrow> u8 list \<Rightarrow> u8 list" where
  "paren c s = (if simple c then s else 40 # s @ [41])"

definition show_words :: "u8 list list \<Rightarrow> u8 list" where
  "show_words ws = concat (map (\<lambda>w. w @ [32]) ws)"

definition show_op :: "int \<times> int \<Rightarrow> u8 list" where
  "show_op m = (if fst m = 0 then [60] else if fst m = 0x601 then [62] else [62, 62])"

definition show_redirs :: "u8 list redir list \<Rightarrow> u8 list" where
  "show_redirs rs = concat (map (\<lambda>(w, m). show_op m @ w @ [32]) rs)"

primrec show_cmd :: "u8 list cmd \<Rightarrow> u8 list" where
  "show_cmd (EXEC args) = show_words args"
| "show_cmd (REDIR c w mode fd) = paren c (show_cmd c) @ show_redirs [(w, mode, fd)]"
| "show_cmd (PIPE l r) = paren l (show_cmd l) @ 124 # paren r (show_cmd r)"
| "show_cmd (LIST l r) = paren l (show_cmd l) @ 59 # paren r (show_cmd r)"
| "show_cmd (BACK c) = paren c (show_cmd c) @ [38]"

text \<open>Texts that do not begin with a blank, that do not go on with a redirection, and that end a simple command.\<close>

definition tight :: "u8 list \<Rightarrow> bool" where "tight s \<longleftrightarrow> (s \<noteq> [] \<longrightarrow> hd s \<notin> set whitespace)"
definition stops :: "u8 list \<Rightarrow> bool" where "stops s \<longleftrightarrow> tight s \<and> (s \<noteq> [] \<longrightarrow> hd s \<noteq> 60 \<and> hd s \<noteq> 62)"
definition ends :: "u8 list \<Rightarrow> bool" where "ends s \<longleftrightarrow> s = [] \<or> hd s \<in> {124, 41, 38, 59}"

lemma skip_tight [simp]: "tight s \<Longrightarrow> skip s = s"
  by (cases s) (simp_all add: tight_def skip_def)

lemma skip_blank [simp]: "skip (32 # s) = skip s"
  by (simp add: skip_def whitespace_def)

lemma ends_stops: "ends s \<Longrightarrow> stops s"
  by (auto simp: ends_def stops_def tight_def whitespace_def)

lemma stops_tight: "stops s \<Longrightarrow> tight s"
  by (simp add: stops_def)

lemma wordchar_not: "wordchar c \<Longrightarrow> c \<notin> {60, 124, 62, 38, 59, 40, 41} \<and> c \<notin> set whitespace"
  by (simp add: wordchar_def symbols_def str_def)

lemma is_word_Cons: "is_word w \<Longrightarrow> \<exists>c v. w = c # v \<and> wordchar c \<and> c \<noteq> 0"
  by (cases w) (auto simp: is_word_def)

lemma word_stops: "is_word w \<Longrightarrow> stops (w @ s)"
  by (auto simp: stops_def tight_def dest!: is_word_Cons wordchar_not)

lemma words_stop: "\<forall>w\<in>set ws. is_word w \<Longrightarrow> stops s \<Longrightarrow> stops (show_words ws @ s)"
  by (cases ws) (simp_all add: show_words_def word_stops)

lemma show_op_Cons: "\<exists>c t. show_op m = c # t \<and> (c = 60 \<or> c = 62)"
  by (simp add: show_op_def)

lemma redirs_tight:
  assumes "tight s"
  shows "tight (show_redirs rs @ s)"
proof (cases rs)
  case (Cons r rs')
  obtain w m where "r = (w, m)" by (cases r) blast
  then show ?thesis using show_op_Cons [of m] Cons by (auto simp: show_redirs_def tight_def whitespace_def)
qed (simp add: show_redirs_def assms)

lemma words_tight: "\<forall>w\<in>set ws. is_word w \<Longrightarrow> tight s \<Longrightarrow> tight (show_words ws @ s)"
  by (cases ws) (simp_all add: show_words_def word_stops stops_tight)

lemma gettoken_word:
  assumes "is_word w" and "tight s"
  shows "gettoken (w @ 32 # s) = (97, (length w + Suc (length s), Suc (length s)), s)"
proof -
  obtain c v where w: "w = c # v" "wordchar c" "c \<noteq> 0" using is_word_Cons [OF assms(1)] by blast
  have "skip (w @ 32 # s) = w @ 32 # s" using word_stops [OF assms(1)] by (simp add: stops_tight)
  moreover have "dropWhile wordchar (w @ 32 # s) = 32 # s"
    using assms(1) by (subst dropWhile_append2) (auto simp: is_word_def wordchar_def whitespace_def)
  ultimately show ?thesis
    using w wordchar_not [OF w(2)] assms(2) by (simp add: gettoken_def str_def)
qed

lemma word_at_suffix:
  assumes "suffix (w @ s) line"
  shows "word_at line (length w + length s, length s) = w"
  using assms by (auto simp: suffix_def word_at_def)

lemma gettoken_op:
  assumes "m \<in> set redir_modes" and "is_word w"
  shows "\<exists>tok p. gettoken (show_op m @ w @ s) = (tok, p, w @ s) \<and> (\<forall>v :: ptrs. redir_of tok v = (v, m))"
    and "snd (peek (show_op m @ w @ s) (str ''<>''))"
proof -
  have skips: "skip (60 # t) = 60 # t" "skip (62 # t) = 62 # t" for t
    by (simp_all add: skip_def whitespace_def)
  obtain c v where w: "w = c # v" "wordchar c" "c \<noteq> 0" using is_word_Cons [OF assms(2)] by blast
  have "tight (w @ s)" by (simp add: word_stops assms(2) stops_tight)
  then show "\<exists>tok p. gettoken (show_op m @ w @ s) = (tok, p, w @ s) \<and> (\<forall>v :: ptrs. redir_of tok v = (v, m))"
    using assms(1) w wordchar_not [OF w(2)]
    by (auto simp: redir_modes_def show_op_def gettoken_def skips str_def redir_of_def
        O_RDONLY_def O_WRONLY_def O_CREATE_def O_TRUNC_def)
  show "snd (peek (show_op m @ w @ s) (str ''<>''))"
    using assms(1) by (auto simp: redir_modes_def show_op_def peek_def skips str_def)
qed

section \<open>Commands read back\<close>

definition good_redirs :: "u8 list redir list \<Rightarrow> bool" where
  "good_redirs rs \<longleftrightarrow> (\<forall>(w, m)\<in>set rs. is_word w \<and> m \<in> set redir_modes)"

lemma show_redirs_simps [simp]: "show_redirs [] = []" "show_redirs ((w, m) # rs) = show_op m @ w @ 32 # show_redirs rs"
  by (simp_all add: show_redirs_def)

lemma show_words_simps [simp]: "show_words [] = []" "show_words (w # ws) = w @ 32 # show_words ws"
  by (simp_all add: show_words_def)

lemma parseredirs_stop: "stops k \<Longrightarrow> parseredirs rs k = Parsed (rs, k)"
  by (subst parseredirs.simps) (auto simp: peek_def stops_tight char_at_def str_def stops_def hd_conv_nth)

lemma parseredirs_show:
  assumes "stops k"
  shows "good_redirs rs \<Longrightarrow> suffix (show_redirs rs @ k) line \<Longrightarrow>
    \<exists>rs'. parseredirs rs0 (show_redirs rs @ k) = Parsed (rs0 @ rs', k) \<and> map (apfst (word_at line)) rs' = rs"
proof (induction rs arbitrary: rs0)
  case Nil
  then show ?case by (simp add: parseredirs_stop assms)
next
  case (Cons r rs)
  obtain w m where r: "r = (w, m)" by (cases r) blast
  have w: "is_word w" "m \<in> set redir_modes" "good_redirs rs" using Cons.prems(1) by (auto simp: good_redirs_def r)
  define s where "s = show_redirs rs @ k"
  have eq: "show_redirs (r # rs) @ k = show_op m @ w @ 32 # s" by (simp add: r s_def)
  obtain tok p where g: "gettoken (show_op m @ w @ 32 # s) = (tok, p, w @ 32 # s)" "\<forall>v :: ptrs. redir_of tok v = (v, m)"
    using gettoken_op(1) [OF w(2,1), of "32 # s"] by blast
  define q where "q = (length w + Suc (length s), Suc (length s))"
  have "tight s" using assms by (simp add: s_def redirs_tight stops_tight)
  then have gw: "gettoken (w @ 32 # s) = (97, q, s)" using gettoken_word [OF w(1)] by (simp add: q_def)
  have "tight (show_op m @ w @ 32 # s)" using show_op_Cons [of m] by (auto simp: tight_def whitespace_def)
  then have pk: "peek (show_op m @ w @ 32 # s) (str ''<>'') = (show_op m @ w @ 32 # s, True)"
    using gettoken_op(2) [OF w(2,1), of "32 # s"] by (simp add: peek_def)
  have suf: "suffix (w @ 32 # s) line" "suffix s line"
    using Cons.prems(2) unfolding eq by (blast dest: suffix_appendD suffix_ConsD)+
  then have "word_at line q = w" using word_at_suffix [of w "32 # s" line] by (simp add: q_def)
  moreover obtain rs' where "parseredirs (rs0 @ [(q, m)]) s = Parsed ((rs0 @ [(q, m)]) @ rs', k)" "map (apfst (word_at line)) rs' = rs"
    using Cons.IH [OF w(3), of "rs0 @ [(q, m)]"] suf(2) unfolding s_def by blast
  moreover have "parseredirs rs0 (show_op m @ w @ 32 # s) = parseredirs (rs0 @ [(q, m)]) s"
    using g(1) spec [OF g(2), of q] gw by (subst parseredirs.simps) (simp add: pk)
  ultimately show ?case unfolding eq by (intro exI [of _ "(q, m) # rs'"]) (simp add: r)
qed

lemma parseargs_end:
  assumes "ends k"
  shows "parseargs args rs k = Parsed (args, rs, k)"
proof (cases k)
  case Nil
  then show ?thesis by (subst parseargs.simps) (simp add: peek_def gettoken_def skip_def)
next
  case (Cons c t)
  then have "c = 124 \<or> c = 41 \<or> c = 38 \<or> c = 59" "tight k"
    using assms ends_stops [OF assms] by (auto simp: ends_def stops_tight)
  then have "peek k (str ''|)&;'') = (k, True)" using Cons by (auto simp: peek_def str_def)
  then show ?thesis by (subst parseargs.simps) simp
qed

lemma parseargs_show:
  assumes "ends k" and "good_redirs rs"
  shows "ws \<noteq> [] \<Longrightarrow> \<forall>w\<in>set ws. is_word w \<Longrightarrow> length args + length ws < MAXARGS \<Longrightarrow>
    suffix (show_words ws @ show_redirs rs @ k) line \<Longrightarrow>
    \<exists>args' rs'. parseargs args [] (show_words ws @ show_redirs rs @ k) = Parsed (args @ args', rs', k) \<and>
      map (word_at line) args' = ws \<and> map (apfst (word_at line)) rs' = rs"
proof (induction ws arbitrary: args)
  case (Cons w ws)
  have w: "is_word w" using Cons.prems(2) by simp
  define s where "s = show_words ws @ show_redirs rs @ k"
  define q where "q = (length w + Suc (length s), Suc (length s))"
  have eq: "show_words (w # ws) @ show_redirs rs @ k = w @ 32 # s" by (simp add: s_def)
  have "tight s" unfolding s_def
    using Cons.prems(2) assms ends_stops by (intro words_tight redirs_tight) (simp_all add: stops_tight)
  then have gw: "gettoken (w @ 32 # s) = (97, q, s)" using gettoken_word [OF w] by (simp add: q_def)
  have pk: "peek (w @ 32 # s) (str ''|)&;'') = (w @ 32 # s, False)"
    using is_word_Cons [OF w] word_stops [OF w, of "32 # s"] wordchar_not
    by (auto simp: peek_def stops_tight str_def)
  have suf: "suffix s line" using Cons.prems(4) unfolding eq by (blast dest: suffix_appendD suffix_ConsD)
  have q: "word_at line q = w" using word_at_suffix [of w "32 # s" line] Cons.prems(4) unfolding eq by (simp add: q_def)
  have len: "\<not> MAXARGS \<le> length args + 1" using Cons.prems(3) by simp
  show ?case
  proof (cases "ws = []")
    case True
    then obtain rs' where rs': "parseredirs [] s = Parsed (rs', k)" "map (apfst (word_at line)) rs' = rs"
      using parseredirs_show [OF ends_stops [OF assms(1)] assms(2), of line "[]"] suf by (auto simp: s_def)
    have "parseargs args [] (w @ 32 # s) = Parsed (args @ [q], rs', k)"
      using len by (subst parseargs.simps) (simp add: pk gw rs' parseargs_end assms(1))
    then show ?thesis unfolding eq using rs' q True by auto
  next
    case False
    then have "stops s" using Cons.prems(2) unfolding s_def by (cases ws) (simp_all add: word_stops)
    then have "parseargs args [] (w @ 32 # s) = parseargs (args @ [q]) [] s"
      using len by (subst parseargs.simps) (simp add: pk gw parseredirs_stop)
    moreover obtain args' rs' where "parseargs (args @ [q]) [] s = Parsed ((args @ [q]) @ args', rs', k)"
        "map (word_at line) args' = ws" "map (apfst (word_at line)) rs' = rs"
      using Cons.IH [of "args @ [q]"] False Cons.prems(2,3) suf unfolding s_def by auto
    ultimately show ?thesis unfolding eq using q by (intro exI [of _ "q # args'"] exI [of _ rs']) simp
  qed
qed simp

lemma map_redircmds: "map_cmd f (foldl redircmd c rs) = foldl redircmd (map_cmd f c) (map (apfst f) rs)"
  by (induction rs arbitrary: c) (auto simp: redircmd_def split: prod.splits)

definition reads_back :: "u8 list \<Rightarrow> (ptrs cmd \<times> u8 list) parsed \<Rightarrow> u8 list cmd \<Rightarrow> u8 list \<Rightarrow> bool" where
  "reads_back line p c k \<longleftrightarrow> (\<exists>c'. p = Parsed (c', k) \<and> map_cmd (word_at line) c' = c)"

lemma parseexec_simple:
  assumes "ends k" and "good_redirs rs" and "\<forall>w\<in>set ws. is_word w" and "length ws < MAXARGS"
    and "suffix (show_words ws @ show_redirs rs @ k) line"
  shows "reads_back line (parseexec (Suc n) (show_words ws @ show_redirs rs @ k)) (foldl redircmd (EXEC ws) rs) k"
proof -
  define s where "s = show_words ws @ show_redirs rs @ k"
  have k: "stops k" using assms(1) by (rule ends_stops)
  have t: "tight s" unfolding s_def using assms(3) k by (intro words_tight redirs_tight) (simp_all add: stops_tight)
  have "char_at s 0 \<noteq> 40"
  proof (cases ws)
    case (Cons w ws')
    then show ?thesis using assms(3) is_word_Cons [of w] by (auto simp: s_def dest: wordchar_not)
  next
    case Nil
    then show ?thesis
    proof (cases rs)
      case (Cons r rs')
      then obtain w m where "r = (w, m)" by (cases r) blast
      then show ?thesis using show_op_Cons [of m] Cons Nil by (auto simp: s_def)
    qed (use Nil assms(1) in \<open>auto simp: s_def ends_def char_at_def hd_conv_nth\<close>)
  qed
  then have p: "peek s (str ''('') = (s, False)" using t by (simp add: peek_def str_def)
  show ?thesis
  proof (cases "ws = []")
    case True
    obtain rs' where "parseredirs [] s = Parsed (rs', k)" "map (apfst (word_at line)) rs' = rs"
      using parseredirs_show [OF k assms(2), of line "[]"] assms(5) True by (auto simp: s_def)
    then show ?thesis unfolding s_def [symmetric] reads_back_def
      using True p by (simp add: parseargs_end assms(1) map_redircmds)
  next
    case False
    then have "stops s" using assms(3) by (cases ws) (simp_all add: s_def word_stops)
    moreover obtain args' rs' where "parseargs [] [] s = Parsed (args', rs', k)"
        "map (word_at line) args' = ws" "map (apfst (word_at line)) rs' = rs"
      using parseargs_show [OF assms(1,2) False assms(3), of "[]" line] assms(4,5) by (auto simp: s_def)
    ultimately show ?thesis using p by (simp add: reads_back_def s_def [symmetric] parseredirs_stop map_redircmds)
  qed
qed

lemma peek_ends:
  assumes "k = [] \<or> hd k \<notin> set toks" and "tight k" and "0 \<notin> set toks"
  shows "peek k toks = (k, False)"
  using assms by (auto simp: peek_def char_at_def hd_conv_nth)

lemma peek_symbol:
  assumes "c \<in> set toks" and "c \<notin> set whitespace" and "c \<noteq> 0"
  shows "peek (c # s) toks = (c # s, True)"
  using assms by (simp add: peek_def tight_def)

lemma gettoken_symbol:
  assumes "c \<in> {124, 40, 41, 59, 38}" and "tight s"
  shows "\<exists>p. gettoken (c # s) = (c, p, s)"
proof -
  have "tight (c # s)" using assms(1) by (auto simp: tight_def whitespace_def)
  then show ?thesis using assms by (auto simp: gettoken_def str_def)
qed

lemma str_symbols: "str ''|'' = [124]" "str ''&'' = [38]" "str '';'' = [59]" "str ''('' = [40]" "str '')'' = [41]"
  by (simp_all add: str_def)

lemma tight_symbol: "c \<in> {124, 40, 41, 59, 38} \<Longrightarrow> tight (c # s)"
  by (auto simp: tight_def whitespace_def)

text \<open>A text that is closed: at its end, or before a closing parenthesis.\<close>

definition closed :: "u8 list \<Rightarrow> bool" where "closed k \<longleftrightarrow> k = [] \<or> hd k = 41"

lemma closed_ends: "closed k \<Longrightarrow> ends k"
  by (auto simp: closed_def ends_def)

lemma closed_peek:
  assumes "closed k"
  shows "peek k (str ''|'') = (k, False)" "peek k (str ''&'') = (k, False)" "peek k (str '';'') = (k, False)"
proof -
  have "tight k" using closed_ends [OF assms] ends_stops stops_tight by blast
  then show "peek k (str ''|'') = (k, False)" "peek k (str ''&'') = (k, False)" "peek k (str '';'') = (k, False)"
    using assms by (auto intro!: peek_ends simp: closed_def str_symbols)
qed

lemma parsepipe_of_exec:
  assumes "reads_back line (parseexec n s) c k" and "k = [] \<or> hd k \<noteq> 124" and "tight k"
  shows "reads_back line (parsepipe (Suc n) s) c k"
proof -
  have "peek k (str ''|'') = (k, False)" using assms by (intro peek_ends) (auto simp: str_symbols)
  then show ?thesis using assms(1) by (auto simp: reads_back_def)
qed

lemma parseline_of_pipe:
  assumes "reads_back line (parsepipe n s) c k" and "closed k"
  shows "reads_back line (parseline (Suc n) s) c k"
  using assms by (auto simp: reads_back_def closed_peek parseback.simps [of _ k])

lemma parseline_of_exec:
  assumes "reads_back line (parseexec n s) c k" and "closed k"
  shows "reads_back line (parseline (Suc (Suc n)) s) c k"
  using assms closed_ends [OF assms(2)] ends_stops stops_tight
  by (intro parseline_of_pipe parsepipe_of_exec) (auto simp: closed_def)

lemma parseblock_back:
  assumes "reads_back line (parseline n (s @ 41 # show_redirs rs @ k)) c (41 # show_redirs rs @ k)"
    and "tight (s @ 41 # show_redirs rs @ k)" and "good_redirs rs" and "ends k"
    and "suffix (show_redirs rs @ k) line"
  shows "reads_back line (parseexec (Suc (Suc n)) (40 # s @ 41 # show_redirs rs @ k)) (foldl redircmd c rs) k"
proof -
  define t where "t = show_redirs rs @ k"
  have k: "stops k" using assms(4) by (rule ends_stops)
  then have tt: "tight t" by (simp add: t_def redirs_tight stops_tight)
  have p: "peek (40 # s @ 41 # t) (str ''('') = (40 # s @ 41 # t, True)"
    by (rule peek_symbol) (simp_all add: str_symbols whitespace_def)
  obtain p1 where g: "gettoken (40 # s @ 41 # t) = (40, p1, s @ 41 # t)"
    using gettoken_symbol [of 40 "s @ 41 # t"] assms(2) by (auto simp: t_def)
  have p': "peek (41 # t) (str '')'') = (41 # t, True)"
    by (rule peek_symbol) (simp_all add: str_symbols whitespace_def)
  obtain p2 where g': "gettoken (41 # t) = (41, p2, t)" using gettoken_symbol [of 41 t] tt by auto
  obtain rs' where rs': "parseredirs [] t = Parsed (rs', k)" "map (apfst (word_at line)) rs' = rs"
    using parseredirs_show [OF k assms(3,5), of "[]"] by (auto simp: t_def)
  obtain c' where c': "parseline n (s @ 41 # t) = Parsed (c', 41 # t)" "map_cmd (word_at line) c' = c"
    using assms(1) by (auto simp: reads_back_def t_def)
  have "parseexec (Suc (Suc n)) (40 # s @ 41 # t) = Parsed (foldl redircmd c' rs', k)"
    by (simp add: p g p' g' rs' c')
  then show ?thesis unfolding t_def [symmetric] reads_back_def
    by (intro exI [of _ "foldl redircmd c' rs'"]) (simp add: map_redircmds rs' c')
qed

lemma tight_paren: "wf_cmd is_word c \<Longrightarrow> tight s \<Longrightarrow> tight (paren c (show_cmd c) @ s)"
proof (induction c arbitrary: s)
  case (EXEC args)
  then show ?case by (simp add: paren_def words_tight)
next
  case (REDIR c w mode fd)
  have "tight (show_redirs [(w, mode, fd)] @ s)" using REDIR.prems(2) by (rule redirs_tight)
  then have "tight (paren c (show_cmd c) @ show_redirs [(w, mode, fd)] @ s)" using REDIR.prems(1) by (intro REDIR.IH) simp
  then show ?case unfolding paren_def [of "REDIR c w mode fd"] by (simp only: simple.simps if_True show_cmd.simps append_assoc)
qed (simp_all add: paren_def tight_symbol)

lemma tight_show: "wf_cmd is_word c \<Longrightarrow> tight s \<Longrightarrow> tight (show_cmd c @ s)"
proof (cases c)
  case (EXEC args)
  then show "wf_cmd is_word c \<Longrightarrow> tight s \<Longrightarrow> tight (show_cmd c @ s)" using tight_paren [of c s] by (simp add: paren_def)
next
  case (REDIR d w mode fd)
  then show "wf_cmd is_word c \<Longrightarrow> tight s \<Longrightarrow> tight (show_cmd c @ s)" using tight_paren [of c s] by (simp add: paren_def)
qed (auto intro!: tight_paren tight_symbol)

text \<open>A command in its parentheses, with redirections after it, is read back by \<open>parseexec\<close>.\<close>

definition exec_back :: "u8 list \<Rightarrow> u8 list cmd \<Rightarrow> bool" where
  "exec_back line c \<longleftrightarrow> (\<forall>n k rs. ends k \<and> good_redirs rs \<and> suffix (paren c (show_cmd c) @ show_redirs rs @ k) line \<and>
     4 * length (paren c (show_cmd c)) + 2 \<le> n \<longrightarrow>
     reads_back line (parseexec n (paren c (show_cmd c) @ show_redirs rs @ k)) (foldl redircmd c rs) k)"

lemma exec_backD:
  assumes "exec_back line c" and "ends k" and "suffix (paren c (show_cmd c) @ k) line"
    and "4 * length (paren c (show_cmd c)) + 2 \<le> n"
  shows "reads_back line (parseexec n (paren c (show_cmd c) @ k)) c k"
proof -
  have "good_redirs []" by (simp add: good_redirs_def)
  with assms have "reads_back line (parseexec n (paren c (show_cmd c) @ show_redirs [] @ k)) (foldl redircmd c []) k"
    unfolding exec_back_def by (metis append_Nil show_redirs_simps(1))
  then show ?thesis by simp
qed

lemma pipe_back:
  assumes l: "exec_back line l" and r: "exec_back line r" and wf: "wf_cmd is_word r" and k: "closed k"
    and suf: "suffix (show_cmd (PIPE l r) @ k) line" and n: "4 * length (show_cmd (PIPE l r)) + 4 \<le> n"
  shows "reads_back line (parseline n (show_cmd (PIPE l r) @ k)) (PIPE l r) k"
proof -
  define s where "s = paren r (show_cmd r) @ k"
  have eq: "show_cmd (PIPE l r) @ k = paren l (show_cmd l) @ 124 # s" by (simp add: s_def)
  obtain m where m: "n = Suc (Suc (Suc m))" "4 * length (paren l (show_cmd l)) + 2 \<le> Suc m" "4 * length (paren r (show_cmd r)) + 2 \<le> m"
    using n by (cases n rule: nat.exhaust; cases "n - 1"; cases "n - 2") auto
  have ts: "tight s" unfolding s_def
    using wf k closed_ends ends_stops stops_tight by (blast intro: tight_paren)
  obtain l' where l': "parseexec (Suc m) (paren l (show_cmd l) @ 124 # s) = Parsed (l', 124 # s)" "map_cmd (word_at line) l' = l"
    using exec_backD [OF l, of "124 # s" "Suc m"] suf m(2) unfolding eq by (auto simp: reads_back_def ends_def)
  obtain p where g: "gettoken (124 # s) = (124, p, s)" using gettoken_symbol [of 124 s] ts by auto
  have pk: "peek (124 # s) (str ''|'') = (124 # s, True)" by (rule peek_symbol) (simp_all add: str_symbols whitespace_def)
  have sr: "suffix s line" using suf unfolding eq by (blast dest: suffix_appendD suffix_ConsD)
  have "reads_back line (parseexec m s) r k"
    using exec_backD [OF r closed_ends [OF k]] sr m(3) unfolding s_def by blast
  then have "reads_back line (parsepipe (Suc m) s) r k"
    using k closed_ends [OF k] ends_stops stops_tight by (intro parsepipe_of_exec) (auto simp: closed_def)
  then obtain r' where "parsepipe (Suc m) s = Parsed (r', k)" "map_cmd (word_at line) r' = r"
    by (auto simp: reads_back_def)
  then have "reads_back line (parsepipe (Suc (Suc m)) (show_cmd (PIPE l r) @ k)) (PIPE l r) k"
    unfolding eq using l' pk g by (auto simp: reads_back_def simp del: parseexec.simps)
  then show ?thesis unfolding m(1) by (rule parseline_of_pipe [OF _ k])
qed

lemma list_back:
  assumes l: "exec_back line l" and r: "exec_back line r" and wf: "wf_cmd is_word r" and k: "closed k"
    and suf: "suffix (show_cmd (LIST l r) @ k) line" and n: "4 * length (show_cmd (LIST l r)) + 4 \<le> n"
  shows "reads_back line (parseline n (show_cmd (LIST l r) @ k)) (LIST l r) k"
proof -
  define s where "s = paren r (show_cmd r) @ k"
  have eq: "show_cmd (LIST l r) @ k = paren l (show_cmd l) @ 59 # s" by (simp add: s_def)
  obtain m where m: "n = Suc (Suc (Suc m))" "4 * length (paren l (show_cmd l)) + 2 \<le> Suc m" "4 * length (paren r (show_cmd r)) + 2 \<le> m"
    using n by (cases n rule: nat.exhaust; cases "n - 1"; cases "n - 2") auto
  have ts: "tight s" unfolding s_def
    using wf k closed_ends ends_stops stops_tight by (blast intro: tight_paren)
  have "reads_back line (parseexec (Suc m) (paren l (show_cmd l) @ 59 # s)) l (59 # s)"
    using exec_backD [OF l, of "59 # s" "Suc m"] suf m(2) unfolding eq by (auto simp: ends_def)
  then have "reads_back line (parsepipe (Suc (Suc m)) (paren l (show_cmd l) @ 59 # s)) l (59 # s)"
    by (intro parsepipe_of_exec tight_symbol) simp_all
  then obtain l' where l': "parsepipe (Suc (Suc m)) (paren l (show_cmd l) @ 59 # s) = Parsed (l', 59 # s)" "map_cmd (word_at line) l' = l"
    by (auto simp: reads_back_def simp del: parsepipe.simps)
  obtain p where g: "gettoken (59 # s) = (59, p, s)" using gettoken_symbol [of 59 s] ts by auto
  have pk: "peek (59 # s) (str '';'') = (59 # s, True)" by (rule peek_symbol) (simp_all add: str_symbols whitespace_def)
  have "peek (59 # s) (str ''&'') = (59 # s, False)" by (rule peek_ends) (simp_all add: str_symbols tight_symbol)
  then have nb: "parseback l' (59 # s) = (l', 59 # s)" by (subst parseback.simps) simp
  have "suffix s line" using suf unfolding eq by (blast dest: suffix_appendD suffix_ConsD)
  then have "reads_back line (parseexec m s) r k"
    using exec_backD [OF r closed_ends [OF k]] m(3) unfolding s_def by blast
  then obtain r' where "parseline (Suc (Suc m)) s = Parsed (r', k)" "map_cmd (word_at line) r' = r"
    using parseline_of_exec [OF _ k] by (metis reads_back_def)
  then have "parseline (Suc (Suc (Suc m))) (paren l (show_cmd l) @ 59 # s) = Parsed (LIST l' r', k)"
    by (subst parseline.simps) (simp add: l' nb pk g del: parseline.simps parsepipe.simps)
  then show ?thesis unfolding m(1) eq reads_back_def using l' \<open>map_cmd (word_at line) r' = r\<close> by simp
qed

lemma bg_back:
  assumes c: "exec_back line c" and k: "closed k"
    and suf: "suffix (show_cmd (BACK c) @ k) line" and n: "4 * length (show_cmd (BACK c)) + 4 \<le> n"
  shows "reads_back line (parseline n (show_cmd (BACK c) @ k)) (BACK c) k"
proof -
  have eq: "show_cmd (BACK c) @ k = paren c (show_cmd c) @ 38 # k" by simp
  obtain m where m: "n = Suc (Suc m)" "4 * length (paren c (show_cmd c)) + 2 \<le> m"
    using n by (cases n rule: nat.exhaust; cases "n - 1") auto
  have "reads_back line (parseexec m (paren c (show_cmd c) @ 38 # k)) c (38 # k)"
    using exec_backD [OF c, of "38 # k" m] suf m(2) unfolding eq by (auto simp: ends_def)
  then have "reads_back line (parsepipe (Suc m) (paren c (show_cmd c) @ 38 # k)) c (38 # k)"
    by (intro parsepipe_of_exec tight_symbol) simp_all
  then obtain c' where c': "parsepipe (Suc m) (paren c (show_cmd c) @ 38 # k) = Parsed (c', 38 # k)" "map_cmd (word_at line) c' = c"
    by (auto simp: reads_back_def simp del: parsepipe.simps)
  have "tight k" using k closed_ends ends_stops stops_tight by blast
  then obtain p where g: "gettoken (38 # k) = (38, p, k)" using gettoken_symbol [of 38 k] by auto
  have "peek (38 # k) (str ''&'') = (38 # k, True)" by (rule peek_symbol) (simp_all add: str_symbols whitespace_def)
  then have "parseback c' (38 # k) = parseback (BACK c') k" by (subst parseback.simps) (simp add: g)
  also have "\<dots> = (BACK c', k)" by (subst parseback.simps) (simp add: closed_peek [OF k])
  finally have "parseline (Suc (Suc m)) (paren c (show_cmd c) @ 38 # k) = Parsed (BACK c', k)"
    by (subst parseline.simps) (simp add: c' closed_peek [OF k] del: parseline.simps parsepipe.simps)
  then show ?thesis unfolding m(1) eq reads_back_def using c' by simp
qed

text \<open>A command that is not simple is read back in its parentheses if it is read back as a line.\<close>

lemma exec_back_block:
  assumes "\<not> simple c" and "wf_cmd is_word c"
    and "\<And>n k. closed k \<Longrightarrow> suffix (show_cmd c @ k) line \<Longrightarrow> 4 * length (show_cmd c) + 4 \<le> n \<Longrightarrow>
      reads_back line (parseline n (show_cmd c @ k)) c k"
  shows "exec_back line c"
  unfolding exec_back_def
proof (intro allI impI, elim conjE)
  fix n k rs
  assume k: "ends k" and rs: "good_redirs rs" and suf: "suffix (paren c (show_cmd c) @ show_redirs rs @ k) line"
    and n: "4 * length (paren c (show_cmd c)) + 2 \<le> n"
  have eq: "paren c (show_cmd c) @ show_redirs rs @ k = 40 # show_cmd c @ 41 # show_redirs rs @ k"
    using assms(1) by (simp add: paren_def)
  obtain m where m: "n = Suc (Suc m)" "4 * length (show_cmd c) + 4 \<le> m"
    using n assms(1) by (cases n rule: nat.exhaust; cases "n - 1") (auto simp: paren_def)
  have s1: "suffix (show_cmd c @ 41 # show_redirs rs @ k) line" using suf unfolding eq by (rule suffix_ConsD)
  have s2: "suffix (show_redirs rs @ k) line" using suffix_appendD [OF s1] by (rule suffix_ConsD)
  have "reads_back line (parseline m (show_cmd c @ 41 # show_redirs rs @ k)) c (41 # show_redirs rs @ k)"
    by (rule assms(3)) (use s1 m in \<open>simp_all add: closed_def\<close>)
  then show "reads_back line (parseexec n (paren c (show_cmd c) @ show_redirs rs @ k)) (foldl redircmd c rs) k"
    unfolding eq m(1) by (rule parseblock_back [OF _ _ rs k s2]) (use assms(2) in \<open>simp add: tight_show tight_symbol\<close>)
qed

lemma exec_back_all: "wf_cmd is_word c \<Longrightarrow> exec_back line c"
proof (induction c)
  case (EXEC ws)
  show ?case unfolding exec_back_def
  proof (intro allI impI, elim conjE)
    fix n k rs
    assume *: "ends k" "good_redirs rs" "suffix (paren (EXEC ws) (show_cmd (EXEC ws)) @ show_redirs rs @ k) line"
      "4 * length (paren (EXEC ws) (show_cmd (EXEC ws))) + 2 \<le> n"
    then obtain m where "n = Suc m" by (cases n) auto
    then show "reads_back line (parseexec n (paren (EXEC ws) (show_cmd (EXEC ws)) @ show_redirs rs @ k)) (foldl redircmd (EXEC ws) rs) k"
      using parseexec_simple [OF *(1,2), of ws line m] * EXEC by (simp add: paren_def)
  qed
next
  case (REDIR c w mode fd)
  show ?case unfolding exec_back_def
  proof (intro allI impI, elim conjE)
    fix n k rs
    define p where "p = paren (REDIR c w mode fd) (show_cmd (REDIR c w mode fd))"
    assume *: "ends k" "good_redirs rs" "suffix (p @ show_redirs rs @ k) line" "4 * length p + 2 \<le> n"
    have eq: "p @ show_redirs rs @ k = paren c (show_cmd c) @ show_redirs ((w, mode, fd) # rs) @ k" by (simp add: p_def paren_def)
    have "good_redirs ((w, mode, fd) # rs)" using *(2) REDIR.prems by (simp add: good_redirs_def)
    moreover have "4 * length (paren c (show_cmd c)) + 2 \<le> n" using *(4) by (simp add: p_def paren_def split: if_splits)
    moreover have "exec_back line c" using REDIR by simp
    ultimately have "reads_back line (parseexec n (p @ show_redirs rs @ k)) (foldl redircmd c ((w, mode, fd) # rs)) k"
      using *(1,3) unfolding exec_back_def eq by blast
    then show "reads_back line (parseexec n (p @ show_redirs rs @ k)) (foldl redircmd (REDIR c w mode fd) rs) k"
      by (simp add: redircmd_def)
  qed
next
  case (PIPE l r)
  then have e: "exec_back line l" "exec_back line r" "wf_cmd is_word r" by simp_all
  show ?case by (rule exec_back_block [OF _ PIPE.prems], simp) (rule pipe_back [OF e])
next
  case (LIST l r)
  then have e: "exec_back line l" "exec_back line r" "wf_cmd is_word r" by simp_all
  show ?case by (rule exec_back_block [OF _ LIST.prems], simp) (rule list_back [OF e])
next
  case (BACK c)
  then have e: "exec_back line c" by simp
  show ?case by (rule exec_back_block [OF _ BACK.prems], simp) (rule bg_back [OF e])
qed

lemma line_back:
  assumes "wf_cmd is_word c" and "suffix (show_cmd c) line" and "4 * length (show_cmd c) + 4 \<le> n"
  shows "reads_back line (parseline n (show_cmd c)) c []"
proof (cases "simple c")
  case True
  then have p: "paren c (show_cmd c) = show_cmd c" by (simp add: paren_def)
  obtain m where "n = Suc (Suc m)" "4 * length (show_cmd c) + 2 \<le> m"
    using assms(3) by (cases n rule: nat.exhaust; cases "n - 1") auto
  then show ?thesis
    using parseline_of_exec [of line m "show_cmd c" c "[]"] exec_backD [OF exec_back_all [OF assms(1)], of "[]" line m] assms(2)
    by (simp add: p closed_def ends_def del: parseline.simps)
next
  case False
  note e = exec_back_all
  show ?thesis
  proof (cases c)
    case (PIPE l r)
    then show ?thesis using pipe_back [OF e e, of l r "[]" line n] assms by (simp add: closed_def)
  next
    case (LIST l r)
    then show ?thesis using list_back [OF e e, of l r "[]" line n] assms by (simp add: closed_def)
  next
    case (BACK d)
    then show ?thesis using bg_back [OF e, of d "[]" line n] assms by (simp add: closed_def)
  qed (use False in simp_all)
qed

lemma show_no_nul: "wf_cmd is_word c \<Longrightarrow> 0 \<notin> set (show_cmd c)"
  by (induction c) (auto simp: paren_def show_words_def show_op_def is_word_def)

lemma parsecmd_show:
  assumes "wf_cmd is_word c"
  obtains c' buf' where "parsecmd (show_cmd c @ 0 # junk) = Parsed (c', buf')"
    "map_cmd (string_at (length (show_cmd c)) buf') c' = c"
proof -
  define line where "line = show_cmd c"
  have line: "cstr (line @ 0 # junk) = line" "0 \<notin> set line" using show_no_nul [OF assms] by (simp_all add: line_def cstr_nul)
  obtain c' where c': "parseline (4 * length line + 4) line = Parsed (c', [])" "map_cmd (word_at line) c' = c"
    using line_back [OF assms, of line "4 * length line + 4"] by (auto simp: reads_back_def line_def simp del: parseline.simps)
  have "wf_cmd (typed_word line) c'"
    using parse_ok [OF line(2), of line "4 * length line + 4"] c'(1) by (simp add: parsed_ok_def del: parseline.simps)
  then have "map_cmd (string_at (length line) (nulterminate (length line) c' (line @ 0 # junk))) c' = map_cmd (word_at line) c'"
    by (intro cmd.map_cong0 string_at_word [OF refl])
  moreover have "parsecmd (line @ 0 # junk) = Parsed (c', nulterminate (length line) c' (line @ 0 # junk))"
    by (simp add: parsecmd_def line c' peek_def skip_def del: parseline.simps)
  ultimately show thesis using that c'(2) by (simp add: line_def)
qed

text \<open>C37. The shell runs the command that is written. Every command, that is, every tree of simple commands of at most nine
  words, of redirections, pipes, lists and background commands, can be written out as a line, with
  parentheses around the parts that are not simple. From that line \<open>parsecmd\<close> makes a command whose words,
  as they stand in the buffer after \<open>nulterminate\<close>, give back the command, so that what the shell runs
  for the line is what \<open>runcmd\<close> does for the command.\<close>

theorem shell_runs_what_is_written:
  assumes "wf_cmd is_word c"
  shows "(\<exists>c' buf'. parsecmd (show_cmd c @ 0 # junk) = Parsed (c', buf') \<and>
      map_cmd (string_at (length (show_cmd c)) buf') c' = c) \<and>
    run_line (show_cmd c @ 0 # junk) = runcmd c"
proof -
  obtain c' buf' where p: "parsecmd (show_cmd c @ 0 # junk) = Parsed (c', buf')" "map_cmd (string_at (length (show_cmd c)) buf') c' = c"
    by (rule parsecmd_show [OF assms])
  moreover have "cstr (show_cmd c @ 0 # junk) = show_cmd c" by (rule cstr_nul [OF show_no_nul [OF assms]])
  ultimately show ?thesis by (simp add: run_line_def)
qed

theorem shell_runs_what_is_written_witness:
  "run_line ([97, 32, 124, 40, 98, 32, 62, 99, 32, 38, 41] @ 0 # []) = runcmd (PIPE (EXEC [[97]]) (BACK (REDIR (EXEC [[98]]) [99] 0x601 1)))"
proof -
  have wf: "wf_cmd is_word (PIPE (EXEC [[97]]) (BACK (REDIR (EXEC [[98]]) [99] 0x601 1)))" by code_simp
  have "show_cmd (PIPE (EXEC [[97]]) (BACK (REDIR (EXEC [[98]]) [99] 0x601 1))) = [97, 32, 124, 40, 98, 32, 62, 99, 32, 38, 41]"
    by code_simp
  then show ?thesis using shell_runs_what_is_written [OF wf, of "[]"] by (simp only: conj_absorb)
qed

end
