(* ===== verification/Mkfs.thy ===== *)
theory Mkfs
  imports Inode
begin

text \<open>
  \<open>mkfs/mkfs.c\<close>, the program that builds the file system image. The image is a map from sectors to their
  contents; a failed assertion and \<open>die\<close> end the program. The host's calls on the image succeed, except that reading
  past its end does not; the input files are given by their contents, in the pieces in which \<open>read\<close> delivers
  them. \<open>struct dinode\<close> is the on-disk part of the kernel's inode.
\<close>

unbundle bit_operations_syntax

section \<open>Layout\<close>

definition NINODES :: nat where "NINODES = 200"
definition FSSIZE :: nat where "FSSIZE = 2000"
definition nbitmap :: nat where "nbitmap = FSSIZE div BPB + 1"
definition ninodeblocks :: nat where "ninodeblocks = NINODES div IPB + 1"
definition nlog :: nat where "nlog = LOGSIZE"
definition nmeta :: nat where "nmeta = 2 + nlog + ninodeblocks + nbitmap"
definition nblocks :: nat where "nblocks = FSSIZE - nmeta"

record mkst =
  img :: "u32 \<Rightarrow> u8 list option"
  freeinode :: u32
  freeblock :: u32

type_synonym 'a mk = "(mkst, 'a) km"

text \<open>The conversions to the byte order of RISC-V, on a host that has that byte order.\<close>

definition xshort :: "u16 \<Rightarrow> u16" where
  "xshort x = le_word [ucast x, ucast (drop_bit 8 x)]"

definition xint :: "u32 \<Rightarrow> u32" where
  "xint x = le_word [ucast x, ucast (drop_bit 8 x), ucast (drop_bit 16 x), ucast (drop_bit 24 x)]"

definition mk_sb :: superblock where
  "mk_sb = \<lparr>sb_magic = FSMAGIC, sb_size = xint (of_nat FSSIZE), sb_nblocks = xint (of_nat nblocks),
     sb_ninodes = xint (of_nat NINODES), sb_nlog = xint (of_nat nlog), sb_logstart = xint 2,
     sb_inodestart = xint (of_nat (2 + nlog)), sb_bmapstart = xint (of_nat (2 + nlog + ninodeblocks))\<rparr>"

definition sb_bytes :: "superblock \<Rightarrow> u8 list" where
  "sb_bytes x = concat (map (le_bytes 4) [sb_magic x, sb_size x, sb_nblocks x, sb_ninodes x, sb_nlog x,
     sb_logstart x, sb_inodestart x, sb_bmapstart x])"

section \<open>Sectors and inodes\<close>

definition wsect :: "u32 \<Rightarrow> u8 list \<Rightarrow> unit mk" where
  "wsect sec buf = kmodify (\<lambda>s. s\<lparr>img := (img s)(sec \<mapsto> buf)\<rparr>)"

definition rsect :: "u32 \<Rightarrow> u8 list mk" where
  "rsect sec = kbind (kget (\<lambda>s. img s sec)) (\<lambda>b. case b of None \<Rightarrow> panic ''read'' | Some buf \<Rightarrow> kreturn buf)"

definition zero_dinode :: inode where
  "zero_dinode = \<lparr>i_dev = 0, i_inum = 0, i_ref = 0, i_valid = False, i_type = 0, i_major = 0, i_minor = 0, i_nlink = 0,
     i_size = 0, i_addrs = replicate (NDIRECT + 1) 0\<rparr>"

definition winode :: "u32 \<Rightarrow> inode \<Rightarrow> unit mk" where
  "winode inum ip =
     kbind (rsect (IBLOCK inum mk_sb)) (\<lambda>buf. wsect (IBLOCK inum mk_sb) (put_dinode ip (dinode_off inum) buf))"

definition rinode :: "u32 \<Rightarrow> inode mk" where
  "rinode inum = kbind (rsect (IBLOCK inum mk_sb)) (\<lambda>buf. kreturn (get_dinode (dinode_off inum) buf zero_dinode))"

definition ialloc :: "u16 \<Rightarrow> u32 mk" where
  "ialloc type =
     kbind (kget freeinode) (\<lambda>inum.
     kseq (kmodify (\<lambda>s. s\<lparr>freeinode := freeinode s + 1\<rparr>))
    (kseq (winode inum (zero_dinode\<lparr>i_type := xshort type, i_nlink := xshort 1, i_size := xint 0\<rparr>))
    (kreturn inum)))"

definition balloc :: "nat \<Rightarrow> unit mk" where
  "balloc n =
     (if n < BPB then wsect (sb_bmapstart mk_sb) (foldl (\<lambda>buf i. mark_used i buf) (replicate BSIZE 0) [0..<n])
      else panic ''used < BPB'')"

section \<open>Files\<close>

text \<open>\<open>freeblock++\<close>\<close>

definition next_block :: "u32 mk" where
  "next_block = kbind (kget freeblock) (\<lambda>b. kseq (kmodify (\<lambda>s. s\<lparr>freeblock := freeblock s + 1\<rparr>)) (kreturn b))"

text \<open>The block \<open>fbn\<close> of a file, which is allocated if the file does not have it yet; the inode may change.\<close>

definition file_block :: "inode \<Rightarrow> nat \<Rightarrow> (inode \<times> u32) mk" where
  "file_block din fbn =
     (if fbn < NDIRECT then
        (if xint (i_addrs din ! fbn) = 0
         then kbind next_block (\<lambda>b. kreturn (din\<lparr>i_addrs := (i_addrs din)[fbn := xint b]\<rparr>, b))
         else kreturn (din, xint (i_addrs din ! fbn)))
      else
        kbind (if xint (i_addrs din ! NDIRECT) = 0
               then kbind next_block (\<lambda>b. kreturn (din\<lparr>i_addrs := (i_addrs din)[NDIRECT := xint b]\<rparr>))
               else kreturn din) (\<lambda>din.
        kbind (rsect (xint (i_addrs din ! NDIRECT))) (\<lambda>ind.
        if get32 ind (4 * (fbn - NDIRECT)) = 0
        then kbind next_block (\<lambda>b.
          kseq (wsect (xint (i_addrs din ! NDIRECT)) (put32 ind (4 * (fbn - NDIRECT)) (xint b)))
          (kreturn (din, b)))
        else kreturn (din, xint (get32 ind (4 * (fbn - NDIRECT)))))))"

text \<open>A round of the loop appends at least a byte, so that as many rounds as there are bytes are enough.\<close>

primrec iappend_loop :: "nat \<Rightarrow> inode \<Rightarrow> u32 \<Rightarrow> u8 list \<Rightarrow> (inode \<times> u32) mk" where
  "iappend_loop 0 din off p = kreturn (din, off)"
| "iappend_loop (Suc k) din off p =
     (if p = [] then kreturn (din, off)
      else
        let fbn = unat off div BSIZE; n1 = min (length p) ((fbn + 1) * BSIZE - unat off) in
        if fbn < MAXFILE then
          kbind (file_block din fbn) (\<lambda>(din', x).
          kbind (rsect x) (\<lambda>buf.
          kseq (wsect x (splice buf (unat off - fbn * BSIZE) (take n1 p)))
          (iappend_loop k din' (off + of_nat n1) (drop n1 p))))
        else panic ''fbn < MAXFILE'')"

definition iappend :: "u32 \<Rightarrow> u8 list \<Rightarrow> unit mk" where
  "iappend inum p =
     kbind (rinode inum) (\<lambda>din.
     kbind (iappend_loop (length p) din (xint (i_size din)) p) (\<lambda>(din', off).
     winode inum (din'\<lparr>i_size := xint off\<rparr>)))"

section \<open>The image\<close>

definition dirent :: "u32 \<Rightarrow> u8 list \<Rightarrow> u8 list" where
  "dirent inum name = le_bytes 2 (xshort (ucast inum)) @ take DIRSIZ (name @ replicate DIRSIZ 0)"

text \<open>The name under which a file is stored, without the directory and the underscore of the build.\<close>

definition shortname :: "u8 list \<Rightarrow> u8 list" where
  "shortname path =
     (let s = (if take 5 path = map of_char ''user/'' then drop 5 path else path) in
      if s \<noteq> [] \<and> hd s = of_char (CHR ''_'') then tl s else s)"

definition add_file :: "u32 \<Rightarrow> u8 list \<times> u8 list list \<Rightarrow> unit mk" where
  "add_file rootino f =
     (let path = fst f; s = (if take 5 path = map of_char ''user/'' then drop 5 path else path) in
      if of_char (CHR ''/'') \<in> set s then panic ''index(shortname, slash)''
      else if length (shortname path) > DIRSIZ then panic ''strlen(shortname) <= DIRSIZ''
      else
        kbind (ialloc T_FILE) (\<lambda>inum.
        kseq (iappend rootino (dirent inum (shortname path)))
        (kfor (iappend inum) (snd f))))"

definition fix_root :: "u32 \<Rightarrow> unit mk" where
  "fix_root rootino =
     kbind (rinode rootino) (\<lambda>din.
     winode rootino (din\<lparr>i_size := xint ((xint (i_size din) div of_nat BSIZE + 1) * of_nat BSIZE)\<rparr>))"

definition mkfs_main :: "(u8 list \<times> u8 list list) list \<Rightarrow> unit mk" where
  "mkfs_main files =
     kseq (kmodify (\<lambda>s. s\<lparr>freeblock := of_nat nmeta\<rparr>))
    (kseq (kfor (\<lambda>i. wsect (of_nat i) (replicate BSIZE 0)) [0..<FSSIZE])
    (kseq (wsect 1 (splice (replicate BSIZE 0) 0 (sb_bytes mk_sb)))
    (kbind (ialloc T_DIR) (\<lambda>rootino.
     if rootino \<noteq> ROOTINO then panic ''rootino == ROOTINO''
     else kdo
       [iappend rootino (dirent rootino (map of_char ''.'')),
        iappend rootino (dirent rootino (map of_char ''..'')),
        kfor (add_file rootino) files,
        fix_root rootino,
        kbind (kget freeblock) (\<lambda>b. balloc (unat b))]))))"

definition mkst0 :: mkst where
  "mkst0 = \<lparr>img = (\<lambda>_. None), freeinode = 1, freeblock = 0\<rparr>"

end
