(* ===== verification/MkfsFiles.thy ===== *)
theory MkfsFiles
  imports Mkfs
begin

text \<open>
  The files that \<open>mkfs\<close> writes: \<open>iappend\<close> appends to the contents of a file, whatever blocks they are in.
\<close>

lemma xint_id [simp]: "xint x = x"
proof -
  have "[ucast x, ucast (drop_bit 8 x), ucast (drop_bit 16 x), ucast (drop_bit 24 x)] = le_bytes 4 x"
    by (simp add: le_bytes_def upt_rec)
  then show ?thesis by (simp add: xint_def le_word_le_bytes take_bit_word_eq_self)
qed

lemma xshort_id [simp]: "xshort x = x"
proof -
  have "[ucast x, ucast (drop_bit 8 x)] = le_bytes 2 x"
    by (simp add: le_bytes_def upt_rec)
  then show ?thesis by (simp add: xshort_def le_word_le_bytes take_bit_word_eq_self)
qed

section \<open>The blocks of a file\<close>

abbreviation zero_block :: "u8 list" where "zero_block \<equiv> replicate BSIZE 0"

text \<open>The inode \<open>din\<close> has the data blocks \<open>bl\<close>, and the indirect block \<open>ib\<close> if it needs one.\<close>

definition indirect_ok :: "(u32 \<Rightarrow> u8 list option) \<Rightarrow> u32 \<Rightarrow> u32 list \<Rightarrow> bool" where
  "indirect_ok im ib bl \<longleftrightarrow> (\<exists>d. im ib = Some d \<and> length d = BSIZE \<and>
     (\<forall>j<NINDIRECT. get32 d (4 * j) = (if NDIRECT + j < length bl then bl ! (NDIRECT + j) else 0)))"

definition file_at :: "(u32 \<Rightarrow> u8 list option) \<Rightarrow> inode \<Rightarrow> u32 list \<Rightarrow> u32 \<Rightarrow> bool" where
  "file_at im din bl ib \<longleftrightarrow> length (i_addrs din) = NDIRECT + 1 \<and> length bl \<le> MAXFILE \<and> 0 \<notin> set bl \<and>
     (\<forall>k<NDIRECT. i_addrs din ! k = (if k < length bl then bl ! k else 0)) \<and>
     (if length bl \<le> NDIRECT then i_addrs din ! NDIRECT = 0
      else i_addrs din ! NDIRECT = ib \<and> ib \<noteq> 0 \<and> indirect_ok im ib bl)"

definition owned :: "u32 list \<Rightarrow> u32 \<Rightarrow> u32 list" where
  "owned bl ib = bl @ (if length bl \<le> NDIRECT then [] else [ib])"

text \<open>Every block from the first free one on is still zero, and the image ends at \<open>FSSIZE\<close>.\<close>

definition fresh :: "mkst \<Rightarrow> bool" where
  "fresh s \<longleftrightarrow> (\<forall>b. unat (freeblock s) \<le> unat b \<longrightarrow> img s b = (if unat b < FSSIZE then Some zero_block else None)) \<and>
     nmeta \<le> unat (freeblock s) \<and> unat (freeblock s) \<le> FSSIZE"

definition below :: "mkst \<Rightarrow> u32 list \<Rightarrow> bool" where
  "below s bs \<longleftrightarrow> distinct bs \<and> (\<forall>b\<in>set bs. nmeta \<le> unat b \<and> unat b < unat (freeblock s))"

lemma NINDIRECT_val: "NINDIRECT = 256" by (simp add: NINDIRECT_def BSIZE_def)

lemma nmeta_val: "nmeta = 46"
  by (simp add: nmeta_def nlog_def ninodeblocks_def nbitmap_def LOGSIZE_def MAXOPBLOCKS_def NINODES_def IPB_def
      BSIZE_def DINODE_SIZE_def FSSIZE_def BPB_def)

lemma next_block_run: "next_block s = Ok (freeblock s) (s\<lparr>freeblock := freeblock s + 1\<rparr>)"
  by (simp add: next_block_def kbind_Ok kseq_Ok)

lemma rsect_run: "img s b = Some d \<Longrightarrow> rsect b s = Ok d s"
  by (simp add: rsect_def kbind_Ok)

lemma wsect_run: "wsect b d s = Ok () (s\<lparr>img := (img s)(b \<mapsto> d)\<rparr>)"
  by (simp add: wsect_def)

lemma unat_next: "unat b < FSSIZE \<Longrightarrow> unat (b + 1 :: u32) = unat b + 1"
  by (simp add: FSSIZE_def unat_word_ariths)

text \<open>A block that the file has is found.\<close>

lemma file_block_old:
  assumes "file_at (img s) din bl ib" and "fbn < length bl"
  shows "file_block din fbn s = Ok (din, bl ! fbn) s"
proof -
  have nz: "bl ! fbn \<noteq> 0" using assms by (metis file_at_def nth_mem)
  show ?thesis
  proof (cases "fbn < NDIRECT")
    case True
    then show ?thesis using assms nz by (simp add: file_block_def file_at_def)
  next
    case False
    then obtain d where d: "img s ib = Some d" "get32 d (4 * (fbn - NDIRECT)) = bl ! fbn"
      and ib: "i_addrs din ! NDIRECT = ib" "ib \<noteq> 0"
      using assms by (auto simp: file_at_def indirect_ok_def MAXFILE_def)
    then show ?thesis using False nz by (simp add: file_block_def kbind_Ok rsect_run)
  qed
qed

text \<open>A block that is new comes from the fresh ones; only the file's own blocks and fresh ones change.\<close>

definition grows :: "u32 list \<Rightarrow> u32 \<Rightarrow> mkst \<Rightarrow> mkst \<Rightarrow> bool" where
  "grows bl ib s t \<longleftrightarrow> freeinode t = freeinode s \<and> unat (freeblock s) \<le> unat (freeblock t) \<and>
     (\<forall>b. unat b < unat (freeblock s) \<and> b \<notin> set (owned bl ib) \<longrightarrow> img t b = img s b)"

text \<open>What appending does to a file and to the rest of the image: it keeps every block that is in use and not the
  file's, the blocks it adds are fresh, and it takes as many as it adds.\<close>

definition extends :: "inode \<Rightarrow> u32 list \<Rightarrow> u32 \<Rightarrow> mkst \<Rightarrow> inode \<Rightarrow> u32 list \<Rightarrow> u32 \<Rightarrow> mkst \<Rightarrow> bool" where
  "extends din bl ib s din' bl' ib' t \<longleftrightarrow> grows bl ib s t \<and> (\<exists>a. din' = din\<lparr>i_addrs := a\<rparr>) \<and>
     (\<forall>b\<in>set (owned bl' ib'). b \<in> set (owned bl ib) \<or> unat (freeblock s) \<le> unat b) \<and>
     unat (freeblock t) + length (owned bl ib) = unat (freeblock s) + length (owned bl' ib')"

lemma extends_refl: "extends din bl ib s din bl ib s"
  by (auto simp: extends_def grows_def intro: exI [of _ "i_addrs din"])

lemma extends_trans:
  "extends din bl ib s din1 bl1 ib1 s1 \<Longrightarrow> extends din1 bl1 ib1 s1 din2 bl2 ib2 s2 \<Longrightarrow> extends din bl ib s din2 bl2 ib2 s2"
  by (fastforce simp: extends_def grows_def)

lemma extends_write:
  "extends din bl ib s din' bl' ib' t \<Longrightarrow> x \<in> set (owned bl' ib') \<Longrightarrow>
   extends din bl ib s din' bl' ib' (t\<lparr>img := (img t)(x \<mapsto> d)\<rparr>)"
  by (fastforce simp: extends_def grows_def)

definition new_block :: "inode \<Rightarrow> u32 list \<Rightarrow> u32 \<Rightarrow> mkst \<Rightarrow> inode \<Rightarrow> u32 \<Rightarrow> u32 \<Rightarrow> mkst \<Rightarrow> bool" where
  "new_block din bl ib s din' x ib' t \<longleftrightarrow> file_block din (length bl) s = Ok (din', x) t \<and>
     file_at (img t) din' (bl @ [x]) ib' \<and> fresh t \<and> below t (owned (bl @ [x]) ib') \<and> img t x = Some zero_block \<and>
     extends din bl ib s din' (bl @ [x]) ib' t \<and> (\<forall>b\<in>set bl. img t b = img s b)"

lemma new_block_direct:
  assumes f: "file_at (img s) din bl ib" and n: "length bl < NDIRECT" and fr: "fresh s" and be: "below s (owned bl ib)"
    and room: "unat (freeblock s) < FSSIZE"
  shows "new_block din bl ib s (din\<lparr>i_addrs := (i_addrs din)[length bl := freeblock s]\<rparr>) (freeblock s) ib
    (s\<lparr>freeblock := freeblock s + 1\<rparr>)"
proof -
  have nx: "unat (freeblock s + 1) = unat (freeblock s) + 1" using room by (rule unat_next)
  have nz: "freeblock s \<noteq> 0" using fr by (auto simp: fresh_def nmeta_val)
  have "i_addrs din ! length bl = 0" using f n by (simp add: file_at_def)
  then have run: "file_block din (length bl) s =
      Ok (din\<lparr>i_addrs := (i_addrs din)[length bl := freeblock s]\<rparr>, freeblock s) (s\<lparr>freeblock := freeblock s + 1\<rparr>)"
    using n by (simp add: file_block_def kbind_Ok next_block_run)
  have "file_at (img s) (din\<lparr>i_addrs := (i_addrs din)[length bl := freeblock s]\<rparr>) (bl @ [freeblock s]) ib"
    using f n nz by (auto simp: file_at_def nth_list_update nth_append MAXFILE_def)
  moreover have "freeblock s \<notin> set bl" using be by (auto simp: below_def owned_def)
  ultimately show ?thesis
    unfolding new_block_def using run fr be room nx n
    by (auto simp: fresh_def below_def owned_def grows_def extends_def)
qed

lemma le_word_zeros: "le_word (replicate k 0) = 0"
  by (induction k) simp_all

lemma get_word_zero: "i + k \<le> BSIZE \<Longrightarrow> get_word k zero_block i = 0"
proof -
  assume "i + k \<le> BSIZE"
  then have "slice zero_block i k = replicate k 0" by (simp add: slice_def min_def)
  then show ?thesis by (simp add: get_word_slice le_word_zeros)
qed

lemma get32_zero: "4 * j + 4 \<le> BSIZE \<Longrightarrow> get32 zero_block (4 * j) = 0"
  by (rule get_word_zero)

lemma indirect_put:
  assumes "length d = BSIZE" and "NDIRECT \<le> length bl" and "length bl < MAXFILE"
    and "\<forall>j<NINDIRECT. get32 d (4 * j) = (if NDIRECT + j < length bl then bl ! (NDIRECT + j) else 0)"
  shows "indirect_ok (im(ib \<mapsto> put32 d (4 * (length bl - NDIRECT)) x)) ib (bl @ [x])"
proof -
  let ?k = "length bl - NDIRECT"
  have k: "?k < NINDIRECT" "4 * ?k + 4 \<le> length d" using assms by (simp_all add: MAXFILE_def NINDIRECT_def)
  have "get32 (put32 d (4 * ?k) x) (4 * j) = (if NDIRECT + j < length (bl @ [x]) then (bl @ [x]) ! (NDIRECT + j) else 0)"
    if j: "j < NINDIRECT" for j
  proof (cases "j = ?k")
    case True
    then show ?thesis using k assms(2) by (simp add: get_put_word nth_append)
  next
    case False
    have "4 * j + 4 \<le> length d" using j assms(1) by (simp add: NINDIRECT_def)
    then have "get32 (put32 d (4 * ?k) x) (4 * j) = get32 d (4 * j)" using k False by (intro get_put_word_other) auto
    then show ?thesis using assms(2,4) j False by (auto simp: nth_append)
  qed
  then show ?thesis using k assms(1) by (auto simp: indirect_ok_def)
qed

lemma new_block_indirect:
  assumes f: "file_at (img s) din bl ib" and n: "NDIRECT < length bl" "length bl < MAXFILE" and fr: "fresh s"
    and be: "below s (owned bl ib)" and room: "unat (freeblock s) < FSSIZE"
  shows "\<exists>t. new_block din bl ib s din (freeblock s) ib t"
proof -
  have nx: "unat (freeblock s + 1) = unat (freeblock s) + 1" using room by (rule unat_next)
  have nz: "freeblock s \<noteq> 0" using fr by (auto simp: fresh_def nmeta_val)
  obtain d where d: "img s ib = Some d" "length d = BSIZE" "i_addrs din ! NDIRECT = ib" "ib \<noteq> 0"
      "\<forall>j<NINDIRECT. get32 d (4 * j) = (if NDIRECT + j < length bl then bl ! (NDIRECT + j) else 0)"
    using f n by (auto simp: file_at_def indirect_ok_def)
  define t where "t = s\<lparr>freeblock := freeblock s + 1, img := (img s)(ib \<mapsto> put32 d (4 * (length bl - NDIRECT)) (freeblock s))\<rparr>"
  have "get32 d (4 * (length bl - NDIRECT)) = 0" using d(5) n by (auto simp: MAXFILE_def)
  then have run: "file_block din (length bl) s = Ok (din, freeblock s) t"
    using n d by (simp add: file_block_def kbind_Ok kseq_Ok next_block_run rsect_run wsect_run t_def)
  have own: "freeblock s \<notin> set bl" "freeblock s \<noteq> ib" "ib \<notin> set bl" "unat ib < unat (freeblock s)"
    using be n by (auto simp: below_def owned_def)
  have ind: "indirect_ok (img t) ib (bl @ [freeblock s])"
    unfolding t_def using indirect_put [OF d(2) _ n(2) d(5), of "img s" ib "freeblock s"] n(1) by simp
  have fa: "file_at (img t) din (bl @ [freeblock s]) ib"
    using f n nz d(3,4) ind by (simp add: file_at_def nth_append)
  have "fresh t" using fr own nx room by (auto simp: fresh_def t_def)
  moreover have "below t (owned (bl @ [freeblock s]) ib)"
    using be own nx n fr by (auto simp: below_def owned_def t_def fresh_def)
  moreover have "img t (freeblock s) = Some zero_block" using fr own room by (auto simp: fresh_def t_def)
  moreover have "extends din bl ib s din (bl @ [freeblock s]) ib t"
    using n nx by (auto simp: extends_def grows_def owned_def t_def intro: exI [of _ "i_addrs din"])
  moreover have "\<forall>b\<in>set bl. img t b = img s b" using own by (auto simp: t_def)
  ultimately show ?thesis unfolding new_block_def using run fa nx n by (auto simp: t_def)
qed

lemma new_block_first_indirect:
  assumes f: "file_at (img s) din bl ib" and n: "length bl = NDIRECT" and fr: "fresh s"
    and be: "below s (owned bl ib)" and room: "unat (freeblock s) + 1 < FSSIZE"
  shows "\<exists>t. new_block din bl ib s (din\<lparr>i_addrs := (i_addrs din)[NDIRECT := freeblock s]\<rparr>) (freeblock s + 1) (freeblock s) t"
proof -
  define fb where "fb = freeblock s"
  have nx: "unat (fb + 1) = unat fb + 1" "unat (fb + 1 + 1) = unat fb + 2"
    using unat_next [of fb] unat_next [of "fb + 1"] room by (simp_all add: fb_def)
  have nz: "fb \<noteq> 0" "fb + 1 \<noteq> 0" using fr nx by (auto simp: fresh_def nmeta_val fb_def unat_eq_0 [symmetric] simp del: unat_eq_0)
  have z: "img s fb = Some zero_block" "img s (fb + 1) = Some zero_block" using fr room nx by (auto simp: fresh_def fb_def)
  define din' where "din' = din\<lparr>i_addrs := (i_addrs din)[NDIRECT := fb]\<rparr>"
  have a: "i_addrs din ! NDIRECT = 0" "length (i_addrs din) = NDIRECT + 1" using f n by (simp_all add: file_at_def)
  have g0: "get32 zero_block 0 = 0" using get32_zero [of 0] by (simp add: BSIZE_def)
  define t where "t = s\<lparr>freeblock := fb + 1 + 1, img := (img s)(fb \<mapsto> put32 zero_block 0 (fb + 1))\<rparr>"
  have run: "file_block din (length bl) s = Ok (din', fb + 1) t"
    using n a z g0 nz by (simp add: file_block_def kbind_Ok kseq_Ok next_block_run rsect_run wsect_run t_def din'_def fb_def [symmetric])
  have own: "fb \<notin> set bl" "fb + 1 \<notin> set bl" "\<forall>b\<in>set bl. unat b < unat fb"
    using be nx n by (auto simp: below_def owned_def fb_def)
  have "indirect_ok ((img s)(fb \<mapsto> put32 zero_block (4 * (length bl - NDIRECT)) (fb + 1))) fb (bl @ [fb + 1])"
    by (rule indirect_put) (use n get32_zero in \<open>auto simp: NINDIRECT_def MAXFILE_def BSIZE_def\<close>)
  then have ind: "indirect_ok (img t) fb (bl @ [fb + 1])" using n by (simp add: t_def)
  have fa: "file_at (img t) din' (bl @ [fb + 1]) fb"
    using f n nz a ind by (auto simp: file_at_def din'_def nth_append MAXFILE_def NINDIRECT_val)
  have ne: "fb + 1 \<noteq> fb" by simp
  have "fresh t" using fr nx room unfolding fresh_def t_def by (auto simp: fb_def)
  moreover have "below t (owned (bl @ [fb + 1]) fb)"
    using be own nx n fr ne by (auto simp: below_def owned_def t_def fresh_def fb_def)
  moreover have "img t (fb + 1) = Some zero_block" using z by (simp add: t_def)
  moreover have "extends din bl ib s din' (bl @ [fb + 1]) fb t"
    using n nx by (auto simp: extends_def grows_def owned_def t_def din'_def fb_def)
  moreover have "\<forall>b\<in>set bl. img t b = img s b" using own by (auto simp: t_def)
  ultimately have "new_block din bl ib s din' (fb + 1) fb t"
    unfolding new_block_def using run fa nx n by (auto simp: t_def din'_def fb_def)
  then show ?thesis by (auto simp: din'_def fb_def)
qed

lemma file_block_new:
  assumes "file_at (img s) din bl ib" and "length bl < MAXFILE" and "fresh s" and "below s (owned bl ib)"
    and "unat (freeblock s) + (if length bl = NDIRECT then 1 else 0) < FSSIZE"
  obtains din' x ib' t where "new_block din bl ib s din' x ib' t"
proof (cases rule: linorder_cases [of "length bl" NDIRECT])
  case less
  then show thesis using that new_block_direct [OF assms(1) less assms(3,4)] assms(5) by simp
next
  case equal
  then show thesis using that new_block_first_indirect [OF assms(1) equal assms(3,4)] assms(5) by auto
next
  case greater
  then show thesis using that new_block_indirect [OF assms(1) greater assms(2-4)] assms(5) by auto
qed

section \<open>The bytes of a file\<close>

text \<open>The blocks \<open>bl\<close> hold \<open>bytes\<close>, and zeros up to the end of the last block.\<close>

definition has_bytes :: "(u32 \<Rightarrow> u8 list option) \<Rightarrow> u32 list \<Rightarrow> u8 list \<Rightarrow> bool" where
  "has_bytes im bl bytes \<longleftrightarrow> (\<forall>b\<in>set bl. \<exists>d. im b = Some d \<and> length d = BSIZE) \<and>
     length bl = (length bytes + BSIZE - 1) div BSIZE \<and>
     concat (map (\<lambda>b. the (im b)) bl) = bytes @ replicate (length bl * BSIZE - length bytes) 0"

definition stored :: "mkst \<Rightarrow> inode \<Rightarrow> u32 list \<Rightarrow> u32 \<Rightarrow> u8 list \<Rightarrow> bool" where
  "stored s din bl ib bytes \<longleftrightarrow> file_at (img s) din bl ib \<and> has_bytes (img s) bl bytes \<and> fresh s \<and> below s (owned bl ib)"

lemma blocks_length:
  "\<forall>b\<in>set bl. \<exists>d. im b = Some d \<and> length d = BSIZE \<Longrightarrow> length (concat (map (\<lambda>b. the (im b)) bl)) = length bl * BSIZE"
  by (induction bl) auto

lemma file_at_upd: "x \<noteq> ib \<Longrightarrow> file_at (im(x \<mapsto> d)) din bl ib = file_at im din bl ib"
  by (simp add: file_at_def indirect_ok_def)

lemma blocks_up: "0 < r \<Longrightarrow> r \<le> BSIZE \<Longrightarrow> (q * BSIZE + r + BSIZE - 1) div BSIZE = q + 1"
  by (rule div_nat_eqI) (auto simp: algebra_simps)

text \<open>Bytes written after those that the last block holds.\<close>

lemma write_last:
  assumes bs: "\<forall>b\<in>set bs. \<exists>d. im b = Some d \<and> length d = BSIZE" and d: "length d = BSIZE" and x: "x \<notin> set bs"
    and r: "r + length c \<le> BSIZE" "c \<noteq> []" and bytes: "bytes = concat (map (\<lambda>b. the (im b)) bs) @ take r d"
    and rest: "drop r d = replicate (BSIZE - r) 0"
  shows "has_bytes (im(x \<mapsto> splice d r c)) (bs @ [x]) (bytes @ c)"
proof -
  let ?im = "im(x \<mapsto> splice d r c)"
  have same: "map (\<lambda>b. the (?im b)) bs = map (\<lambda>b. the (im b)) bs" using x by auto
  have len: "length bytes = length bs * BSIZE + r" unfolding bytes using blocks_length [OF bs] d r by simp
  have c: "0 < length c" using r(2) by simp
  have "(length (bytes @ c) + BSIZE - 1) div BSIZE = length bs + 1"
    using blocks_up [of "r + length c" "length bs"] r(1) c len by (simp add: add.assoc)
  moreover have "drop (r + length c) d = replicate (length (bs @ [x]) * BSIZE - length (bytes @ c)) 0"
    using arg_cong [OF rest, of "drop (length c)"] len by (simp add: add.commute algebra_simps)
  then have "concat (map (\<lambda>b. the (?im b)) (bs @ [x])) = (bytes @ c) @ replicate (length (bs @ [x]) * BSIZE - length (bytes @ c)) 0"
    unfolding map_append same by (simp add: bytes splice_def)
  ultimately show ?thesis using bs d r by (auto simp: has_bytes_def)
qed

lemma stored_write:
  assumes f: "file_at (img s) din (bs @ [x]) ib" and fr: "fresh s" and be: "below s (owned (bs @ [x]) ib)"
    and bs: "\<forall>b\<in>set bs. \<exists>d. img s b = Some d \<and> length d = BSIZE" and d: "img s x = Some d" "length d = BSIZE"
    and r: "r + length c \<le> BSIZE" "c \<noteq> []" and bytes: "bytes = concat (map (\<lambda>b. the (img s b)) bs) @ take r d"
    and rest: "drop r d = replicate (BSIZE - r) 0"
  shows "stored (s\<lparr>img := (img s)(x \<mapsto> splice d r c)\<rparr>) din (bs @ [x]) ib (bytes @ c)"
proof -
  have x: "x \<notin> set bs" "unat x < unat (freeblock s)" using be by (auto simp: below_def owned_def)
  have "file_at ((img s)(x \<mapsto> splice d r c)) din (bs @ [x]) ib"
  proof (cases "length (bs @ [x]) \<le> NDIRECT")
    case True
    then show ?thesis using f by (simp add: file_at_def)
  next
    case False
    then have "x \<noteq> ib" using be by (auto simp: below_def owned_def)
    then show ?thesis using f by (simp add: file_at_upd)
  qed
  moreover have "has_bytes ((img s)(x \<mapsto> splice d r c)) (bs @ [x]) (bytes @ c)"
    by (rule write_last [OF bs d(2) x(1) r bytes rest])
  moreover have "fresh (s\<lparr>img := (img s)(x \<mapsto> splice d r c)\<rparr>)" using fr x(2) by (auto simp: fresh_def)
  ultimately show ?thesis using be by (simp add: stored_def below_def)
qed

section \<open>Appending\<close>

text \<open>The block that a round of the loop writes to is the file's last one, perhaps a new one.\<close>

definition last_block :: "mkst \<Rightarrow> inode \<Rightarrow> u32 list \<Rightarrow> u32 \<Rightarrow> u32 \<Rightarrow> u8 list \<Rightarrow> u8 list \<Rightarrow> bool" where
  "last_block t din bs x ib d bytes \<longleftrightarrow> file_at (img t) din (bs @ [x]) ib \<and> fresh t \<and> below t (owned (bs @ [x]) ib) \<and>
     (\<forall>b\<in>set bs. \<exists>d. img t b = Some d \<and> length d = BSIZE) \<and> img t x = Some d \<and> length d = BSIZE \<and>
     length bs = length bytes div BSIZE \<and> bytes = concat (map (\<lambda>b. the (img t b)) bs) @ take (length bytes mod BSIZE) d \<and>
     drop (length bytes mod BSIZE) d = replicate (BSIZE - length bytes mod BSIZE) 0"

lemma round_partial:
  assumes st: "stored s din bl ib bytes" and m: "length bytes mod BSIZE \<noteq> 0"
  shows "\<exists>d. file_block din (length bytes div BSIZE) s = Ok (din, last bl) s \<and> last_block s din (butlast bl) (last bl) ib d bytes
    \<and> butlast bl @ [last bl] = bl"
proof -
  have n: "length bl = length bytes div BSIZE + 1"
  proof -
    have "length bytes mod BSIZE \<le> BSIZE" by (simp add: BSIZE_def)
    then have "(length bytes + BSIZE - 1) div BSIZE = length bytes div BSIZE + 1"
      using blocks_up [of "length bytes mod BSIZE" "length bytes div BSIZE"] m by (simp add: div_mult_mod_eq)
    then show ?thesis using st by (simp add: stored_def has_bytes_def)
  qed
  then have bl: "butlast bl @ [last bl] = bl" by (cases bl) auto
  have ok: "\<forall>b\<in>set (butlast bl @ [last bl]). \<exists>d. img s b = Some d \<and> length d = BSIZE"
    using st unfolding bl by (simp add: stored_def has_bytes_def)
  then obtain d where d: "img s (last bl) = Some d" "length d = BSIZE" by auto
  have len: "length (concat (map (\<lambda>b. the (img s b)) (butlast bl))) = (length bytes div BSIZE) * BSIZE"
    using ok n by (subst blocks_length) auto
  define z where "z = length bl * BSIZE - length bytes"
  have all: "concat (map (\<lambda>b. the (img s b)) (butlast bl)) @ d = bytes @ replicate z 0"
  proof -
    have "concat (map (\<lambda>b. the (img s b)) (butlast bl @ [last bl])) = bytes @ replicate z 0"
      using st unfolding bl by (simp add: stored_def has_bytes_def z_def)
    then show ?thesis using d by simp
  qed
  have qm: "length bytes = (length bytes div BSIZE) * BSIZE + length bytes mod BSIZE" by simp
  have z: "z = BSIZE - length bytes mod BSIZE" 
  proof -
    have "length bl * BSIZE = (length bytes div BSIZE) * BSIZE + BSIZE" by (simp add: n)
    then show ?thesis using qm unfolding z_def by linarith
  qed
  have bytes: "bytes = concat (map (\<lambda>b. the (img s b)) (butlast bl)) @ take (length bytes mod BSIZE) d"
    using arg_cong [OF all, of "take (length bytes)"] len by (simp add: minus_div_mult_eq_mod)
  have rest: "drop (length bytes mod BSIZE) d = replicate (BSIZE - length bytes mod BSIZE) 0"
    using arg_cong [OF all, of "drop (length bytes)"] len by (simp add: minus_div_mult_eq_mod z)
  have "file_block din (length bytes div BSIZE) s = Ok (din, bl ! (length bytes div BSIZE)) s"
    using st n by (intro file_block_old [where ib = ib]) (simp_all add: stored_def)
  moreover have "bl ! (length bytes div BSIZE) = last bl" using n by (subst last_conv_nth) auto
  ultimately show ?thesis
    using st ok d bytes rest n bl unfolding last_block_def stored_def bl by (auto dest: in_set_butlastD)
qed

text \<open>The blocks that a file with \<open>n\<close> data blocks has, the indirect one with them.\<close>

definition blocks_of :: "nat \<Rightarrow> nat" where
  "blocks_of n = n + (if n \<le> NDIRECT then 0 else 1)"

lemma length_owned: "length (owned bl ib) = blocks_of (length bl)"
  by (simp add: owned_def blocks_of_def)

lemma blocks_of_mono: "m \<le> n \<Longrightarrow> blocks_of m \<le> blocks_of n"
  by (simp add: blocks_of_def)

definition room :: "mkst \<Rightarrow> nat \<Rightarrow> nat \<Rightarrow> bool" where
  "room s old new \<longleftrightarrow> new \<le> MAXFILE * BSIZE \<and>
     unat (freeblock s) + blocks_of ((new + BSIZE - 1) div BSIZE) \<le> FSSIZE + blocks_of ((old + BSIZE - 1) div BSIZE)"

lemma room_extends:
  assumes "stored s din bl ib bytes" and "stored t din' bl' ib' bytes'" and "extends din bl ib s din' bl' ib' t"
    and "room s (length bytes) new"
  shows "room t (length bytes') new"
proof -
  have "length bl = (length bytes + BSIZE - 1) div BSIZE" "length bl' = (length bytes' + BSIZE - 1) div BSIZE"
    using assms(1,2) by (simp_all add: stored_def has_bytes_def)
  moreover have "unat (freeblock t) + blocks_of (length bl) = unat (freeblock s) + blocks_of (length bl')"
    using assms(3) by (simp add: extends_def length_owned)
  ultimately show ?thesis using assms(4) by (simp add: room_def)
qed

lemma round_new:
  assumes st: "stored s din bl ib bytes" and m: "length bytes mod BSIZE = 0" and r: "room s (length bytes) new" "length bytes < new"
  shows "\<exists>din' x ib' t d. file_block din (length bytes div BSIZE) s = Ok (din', x) t \<and> last_block t din' bl x ib' d bytes \<and>
    extends din bl ib s din' (bl @ [x]) ib' t"
proof -
  define q where "q = length bytes div BSIZE"
  have len: "length bytes = q * BSIZE" using m by (auto simp: q_def)
  have n: "length bl = q" using st by (simp add: stored_def has_bytes_def len BSIZE_def)
  have "q + 1 \<le> (new + BSIZE - 1) div BSIZE" using r(2) len by (simp add: BSIZE_def)
  then have "blocks_of (q + 1) \<le> blocks_of ((new + BSIZE - 1) div BSIZE)" by (rule blocks_of_mono)
  then have "unat (freeblock s) + blocks_of (q + 1) \<le> FSSIZE + blocks_of q"
    using r(1) n st by (simp add: room_def stored_def has_bytes_def)
  then have "unat (freeblock s) + (if length bl = NDIRECT then 1 else 0) < FSSIZE"
    using n by (auto simp: blocks_of_def split: if_splits)
  moreover have "length bl < MAXFILE" using r len n by (simp add: room_def BSIZE_def)
  ultimately obtain din' x ib' t where nb: "new_block din bl ib s din' x ib' t"
    using st file_block_new unfolding stored_def by blast
  then have same: "map (\<lambda>b. the (img t b)) bl = map (\<lambda>b. the (img s b)) bl" by (simp add: new_block_def)
  have ok: "\<forall>b\<in>set bl. \<exists>d. img s b = Some d \<and> length d = BSIZE" using st by (simp add: stored_def has_bytes_def)
  have "bytes = concat (map (\<lambda>b. the (img s b)) bl)"
    using st blocks_length [OF ok] n len by (simp add: stored_def has_bytes_def)
  then have "last_block t din' bl x ib' zero_block bytes"
    using nb ok n m unfolding last_block_def same by (simp add: new_block_def q_def)
  then show ?thesis using nb n unfolding new_block_def q_def by metis
qed

text \<open>One round.\<close>

lemma iappend_round:
  assumes st: "stored s din bl ib bytes" and p: "p \<noteq> []" and r: "room s (length bytes) (length bytes + length p)"
    and n1: "n1 = min (length p) ((length bytes div BSIZE + 1) * BSIZE - length bytes)"
  shows "0 < n1 \<and> (\<exists>din' bl' ib' t. (\<forall>k. iappend_loop (Suc k) din (of_nat (length bytes)) p s =
      iappend_loop k din' (of_nat (length (bytes @ take n1 p))) (drop n1 p) t) \<and>
    stored t din' bl' ib' (bytes @ take n1 p) \<and> extends din bl ib s din' bl' ib' t)"
proof -
  define q where "q = length bytes div BSIZE"
  define m where "m = length bytes mod BSIZE"
  have len: "length bytes = q * BSIZE + m" and m: "m < BSIZE" by (simp_all add: q_def m_def BSIZE_def)
  have n1: "n1 = min (length p) (BSIZE - m)" "n1 \<le> length p" "0 < n1" using n1 p m len by (auto simp: q_def [symmetric])
  obtain din' x ib' t bs d where fb: "file_block din q s = Ok (din', x) t" and lb: "last_block t din' bs x ib' d bytes"
    and ex: "extends din bl ib s din' (bs @ [x]) ib' t"
  proof (cases "m = 0")
    case True
    then show thesis using that round_new [OF st _ r] p unfolding q_def m_def by auto
  next
    case False
    then show thesis using that round_partial [OF st] extends_refl [of din bl ib s] unfolding q_def m_def by metis
  qed
  define u where "u = t\<lparr>img := (img t)(x \<mapsto> splice d m (take n1 p))\<rparr>"
  have su: "stored u din' (bs @ [x]) ib' (bytes @ take n1 p)"
    unfolding u_def by (rule stored_write) (use lb n1 p m in \<open>auto simp: last_block_def m_def\<close>)
  have eu: "extends din bl ib s din' (bs @ [x]) ib' u" unfolding u_def by (rule extends_write [OF ex]) (simp add: owned_def)
  have "0 < length p" using p by simp
  then have big: "length bytes < MAXFILE * BSIZE" using r unfolding room_def by linarith
  then have qm: "q < MAXFILE" unfolding q_def by (simp add: less_mult_imp_div_less)
  have un: "unat (of_nat (length bytes) :: u32) = length bytes"
    using big by (simp add: unat_of_nat MAXFILE_def NDIRECT_def NINDIRECT_val BSIZE_def)
  define off :: u32 where "off = of_nat (length bytes)"
  have o: "unat off div BSIZE = q" "min (length p) (BSIZE + q * BSIZE - unat off) = n1" "unat off - q * BSIZE = m"
      "of_nat (length (bytes @ take n1 p)) = off + of_nat n1" "img t x = Some d"
    using un n1 len m lb by (simp_all add: off_def q_def [symmetric] last_block_def)
  have "iappend_loop (Suc k) din (of_nat (length bytes)) p s =
      iappend_loop k din' (of_nat (length (bytes @ take n1 p))) (drop n1 p) u" for k
    using p qm fb o unfolding off_def [symmetric] by (simp add: Let_def kbind_Ok kseq_Ok rsect_run wsect_run u_def)
  then show ?thesis using su eu n1(3) by blast
qed

lemma iappend_loop_run:
  assumes "stored s din bl ib bytes" and "length p \<le> k" and "room s (length bytes) (length bytes + length p)"
  shows "\<exists>din' bl' ib' t. iappend_loop k din (of_nat (length bytes)) p s = Ok (din', of_nat (length (bytes @ p))) t \<and>
    stored t din' bl' ib' (bytes @ p) \<and> extends din bl ib s din' bl' ib' t"
  using assms
proof (induction k arbitrary: s din bl ib bytes p)
  case 0
  then show ?case using extends_refl by (intro exI conjI) auto
next
  case (Suc k)
  show ?case
  proof (cases "p = []")
    case True
    then show ?thesis using Suc.prems extends_refl by (intro exI conjI) auto
  next
    case False
    define n1 where "n1 = min (length p) ((length bytes div BSIZE + 1) * BSIZE - length bytes)"
    obtain din1 bl1 ib1 t1 where pos: "0 < n1" and run: "iappend_loop (Suc k) din (of_nat (length bytes)) p s =
        iappend_loop k din1 (of_nat (length (bytes @ take n1 p))) (drop n1 p) t1"
      and st1: "stored t1 din1 bl1 ib1 (bytes @ take n1 p)" and ex1: "extends din bl ib s din1 bl1 ib1 t1"
      using iappend_round [OF Suc.prems(1) False Suc.prems(3) n1_def] by blast
    have "length (bytes @ take n1 p) + length (drop n1 p) = length bytes + length p" by (simp add: n1_def)
    then have "room t1 (length (bytes @ take n1 p)) (length (bytes @ take n1 p) + length (drop n1 p))"
      using room_extends [OF Suc.prems(1) st1 ex1 Suc.prems(3)] by (simp only:)
    moreover have le: "length (drop n1 p) \<le> k" using Suc.prems(2) pos by simp
    ultimately obtain din' bl' ib' t where "iappend_loop k din1 (of_nat (length (bytes @ take n1 p))) (drop n1 p) t1 =
        Ok (din', of_nat (length ((bytes @ take n1 p) @ drop n1 p))) t"
      and "stored t din' bl' ib' ((bytes @ take n1 p) @ drop n1 p)" and "extends din1 bl1 ib1 t1 din' bl' ib' t"
      using Suc.IH [OF st1 le] by blast
    then show ?thesis unfolding run append_assoc append_take_drop_id using extends_trans [OF ex1] by blast
  qed
qed

end
