(* ===== verification/MkImage.thy ===== *)
theory MkImage
  imports MkfsFiles Balloc
begin

text \<open>
  The image that \<open>mkfs\<close> builds, as a list of files: \<open>ialloc\<close> adds an empty one, \<open>iappend\<close> appends to one, and the
  whole program leaves the directory and the files that it was given.
\<close>

section \<open>Inodes on the image\<close>

definition dinode_in :: "(u32 \<Rightarrow> u8 list option) \<Rightarrow> u32 \<Rightarrow> inode" where
  "dinode_in im i = get_dinode (dinode_off i) (the (im (IBLOCK i mk_sb))) zero_dinode"

text \<open>The inode blocks have room for a few more inodes than \<open>NINODES\<close>.\<close>

definition inode_slots :: nat where "inode_slots = ninodeblocks * IPB"

lemma inode_slots_val: "inode_slots = 208" "nlog = 30" "unat j < NINODES \<Longrightarrow> unat j < inode_slots"
  by (simp_all add: inode_slots_def ninodeblocks_def NINODES_def IPB_def BSIZE_def DINODE_SIZE_def nlog_def LOGSIZE_def MAXOPBLOCKS_def)

lemma IBLOCK_val: "unat (IBLOCK i mk_sb) = (unat i div 16 + 32)"
proof -
  have "unat (i div 16) = unat i div 16" by (simp add: unat_div)
  moreover have "unat i div 16 + 32 < 2 ^ 32" using unsigned_less [of i, where ?'a = nat] by simp
  ultimately show ?thesis
    by (simp add: IBLOCK_def IPB_def BSIZE_def DINODE_SIZE_def mk_sb_def nlog_def LOGSIZE_def MAXOPBLOCKS_def
        unat_word_ariths unat_div)
qed

lemma bmapstart_val: "unat (sb_bmapstart mk_sb) = 45"
  by (simp add: mk_sb_def nlog_def LOGSIZE_def MAXOPBLOCKS_def ninodeblocks_def NINODES_def IPB_def BSIZE_def DINODE_SIZE_def)

definition meta_ok :: "(u32 \<Rightarrow> u8 list option) \<Rightarrow> bool" where
  "meta_ok im \<longleftrightarrow> (\<forall>b. unat b < nmeta \<longrightarrow> (\<exists>d. im b = Some d \<and> length d = BSIZE))"

lemma inode_block:
  assumes "meta_ok im" and "unat i < NINODES"
  obtains d where "im (IBLOCK i mk_sb) = Some d" "length d = BSIZE"
proof -
  have "unat (IBLOCK i mk_sb) < nmeta" using assms(2) by (simp add: IBLOCK_val nmeta_val NINODES_def)
  then show thesis using that assms(1) by (auto simp: meta_ok_def)
qed

lemma rinode_run: "meta_ok (img s) \<Longrightarrow> unat i < NINODES \<Longrightarrow> rinode i s = Ok (dinode_in (img s) i) s"
  by (erule (1) inode_block) (simp add: rinode_def kbind_Ok rsect_run dinode_in_def)

lemma winode_run:
  assumes "meta_ok (img s)" and i: "unat i < NINODES" and a: "length (i_addrs din) = NDIRECT + 1"
  shows "\<exists>im. winode i din s = Ok () (s\<lparr>img := im\<rparr>) \<and> meta_ok im \<and>
    dinode_in im i = din\<lparr>i_dev := 0, i_inum := 0, i_ref := 0, i_valid := False\<rparr> \<and>
    (\<forall>j. unat j < inode_slots \<and> j \<noteq> i \<longrightarrow> dinode_in im j = dinode_in (img s) j) \<and>
    (\<forall>b. unat b < 32 \<or> 45 \<le> unat b \<longrightarrow> im b = img s b)"
proof -
  obtain d where d: "img s (IBLOCK i mk_sb) = Some d" "length d = BSIZE" using assms(1) i by (rule inode_block)
  define d' where "d' = put_dinode din (dinode_off i) d"
  define im where "im = (img s)(IBLOCK i mk_sb \<mapsto> d')"
  have "winode i din s = Ok () (s\<lparr>img := im\<rparr>)"
    using d by (simp add: winode_def kbind_Ok rsect_run wsect_run im_def d'_def)
  moreover have "meta_ok im" using assms(1) get_put_dinode(2) [OF a d(2)] by (auto simp: meta_ok_def im_def d'_def)
  moreover have "dinode_in im i = din\<lparr>i_dev := 0, i_inum := 0, i_ref := 0, i_valid := False\<rparr>"
    using get_put_dinode(1) [OF a d(2)] by (simp add: dinode_in_def im_def d'_def zero_dinode_def)
  moreover have "dinode_in im j = dinode_in (img s) j" if j: "unat j < inode_slots" "j \<noteq> i" for j
  proof (cases "IBLOCK j mk_sb = IBLOCK i mk_sb")
    case True
    then have "unat j div 16 = unat i div 16" using IBLOCK_val [of i] IBLOCK_val [of j] by simp
    moreover have "unat j \<noteq> unat i" using j(2) by (simp add: word_unat_eq_iff)
    ultimately have "unat j mod 16 \<noteq> unat i mod 16" by (metis div_mult_mod_eq)
    then have "unat j mod IPB \<noteq> unat i mod IPB" by (simp add: IPB_def BSIZE_def DINODE_SIZE_def)
    then show ?thesis using get_put_dinode(3) [OF a d(2)] d(1) True by (simp add: dinode_in_def im_def d'_def)
  qed (simp add: dinode_in_def im_def)
  moreover have "im b = img s b" if "unat b < 32 \<or> 45 \<le> unat b" for b
  proof -
    have "b \<noteq> IBLOCK i mk_sb" using that IBLOCK_val [of i] i by (auto simp: NINODES_def)
    then show ?thesis by (simp add: im_def)
  qed
  ultimately show ?thesis by blast
qed

section \<open>The image as a list of files\<close>

text \<open>A file: its type, the size in its inode, and its bytes. The file at position \<open>i\<close> has inode \<open>i + 1\<close>.\<close>

type_synonym mkfile = "u16 \<times> nat \<times> u8 list"

definition inode_ok :: "(u32 \<Rightarrow> u8 list option) \<Rightarrow> u32 \<Rightarrow> mkfile \<Rightarrow> u32 list \<Rightarrow> u32 \<Rightarrow> bool" where
  "inode_ok im i f bl ib \<longleftrightarrow> i_type (dinode_in im i) = fst f \<and> i_nlink (dinode_in im i) = 1 \<and>
     i_major (dinode_in im i) = 0 \<and> i_minor (dinode_in im i) = 0 \<and>
     i_size (dinode_in im i) = of_nat (fst (snd f)) \<and> file_at im (dinode_in im i) bl ib \<and> has_bytes im bl (snd (snd f))"

definition file_cost :: "mkfile \<Rightarrow> nat" where
  "file_cost f = blocks_of ((length (snd (snd f)) + BSIZE - 1) div BSIZE)"

abbreviation ino :: "nat \<Rightarrow> u32" where "ino i \<equiv> of_nat (i + 1)"

text \<open>Every file has blocks of its own; \<open>freeblock\<close> and \<open>freeinode\<close> count what is in use.\<close>

definition layout :: "mkst \<Rightarrow> mkfile list \<Rightarrow> (nat \<Rightarrow> u32 list) \<Rightarrow> (nat \<Rightarrow> u32) \<Rightarrow> bool" where
  "layout s fs B I \<longleftrightarrow> (\<forall>i<length fs. inode_ok (img s) (ino i) (fs ! i) (B i) (I i) \<and> below s (owned (B i) (I i))) \<and>
     (\<forall>i<length fs. \<forall>j<length fs. i \<noteq> j \<longrightarrow> set (owned (B i) (I i)) \<inter> set (owned (B j) (I j)) = {})"

text \<open>What is not used: the boot block and the log, whose header has no transaction, are zero, and so is every inode but those
  of the first \<open>n\<close> files.\<close>

definition blank :: "(u32 \<Rightarrow> u8 list option) \<Rightarrow> nat \<Rightarrow> bool" where
  "blank im n \<longleftrightarrow> (\<forall>b. unat b < 2 + nlog \<and> b \<noteq> 1 \<longrightarrow> im b = Some zero_block) \<and>
     (\<forall>j. unat j < inode_slots \<and> (unat j = 0 \<or> n < unat j) \<longrightarrow> dinode_in im j = zero_dinode)"

text \<open>The image holds the files \<open>fs\<close> and nothing else.\<close>

definition holds :: "mkst \<Rightarrow> mkfile list \<Rightarrow> bool" where
  "holds s fs \<longleftrightarrow> fresh s \<and> meta_ok (img s) \<and> img s 1 = Some (splice zero_block 0 (sb_bytes mk_sb)) \<and>
     freeinode s = ino (length fs) \<and> length fs < NINODES \<and> unat (freeblock s) = nmeta + sum_list (map file_cost fs) \<and>
     blank (img s) (length fs) \<and> (\<exists>B I. layout s fs B I)"

text \<open>The files that the image has room for.\<close>

definition fits :: "mkfile list \<Rightarrow> bool" where
  "fits fs \<longleftrightarrow> length fs < NINODES \<and> (\<forall>f\<in>set fs. length (snd (snd f)) \<le> MAXFILE * BSIZE) \<and>
     nmeta + sum_list (map file_cost fs) \<le> FSSIZE"

lemma ino_val: "i < NINODES \<Longrightarrow> unat (ino i) = i + 1"
  by (simp add: NINODES_def unat_of_nat del: of_nat_add of_nat_Suc)

lemma file_at_cong:
  "(NDIRECT < length bl \<Longrightarrow> im' ib = im ib) \<Longrightarrow> file_at im' din bl ib = file_at im din bl ib"
  by (simp add: file_at_def indirect_ok_def)

lemma has_bytes_cong:
  "\<forall>b\<in>set bl. im' b = im b \<Longrightarrow> has_bytes im' bl bytes = has_bytes im bl bytes"
  by (simp add: has_bytes_def cong: map_cong)

lemma inode_ok_cong:
  "dinode_in im' i = dinode_in im i \<Longrightarrow> \<forall>b\<in>set (owned bl ib). im' b = im b \<Longrightarrow> inode_ok im' i f bl ib = inode_ok im i f bl ib"
  unfolding inode_ok_def using file_at_cong [of bl im' ib im] has_bytes_cong [of bl im' im] by (auto simp: owned_def)

text \<open>A change of one file.\<close>

lemma holds_update:
  assumes im: "layout s fs B I" and k: "k < length fs" and n: "length fs < NINODES"
    and ok: "inode_ok (img t) (ino k) f bl ib" "below t (owned bl ib)"
    and new: "\<forall>b\<in>set (owned bl ib). b \<in> set (owned (B k) (I k)) \<or> unat (freeblock s) \<le> unat b"
    and mono: "unat (freeblock s) \<le> unat (freeblock t)"
    and din: "\<forall>j. unat j < inode_slots \<and> j \<noteq> ino k \<longrightarrow> dinode_in (img t) j = dinode_in (img s) j"
    and same: "\<forall>b. nmeta \<le> unat b \<and> unat b < unat (freeblock s) \<and> b \<notin> set (owned (B k) (I k)) \<longrightarrow> img t b = img s b"
  shows "layout t (fs[k := f]) (B(k := bl)) (I(k := ib))"
proof -
  let ?B = "B(k := bl)" and ?I = "I(k := ib)"
  have apart: "set (owned (B j) (I j)) \<inter> set (owned bl ib) = {}" if j: "j < length fs" "j \<noteq> k" for j
  proof -
    have "below s (owned (B j) (I j))" "set (owned (B j) (I j)) \<inter> set (owned (B k) (I k)) = {}"
      using im j k by (auto simp: layout_def)
    then show ?thesis using new by (fastforce simp: below_def)
  qed
  have other: "inode_ok (img t) (ino j) (fs ! j) (B j) (I j) \<and> below t (owned (B j) (I j))" if j: "j < length fs" "j \<noteq> k" for j
  proof -
    have l: "inode_ok (img s) (ino j) (fs ! j) (B j) (I j)" "below s (owned (B j) (I j))"
      "set (owned (B j) (I j)) \<inter> set (owned (B k) (I k)) = {}" using im j k by (auto simp: layout_def)
    have v: "unat (ino j) = j + 1" "unat (ino k) = k + 1" using n j k ino_val by auto
    then have "ino j \<noteq> ino k" using j(2) by (auto simp del: of_nat_add of_nat_Suc)
    then have "dinode_in (img t) (ino j) = dinode_in (img s) (ino j)"
      using din inode_slots_val(3) [of "ino j"] v n j by (auto simp del: of_nat_add of_nat_Suc)
    moreover have "\<forall>b\<in>set (owned (B j) (I j)). img t b = img s b" using same l(2,3) by (fastforce simp: below_def)
    ultimately have "inode_ok (img t) (ino j) (fs ! j) (B j) (I j)" using l(1) inode_ok_cong by blast
    then show ?thesis using l(2) mono by (fastforce simp: below_def)
  qed
  show ?thesis unfolding layout_def
  proof (intro conjI allI impI)
    fix i assume "i < length (fs[k := f])"
    then show "inode_ok (img t) (ino i) (fs[k := f] ! i) (?B i) (?I i)" "below t (owned (?B i) (?I i))"
      using ok other k by (auto simp: nth_list_update)
  next
    fix i j assume "i < length (fs[k := f])" "j < length (fs[k := f])" "i \<noteq> j"
    then show "set (owned (?B i) (?I i)) \<inter> set (owned (?B j) (?I j)) = {}"
      using apart [of i] apart [of j] im by (auto simp: layout_def Int_commute)
  qed
qed

text \<open>Files that grow cost no less.\<close>

lemma file_cost_stored: "stored s din bl ib (snd (snd f)) \<Longrightarrow> file_cost f = length (owned bl ib)"
  by (simp add: file_cost_def stored_def has_bytes_def length_owned)

lemma cost_update:
  assumes "k < length fs"
  shows "sum_list (map file_cost (fs[k := f])) + file_cost (fs ! k) = sum_list (map file_cost fs) + file_cost f"
proof -
  have "file_cost (fs ! k) \<le> sum_list (map file_cost fs)" using assms elem_le_sum_list [of k "map file_cost fs"] by simp
  then show ?thesis unfolding map_update using assms by (subst sum_list_update) simp_all
qed

lemma stored_meta:
  assumes "stored s din bl ib bytes" and "extends din bl ib s din' bl' ib' t" and "unat b < nmeta"
  shows "img t b = img s b"
proof -
  have "b \<notin> set (owned bl ib)" "unat b < unat (freeblock s)" using assms(1,3) by (auto simp: stored_def below_def fresh_def)
  then show ?thesis using assms(2) by (simp add: extends_def grows_def)
qed

lemma file_at_addrs: "i_addrs din' = i_addrs din \<Longrightarrow> file_at im din' bl ib = file_at im din bl ib"
  by (simp add: file_at_def)

lemma holds_stored:
  assumes "holds s fs" and "layout s fs B I" and "k < length fs"
  shows "stored s (dinode_in (img s) (ino k)) (B k) (I k) (snd (snd (fs ! k)))"
  using assms by (simp add: holds_def layout_def inode_ok_def stored_def)

text \<open>The inode is written after the blocks.\<close>

lemma holds_winode:
  assumes im: "holds s fs" "layout s fs B I" and k: "k < length fs" and st: "stored t din' bl ib bytes"
    and ex: "extends (dinode_in (img s) (ino k)) (B k) (I k) s din' bl ib t"
  shows "\<exists>u. winode (ino k) (din'\<lparr>i_size := of_nat n\<rparr>) t = Ok () u \<and> holds u (fs[k := (fst (fs ! k), n, bytes)])"
proof -
  let ?din = "din'\<lparr>i_size := of_nat n\<rparr>"
  let ?f = "(fst (fs ! k), n, bytes)"
  have old: "stored s (dinode_in (img s) (ino k)) (B k) (I k) (snd (snd (fs ! k)))" by (rule holds_stored [OF im k])
  have len: "length fs < NINODES" and nk: "unat (ino k) < NINODES" using im(1) k ino_val [of k] by (simp_all add: holds_def)
  have same: "img t b = img s b" if "unat b < nmeta" for b by (rule stored_meta [OF old ex that])
  have mt: "meta_ok (img t)" using im(1) same by (simp add: holds_def meta_ok_def)
  have dt: "dinode_in (img t) j = dinode_in (img s) j" if "unat j < inode_slots" for j
    using same [of "IBLOCK j mk_sb"] IBLOCK_val [of j] that by (simp add: dinode_in_def nmeta_val inode_slots_val)
  have "length (i_addrs ?din) = NDIRECT + 1" using st by (simp add: stored_def file_at_def)
  from winode_run [OF mt nk this] obtain m where w: "winode (ino k) ?din t = Ok () (t\<lparr>img := m\<rparr>)" "meta_ok m"
    "dinode_in m (ino k) = ?din\<lparr>i_dev := 0, i_inum := 0, i_ref := 0, i_valid := False\<rparr>"
    "\<forall>j. unat j < inode_slots \<and> j \<noteq> ino k \<longrightarrow> dinode_in m j = dinode_in (img t) j"
    "\<forall>b. unat b < 32 \<or> 45 \<le> unat b \<longrightarrow> m b = img t b" by blast
  let ?u = "t\<lparr>img := m\<rparr>"
  have high: "m b = img t b" if "nmeta \<le> unat b" for b using w(5) that by (simp add: nmeta_val)
  have own: "\<forall>b\<in>set (owned bl ib). m b = img t b" using st high by (auto simp: stored_def below_def)
  have ok: "inode_ok m (ino k) ?f bl ib"
  proof -
    obtain a where a: "din' = dinode_in (img s) (ino k)\<lparr>i_addrs := a\<rparr>" using ex by (auto simp: extends_def)
    have "i_type din' = fst (fs ! k)" "i_nlink din' = 1" "i_major din' = 0" "i_minor din' = 0" using im(2) k by (simp_all add: a layout_def inode_ok_def)
    moreover have "file_at m din' bl ib = file_at (img t) din' bl ib" by (rule file_at_cong) (use own in \<open>simp add: owned_def\<close>)
    moreover have "has_bytes m bl bytes = has_bytes (img t) bl bytes" by (rule has_bytes_cong) (use own in \<open>simp add: owned_def\<close>)
    moreover have "file_at (img t) din' bl ib" "has_bytes (img t) bl bytes" using st by (simp_all add: stored_def)
    ultimately show ?thesis unfolding inode_ok_def w(3) by (subst file_at_addrs [of _ din']) simp_all
  qed
  have be: "below ?u (owned bl ib)" using st by (simp add: stored_def below_def)
  have e: "\<forall>b\<in>set (owned bl ib). b \<in> set (owned (B k) (I k)) \<or> unat (freeblock s) \<le> unat b"
    "unat (freeblock s) \<le> unat (freeblock t)" "freeinode t = freeinode s"
    "\<forall>b. unat b < unat (freeblock s) \<and> b \<notin> set (owned (B k) (I k)) \<longrightarrow> img t b = img s b"
    using ex unfolding extends_def grows_def by blast+
  have "layout ?u (fs[k := ?f]) (B(k := bl)) (I(k := ib))"
    by (rule holds_update [OF im(2) k len _ be e(1)]) (use ok e(2,4) dt w(4) high in simp_all)
  moreover have "unat (freeblock t) = nmeta + sum_list (map file_cost (fs[k := ?f]))"
    using cost_update [OF k, of ?f] im(1) ex file_cost_stored [OF old] file_cost_stored [of t din' bl ib ?f] st
    by (simp add: extends_def holds_def)
  moreover have "fresh ?u" using st high by (auto simp: stored_def fresh_def)
  moreover have "freeinode t = freeinode s" by (rule e(3))
  moreover have "m 1 = img s 1" using w(5) same by (simp add: nmeta_val)
  moreover have "blank m (length fs)"
  proof -
    have "j \<noteq> ino k" if "unat j = 0 \<or> length fs < unat j" for j using that k len ino_val [of k] by auto
    then show ?thesis using im(1) w(4,5) same dt by (simp add: holds_def blank_def nmeta_val inode_slots_val)
  qed
  ultimately show ?thesis using w(1,2) im(1) by (auto simp: holds_def)
qed

lemma iappend_run:
  assumes im: "holds s fs" and k: "k < length fs" and f: "fs ! k = (ty, length bytes, bytes)"
    and fit: "fits (fs[k := (ty, length (bytes @ p), bytes @ p)])"
  shows "\<exists>t. iappend (ino k) p s = Ok () t \<and> holds t (fs[k := (ty, length (bytes @ p), bytes @ p)])"
proof -
  obtain B I where l: "layout s fs B I" using im by (auto simp: holds_def)
  let ?din = "dinode_in (img s) (ino k)" and ?f = "(ty, length (bytes @ p), bytes @ p)"
  have st: "stored s ?din (B k) (I k) bytes" using holds_stored [OF im l k] f by simp
  have "?f \<in> set (fs[k := ?f])" using k by (simp add: set_update_memI)
  then have "length (bytes @ p) \<le> MAXFILE * BSIZE" using fit by (auto simp: fits_def)
  moreover have "unat (freeblock s) + file_cost ?f \<le> FSSIZE + file_cost (fs ! k)"
    using cost_update [OF k, of ?f] im fit by (simp add: holds_def fits_def)
  ultimately have "room s (length bytes) (length bytes + length p)" by (simp add: room_def file_cost_def f)
  then obtain din' bl ib t where t: "iappend_loop (length p) ?din (of_nat (length bytes)) p s = Ok (din', of_nat (length (bytes @ p))) t"
    "stored t din' bl ib (bytes @ p)" "extends ?din (B k) (I k) s din' bl ib t"
    using iappend_loop_run [OF st order_refl] by blast
  obtain u where u: "winode (ino k) (din'\<lparr>i_size := of_nat (length (bytes @ p))\<rparr>) t = Ok () u" "holds u (fs[k := ?f])"
    using holds_winode [OF im l k t(2,3), of "length (bytes @ p)"] by (auto simp: f simp del: of_nat_add of_nat_Suc)
  have "rinode (ino k) s = Ok ?din s" "i_size ?din = of_nat (length bytes)"
    using im l k ino_val [of k] f by (auto simp: holds_def layout_def inode_ok_def intro!: rinode_run simp del: of_nat_add of_nat_Suc)
  then show ?thesis using t(1) u by (auto simp: iappend_def kbind_Ok simp del: of_nat_add of_nat_Suc)
qed

section \<open>The program\<close>

lemma fresh_dinode: "file_at im (zero_dinode\<lparr>i_type := ty, i_nlink := 1, i_size := 0\<rparr>) [] 0"
  by (auto simp: file_at_def zero_dinode_def nth_replicate simp del: replicate_Suc)

lemma layout_snoc:
  assumes "layout s fs B I" and n: "length fs + 1 < NINODES" and "fresh s" and bl: "freeblock t = freeblock s"
    and new: "inode_ok (img t) (ino (length fs)) f [] 0"
    and din: "\<forall>j. unat j < inode_slots \<and> j \<noteq> ino (length fs) \<longrightarrow> dinode_in (img t) j = dinode_in (img s) j"
    and same: "\<forall>b. nmeta \<le> unat b \<longrightarrow> img t b = img s b"
  shows "layout t (fs @ [f]) (B(length fs := [])) (I(length fs := 0))"
proof -
  have old: "inode_ok (img t) (ino j) (fs ! j) (B j) (I j) \<and> below t (owned (B j) (I j))" if j: "j < length fs" for j
  proof -
    have l: "inode_ok (img s) (ino j) (fs ! j) (B j) (I j)" "below s (owned (B j) (I j))" using assms(1) j by (auto simp: layout_def)
    have v: "unat (ino j) = j + 1" "unat (ino (length fs)) = length fs + 1" using n j ino_val by auto
    then have "ino j \<noteq> ino (length fs)" using j by (auto simp del: of_nat_add of_nat_Suc)
    then have "dinode_in (img t) (ino j) = dinode_in (img s) (ino j)"
      using din inode_slots_val(3) [of "ino j"] v n j by (auto simp del: of_nat_add of_nat_Suc)
    moreover have "\<forall>b\<in>set (owned (B j) (I j)). img t b = img s b" using same l(2) by (simp add: below_def)
    ultimately have "inode_ok (img t) (ino j) (fs ! j) (B j) (I j)" using l(1) inode_ok_cong by blast
    then show ?thesis using l(2) bl by (simp add: below_def)
  qed
  have e: "owned [] 0 = []" "below t []" by (simp_all add: owned_def below_def)
  show ?thesis unfolding layout_def
  proof (intro conjI allI impI)
    fix i assume "i < length (fs @ [f])"
    then show "inode_ok (img t) (ino i) ((fs @ [f]) ! i) ((B(length fs := [])) i) ((I(length fs := 0)) i)"
      "below t (owned ((B(length fs := [])) i) ((I(length fs := 0)) i))"
      using new old e by (auto simp: nth_append less_Suc_eq simp del: of_nat_add of_nat_Suc)
  next
    fix i j assume "i < length (fs @ [f])" "j < length (fs @ [f])" "i \<noteq> j"
    then show "set (owned ((B(length fs := [])) i) ((I(length fs := 0)) i)) \<inter>
        set (owned ((B(length fs := [])) j) ((I(length fs := 0)) j)) = {}"
      using assms(1) e by (auto simp: layout_def less_Suc_eq)
  qed
qed

lemma ialloc_run:
  assumes im: "holds s fs" and n: "length fs + 1 < NINODES"
  shows "\<exists>t. Mkfs.ialloc ty s = Ok (ino (length fs)) t \<and> holds t (fs @ [(ty, 0, [])])"
proof -
  obtain B I where l: "layout s fs B I" using im by (auto simp: holds_def)
  let ?din = "zero_dinode\<lparr>i_type := ty, i_nlink := 1, i_size := 0\<rparr>" and ?s = "s\<lparr>freeinode := freeinode s + 1\<rparr>"
  have "meta_ok (img ?s)" "unat (ino (length fs)) < NINODES" "length (i_addrs ?din) = NDIRECT + 1"
    using im n ino_val [of "length fs"] by (auto simp: holds_def zero_dinode_def)
  from winode_run [OF this] obtain m where w: "winode (ino (length fs)) ?din ?s = Ok () (?s\<lparr>img := m\<rparr>)" "meta_ok m"
    "dinode_in m (ino (length fs)) = ?din\<lparr>i_dev := 0, i_inum := 0, i_ref := 0, i_valid := False\<rparr>"
    "\<forall>j. unat j < inode_slots \<and> j \<noteq> ino (length fs) \<longrightarrow> dinode_in m j = dinode_in (img ?s) j"
    "\<forall>b. unat b < 32 \<or> 45 \<le> unat b \<longrightarrow> m b = img ?s b" by blast
  have d: "dinode_in m (ino (length fs)) = ?din" unfolding w(3) by (simp add: zero_dinode_def)
  have "inode_ok m (ino (length fs)) (ty, 0, []) [] 0"
    unfolding inode_ok_def d using fresh_dinode [of m ty] by (simp add: has_bytes_def BSIZE_def zero_dinode_def)
  then have "layout (?s\<lparr>img := m\<rparr>) (fs @ [(ty, 0, [])]) (B(length fs := [])) (I(length fs := 0))"
    by (intro layout_snoc [OF l n]) (use im w(4,5) in \<open>auto simp: holds_def nmeta_val simp del: of_nat_add of_nat_Suc\<close>)
  moreover have "fresh (?s\<lparr>img := m\<rparr>)" using im w(5) by (auto simp: holds_def fresh_def nmeta_val)
  moreover have "file_cost (ty, 0, []) = 0" by (simp add: file_cost_def BSIZE_def blocks_of_def)
  moreover have "blank m (length fs + 1)"
  proof -
    have "j \<noteq> ino (length fs)" if "unat j = 0 \<or> length fs + 1 < unat j" for j using that n ino_val [of "length fs"] by auto
    moreover have "blank (img s) (length fs)" using im by (simp add: holds_def)
    ultimately show ?thesis using w(4,5) by (auto simp: blank_def inode_slots_val)
  qed
  ultimately have "holds (?s\<lparr>img := m\<rparr>) (fs @ [(ty, 0, [])])"
    using im n w(2,5) by (auto simp: holds_def)
  moreover have "Mkfs.ialloc ty s = Ok (ino (length fs)) (?s\<lparr>img := m\<rparr>)"
    using w(1) im by (simp add: Mkfs.ialloc_def kbind_Ok kseq_Ok holds_def del: of_nat_add of_nat_Suc)
  ultimately show ?thesis by blast
qed

text \<open>Files that are shorter, and fewer files, fit as well.\<close>

definition shorter :: "mkfile \<Rightarrow> mkfile \<Rightarrow> bool" where
  "shorter f g \<longleftrightarrow> length (snd (snd f)) \<le> length (snd (snd g))"

lemma shorter_cost: "shorter f g \<Longrightarrow> file_cost f \<le> file_cost g"
  unfolding shorter_def file_cost_def by (intro blocks_of_mono div_le_mono) simp

lemma fits_shorter:
  assumes "fits gs" and "list_all2 shorter fs gs"
  shows "fits fs"
proof -
  have "sum_list (map file_cost fs) \<le> sum_list (map file_cost gs)"
    using assms(2) by (induction rule: list_all2_induct) (auto intro: add_mono shorter_cost)
  moreover have "\<exists>g\<in>set gs. shorter f g" if "f \<in> set fs" for f
    using that assms(2) by (metis in_set_conv_nth list_all2_conv_all_nth)
  ultimately show ?thesis using assms by (fastforce simp: fits_def shorter_def dest: list_all2_lengthD)
qed

lemma fits_append: "fits (fs @ gs) \<Longrightarrow> fits fs"
  by (auto simp: fits_def)

lemma shorter_refl [simp]: "shorter f f" "list_all2 shorter fs fs"
  by (auto simp: shorter_def intro: list.rel_refl)

text \<open>A file that is read in pieces.\<close>

abbreviation whole :: "u16 \<Rightarrow> u8 list \<Rightarrow> mkfile" where "whole ty bytes \<equiv> (ty, length bytes, bytes)"

lemma iappend_pieces:
  assumes "holds s fs" and "k < length fs" and "fs ! k = whole ty bytes" and "fits (fs[k := whole ty (bytes @ concat ps)])"
  shows "\<exists>t. kfor (iappend (ino k)) ps s = Ok () t \<and> holds t (fs[k := whole ty (bytes @ concat ps)])"
  using assms
proof (induction ps arbitrary: s fs bytes)
  case Nil
  then show ?case by (metis append_Nil2 concat.simps(1) kfor.simps(1) kreturn_def list_update_id)
next
  case (Cons p ps)
  let ?fs = "fs[k := whole ty (bytes @ p)]"
  have "fits ?fs"
    by (rule fits_shorter [OF Cons.prems(4)]) (use Cons.prems(2) in \<open>auto simp: list_all2_conv_all_nth nth_list_update shorter_def\<close>)
  then obtain t where t: "iappend (ino k) p s = Ok () t" "holds t ?fs" using iappend_run [OF Cons.prems(1-3)] by blast
  have "fits (?fs[k := whole ty ((bytes @ p) @ concat ps)])" using Cons.prems(4) by simp
  from Cons.IH [OF t(2) _ _ this] obtain u where "kfor (iappend (ino k)) ps t = Ok () u"
    "holds u (?fs[k := whole ty ((bytes @ p) @ concat ps)])" using Cons.prems(2) by auto
  then show ?case using t(1) by (auto simp: kseq_Ok simp del: of_nat_add of_nat_Suc)
qed

definition name_ok :: "u8 list \<Rightarrow> bool" where
  "name_ok path \<longleftrightarrow> of_char (CHR ''/'') \<notin> set (if take 5 path = map of_char ''user/'' then drop 5 path else path) \<and>
     length (shortname path) \<le> DIRSIZ"

lemma add_file_run:
  assumes im: "holds s (whole T_DIR r # fs)" and nm: "name_ok path"
    and fit: "fits (whole T_DIR (r @ dirent (of_nat (length fs + 2)) (shortname path)) # fs @ [whole T_FILE (concat ps)])"
  shows "\<exists>t. add_file 1 (path, ps) s = Ok () t \<and>
    holds t (whole T_DIR (r @ dirent (of_nat (length fs + 2)) (shortname path)) # fs @ [whole T_FILE (concat ps)])"
proof -
  let ?i = "of_nat (length fs + 2) :: u32" and ?r = "r @ dirent (of_nat (length fs + 2)) (shortname path)"
  have n: "length (whole T_DIR r # fs) + 1 < NINODES" using fit by (simp add: fits_def)
  obtain t where t: "Mkfs.ialloc T_FILE s = Ok ?i t" "holds t (whole T_DIR r # fs @ [whole T_FILE []])"
    using ialloc_run [OF im n, of T_FILE] by auto
  have "fits (whole T_DIR ?r # fs @ [whole T_FILE []])"
    by (rule fits_shorter [OF fit]) (auto simp: list_all2_append shorter_def)
  then obtain u where u: "iappend 1 (dirent ?i (shortname path)) t = Ok () u" "holds u (whole T_DIR ?r # fs @ [whole T_FILE []])"
    using iappend_run [OF t(2), of 0 T_DIR r "dirent ?i (shortname path)"] by auto
  obtain v where v: "kfor (iappend ?i) ps u = Ok () v" "holds v (whole T_DIR ?r # fs @ [whole T_FILE (concat ps)])"
    using iappend_pieces [OF u(2), of "length fs + 1" T_FILE "[]" ps] fit
    by (auto simp: nth_append list_update_append)
  have "add_file 1 (path, ps) s = Ok () v"
    using nm t(1) u(1) v(1) by (auto simp: add_file_def name_ok_def Let_def kbind_Ok kseq_Ok)
  then show ?thesis using v(2) by blast
qed

primrec entries :: "nat \<Rightarrow> (u8 list \<times> u8 list list) list \<Rightarrow> u8 list" where
  "entries n [] = []"
| "entries n (f # fs) = dirent (of_nat n) (shortname (fst f)) @ entries (n + 1) fs"

definition contents :: "(u8 list \<times> u8 list list) list \<Rightarrow> mkfile list" where
  "contents files = map (\<lambda>f. whole T_FILE (concat (snd f))) files"

lemma add_files_run:
  assumes "holds s (whole T_DIR r # fs)" and "\<forall>f\<in>set files. name_ok (fst f)"
    and "fits (whole T_DIR (r @ entries (length fs + 2) files) # fs @ contents files)"
  shows "\<exists>t. kfor (add_file 1) files s = Ok () t \<and>
    holds t (whole T_DIR (r @ entries (length fs + 2) files) # fs @ contents files)"
  using assms
proof (induction files arbitrary: s r fs)
  case Nil
  then show ?case by (simp add: contents_def)
next
  case (Cons f files)
  obtain path ps where f: "f = (path, ps)" by (cases f)
  let ?d = "dirent (of_nat (length fs + 2)) (shortname path)"
  have fit: "fits ((whole T_DIR (r @ ?d @ entries (length fs + 3) files) # fs @ [whole T_FILE (concat ps)]) @ contents files)"
    using Cons.prems(3) by (simp add: f contents_def numeral_eq_Suc)
  have "fits (whole T_DIR (r @ ?d) # fs @ [whole T_FILE (concat ps)])"
    by (rule fits_shorter [OF fits_append [OF fit]]) (auto simp: list_all2_append shorter_def)
  moreover have "name_ok path" using Cons.prems(2) by (simp add: f)
  ultimately obtain t where t: "add_file 1 f s = Ok () t" "holds t (whole T_DIR (r @ ?d) # fs @ [whole T_FILE (concat ps)])"
    using add_file_run [OF Cons.prems(1)] unfolding f by blast
  have "\<exists>u. kfor (add_file 1) files t = Ok () u \<and>
      holds u (whole T_DIR ((r @ ?d) @ entries (length (fs @ [whole T_FILE (concat ps)]) + 2) files) #
        (fs @ [whole T_FILE (concat ps)]) @ contents files)"
    by (rule Cons.IH [OF t(2)]) (use Cons.prems(2) fit in \<open>auto simp: numeral_eq_Suc\<close>)
  then show ?case using t(1) by (auto simp: f contents_def kseq_Ok numeral_eq_Suc)
qed

definition dir_size :: "nat \<Rightarrow> nat" where
  "dir_size n = (n div BSIZE + 1) * BSIZE"

lemma of_nat_div_word: "n < 2 ^ 32 \<Longrightarrow> (of_nat n :: u32) div of_nat BSIZE = of_nat (n div BSIZE)"
  by (simp add: word_unat_eq_iff unat_div unat_of_nat take_bit_nat_eq_self BSIZE_def order_le_less_trans [OF div_le_dividend])

lemma fix_root_run:
  assumes im: "holds s (whole T_DIR r # fs)" and "length r \<le> MAXFILE * BSIZE"
  shows "\<exists>t. fix_root 1 s = Ok () t \<and> holds t ((T_DIR, dir_size (length r), r) # fs)"
proof -
  obtain B I where l: "layout s (whole T_DIR r # fs) B I" using im by (auto simp: holds_def)
  let ?din = "dinode_in (img s) (ino 0)"
  have st: "stored s ?din (B 0) (I 0) r" using holds_stored [OF im l, of 0] by simp
  have z: "i_size ?din = of_nat (length r)" using l by (auto simp: layout_def inode_ok_def)
  obtain t where t: "winode (ino 0) (?din\<lparr>i_size := of_nat (dir_size (length r))\<rparr>) s = Ok () t"
    "holds t ((T_DIR, dir_size (length r), r) # fs)"
    using holds_winode [OF im l _ st extends_refl, of "dir_size (length r)"] by auto
  have "length r < 2 ^ 32" using assms(2) by (simp add: MAXFILE_def NDIRECT_def NINDIRECT_val BSIZE_def)
  then have "(i_size ?din div of_nat BSIZE + 1) * of_nat BSIZE = of_nat (dir_size (length r))"
    unfolding z by (simp add: of_nat_div_word dir_size_def distrib_right)
  moreover have "rinode 1 s = Ok ?din s" using im rinode_run [of s 1] by (simp add: holds_def NINODES_def)
  ultimately have "fix_root 1 s = Ok () t" using t(1) by (simp add: fix_root_def kbind_Ok)
  then show ?thesis using t(2) by blast
qed

text \<open>The bitmap has the bits of the blocks below \<open>n\<close>.\<close>

lemma bitmap_bits:
  "n \<le> BPB \<Longrightarrow> length (foldl (\<lambda>buf i. mark_used i buf) zero_block [0..<n]) = BSIZE \<and>
    (\<forall>x<BPB. bit_used (foldl (\<lambda>buf i. mark_used i buf) zero_block [0..<n]) x \<longleftrightarrow> x < n)"
proof (induction n)
  case 0
  then show ?case by (simp add: bit_used_def BPB_def)
next
  case (Suc n)
  then show ?case using mark_bits(1) [of n "foldl (\<lambda>buf i. mark_used i buf) zero_block [0..<n]"]
    by (auto simp: BPB_def mark_used_def)
qed

lemma balloc_run:
  assumes im: "holds s fs" and n: "unat (freeblock s) \<le> FSSIZE"
  shows "\<exists>t. Mkfs.balloc (unat (freeblock s)) s = Ok () t \<and> holds t fs \<and>
    (\<forall>x<BPB. in_use mk_sb (\<lambda>b. the (img t b)) x \<longleftrightarrow> x < unat (freeblock t))"
proof -
  let ?bm = "foldl (\<lambda>buf i. mark_used i buf) zero_block [0..<unat (freeblock s)]" and ?b = "sb_bmapstart mk_sb"
  define m where "m = (img s)(?b \<mapsto> ?bm)"
  have small: "unat (freeblock s) < BPB" using n by (simp add: FSSIZE_def BPB_val)
  then have bits: "length ?bm = BSIZE" "\<forall>x<BPB. bit_used ?bm x \<longleftrightarrow> x < unat (freeblock s)"
    using bitmap_bits [of "unat (freeblock s)"] by auto
  have mb: "m b = img s b" if "unat b \<noteq> 45" for b using that bmapstart_val by (auto simp: m_def)
  have mok: "meta_ok m" using im bits(1) by (auto simp: holds_def meta_ok_def m_def)
  have din: "dinode_in m j = dinode_in (img s) j" if "unat j < inode_slots" for j
    using mb [of "IBLOCK j mk_sb"] IBLOCK_val [of j] that by (simp add: dinode_in_def inode_slots_val)
  obtain B I where l: "layout s fs B I" using im by (auto simp: holds_def)
  have "inode_ok m (ino i) (fs ! i) (B i) (I i)" if i: "i < length fs" for i
  proof -
    have "inode_ok (img s) (ino i) (fs ! i) (B i) (I i)" "below s (owned (B i) (I i))" using l i by (auto simp: layout_def)
    moreover have "dinode_in m (ino i) = dinode_in (img s) (ino i)" using im i ino_val [of i] by (intro din inode_slots_val(3)) (simp add: holds_def)
    moreover have "\<forall>b\<in>set (owned (B i) (I i)). m b = img s b" using calculation(2) mb by (auto simp: below_def nmeta_val)
    ultimately show ?thesis using inode_ok_cong by blast
  qed
  then have "layout (s\<lparr>img := m\<rparr>) fs B I" using l by (simp add: layout_def below_def)
  moreover have "fresh (s\<lparr>img := m\<rparr>)" using im mb by (auto simp: holds_def fresh_def nmeta_val)
  moreover have "blank m (length fs)" using im mb din by (simp add: holds_def blank_def inode_slots_val)
  ultimately have "holds (s\<lparr>img := m\<rparr>) fs" using im mok mb [of 1] by (auto simp: holds_def)
  moreover have "in_use mk_sb (\<lambda>b. the (m b)) x \<longleftrightarrow> x < unat (freeblock s)" if "x < BPB" for x
  proof -
    have "BBLOCK (of_nat x) mk_sb = ?b" "x mod BPB = x"
      using that BBLOCK_nat [of x mk_sb] by (simp_all add: BPB_val)
    then show ?thesis using bits(2) that by (simp add: in_use_def m_def)
  qed
  moreover have "Mkfs.balloc (unat (freeblock s)) s = Ok () (s\<lparr>img := m\<rparr>)"
    using small by (simp add: Mkfs.balloc_def wsect_run m_def)
  ultimately show ?thesis by (intro exI [of _ "s\<lparr>img := m\<rparr>"]) simp
qed

text \<open>Before the first inode: every block is zero, and the superblock is written.\<close>

lemma zero_run:
  "n \<le> FSSIZE \<Longrightarrow> kfor (\<lambda>i. wsect (of_nat i) zero_block) [0..<n] s =
     Ok () (s\<lparr>img := (\<lambda>b. if unat b < n then Some zero_block else img s b)\<rparr>)"
proof (induction n)
  case (Suc n)
  have "unat b = n \<longleftrightarrow> b = of_nat n" for b :: u32 using Suc.prems by (auto simp: FSSIZE_def unat_of_nat)
  then have "(\<lambda>b :: u32. if unat b < n then Some zero_block else img s b)(of_nat n \<mapsto> zero_block) =
      (\<lambda>b. if unat b < Suc n then Some zero_block else img s b)" by (auto simp: less_Suc_eq)
  then show ?case using Suc by (simp add: kfor_append kseq_Ok wsect_run)
qed simp

lemma zero_inode: "get_dinode (dinode_off j) zero_block zero_dinode = zero_dinode"
proof -
  have off: "dinode_off j + 64 \<le> BSIZE" using dinode_off_bound [of j] by (simp add: DINODE_SIZE_def)
  then have "map (\<lambda>k. get32 zero_block (dinode_off j + 12 + 4 * k)) [0..<NDIRECT + 1] = map (\<lambda>_. 0) [0..<NDIRECT + 1]"
    by (intro map_cong get_word_zero) (auto simp: NDIRECT_def)
  then show ?thesis
    using off by (simp add: get_dinode_def zero_dinode_def get_word_zero map_replicate_const del: upt_Suc)
qed

lemma parse_mk_sb: "parse_sb (splice zero_block 0 (sb_bytes mk_sb)) = mk_sb"
  by code_simp

definition mk_files :: "(u8 list \<times> u8 list list) list \<Rightarrow> mkfile list" where
  "mk_files files =
     (let d = dirent 1 (map of_char ''.'') @ dirent 1 (map of_char ''..'') @ entries 2 files in
      (T_DIR, dir_size (length d), d) # contents files)"

text \<open>C27. \<open>mkfs\<close>, given files whose names it accepts and that fit on the disk, ends without a failed assertion, and the
  image of \<open>FSSIZE\<close> blocks that it leaves holds exactly the root directory, with an entry for itself, its parent and every
  file in order, and those files, each with the bytes that were read: every inode of a file has its type, one link and
  its size (the directory's rounded up past its last block), and reaches, through its direct addresses and its indirect
  block, blocks that no other file has, which hold the bytes and then zeros. All the rest is zero: the boot block,
  the log with its header, every other inode and every block that was not given out. The superblock is the one that the
  kernel's \<open>readsb\<close> parses, and the kernel's bitmap says that a block is in use exactly when it lies below the first block
  that was not given out.\<close>

theorem mkfs_builds_image:
  assumes "\<forall>f\<in>set files. name_ok (fst f)" and "fits (mk_files files)"
  shows "\<exists>t. mkfs_main files mkst0 = Ok () t \<and> holds t (mk_files files) \<and> parse_sb (the (img t 1)) = mk_sb \<and>
    (\<forall>x<BPB. in_use mk_sb (\<lambda>b. the (img t b)) x \<longleftrightarrow> x < unat (freeblock t))"
proof -
  let ?d1 = "dirent 1 (map of_char ''.'')" and ?d2 = "dirent 1 (map of_char ''..'')"
  define d where "d = (?d1 @ ?d2) @ entries 2 files"
  have mk: "mk_files files = (T_DIR, dir_size (length d), d) # contents files" by (simp add: mk_files_def d_def Let_def)
  have fit: "fits (whole T_DIR d # contents files)"
    by (rule fits_shorter [OF assms(2)]) (simp add: mk shorter_def)
  have pre: "fits [whole T_DIR x]" if "length x \<le> length d" for x
    using fits_append [of "[whole T_DIR d]" "contents files"] fit that by (auto intro: fits_shorter simp: shorter_def)
  define s0 where "s0 = mkst0\<lparr>freeblock := of_nat nmeta,
    img := (\<lambda>b. if unat b < FSSIZE then Some zero_block else None)(1 \<mapsto> splice zero_block 0 (sb_bytes mk_sb))\<rparr>"
  define z0 where "z0 = mkst0\<lparr>freeblock := of_nat nmeta, img := (\<lambda>b. if unat b < FSSIZE then Some zero_block else None)\<rparr>"
  have z: "kfor (\<lambda>i. wsect (of_nat i) zero_block) [0..<FSSIZE] (mkst0\<lparr>freeblock := of_nat nmeta\<rparr>) = Ok () z0"
    by (simp add: zero_run z0_def mkst0_def cong: if_cong)
  have w: "wsect 1 (splice zero_block 0 (sb_bytes mk_sb)) z0 = Ok () s0" by (simp add: wsect_run z0_def s0_def)
  have "length (sb_bytes mk_sb) \<le> BSIZE" by code_simp
  moreover have "blank (img s0) 0"
  proof -
    have "img s0 (IBLOCK j mk_sb) = Some zero_block" if "unat j < inode_slots" for j
      using that IBLOCK_val [of j] by (auto simp: s0_def inode_slots_val FSSIZE_def)
    then show ?thesis by (auto simp: blank_def dinode_in_def zero_inode) (auto simp: s0_def inode_slots_val FSSIZE_def)
  qed
  ultimately have "holds s0 []"
    by (auto simp: holds_def layout_def fresh_def meta_ok_def s0_def mkst0_def nmeta_val FSSIZE_def NINODES_def)
  from ialloc_run [OF this, of T_DIR] obtain s1 where s1: "Mkfs.ialloc T_DIR s0 = Ok 1 s1" "holds s1 [whole T_DIR []]"
    by (auto simp: NINODES_def)
  obtain s2 where s2: "iappend 1 ?d1 s1 = Ok () s2" "holds s2 [whole T_DIR ?d1]"
    using iappend_run [OF s1(2), of 0 T_DIR "[]" ?d1] pre [of ?d1] by (auto simp: d_def)
  obtain s3 where s3: "iappend 1 ?d2 s2 = Ok () s3" "holds s3 [whole T_DIR (?d1 @ ?d2)]"
    using iappend_run [OF s2(2), of 0 T_DIR ?d1 ?d2] pre [of "?d1 @ ?d2"] by (auto simp: d_def)
  obtain s4 where s4: "kfor (add_file 1) files s3 = Ok () s4" "holds s4 (whole T_DIR d # contents files)"
    using add_files_run [OF s3(2) assms(1)] fit by (auto simp: d_def numeral_2_eq_2)
  obtain s5 where s5: "fix_root 1 s4 = Ok () s5" "holds s5 (mk_files files)"
    using fix_root_run [OF s4(2)] fit unfolding mk by (auto simp: fits_def)
  have "unat (freeblock s5) \<le> FSSIZE" using s5(2) assms(2) by (simp add: holds_def fits_def)
  from balloc_run [OF s5(2) this] obtain t where t: "Mkfs.balloc (unat (freeblock s5)) s5 = Ok () t" "holds t (mk_files files)"
    "\<forall>x<BPB. in_use mk_sb (\<lambda>b. the (img t b)) x \<longleftrightarrow> x < unat (freeblock t)" by blast
  have "mkfs_main files mkst0 = Ok () t"
    using s1(1) s2(1) s3(1) s4(1) s5(1) t(1) w by (simp add: mkfs_main_def kbind_Ok kseq_Ok z ROOTINO_def)
  moreover have "parse_sb (the (img t 1)) = mk_sb" using t(2) parse_mk_sb by (simp add: holds_def)
  ultimately show ?thesis using t(2,3) by blast
qed

text \<open>The image with one program, read in two pieces.\<close>

theorem mkfs_builds_image_witness:
  "\<exists>t. mkfs_main [(map of_char ''user/_init'', [replicate 1024 7, [1, 2, 3]])] mkst0 = Ok () t \<and>
     holds t (mk_files [(map of_char ''user/_init'', [replicate 1024 7, [1, 2, 3]])]) \<and> parse_sb (the (img t 1)) = mk_sb \<and>
     (\<forall>x<BPB. in_use mk_sb (\<lambda>b. the (img t b)) x \<longleftrightarrow> x < unat (freeblock t))"
proof (rule mkfs_builds_image)
  show "\<forall>f\<in>set [(map of_char ''user/_init'', [replicate 1024 7, [1, 2, 3]])]. name_ok (fst f)" by code_simp
  show "fits (mk_files [(map of_char ''user/_init'', [replicate 1024 7, [1, 2, 3]])])"
    by (simp add: fits_def mk_files_def contents_def file_cost_def blocks_of_def dirent_def shortname_def nmeta_val NINODES_def
        FSSIZE_def MAXFILE_def NDIRECT_def NINDIRECT_val BSIZE_def DIRSIZ_def Let_def)
qed

end
