(* ===== verification/Sysinfo.thy ===== *)
theory Sysinfo
  imports Vdisk Sysproc
begin

text \<open>
  The lab's \<open>sysinfo\<close>: what the user finds in its memory after the call is what the page allocator, the process table
  and the file table hold.
\<close>

definition procs_used :: "proc list \<Rightarrow> nat" where
  "procs_used ps = length (filter (\<lambda>q. p_state q \<noteq> UNUSED) ps)"

definition files_open :: "kfile list \<Rightarrow> nat" where
  "files_open fs = length (filter (\<lambda>f. f_ref f > 0) fs)"

lemma held_idle: "held s = [] \<Longrightarrow> s\<lparr>held := []\<rparr> = s"
  by (cases s) simp

lemma nproc_loop_run:
  "held s = [] \<Longrightarrow> nproc_loop n ps s = Ok (n + int (length (filter (\<lambda>p. p_state (procs s ! p) \<noteq> UNUSED) ps))) s"
  by (induction ps arbitrary: n) (simp_all add: kseq_Ok kbind_Ok acquire_run release_run held_idle)

lemma nproc_run: "held s = [] \<Longrightarrow> length (procs s) = NPROC \<Longrightarrow> nproc s = Ok (int (procs_used (procs s))) s"
proof -
  assume h: "held s = []" and n: "length (procs s) = NPROC"
  have "map ((!) (procs s)) [0..<NPROC] = procs s" unfolding n [symmetric] by (rule map_nth)
  then have "procs_used (procs s) = length (filter (\<lambda>p. p_state (procs s ! p) \<noteq> UNUSED) [0..<NPROC])"
    unfolding procs_used_def by (metis (no_types, lifting) comp_def filter_cong filter_map length_map)
  then show ?thesis using nproc_loop_run [OF h, of 0] by (simp add: nproc_def)
qed

lemma fileopencount_run: "held s = [] \<Longrightarrow> fileopencount s = Ok (int (files_open (ftable s))) s"
  by (simp add: fileopencount_def files_open_def kseq_Ok kbind_Ok acquire_run release_run held_idle)

text \<open>C28. \<open>sysinfo\<close>, called by a running process with no lock held, always returns. It returns 0 exactly when the 12
  bytes at the address it was given can be written by the user, and then the user reads there the number of bytes of
  free memory, the number of processes whose state is not \<open>UNUSED\<close> and the number of open files, as the kernel's
  data structures have them; otherwise it returns \<open>-1\<close>. Nothing but user memory changes.\<close>

theorem sysinfo_reports:
  assumes p: "curproc s = Some p" "held s = []" "length (procs s) = NPROC"
    and pt: "pt = p_pagetable (procs s ! p)" and addr: "addr = load64 (mem s) (p_trapframe (procs s ! p) + tf_off TF_a0)"
    and u: "uvm s fs pt S Z" "user_owned (mem s) pt S"
  shows "\<exists>r t. sys_sysinfo s = Ok r t \<and> t = s\<lparr>mem := mem t\<rparr> \<and> (r = 0 \<or> r = - 1) \<and>
    (r = 0 \<longleftrightarrow> (\<forall>i < 12. uwok (mem s) pt (addr + of_nat i))) \<and>
    (r = 0 \<longrightarrow> copyin pt addr 12 t = Ok (0, le_bytes 4 (of_nat (4096 * length fs) :: u32) @
       le_bytes 4 (of_nat (procs_used (procs s)) :: u32) @ le_bytes 4 (of_nat (files_open (ftable s)) :: u32)) t)"
proof -
  define src where "src = sysinfo_bytes (4096 * int (length fs)) (int (procs_used (procs s))) (int (files_open (ftable s)))"
  have src: "src = le_bytes 4 (of_nat (4096 * length fs) :: u32) @ le_bytes 4 (of_nat (procs_used (procs s)) :: u32) @
      le_bytes 4 (of_nat (files_open (ftable s)) :: u32)" by (simp add: src_def sysinfo_bytes_def)
  have len: "length src = 12" by (simp add: src)
  obtain r t where t: "copyout pt addr src s = Ok r t" "copied_out s fs pt S Z t"
    "if \<forall>i < length src. uwok (mem s) pt (addr + of_nat i)
     then r = 0 \<and> (\<forall>a. uok (mem s) pt a \<longrightarrow> uget (mem t) pt a =
       (if unat (a - addr) < length src then src ! unat (a - addr) else uget (mem s) pt a))
     else r = - 1" using copyout_run [OF u, of src addr] len by auto
  have k: "kmem_inv s fs" using u(1) by (simp add: uvm_def pt_inv_def)
  have "sysinfo addr s = Ok (if r < 0 then - 1 else 0) t"
    using p t(1) freemem_run [OF k] nproc_run [OF p(2,3)] fileopencount_run [OF p(2)]
    by (simp add: sysinfo_def this_proc_def myproc_def kbind_Ok pt src_def)
  then have run: "sys_sysinfo s = Ok (if r < 0 then - 1 else 0) t"
    using p(1) by (simp add: sys_sysinfo_def argaddr_def argraw_def this_proc_def myproc_def kbind_Ok addr)
  have mt: "t = s\<lparr>mem := mem t\<rparr>" using t(2) by (simp add: copied_out_def)
  show ?thesis
  proof (cases "\<forall>i < 12. uwok (mem s) pt (addr + of_nat i)")
    case True
    then have "copyin pt addr 12 t = Ok (0, src) t" "r = 0"
      using copyout_reads_back [OF t(2), of src addr] t(3) len by auto
    then show ?thesis using True run mt src by (intro exI [of _ 0] exI [of _ t]) simp
  next
    case False
    then have "r = - 1" using t(3) len by auto
    then show ?thesis using False run mt by (intro exI [of _ "- 1"] exI [of _ t]) simp
  qed
qed

definition sysst0 :: sysst where
  "sysst0 = vdisk.extend vdisk0 (sysst.fields 0)"

lemma sysst0_simps:
  "held sysst0 = []" "curproc sysst0 = Some 0" "length (procs sysst0) = NPROC" "mem sysst0 = mem space1" "kend sysst0 = kend space1"
  "freelist sysst0 = freelist space1" "procs sysst0 ! 0 = proc0\<lparr>p_state := RUNNING, p_pagetable := 0x87ff0000\<rparr>"
  using pipest0_simps
  by (simp_all add: sysst0_def vdisk0_def vdisk.defs filest.defs pipest.defs sysst.defs)

text \<open>The whole call, in a state with one process that has one page of memory.\<close>

theorem sysinfo_reports_witness:
  "\<exists>r t. sys_sysinfo sysst0 = Ok r t \<and> (r = 0 \<or> r = - 1) \<and>
     (r = 0 \<longleftrightarrow> (\<forall>i < 12. uwok (mem sysst0) 0x87ff0000 (load64 (mem sysst0) (p_trapframe (procs sysst0 ! 0) + tf_off TF_a0) + of_nat i)))"
proof -
  obtain gs where u: "uvm space1 gs 0x87ff0000 {0} {1..<2 ^ 27}" using space1_uvm(1) by blast
  then have v: "uvm sysst0 gs 0x87ff0000 {0} {1..<2 ^ 27}" by (rule uvm_cong) (simp_all add: sysst0_simps)
  have o: "user_owned (mem sysst0) 0x87ff0000 {0}" using space1_uvm(2) by (simp add: sysst0_simps)
  have "0x87ff0000 = p_pagetable (procs sysst0 ! 0)" by (simp add: sysst0_simps)
  from sysinfo_reports [OF sysst0_simps(2,1,3) this refl v o] show ?thesis by blast
qed

end
