(* ===== verification/Umalloc.thy ===== *)
theory Umalloc
  imports Ulib
begin

text \<open>
  \<open>user/umalloc.c\<close>: the allocator of Kernighan and Ritchie. A pointer is the number of its address, and the two
  fields of the headers are maps from addresses; what a program stores in its blocks is not modelled. The sizes are
  unsigned ints that count headers of 16 bytes. The free blocks are a ring in the order of their addresses. The
  allocator is compared with the set of the free and the set of the allocated blocks.
\<close>

section \<open>The program\<close>

record uheap =
  ptr_at :: "nat \<Rightarrow> nat"
  size_at :: "nat \<Rightarrow> nat"
  freep :: nat
  base :: nat

abbreviation set_ptr :: "nat \<Rightarrow> nat \<Rightarrow> uheap \<Rightarrow> uheap" where
  "set_ptr p v h \<equiv> h\<lparr>ptr_at := (ptr_at h)(p := v)\<rparr>"

abbreviation set_size :: "nat \<Rightarrow> nat \<Rightarrow> uheap \<Rightarrow> uheap" where
  "set_size p v h \<equiv> h\<lparr>size_at := (size_at h)(p := v mod 2 ^ 32)\<rparr>"

text \<open>The loop of \<open>free\<close>, which may not end if the ring is broken.\<close>

partial_function (option) free_find :: "uheap \<Rightarrow> nat \<Rightarrow> nat \<Rightarrow> nat option" where
  "free_find h bp p =
     (if bp > p \<and> bp < ptr_at h p then Some p
      else if p \<ge> ptr_at h p \<and> (bp > p \<or> bp < ptr_at h p) then Some p
      else free_find h bp (ptr_at h p))"

declare free_find.simps [code]

definition free_join :: "nat \<Rightarrow> nat \<Rightarrow> uheap \<Rightarrow> uheap" where
  "free_join bp p h =
     (let nx = ptr_at h p;
          h = (if bp + 16 * size_at h bp = nx
               then set_ptr bp (ptr_at h nx) (set_size bp (size_at h bp + size_at h nx) h)
               else set_ptr bp nx h);
          h = (if p + 16 * size_at h p = bp
               then set_ptr p (ptr_at h bp) (set_size p (size_at h p + size_at h bp) h)
               else set_ptr p bp h) in
      h\<lparr>freep := p\<rparr>)"

definition free :: "uheap \<Rightarrow> nat \<Rightarrow> uheap option" where
  "free h ap = (let bp = ap - 16 in map_option (\<lambda>p. free_join bp p h) (free_find h bp (freep h)))"

text \<open>\<open>sbrk\<close> takes the number of bytes as an \<open>int\<close>.\<close>

definition morecore :: "uheap \<Rightarrow> nat \<Rightarrow> (uheap \<Rightarrow> nat \<Rightarrow> uproc) \<Rightarrow> uproc" where
  "morecore h n k =
     (let nu = (if n < 4096 then 4096 else n) in
      USys (Sbrk (of_nat (nu * 16))) (\<lambda>r.
        if res_val r = - 1 then k h 0
        else
          let hp = nat (res_val r) in
          case free (set_size hp nu h) (hp + 16) of
            None \<Rightarrow> UStuck
          | Some h' \<Rightarrow> k h' (freep h')))"

text \<open>The block \<open>p\<close> is large enough.\<close>

definition malloc_take :: "uheap \<Rightarrow> nat \<Rightarrow> nat \<Rightarrow> nat \<Rightarrow> uheap \<times> nat" where
  "malloc_take h nunits prevp p =
     (if size_at h p = nunits then ((set_ptr prevp (ptr_at h p) h)\<lparr>freep := prevp\<rparr>, p + 16)
      else
        let h = set_size p (size_at h p - nunits) h;
            q = p + 16 * size_at h p in
        ((set_size q nunits h)\<lparr>freep := prevp\<rparr>, q + 16))"

primrec malloc_loop :: "nat \<Rightarrow> uheap \<Rightarrow> nat \<Rightarrow> nat \<Rightarrow> nat \<Rightarrow> (uheap \<Rightarrow> nat \<Rightarrow> uproc) \<Rightarrow> uproc" where
  "malloc_loop 0 h nunits prevp p k = UStuck"
| "malloc_loop (Suc fuel) h nunits prevp p k =
     (if size_at h p \<ge> nunits then let (h', q) = malloc_take h nunits prevp p in k h' q
      else if p = freep h then
        morecore h nunits (\<lambda>h' q. if q = 0 then k h' 0 else malloc_loop fuel h' nunits q (ptr_at h' q) k)
      else malloc_loop fuel h nunits p (ptr_at h p) k)"

definition units :: "nat \<Rightarrow> nat" where
  "units nbytes = (nbytes + 15) div 16 + 1"

definition malloc :: "nat \<Rightarrow> uheap \<Rightarrow> nat \<Rightarrow> (uheap \<Rightarrow> nat \<Rightarrow> uproc) \<Rightarrow> uproc" where
  "malloc fuel h nbytes k =
     (let h = (if freep h = 0 then set_size (base h) 0 (set_ptr (base h) (base h) (h\<lparr>freep := base h\<rparr>)) else h) in
      malloc_loop fuel h (units nbytes) (freep h) (ptr_at h (freep h)) k)"

section \<open>Rings of addresses\<close>

definition nxt :: "nat set \<Rightarrow> nat \<Rightarrow> nat" where
  "nxt F a = (if \<exists>x\<in>F. a < x then Min {x \<in> F. a < x} else Min F)"

lemma nxt_cases:
  assumes "finite F" and "a \<in> F"
  obtains (up) "a < nxt F a" "nxt F a \<in> F" "\<forall>x\<in>F. a < x \<longrightarrow> nxt F a \<le> x"
    | (wrap) "nxt F a \<in> F" "\<forall>x\<in>F. x \<le> a" "\<forall>x\<in>F. nxt F a \<le> x"
proof (cases "\<exists>x\<in>F. a < x")
  case True
  then have m: "nxt F a = Min {x \<in> F. a < x}" "finite {x \<in> F. a < x}" "{x \<in> F. a < x} \<noteq> {}" using assms by (auto simp: nxt_def)
  then have "nxt F a \<in> {x \<in> F. a < x}" using Min_in by metis
  then show thesis using m up by auto
next
  case False
  then have "nxt F a = Min F" "F \<noteq> {}" "\<forall>x\<in>F. x \<le> a" using assms by (auto simp: nxt_def not_less)
  then show thesis using assms wrap by simp
qed

text \<open>The steps from \<open>a\<close> to \<open>b\<close> around the ring.\<close>

definition dist :: "nat set \<Rightarrow> nat \<Rightarrow> nat \<Rightarrow> nat" where
  "dist F a b = (if a \<le> b then card {x \<in> F. a \<le> x \<and> x < b} else card {x \<in> F. a \<le> x} + card {x \<in> F. x < b})"

lemma dist_step:
  assumes F: "finite F" and "a \<in> F" and "b \<in> F" and "a \<noteq> b"
  shows "dist F a b = Suc (dist F (nxt F a) b)"
  using F assms(2)
proof (cases rule: nxt_cases)
  case up
  show ?thesis
  proof (cases "a < b")
    case True
    then have "{x \<in> F. a \<le> x \<and> x < b} = insert a {x \<in> F. nxt F a \<le> x \<and> x < b}" using up assms(2) by fastforce
    then show ?thesis using True up assms(1,3) by (simp add: dist_def)
  next
    case False
    then have "{x \<in> F. a \<le> x} = insert a {x \<in> F. nxt F a \<le> x}" using up assms(2) by fastforce
    then show ?thesis using False up assms(1,4) by (simp add: dist_def)
  qed
next
  case wrap
  then have "{x \<in> F. a \<le> x} = {a}" "{x \<in> F. x < b} = {x \<in> F. nxt F a \<le> x \<and> x < b}" "b < a" using assms by (auto intro: antisym)
  then show ?thesis using wrap assms(3) by (simp add: dist_def)
qed

lemma dist_refl [simp]: "dist F a a = 0"
  by (simp add: dist_def)

lemma dist_less:
  assumes "finite F" and "b \<in> F"
  shows "dist F a b < card F"
proof (cases "a \<le> b")
  case True
  then have "{x \<in> F. a \<le> x \<and> x < b} \<subset> F" using assms by auto
  then show ?thesis using True assms by (simp add: dist_def psubset_card_mono)
next
  case False
  then have "{x \<in> F. a \<le> x} \<union> {x \<in> F. x < b} \<subset> F" "{x \<in> F. a \<le> x} \<inter> {x \<in> F. x < b} = {}" using assms by auto
  then show ?thesis using False assms by (simp add: dist_def psubset_card_mono flip: card_Un_disjoint)
qed

lemma nxt_in: "finite F \<Longrightarrow> a \<in> F \<Longrightarrow> nxt F a \<in> F"
  by (erule (1) nxt_cases) simp_all

lemma nxt_eqI:
  assumes "finite F" and "a \<in> F" and "b \<in> F"
    and "a < b \<and> (\<forall>x\<in>F. a < x \<longrightarrow> b \<le> x) \<or> (\<forall>x\<in>F. b \<le> x \<and> x \<le> a)"
  shows "nxt F a = b"
  using assms(1,2)
proof (cases rule: nxt_cases)
  case up
  then show ?thesis using assms by (metis antisym leD)
next
  case wrap
  then show ?thesis using assms by (metis antisym leD)
qed

section \<open>The heap\<close>

text \<open>\<open>F\<close> are the free blocks and the dummy block \<open>base\<close>, \<open>A\<close> the allocated ones, and \<open>b\<close> is the end of memory.\<close>

definition blocks :: "uheap \<Rightarrow> nat set \<Rightarrow> nat set \<Rightarrow> nat set" where
  "blocks h F A = (F - {base h}) \<union> A"

definition apart :: "uheap \<Rightarrow> nat \<Rightarrow> nat \<Rightarrow> bool" where
  "apart h x y \<longleftrightarrow> x + 16 * size_at h x \<le> y \<or> y + 16 * size_at h y \<le> x"

definition heap :: "uheap \<Rightarrow> nat set \<Rightarrow> nat set \<Rightarrow> nat \<Rightarrow> bool" where
  "heap h F A b \<longleftrightarrow> finite F \<and> base h \<in> F \<and> 0 < base h \<and> size_at h (base h) = 0 \<and> freep h \<in> F \<and> b \<le> 2 ^ 36 \<and> base h + 16 \<le> b \<and>
     (\<forall>a\<in>F. ptr_at h a = nxt F a) \<and> F \<inter> A = {} \<and>
     (\<forall>x\<in>blocks h F A. base h + 16 \<le> x \<and> 0 < size_at h x \<and> x + 16 * size_at h x \<le> b) \<and>
     (\<forall>x\<in>blocks h F A. \<forall>y\<in>blocks h F A. x \<noteq> y \<longrightarrow> apart h x y)"

lemma nxt_inj:
  assumes "finite F" and "a \<in> F" and "c \<in> F" and eq: "nxt F a = nxt F c"
  shows "a = c"
proof (rule ccontr)
  assume ne: "a \<noteq> c"
  show False using assms(1,2)
  proof (cases rule: nxt_cases)
    case a: up
    show False using assms(1,3)
    proof (cases rule: nxt_cases)
      case up
      then show False using a ne assms(2,3) eq by (metis leD linorder_neqE_nat)
    next
      case wrap
      then show False using a assms(2) eq by (metis leD)
    qed
  next
    case a: wrap
    show False using assms(1,3)
    proof (cases rule: nxt_cases)
      case up
      then show False using a assms(3) eq by (metis leD)
    next
      case wrap
      then show False using a ne assms(2,3) by (meson antisym)
    qed
  qed
qed

lemma heap_block:
  assumes "heap h F A b" and "x \<in> blocks h F A"
  shows "base h + 16 \<le> x" "0 < size_at h x" "x + 16 * size_at h x \<le> b" "size_at h x < 2 ^ 32"
proof -
  show b: "base h + 16 \<le> x" "0 < size_at h x" "x + 16 * size_at h x \<le> b" using assms by (simp_all add: heap_def)
  have "b \<le> 2 ^ 36" using assms(1) by (simp add: heap_def)
  then show "size_at h x < 2 ^ 32" using b by simp
qed

lemma heap_ring:
  assumes "heap h F A b"
  shows "finite F" "base h \<in> F" "freep h \<in> F" "a \<in> F \<Longrightarrow> ptr_at h a = nxt F a"
  using assms by (simp_all add: heap_def)

lemma heap_base: "heap h F A b \<Longrightarrow> x \<in> F \<Longrightarrow> base h \<le> x"
  using heap_block(1) [of h F A b x] by (cases "x = base h") (simp_all add: blocks_def)

text \<open>Where a block belongs in the ring.\<close>

definition pred :: "nat set \<Rightarrow> nat \<Rightarrow> nat" where
  "pred F bp = Max {x \<in> F. x < bp}"

lemma pred_props:
  assumes "finite F" and "x \<in> F" and "x < bp"
  shows "pred F bp \<in> F" "pred F bp < bp" "y \<in> F \<Longrightarrow> y < bp \<Longrightarrow> y \<le> pred F bp"
proof -
  have "finite {x \<in> F. x < bp}" "{x \<in> F. x < bp} \<noteq> {}" using assms by auto
  then show "pred F bp \<in> F" "pred F bp < bp" "y \<in> F \<Longrightarrow> y < bp \<Longrightarrow> y \<le> pred F bp"
    using Max_in [of "{x \<in> F. x < bp}"] by (auto simp: pred_def)
qed

lemma free_find_stop:
  assumes h: "heap h F A b" and bp: "bp \<notin> F" "base h < bp"
  shows "free_find h bp (pred F bp) = Some (pred F bp)"
proof -
  note q = pred_props [OF heap_ring(1,2) [OF h] bp(2)]
  show ?thesis using heap_ring(1) [OF h] q(1)
  proof (cases rule: nxt_cases)
    case up
    have "\<not> nxt F (pred F bp) < bp" using q(3) [OF up(2)] up(1) by linarith
    moreover have "nxt F (pred F bp) \<noteq> bp" using up(2) bp(1) by auto
    ultimately show ?thesis using q(2) heap_ring(4) [OF h q(1)] by (subst free_find.simps) simp
  next
    case wrap
    then show ?thesis using q(1,2) heap_ring(4) [OF h q(1)] by (subst free_find.simps) simp
  qed
qed

lemma free_find_go:
  assumes h: "heap h F A b" and bp: "bp \<notin> F" "base h < bp" and p: "p \<in> F" "p \<noteq> pred F bp"
  shows "free_find h bp p = free_find h bp (nxt F p)"
proof -
  note q = pred_props [OF heap_ring(1,2) [OF h] bp(2)]
  have "\<not> (bp > p \<and> bp < nxt F p) \<and> \<not> (p \<ge> nxt F p \<and> (bp > p \<or> bp < nxt F p))"
    using heap_ring(1) [OF h] p(1)
  proof (cases rule: nxt_cases)
    case up
    have "nxt F p \<le> pred F bp" if "p < bp" using up(3) q(1) q(3) [OF p(1) that] p(2) by (metis le_neq_implies_less)
    then show ?thesis using up(1) q(2) by linarith
  next
    case wrap
    have "nxt F p \<le> base h" using wrap heap_ring(2) [OF h] by blast
    moreover have "\<not> p < bp" using wrap(2) q(1) q(3) [OF p(1)] p(2) by (metis le_antisym)
    ultimately show ?thesis using bp(2) by linarith
  qed
  then show ?thesis using heap_ring(4) [OF h p(1)] by (subst free_find.simps) auto
qed

lemma free_find_run:
  assumes h: "heap h F A b" and bp: "bp \<notin> F" "base h < bp" and "p \<in> F"
  shows "free_find h bp p = Some (pred F bp)"
  using assms(4)
proof (induction "dist F p (pred F bp)" arbitrary: p rule: less_induct)
  case less
  note F = heap_ring(1,2) [OF h]
  show ?case
  proof (cases "p = pred F bp")
    case True
    then show ?thesis using free_find_stop [OF h bp] by simp
  next
    case False
    have "dist F (nxt F p) (pred F bp) < dist F p (pred F bp)"
      using dist_step [OF F(1) less.prems pred_props(1) [OF F bp(2)] False] by simp
    then show ?thesis using less.hyps nxt_in [OF F(1) less.prems] free_find_go [OF h bp less.prems False] by simp
  qed
qed

text \<open>\<open>free_join\<close> puts the block into the ring, and then joins it with its neighbours if they are adjacent.\<close>

definition link_in :: "nat \<Rightarrow> nat \<Rightarrow> uheap \<Rightarrow> uheap" where
  "link_in bp p h = h\<lparr>ptr_at := (ptr_at h)(bp := ptr_at h p, p := bp), freep := p\<rparr>"

definition absorb :: "nat \<Rightarrow> uheap \<Rightarrow> uheap" where
  "absorb c h = (let d = ptr_at h c in set_ptr c (ptr_at h d) (set_size c (size_at h c + size_at h d) h))"

definition adjacent :: "nat \<Rightarrow> uheap \<Rightarrow> bool" where
  "adjacent c h \<longleftrightarrow> c + 16 * size_at h c = ptr_at h c"

lemma free_join_steps:
  assumes "p < bp" "0 < size_at h bp"
  shows "free_join bp p h =
    (let h1 = (if adjacent bp (link_in bp p h) then absorb bp (link_in bp p h) else link_in bp p h) in
     if adjacent p h1 then absorb p h1 else h1)"
proof -
  have "ptr_at h p \<noteq> p" if "bp + 16 * size_at h bp = ptr_at h p" using that assms by linarith
  then show ?thesis using assms
    by (auto simp: free_join_def link_in_def absorb_def adjacent_def Let_def fun_upd_twist intro!: uheap.equality)
qed

lemma nxt_insert:
  assumes F: "finite F" "x \<in> F" "x < bp" "bp \<notin> F" and a: "a \<in> insert bp F"
  shows "nxt (insert bp F) a = (if a = bp then nxt F (pred F bp) else if a = pred F bp then bp else nxt F a)"
proof -
  note q = pred_props [OF F(1-3)]
  have fin: "finite (insert bp F)" using F(1) by simp
  consider "a = bp" | "a = pred F bp" "a \<noteq> bp" | "a \<in> F" "a \<noteq> bp" "a \<noteq> pred F bp" using a by blast
  then show ?thesis
  proof cases
    case 1
    have "nxt (insert bp F) bp = nxt F (pred F bp)" using F(1) q(1)
    proof (cases rule: nxt_cases)
      case up
      have "bp < nxt F (pred F bp)" using q(3) [OF up(2)] up(1,2) F(4) by (metis leD linorder_neqE_nat)
      then show ?thesis using up q(2) by (intro nxt_eqI [OF fin]) auto
    next
      case wrap
      then show ?thesis using q(1,2) by (intro nxt_eqI [OF fin]) (auto intro: order_trans less_imp_le)
    qed
    then show ?thesis using 1 by simp
  next
    case 2
    have "nxt (insert bp F) (pred F bp) = bp"
      using q by (intro nxt_eqI [OF fin]) (auto simp: not_le [symmetric])
    then show ?thesis using 2 by simp
  next
    case 3
    have lt: "a < pred F bp" if "a < bp" using q(3) [OF 3(1) that] 3(3) by simp
    have "nxt (insert bp F) a = nxt F a" using F(1) 3(1)
    proof (cases rule: nxt_cases)
      case up
      have "nxt F a \<le> bp" if "a < bp" using up(3) q(1,2) lt [OF that] by (meson less_imp_le order_trans)
      then show ?thesis using up 3(1) by (intro nxt_eqI [OF fin]) auto
    next
      case wrap
      have "\<not> a < bp" using lt wrap(2) q(1) by (metis leD)
      moreover have "nxt F a \<le> bp" using wrap(3) F(2,3) by (meson less_imp_le order_trans)
      ultimately show ?thesis using wrap 3(1) by (intro nxt_eqI [OF fin]) auto
    qed
    then show ?thesis using 3 by simp
  qed
qed

lemma nxt_remove:
  assumes F: "finite F" and c: "c \<in> F" "nxt F c \<noteq> c" and a: "a \<in> F" "a \<noteq> nxt F c"
  shows "nxt (F - {nxt F c}) a = (if a = c then nxt F (nxt F c) else nxt F a)"
proof -
  define d where "d = nxt F c"
  have d: "d \<in> F" "d \<noteq> c" using nxt_in [OF F c(1)] c(2) by (simp_all add: d_def)
  have fin: "finite (F - {d})" using F by simp
  have "nxt (F - {d}) c = nxt F d"
  proof -
    have e: "nxt F d \<in> F - {d}" using nxt_in [OF F d(1)] nxt_inj [OF F d(1) c(1)] d by (auto simp: d_def)
    show ?thesis using F c(1)
    proof (cases rule: nxt_cases)
      case u: up
      show ?thesis using F d(1)
      proof (cases rule: nxt_cases)
        case up
        have "nxt F d \<le> x" if "x \<in> F" "x \<noteq> d" "c < x" for x
          using u(3) [folded d_def] up(3) that by (metis le_neq_implies_less)
        then show ?thesis using u(1) [folded d_def] up(1) e c(1) d(2) by (intro nxt_eqI [OF fin] disjI1) auto
      next
        case wrap
        have "x \<le> c" if "x \<in> F" "x \<noteq> d" for x
          using u(3) [folded d_def] wrap(2) that by (metis le_antisym not_le_imp_less)
        then show ?thesis using wrap(3) e c(1) d(2) by (intro nxt_eqI [OF fin] disjI2) auto
      qed
    next
      case w: wrap
      show ?thesis using F d(1)
      proof (cases rule: nxt_cases)
        case up
        have "nxt F d \<le> x" if "x \<in> F" "x \<noteq> d" for x
          using w(3) [folded d_def] up(3) that by (metis le_neq_implies_less)
        then show ?thesis using w(2) e c(1) d(2) by (intro nxt_eqI [OF fin] disjI2) auto
      next
        case wrap
        then show ?thesis using w c(1) d unfolding d_def [symmetric] by (metis le_antisym)
      qed
    qed
  qed
  moreover have "nxt (F - {d}) a = nxt F a" if "a \<noteq> c"
  proof -
    have "nxt F a \<noteq> d" using nxt_inj [OF F a(1) c(1)] that by (auto simp: d_def)
    then have e: "nxt F a \<in> F - {d}" using nxt_in [OF F a(1)] by simp
    show ?thesis using F a(1)
    proof (cases rule: nxt_cases)
      case up
      then show ?thesis using e a unfolding d_def [symmetric] by (intro nxt_eqI [OF fin]) auto
    next
      case wrap
      then show ?thesis using e a unfolding d_def [symmetric] by (intro nxt_eqI [OF fin]) auto
    qed
  qed
  ultimately show ?thesis by (simp add: d_def)
qed

lemma heap_link_in:
  assumes h: "heap h F (insert bp A) b" and bp: "bp \<notin> A"
  shows "heap (link_in bp (pred F bp) h) (insert bp F) A b" "bp \<notin> F" "base h < bp" "pred F bp \<in> F" "pred F bp < bp"
proof -
  have in_b: "bp \<in> blocks h F (insert bp A)" by (simp add: blocks_def)
  note F = heap_ring [OF h]
  show out: "bp \<notin> F" using h by (auto simp: heap_def)
  show lt: "base h < bp" using heap_block(1) [OF h in_b] by simp
  note q = pred_props [OF F(1,2) lt]
  show "pred F bp \<in> F" "pred F bp < bp" by (rule q)+
  define h' where "h' = link_in bp (pred F bp) h"
  have h': "size_at h' = size_at h" "base h' = base h" "freep h' = pred F bp" by (simp_all add: h'_def link_in_def)
  have "blocks h' (insert bp F) A = blocks h F (insert bp A)" using lt by (auto simp: blocks_def h')
  moreover have "\<forall>a\<in>insert bp F. ptr_at h' a = nxt (insert bp F) a"
    using nxt_insert [OF F(1,2) lt out] F(4) q(1,2) out by (auto simp: h'_def link_in_def)
  ultimately have "heap h' (insert bp F) A b" using h q(1) bp lt by (simp add: heap_def h' apart_def)
  then show "heap (link_in bp (pred F bp) h) (insert bp F) A b" by (simp add: h'_def)
qed

lemma heap_absorb:
  assumes h: "heap h F A b" and c: "c \<in> F" "adjacent c h" "c < ptr_at h c" and fp: "freep h \<noteq> ptr_at h c"
  shows "heap (absorb c h) (F - {ptr_at h c}) A b" "x \<in> A \<Longrightarrow> size_at (absorb c h) x = size_at h x"
    "y \<in> F \<Longrightarrow> n \<le> size_at h y \<Longrightarrow> \<exists>z\<in>F - {ptr_at h c}. n \<le> size_at (absorb c h) z"
proof -
  define d where "d = ptr_at h c"
  note F = heap_ring [OF h]
  have dn: "d = nxt F c" using F(4) [OF c(1)] by (simp add: d_def)
  have d: "d \<in> F" "c < d" "d = c + 16 * size_at h c" using nxt_in [OF F(1) c(1)] c(2,3) by (simp_all add: dn [symmetric] d_def adjacent_def)
  have cb: "c \<noteq> base h" using d(2,3) h by (auto simp: heap_def)
  have db: "d \<noteq> base h" using d(2) heap_base [OF h c(1)] by simp
  have cA: "c \<notin> A" using h c(1) by (auto simp: heap_def)
  have bl: "c \<in> blocks h F A" "d \<in> blocks h F A" using c(1) d(1) cb db by (simp_all add: blocks_def)
  have "d + 16 * size_at h d \<le> b" "b \<le> 2 ^ 36" using heap_block(3) [OF h bl(2)] h by (simp_all add: heap_def)
  then have sum: "size_at h c + size_at h d < 2 ^ 32" "c + 16 * (size_at h c + size_at h d) \<le> b"
    using d(3) heap_block(1) [OF h bl(1)] by simp_all
  define h' where "h' = absorb c h"
  have h': "size_at h' = (size_at h)(c := size_at h c + size_at h d)" "ptr_at h' = (ptr_at h)(c := ptr_at h d)"
    "freep h' = freep h" "base h' = base h" using sum(1) by (simp_all add: h'_def absorb_def d_def [symmetric] Let_def)
  have b': "blocks h' (F - {d}) A = blocks h F A - {d}" using d(1) db h by (auto simp: blocks_def h' heap_def)
  have ring: "\<forall>a\<in>F - {d}. ptr_at h' a = nxt (F - {d}) a"
    using nxt_remove [OF F(1) c(1)] d(1,2) F(4) by (auto simp: h' dn)
  have ap: "apart h' x y" if xy: "x \<in> blocks h F A - {d}" "y \<in> blocks h F A - {d}" "x \<noteq> y" for x y
  proof -
    have far: "apart h' c z" if z: "z \<in> blocks h F A" "z \<noteq> c" "z \<noteq> d" for z
    proof -
      have "apart h c z" "apart h d z" "0 < size_at h z" using h bl z heap_block(2) [OF h z(1)] by (auto simp: heap_def)
      then show ?thesis using d(3) z(2) by (auto simp: apart_def h')
    qed
    have "apart h x y" using h xy by (simp add: heap_def)
    then show ?thesis using far [of x] far [of y] xy by (cases "x = c"; cases "y = c") (auto simp: apart_def h')
  qed
  have "\<forall>x\<in>blocks h' (F - {d}) A. base h' + 16 \<le> x \<and> 0 < size_at h' x \<and> x + 16 * size_at h' x \<le> b"
    unfolding b' using heap_block(1-3) [OF h] sum(2) d(3) by (auto simp: h')
  then have "heap h' (F - {d}) A b"
    using h ring ap b' cb db fp by (auto simp: heap_def h' d_def [symmetric])
  then show "heap (absorb c h) (F - {ptr_at h c}) A b" by (simp add: h'_def d_def)
  show "x \<in> A \<Longrightarrow> size_at (absorb c h) x = size_at h x" using cA by (auto simp: absorb_def Let_def)
  show "\<exists>z\<in>F - {ptr_at h c}. n \<le> size_at (absorb c h) z" if "y \<in> F" "n \<le> size_at h y"
    unfolding h'_def [symmetric] d_def [symmetric]
    using that c(1) d(2) by (cases "y = d \<or> y = c") (auto simp: h' intro: bexI [of _ c])
qed

text \<open>What \<open>free\<close> does to the heap.\<close>

definition freed :: "uheap \<Rightarrow> nat set \<Rightarrow> nat set \<Rightarrow> nat \<Rightarrow> nat \<Rightarrow> uheap \<Rightarrow> nat set \<Rightarrow> bool" where
  "freed h F A b bp h' F' \<longleftrightarrow> heap h' F' A b \<and> (\<forall>x\<in>A. size_at h' x = size_at h x) \<and> base h' = base h \<and>
     F' \<subseteq> insert bp F \<and> (\<exists>z\<in>F'. size_at h bp \<le> size_at h' z)"

lemma freed_absorb:
  assumes f: "freed h F A b bp h' F'" and "adjacent c h'" "c \<in> F'" "c < ptr_at h' c" "freep h' \<noteq> ptr_at h' c"
  shows "freed h F A b bp (absorb c h') (F' - {ptr_at h' c})"
proof -
  have h: "heap h' F' A b" and z: "\<exists>z\<in>F'. size_at h bp \<le> size_at h' z" using f by (auto simp: freed_def)
  note a = heap_absorb [OF h assms(3,2,4,5)]
  have "base (absorb c h') = base h'" by (simp add: absorb_def Let_def)
  then show ?thesis using f a z unfolding freed_def by auto
qed

lemma free_run:
  assumes h: "heap h F (insert bp A) b" and bp: "bp \<notin> A"
  shows "\<exists>h' F'. free h (bp + 16) = Some h' \<and> freed h F A b bp h' F'"
proof -
  define p where "p = pred F bp"
  define h0 where "h0 = link_in bp p h"
  note l = heap_link_in [OF h bp, folded p_def]
  have n: "0 < size_at h bp" using heap_block(2) [OF h, of bp] by (simp add: blocks_def)
  have h0: "size_at h0 = size_at h" "freep h0 = p" "ptr_at h0 p = bp" "base h0 = base h" using l(5) by (simp_all add: h0_def link_in_def)
  have f0: "freed h F A b bp h0 (insert bp F)" using l(1) by (auto simp: freed_def h0 h0_def [symmetric])
  have "\<exists>h1 F1. h1 = (if adjacent bp h0 then absorb bp h0 else h0) \<and> freed h F A b bp h1 F1 \<and> p \<in> F1 \<and> freep h1 = p \<and> ptr_at h1 p = bp"
  proof (cases "adjacent bp h0")
    case True
    then have up: "bp < ptr_at h0 bp" using n by (simp add: adjacent_def h0)
    have "freed h F A b bp (absorb bp h0) (insert bp F - {ptr_at h0 bp})"
      using freed_absorb [OF f0 True _ up] l(5) up by (simp add: h0)
    moreover have "freep (absorb bp h0) = p" "ptr_at (absorb bp h0) p = bp" using l(5) h0 by (simp_all add: absorb_def Let_def)
    moreover have "p \<in> insert bp F - {ptr_at h0 bp}" using l(4,5) up by auto
    ultimately show ?thesis using True by auto
  qed (use f0 l(4) h0 in auto)
  then obtain h1 F1 where h1: "h1 = (if adjacent bp h0 then absorb bp h0 else h0)" "freed h F A b bp h1 F1" "p \<in> F1"
    "freep h1 = p" "ptr_at h1 p = bp" by blast
  have "\<exists>h2 F2. h2 = (if adjacent p h1 then absorb p h1 else h1) \<and> freed h F A b bp h2 F2"
    using h1 l(5) freed_absorb [OF h1(2) _ h1(3)] by (cases "adjacent p h1") auto
  moreover have "free h (bp + 16) = Some (if adjacent p h1 then absorb p h1 else h1)"
    using free_find_run [OF h l(2,3) heap_ring(3) [OF h]] free_join_steps [OF l(5) n]
    by (simp add: free_def Let_def p_def [symmetric] h0_def [symmetric] h1(1))
  ultimately show ?thesis by auto
qed

section \<open>Allocating\<close>

text \<open>The kernel of a program that allocates: it answers \<open>sbrk\<close> with the end of memory, and moves it, when it grants the
  request.\<close>

fun brk_os :: "(nat \<Rightarrow> nat \<Rightarrow> bool) \<Rightarrow> sysreq \<Rightarrow> nat \<Rightarrow> sysres \<times> nat" where
  "brk_os grant (Sbrk n) b = (if grant b (unat n) \<and> b + unat n \<le> 2 ^ 36 then (Res (int b) [], b + unat n) else (Res (- 1) [], b))"
| "brk_os grant _ b = (Res (- 1) [], b)"

text \<open>The number of bytes that \<open>malloc(nbytes)\<close> asks the kernel for when no free block is large enough, and when it does not get
  them.\<close>

definition asks :: "nat \<Rightarrow> nat" where
  "asks nbytes = 16 * max 4096 (units nbytes)"

definition refused :: "(nat \<Rightarrow> nat \<Rightarrow> bool) \<Rightarrow> nat \<Rightarrow> nat \<Rightarrow> bool" where
  "refused grant b nbytes \<longleftrightarrow> \<not> (grant b (asks nbytes) \<and> b + asks nbytes \<le> 2 ^ 36)"

lemma heap_grow:
  assumes h: "heap h F A b" and n: "0 < n" "b + 16 * n \<le> 2 ^ 36"
  shows "heap (set_size b n h) F (insert b A) (b + 16 * n)" "b \<notin> A"
proof -
  have bl: "x < b" if "x \<in> blocks h F A" for x using heap_block(2,3) [OF h that] by linarith
  have "base h < b" using h by (simp add: heap_def)
  then have out: "b \<notin> F" "b \<noteq> base h" and "b \<notin> A" using bl by (auto simp: blocks_def)
  then show "b \<notin> A" by simp
  have n32: "n < 2 ^ 32" using n(2) h by (simp add: heap_def)
  define h' where "h' = set_size b n h"
  have h': "size_at h' = (size_at h)(b := n)" "base h' = base h" "freep h' = freep h" "ptr_at h' = ptr_at h"
    using n32 by (simp_all add: h'_def)
  have b': "blocks h' F (insert b A) = insert b (blocks h F A)" using out by (auto simp: blocks_def h')
  have "\<forall>x\<in>blocks h' F (insert b A). base h' + 16 \<le> x \<and> 0 < size_at h' x \<and> x + 16 * size_at h' x \<le> b + 16 * n"
    unfolding b' using heap_block(1-3) [OF h] n(1) h by (auto simp: h' heap_def intro: trans_le_add1)
  moreover have "apart h' x y" if "x \<in> insert b (blocks h F A)" "y \<in> insert b (blocks h F A)" "x \<noteq> y" for x y
    using that h heap_block(3) [OF h] bl by (auto simp: heap_def apart_def h')
  ultimately have "heap h' F (insert b A) (b + 16 * n)"
    using h n(2) out b' by (auto simp: heap_def h')
  then show "heap (set_size b n h) F (insert b A) (b + 16 * n)" by (simp add: h'_def)
qed

lemma dist_inj:
  assumes F: "finite F" and b: "b \<in> F" and "x \<in> F" and "y \<in> F" and "dist F x b = dist F y b"
  shows "x = y"
  using assms(3-5)
proof (induction "dist F x b" arbitrary: x y)
  case 0
  then show ?case using dist_step [OF F _ b] by (metis nat.distinct(1))
next
  case (Suc n)
  have "x \<noteq> b" using Suc.hyps(2) by auto
  have "y \<noteq> b" using Suc.hyps(2) Suc.prems(3) by auto
  have d: "dist F (nxt F x) b = n" using Suc.hyps(2) dist_step [OF F Suc.prems(1) b \<open>x \<noteq> b\<close>] by simp
  have "dist F (nxt F y) b = n" using Suc.hyps(2) Suc.prems(3) dist_step [OF F Suc.prems(2) b \<open>y \<noteq> b\<close>] by simp
  then have "nxt F x = nxt F y" using Suc.hyps(1) [of "nxt F x" "nxt F y"] d nxt_in [OF F Suc.prems(1)] nxt_in [OF F Suc.prems(2)] by simp
  then show ?case using Suc.prems nxt_inj [OF F] by simp
qed

lemma dist_start:
  assumes F: "finite F" and f: "f \<in> F"
  shows "dist F (nxt F f) f = card F - 1"
  using F f
proof (cases rule: nxt_cases)
  case up
  then have "{x \<in> F. nxt F f \<le> x} \<union> {x \<in> F. x < f} = F - {f}" "{x \<in> F. nxt F f \<le> x} \<inter> {x \<in> F. x < f} = {}" by fastforce+
  then show ?thesis using up F f by (simp add: dist_def flip: card_Un_disjoint)
next
  case wrap
  then have "{x \<in> F. nxt F f \<le> x \<and> x < f} = F - {f}" by (auto simp: le_neq_implies_less)
  then show ?thesis using wrap F f by (simp add: dist_def)
qed

lemma nxt_self: "finite F \<Longrightarrow> c \<in> F \<Longrightarrow> nxt F c = c \<Longrightarrow> F = {c}"
  by (erule (1) nxt_cases) (auto intro: antisym)

lemma malloc_walk:
  assumes h: "heap h F A b" and "prevp \<in> F" and "p = nxt F prevp" and "dist F p (freep h) < fuel"
    and "\<forall>x\<in>F. dist F p (freep h) < dist F x (freep h) \<longrightarrow> size_at h x < n"
  shows "(\<exists>c\<in>F. n \<le> size_at h (nxt F c) \<and>
      malloc_loop fuel h n prevp p k = (let (h', q) = malloc_take h n c (nxt F c) in k h' q)) \<or>
    ((\<forall>x\<in>F. size_at h x < n) \<and> malloc_loop fuel h n prevp p k =
      morecore h n (\<lambda>h' q. if q = 0 then k h' 0 else malloc_loop (fuel - dist F p (freep h) - 1) h' n q (ptr_at h' q) k))"
  using assms(2-5)
proof (induction fuel arbitrary: prevp p)
  case (Suc fuel)
  note F = heap_ring [OF h]
  have p: "p \<in> F" using nxt_in [OF F(1) Suc.prems(1)] Suc.prems(2) by simp
  consider "n \<le> size_at h p" | "size_at h p < n" "p = freep h" | "size_at h p < n" "p \<noteq> freep h" by linarith
  then show ?case
  proof cases
    case 1
    then show ?thesis using Suc.prems(1,2) by (intro disjI1 bexI [of _ prevp]) simp_all
  next
    case 2
    have "size_at h x < n" if "x \<in> F" for x
      using 2 Suc.prems(4) that dist_step [OF F(1) that F(3)] by (cases "x = freep h") auto
    moreover have "Suc fuel - dist F p (freep h) - 1 = fuel" using 2 by simp
    ultimately show ?thesis using 2 by (intro disjI2) (simp only: malloc_loop.simps not_le [symmetric], simp)
  next
    case 3
    have d: "dist F p (freep h) = Suc (dist F (nxt F p) (freep h))" by (rule dist_step [OF F(1) p F(3) 3(2)])
    have "size_at h x < n" if "x \<in> F" "dist F (nxt F p) (freep h) < dist F x (freep h)" for x
    proof (cases "x = p")
      case False
      then have "dist F x (freep h) \<noteq> dist F p (freep h)" using dist_inj [OF F(1,3) that(1) p] by blast
      then show ?thesis using Suc.prems(4) that d by auto
    qed (use 3 in simp)
    moreover have "Suc fuel - dist F p (freep h) - 1 = fuel - dist F (nxt F p) (freep h) - 1" using d by simp
    ultimately show ?thesis using Suc.IH [OF p refl] Suc.prems(3) d 3 F(4) [OF p] by (simp only: malloc_loop.simps) simp
  qed
qed simp

lemma malloc_take_run:
  assumes h: "heap h F A b" and c: "c \<in> F" and n: "n \<le> size_at h (nxt F c)" "0 < n"
  shows "\<exists>h' a F'. malloc_take h n c (nxt F c) = (h', a + 16) \<and> a \<notin> A \<and> heap h' F' (insert a A) b \<and> size_at h' a = n \<and>
    (\<forall>x\<in>A. size_at h' x = size_at h x)"
proof -
  define p where "p = nxt F c"
  note F = heap_ring [OF h]
  have p: "p \<in> F" using nxt_in [OF F(1) c] by (simp add: p_def)
  have pb: "p \<noteq> base h" using n h by (auto simp: p_def heap_def)
  have pA: "p \<notin> A" using h p by (auto simp: heap_def)
  have bl: "p \<in> blocks h F A" using p pb by (simp add: blocks_def)
  note pk = heap_block [OF h bl]
  show ?thesis
  proof (cases "size_at h p = n")
    case True
    define h' where "h' = (set_ptr c (ptr_at h p) h)\<lparr>freep := c\<rparr>"
    have h': "size_at h' = size_at h" "base h' = base h" "freep h' = c" "ptr_at h' = (ptr_at h)(c := ptr_at h p)" by (simp_all add: h'_def)
    have pc: "p \<noteq> c" using nxt_self [OF F(1) c] F(2) pb by (auto simp: p_def)
    have "\<forall>a\<in>F - {p}. ptr_at h' a = nxt (F - {p}) a"
      using nxt_remove [OF F(1) c] pc F(4) p by (auto simp: h' p_def)
    moreover have "blocks h' (F - {p}) (insert p A) = blocks h F A" using p pb by (auto simp: blocks_def h')
    ultimately have "heap h' (F - {p}) (insert p A) b" using h c pc pb by (auto simp: heap_def h' apart_def)
    moreover have "malloc_take h n c (nxt F c) = (h', p + 16)" using True by (simp add: malloc_take_def p_def h'_def)
    ultimately show ?thesis using pA True h' by (intro exI [of _ h'] exI [of _ p] exI [of _ "F - {p}"]) simp
  next
    case False
    define m where "m = size_at h p - n"
    define q where "q = p + 16 * m"
    have m: "0 < m" "size_at h p = m + n" using n False by (simp_all add: m_def p_def)
    have n32: "m < 2 ^ 32" "n < 2 ^ 32" using pk(4) m by simp_all
    define h' where "h' = (set_size q n (set_size p m h))\<lparr>freep := c\<rparr>"
    have pq: "p < q" using m by (simp add: q_def)
    have h': "size_at h' = (size_at h)(p := m, q := n)" "base h' = base h" "freep h' = c" "ptr_at h' = ptr_at h"
      using n32 by (simp_all add: h'_def)
    have far: "y + 16 * size_at h y \<le> p \<or> q + 16 * n \<le> y" if "y \<in> blocks h F A" "y \<noteq> p" for y
    proof -
      have "apart h y p" using h that bl by (simp add: heap_def)
      then show ?thesis using m by (auto simp: apart_def q_def)
    qed
    have "q \<notin> blocks h F A" using far [of q] pq n(2) by auto
    then have qo: "q \<notin> F" "q \<notin> A" using pq heap_base [OF h p] by (auto simp: blocks_def)
    have b': "blocks h' F (insert q A) = insert q (blocks h F A)" using pq heap_base [OF h p] by (auto simp: blocks_def h')
    have "\<forall>x\<in>blocks h' F (insert q A). base h' + 16 \<le> x \<and> 0 < size_at h' x \<and> x + 16 * size_at h' x \<le> b"
      unfolding b' using heap_block(1-3) [OF h] pk n(2) m pq by (auto simp: h' q_def)
    moreover have "apart h' x y" if xy: "x \<in> insert q (blocks h F A)" "y \<in> insert q (blocks h F A)" "x \<noteq> y" for x y
    proof -
      have "apart h x y" if "x \<in> blocks h F A" "y \<in> blocks h F A" using h that xy(3) by (simp add: heap_def)
      then show ?thesis using xy far [of x] far [of y] pq m by (cases "x = q"; cases "y = q"; cases "x = p"; cases "y = p") (auto simp: apart_def h' q_def)
    qed
    ultimately have "heap h' F (insert q A) b" using h c b' qo pb pq heap_base [OF h p] by (auto simp: heap_def h')
    moreover have "malloc_take h n c (nxt F c) = (h', q + 16)"
      using False n32 by (simp add: malloc_take_def p_def [symmetric] m_def [symmetric] Let_def q_def h'_def)
    ultimately show ?thesis using qo pA h' pq by (intro exI [of _ h'] exI [of _ q] exI [of _ F]) auto
  qed
qed

lemma morecore_run:
  assumes h: "heap h F A b" and n: "n = units nbytes" "n < 2 ^ 27"
  shows "refused grant b nbytes \<and> urun (brk_os grant) (morecore h n k) b = urun (brk_os grant) (k h 0) b \<or>
    (\<exists>h' F' b'. \<not> refused grant b nbytes \<and> b' = b + asks nbytes \<and>
       urun (brk_os grant) (morecore h n k) b = urun (brk_os grant) (k h' (freep h')) b' \<and> heap h' F' A b' \<and>
       (\<forall>x\<in>A. size_at h' x = size_at h x) \<and> (\<exists>z\<in>F'. n \<le> size_at h' z) \<and> card F' \<le> card F + 1)"
proof -
  define nu where "nu = (if n < 4096 then 4096 else n)"
  have a: "asks nbytes = nu * 16" using n(1) by (simp add: asks_def nu_def max_def)
  have nu: "0 < nu" "n \<le> nu" "nu < 2 ^ 27" using n(2) by (auto simp: nu_def)
  have u: "unat (of_nat (nu * 16) :: u32) = nu * 16" using nu(3) by (simp add: unat_of_nat take_bit_nat_eq_self del: of_nat_mult)
  show ?thesis
  proof (cases "grant b (nu * 16) \<and> b + nu * 16 \<le> 2 ^ 36")
    case False
    then show ?thesis by (auto simp: morecore_def nu_def [symmetric] u refused_def a simp del: of_nat_mult)
  next
    case True
    let ?h = "set_size b nu h"
    have g: "heap ?h F (insert b A) (b + 16 * nu)" "b \<notin> A" using heap_grow [OF h nu(1)] True by simp_all
    obtain h' F' where f: "free ?h (b + 16) = Some h'" "freed ?h F A (b + 16 * nu) b h' F'" using free_run [OF g] by blast
    have "card F' \<le> card F + 1"
      using f(2) heap_ring(1) [OF h] card_mono [of "insert b F" F'] by (auto simp: freed_def card_insert_if split: if_splits)
    moreover have "\<forall>x\<in>A. size_at h' x = size_at h x" using f(2) g(2) by (auto simp: freed_def)
    moreover have "size_at ?h b = nu" using nu(3) by simp
    then have "\<exists>z\<in>F'. n \<le> size_at h' z" using f(2) nu(2) by (auto simp: freed_def intro: order_trans)
    moreover have "heap h' F' A (b + asks nbytes)" using f(2) by (simp add: freed_def a mult.commute)
    moreover have "urun (brk_os grant) (morecore h n k) b = urun (brk_os grant) (k h' (freep h')) (b + asks nbytes)"
      using True f(1) by (simp add: morecore_def nu_def [symmetric] u a mult.commute del: of_nat_mult)
    moreover have "\<not> refused grant b nbytes" using True by (simp add: refused_def a)
    ultimately show ?thesis by blast
  qed
qed

text \<open>A ring that the first call has yet to make.\<close>

definition unused :: "uheap \<Rightarrow> nat set \<Rightarrow> nat set \<Rightarrow> nat \<Rightarrow> bool" where
  "unused h F A b \<longleftrightarrow> freep h = 0 \<and> F = {base h} \<and> size_at h (base h) = 0 \<and> A = {} \<and> 0 < base h \<and> base h + 16 \<le> b \<and> b \<le> 2 ^ 36"

text \<open>What \<open>malloc\<close> answers: null if and only if no free block is large enough and the kernel refuses the request for more;
  else a block that was not allocated, of the size that was asked for. The memory of the program grows only when no
  free block is large enough, and by what was asked for.\<close>

definition gives :: "(nat \<Rightarrow> nat \<Rightarrow> bool) \<Rightarrow> uheap \<Rightarrow> nat set \<Rightarrow> nat set \<Rightarrow> nat \<Rightarrow> nat \<Rightarrow> uheap \<Rightarrow> nat \<Rightarrow> nat \<Rightarrow> bool" where
  "gives grant h F A b nbytes h' q b' \<longleftrightarrow> (\<forall>x\<in>A. size_at h' x = size_at h x) \<and>
     (q = 0 \<longleftrightarrow> (\<forall>x\<in>F. size_at h x < units nbytes) \<and> refused grant b nbytes) \<and>
     b' = (if (\<forall>x\<in>F. size_at h x < units nbytes) \<and> \<not> refused grant b nbytes then b + asks nbytes else b) \<and>
     (if q = 0 then \<exists>F'. heap h' F' A b'
      else q - 16 \<notin> A \<and> nbytes + 16 \<le> 16 * size_at h' (q - 16) \<and> (\<exists>F'. heap h' F' (insert (q - 16) A) b'))"

lemma malloc_found:
  assumes "heap h F A b" and "c \<in> F" and "units nbytes \<le> size_at h (nxt F c)"
    and "\<forall>x\<in>A. size_at h x = size_at h0 x"
    and "if \<forall>x\<in>F0. size_at h0 x < units nbytes then \<not> refused grant b0 nbytes \<and> b = b0 + asks nbytes else b = b0"
  shows "\<exists>h' q. (let (h', q) = malloc_take h (units nbytes) c (nxt F c) in k h' q) = k h' q \<and> gives grant h0 F0 A b0 nbytes h' q b"
proof -
  have n: "0 < units nbytes" "nbytes + 16 \<le> 16 * units nbytes" by (simp_all add: units_def)
  obtain h' a F' where "malloc_take h (units nbytes) c (nxt F c) = (h', a + 16)" "a \<notin> A" "heap h' F' (insert a A) b"
    "size_at h' a = units nbytes" "\<forall>x\<in>A. size_at h' x = size_at h x"
    using malloc_take_run [OF assms(1-3) n(1)] by blast
  then show ?thesis using assms(4,5) n(2)
    by (intro exI [of _ h'] exI [of _ "a + 16"]) (auto simp: gives_def split: if_splits)
qed

lemma malloc_run:
  assumes h: "heap h F A b" and n: "units nbytes < 2 ^ 27" and fuel: "2 * card F + 2 \<le> fuel"
  shows "\<exists>h' q b'. urun (brk_os grant) (malloc_loop fuel h (units nbytes) (freep h) (ptr_at h (freep h)) k) b =
      urun (brk_os grant) (k h' q) b' \<and> gives grant h F A b nbytes h' q b'"
proof -
  let ?n = "units nbytes"
  let ?go = "\<lambda>fuel h. malloc_loop fuel h ?n (freep h) (ptr_at h (freep h)) k"
  have walk: "(\<exists>c\<in>F. ?n \<le> size_at h (nxt F c) \<and> ?go fuel h = (let (h', q) = malloc_take h ?n c (nxt F c) in k h' q)) \<or>
      ((\<forall>x\<in>F. size_at h x < ?n) \<and> ?go fuel h = morecore h ?n (\<lambda>h' q. if q = 0 then k h' 0
        else malloc_loop (fuel - card F) h' ?n q (ptr_at h' q) k))"
    if h: "heap h F A b" and "card F \<le> fuel" for h F b fuel
  proof -
    note F = heap_ring [OF h]
    have c: "0 < card F" using F(1,2) by (auto simp: card_gt_0_iff)
    have "\<not> dist F (nxt F (freep h)) (freep h) < dist F x (freep h)" for x
      using dist_less [OF F(1,3), of x] dist_start [OF F(1,3)] by linarith
    then have small: "\<forall>x\<in>F. dist F (nxt F (freep h)) (freep h) < dist F x (freep h) \<longrightarrow> size_at h x < ?n" by blast
    have e: "fuel - dist F (nxt F (freep h)) (freep h) - 1 = fuel - card F" and lt: "dist F (nxt F (freep h)) (freep h) < fuel"
      using dist_start [OF F(1,3)] c that(2) by simp_all
    from malloc_walk [OF h F(3) refl lt small, of k] show ?thesis unfolding e F(4) [OF F(3)] .
  qed
  have "card F \<le> fuel" using fuel by simp
  from walk [OF h this] show ?thesis
  proof (elim disjE bexE conjE)
    fix c assume c: "c \<in> F" "?n \<le> size_at h (nxt F c)" "?go fuel h = (let (h', q) = malloc_take h ?n c (nxt F c) in k h' q)"
    have "nxt F c \<in> F" using nxt_in heap_ring(1) [OF h] c(1) by blast
    then have big: "\<not> (\<forall>x\<in>F. size_at h x < ?n)" using c(2) by force
    then show ?thesis using malloc_found [OF h c(1,2), of h F grant b k] c(3) by metis
  next
    let ?k = "\<lambda>h' q. if q = 0 then k h' 0 else malloc_loop (fuel - card F) h' ?n q (ptr_at h' q) k"
    assume more: "?go fuel h = morecore h ?n ?k" and small: "\<forall>x\<in>F. size_at h x < ?n"
    from morecore_run [OF h refl n, of grant ?k] show ?thesis
    proof (elim disjE exE conjE)
      assume "refused grant b nbytes" "urun (brk_os grant) (morecore h ?n ?k) b = urun (brk_os grant) (?k h 0) b"
      then show ?thesis using more h small by (intro exI [of _ h] exI [of _ 0] exI [of _ b]) (auto simp: gives_def)
    next
      fix h1 F1 b1
      assume r: "urun (brk_os grant) (morecore h ?n ?k) b = urun (brk_os grant) (?k h1 (freep h1)) b1" and h1: "heap h1 F1 A b1"
        and sz: "\<forall>x\<in>A. size_at h1 x = size_at h x" and z: "\<exists>z\<in>F1. ?n \<le> size_at h1 z" and cd: "card F1 \<le> card F + 1"
        and grow: "\<not> refused grant b nbytes" "b1 = b + asks nbytes"
      have "freep h1 \<noteq> 0" using heap_base [OF h1 heap_ring(3) [OF h1]] h1 by (auto simp: heap_def)
      then have e: "urun (brk_os grant) (?go fuel h) b = urun (brk_os grant) (?go (fuel - card F) h1) b1" using r more by simp
      have enough: "card F1 \<le> fuel - card F" using fuel cd by simp
      obtain c where c: "c \<in> F1" "?n \<le> size_at h1 (nxt F1 c)"
        "?go (fuel - card F) h1 = (let (h', q) = malloc_take h1 ?n c (nxt F1 c) in k h' q)"
        using walk [OF h1 enough] z by (meson leD)
      then show ?thesis using malloc_found [OF h1 c(1,2) sz, of F grant b k] e small grow by metis
    qed
  qed
qed

text \<open>C29. \<open>malloc\<close> of fewer than \<open>2^30\<close> bytes, whatever \<open>sbrk\<close> grants, always returns. It returns null if and only if no block
  on the free list is large enough and the kernel refuses the memory that it then asks for; it asks for memory only
  when no free block is large enough. Otherwise it returns a block that is large enough with its header, was not
  allocated, and overlaps no other block: the blocks on the free list and the allocated ones are still apart and inside
  the memory of the program, the free list is still the ring of the free blocks in the order of their addresses, and the
  sizes of the blocks that were allocated before are kept.\<close>

theorem malloc_gives_block:
  assumes "heap h F A b \<or> unused h F A b" and "nbytes < 2 ^ 30" and "2 * card F + 2 \<le> fuel"
  shows "\<exists>h' q b'. urun (brk_os grant) (malloc fuel h nbytes k) b = urun (brk_os grant) (k h' q) b' \<and>
    gives grant h F A b nbytes h' q b'"
proof -
  have n: "units nbytes < 2 ^ 27" using assms(2) by (simp add: units_def)
  from assms(1) show ?thesis
  proof
    assume h: "heap h F A b"
    then have "freep h \<noteq> 0" using heap_base [OF h heap_ring(3) [OF h]] by (auto simp: heap_def)
    then show ?thesis using malloc_run [OF h n assms(3)] by (simp add: malloc_def)
  next
    assume u: "unused h F A b"
    define h0 where "h0 = set_size (base h) 0 (set_ptr (base h) (base h) (h\<lparr>freep := base h\<rparr>))"
    have "nxt {base h} (base h) = base h" by (simp add: nxt_def)
    then have "heap h0 F A b" using u by (auto simp: heap_def unused_def h0_def blocks_def)
    then obtain h' q b' where r: "urun (brk_os grant) (malloc_loop fuel h0 (units nbytes) (freep h0) (ptr_at h0 (freep h0)) k) b =
        urun (brk_os grant) (k h' q) b'" "gives grant h0 F A b nbytes h' q b'" using malloc_run [OF _ n assms(3)] by blast
    have "malloc fuel h nbytes k = malloc_loop fuel h0 (units nbytes) (freep h0) (ptr_at h0 (freep h0)) k"
      using u by (simp add: malloc_def unused_def h0_def)
    moreover have "\<forall>x\<in>F. size_at h0 x = size_at h x" "A = {}" using u by (auto simp: unused_def h0_def)
    then have "gives grant h0 F A = gives grant h F A" by (intro ext) (simp add: gives_def)
    ultimately show ?thesis using r by auto
  qed
qed

text \<open>The first call of a program: with a kernel that grants everything it returns a block in the 64 kilobytes that it got,
  and with one that grants nothing it returns null.\<close>

theorem malloc_gives_block_witness:
  "(\<exists>h' q F'. urun (brk_os (\<lambda>_ _. True)) (malloc 4 \<lparr>ptr_at = \<lambda>_. 0, size_at = \<lambda>_. 0, freep = 0, base = 4096\<rparr> 100
       (\<lambda>h q. UExit (int q))) 8192 = Some (int q, 8192 + 65536) \<and> q \<noteq> 0 \<and> 116 \<le> 16 * size_at h' (q - 16) \<and>
       heap h' F' {q - 16} (8192 + 65536)) \<and>
   urun (brk_os (\<lambda>_ _. False)) (malloc 4 \<lparr>ptr_at = \<lambda>_. 0, size_at = \<lambda>_. 0, freep = 0, base = 4096\<rparr> 100
       (\<lambda>h q. UExit (int q))) 8192 = Some (0, 8192)"
proof -
  let ?h = "\<lparr>ptr_at = \<lambda>_. 0, size_at = \<lambda>_. 0, freep = 0, base = 4096\<rparr>"
  have u: "unused ?h {4096} {} 8192" by (simp add: unused_def)
  have n: "units 100 = 8" "asks 100 = 65536" by (simp_all add: units_def asks_def)
  note m = malloc_gives_block [of ?h "{4096}" "{}" 8192 100 4, where k = "\<lambda>h q. UExit (int q)"]
  show ?thesis
    using u m [of "\<lambda>_ _. True"] m [of "\<lambda>_ _. False"] by (auto simp: gives_def refused_def n)
qed

text \<open>The number of bytes is passed to \<open>sbrk\<close> as an \<open>int\<close>: for the largest requests it wraps around, and the block
  that is put on the free list is larger than the memory that was asked for.\<close>

lemma morecore_wraps:
  "units (2 ^ 32 - 1) = 2 ^ 28 + 1" "(of_nat ((2 ^ 28 + 1) * 16) :: u32) = 16"
  by (simp_all add: units_def)

end
