(* ===== verification/Uprogs.thy ===== *)
theory Uprogs
  imports Grep Shell
begin

text \<open>
  The small programs of \<open>user/\<close>, as trees of system calls. The strings of \<open>argv\<close> are given without their NUL;
  \<open>argc\<close> is the length of \<open>argv\<close>. A loop that goes on as long as the answers of the kernel say takes a bound on its
  rounds as its first argument.
\<close>

unbundle bit_operations_syntax

definition line :: "string \<Rightarrow> u8 list" where "line s = str s @ [10]"

section \<open>\<open>cat.c\<close>\<close>

primrec cat :: "nat \<Rightarrow> int \<Rightarrow> uproc \<Rightarrow> uproc" where
  "cat 0 fd k = UStuck"
| "cat (Suc fuel) fd k = sys_read fd 512 (\<lambda>n buf.
     if n > 0 then USys (Write 1 buf) (\<lambda>w.
       if res_val w \<noteq> n then fprintf 2 (line ''cat: write error'') [] (UExit 1) else cat fuel fd k)
     else if n < 0 then fprintf 2 (line ''cat: read error'') [] (UExit 1)
     else k)"

primrec cat_files :: "nat \<Rightarrow> u8 list list \<Rightarrow> uproc" where
  "cat_files fuel [] = UExit 0"
| "cat_files fuel (f # fs) = USys (Open f O_RDONLY) (\<lambda>fd.
     if res_val fd < 0 then fprintf 2 (line ''cat: cannot open %s'') [VStr (Some f)] (UExit 1)
     else cat fuel (res_val fd) (sys_do (Close (res_val fd)) (cat_files fuel fs)))"

definition cat_main :: "nat \<Rightarrow> u8 list list \<Rightarrow> uproc" where
  "cat_main fuel args = (if length args \<le> 1 then cat fuel 0 (UExit 0) else cat_files fuel (drop 1 args))"

section \<open>\<open>echo.c\<close>\<close>

primrec echo_args :: "u8 list list \<Rightarrow> uproc" where
  "echo_args [] = UExit 0"
| "echo_args (a # args) =
     sys_do (Write 1 a) (sys_do (Write 1 (if args \<noteq> [] then str '' '' else [10])) (echo_args args))"

definition echo_main :: "u8 list list \<Rightarrow> uproc" where
  "echo_main args = echo_args (drop 1 args)"

section \<open>\<open>wc.c\<close>\<close>

text \<open>The counters of lines, words and characters, and \<open>inword\<close>.\<close>

type_synonym counts = "u32 \<times> u32 \<times> u32 \<times> bool"

definition wc_char :: "u8 \<Rightarrow> counts \<Rightarrow> counts" where
  "wc_char ch = (\<lambda>(l, w, c, inword).
     let l' = (if ch = 10 then l + 1 else l) in
     if strchr (str '' '' @ [13, 9, 10, 11, 0]) ch \<noteq> Some None then (l', w, c + 1, False)
     else if \<not> inword then (l', w + 1, c + 1, True)
     else (l', w, c + 1, inword))"

primrec wc_loop :: "nat \<Rightarrow> int \<Rightarrow> counts \<Rightarrow> (counts \<Rightarrow> uproc) \<Rightarrow> uproc" where
  "wc_loop 0 fd st k = UStuck"
| "wc_loop (Suc fuel) fd st k = sys_read fd 512 (\<lambda>n buf.
     if n > 0 then wc_loop fuel fd (fold wc_char buf st) k
     else if n < 0 then printf (line ''wc: read error'') [] (UExit 1)
     else k st)"

definition wc :: "nat \<Rightarrow> int \<Rightarrow> u8 list \<Rightarrow> uproc \<Rightarrow> uproc" where
  "wc fuel fd name k = wc_loop fuel fd (0, 0, 0, False) (\<lambda>(l, w, c, _).
     printf (line ''%d %d %d %s'') [VInt (scast l), VInt (scast w), VInt (scast c), VStr (Some name)] k)"

primrec wc_files :: "nat \<Rightarrow> u8 list list \<Rightarrow> uproc" where
  "wc_files fuel [] = UExit 0"
| "wc_files fuel (f # fs) = USys (Open f O_RDONLY) (\<lambda>fd.
     if res_val fd < 0 then printf (line ''wc: cannot open %s'') [VStr (Some f)] (UExit 1)
     else wc fuel (res_val fd) f (sys_do (Close (res_val fd)) (wc_files fuel fs)))"

definition wc_main :: "nat \<Rightarrow> u8 list list \<Rightarrow> uproc" where
  "wc_main fuel args = (if length args \<le> 1 then wc fuel 0 [] (UExit 0) else wc_files fuel (drop 1 args))"

section \<open>\<open>kill.c\<close>, \<open>ln.c\<close>, \<open>mkdir.c\<close>, \<open>rm.c\<close>, \<open>trace.c\<close>\<close>

definition with_atoi :: "u8 list \<Rightarrow> (int \<Rightarrow> uproc) \<Rightarrow> uproc" where
  "with_atoi s k = (case atoi (s @ [0]) of None \<Rightarrow> UStuck | Some n \<Rightarrow> k n)"

definition kill_main :: "u8 list list \<Rightarrow> uproc" where
  "kill_main args =
     (if length args < 2 then fprintf 2 (line ''usage: kill pid...'') [] (UExit 1)
      else foldr (\<lambda>a k. with_atoi a (\<lambda>n. sys_do (Kill n) k)) (drop 1 args) (UExit 0))"

definition ln_main :: "u8 list list \<Rightarrow> uproc" where
  "ln_main args =
     (if length args \<noteq> 3 then fprintf 2 (line ''Usage: ln old new'') [] (UExit 1)
      else USys (Link (args ! 1) (args ! 2)) (\<lambda>r.
        if res_val r < 0
        then fprintf 2 (line ''link %s %s: failed'') [VStr (Some (args ! 1)), VStr (Some (args ! 2))] (UExit 0)
        else UExit 0))"

definition mkdir_main :: "u8 list list \<Rightarrow> uproc" where
  "mkdir_main args =
     (if length args < 2 then fprintf 2 (line ''Usage: mkdir files...'') [] (UExit 1)
      else foldr (\<lambda>a k. USys (Mkdir a) (\<lambda>r.
        if res_val r < 0 then fprintf 2 (line ''mkdir: %s failed to create'') [VStr (Some a)] (UExit 0) else k))
        (drop 1 args) (UExit 0))"

definition rm_main :: "u8 list list \<Rightarrow> uproc" where
  "rm_main args =
     (if length args < 2 then fprintf 2 (line ''Usage: rm files...'') [] (UExit 1)
      else foldr (\<lambda>a k. USys (Unlink a) (\<lambda>r.
        if res_val r < 0 then fprintf 2 (line ''rm: %s failed to delete'') [VStr (Some a)] (UExit 0) else k))
        (drop 1 args) (UExit 0))"

definition trace_main :: "u8 list list \<Rightarrow> uproc" where
  "trace_main args =
     (if length args < 3 \<or> char_at (args ! 1) 0 < 48 \<or> char_at (args ! 1) 0 > 57
      then fprintf 2 (line ''Usage: %s mask command'') [VStr (if args = [] then None else Some (args ! 0))] (UExit 1)
      else with_atoi (args ! 1) (\<lambda>n. USys (Trace n) (\<lambda>r.
        if res_val r = - 1 then fprintf 2 (line ''%s: trace failed'') [VStr (Some (args ! 0))] (UExit 1)
        else UExec (args ! 2) (drop 2 args) (printf (line ''trace: exec failed'') [] (UExit 0)))))"

section \<open>\<open>init.c\<close>, \<open>zombie.c\<close>, \<open>testhello.c\<close>, \<open>attack.c\<close>\<close>

primrec init_wait :: "nat \<Rightarrow> int \<Rightarrow> uproc \<Rightarrow> uproc" where
  "init_wait 0 pid k = UStuck"
| "init_wait (Suc fuel) pid k = USys Wait (\<lambda>r.
     if res_val r = pid then k
     else if res_val r < 0 then printf (line ''init: wait returned an error'') [] (UExit 1)
     else init_wait fuel pid k)"

primrec init_loop :: "nat \<Rightarrow> uproc" where
  "init_loop 0 = UStuck"
| "init_loop (Suc fuel) = printf (line ''init: starting sh'') [] (
     UFork (UExec (str ''sh'') [str ''sh''] (printf (line ''init: exec sh failed'') [] (UExit 1))) (\<lambda>pid.
     if pid < 0 then printf (line ''init: fork failed'') [] (UExit 1)
     else init_wait fuel pid (init_loop fuel)))"

definition init_main :: "nat \<Rightarrow> uproc" where
  "init_main fuel = USys (Open (str ''console'') O_RDWR) (\<lambda>r.
     let rest = sys_do (Dup 0) (sys_do (Dup 0) (init_loop fuel)) in
     if res_val r < 0
     then sys_do (Mknod (str ''console'') 1 0) (sys_do (Open (str ''console'') O_RDWR) rest)
     else rest)"

definition zombie_main :: uproc where
  "zombie_main = UFork (UExit 0) (\<lambda>pid. if pid > 0 then sys_do (Sleep 5) (UExit 0) else UExit 0)"

definition testhello_main :: uproc where
  "testhello_main = sys_do Hello (UExit 0)"

definition attack_main :: "u8 list list \<Rightarrow> uproc" where
  "attack_main args = UExit 1"

section \<open>\<open>ls.c\<close>\<close>

definition DIRSIZ :: nat where "DIRSIZ = 14"

definition fmtname :: "u8 list \<Rightarrow> u8 list" where
  "fmtname path =
     (let p = rev (takeWhile (\<lambda>c. c \<noteq> of_char (CHR ''/'')) (rev path)) in
      if length p \<ge> DIRSIZ then p else p @ replicate (DIRSIZ - length p) (of_char (CHR '' '')))"

text \<open>The line for a file, from its \<open>struct stat\<close>: \<open>dev\<close>, \<open>ino\<close>, \<open>type\<close>, \<open>nlink\<close>, four bytes of padding and \<open>size\<close>.\<close>

definition ls_line :: "u8 list \<Rightarrow> u8 list \<Rightarrow> uproc \<Rightarrow> uproc" where
  "ls_line path st k =
     (if length st \<noteq> 24 then UStuck
      else printf (line ''%s %d %d %d'') [VStr (Some (fmtname path)), VInt (scast (get16 st 8 :: u16)),
        VInt (ucast (get32 st 4 :: u32)), VInt (scast (ucast (get_word 8 st 16 :: u64) :: u32))] k)"

primrec ls_dir :: "nat \<Rightarrow> int \<Rightarrow> u8 list \<Rightarrow> uproc \<Rightarrow> uproc" where
  "ls_dir 0 fd path k = UStuck"
| "ls_dir (Suc fuel) fd path k = sys_read fd 16 (\<lambda>n de.
     if n \<noteq> 16 then k
     else if get16 de 0 = (0 :: u16) then ls_dir fuel fd path k
     else
       let buf = path @ of_char (CHR ''/'') # cstr (take DIRSIZ (drop 2 de)) in
       stat buf (\<lambda>r st.
         if r < 0 then printf (line ''ls: cannot stat %s'') [VStr (Some buf)] (ls_dir fuel fd path k)
         else ls_line buf st (ls_dir fuel fd path k)))"

definition ls :: "nat \<Rightarrow> u8 list \<Rightarrow> uproc \<Rightarrow> uproc" where
  "ls fuel path k = USys (Open path O_RDONLY) (\<lambda>r.
     let fd = res_val r in
     if fd < 0 then fprintf 2 (line ''ls: cannot open %s'') [VStr (Some path)] k
     else USys (Fstat fd) (\<lambda>r.
       if res_val r < 0 then fprintf 2 (line ''ls: cannot stat %s'') [VStr (Some path)] (sys_do (Close fd) k)
       else
         let st = res_bytes r; type = get16 st 8 :: u16 in
         if length st \<noteq> 24 then UStuck
         else if type = 2 \<or> type = 3 then ls_line path st (sys_do (Close fd) k)
         else if type = 1 then
           (if length path + 1 + DIRSIZ + 1 > 512 then printf (line ''ls: path too long'') [] (sys_do (Close fd) k)
            else ls_dir fuel fd path (sys_do (Close fd) k))
         else sys_do (Close fd) k))"

definition ls_main :: "nat \<Rightarrow> u8 list list \<Rightarrow> uproc" where
  "ls_main fuel args =
     (if length args < 2 then ls fuel (str ''.'') (UExit 0) else foldr (ls fuel) (drop 1 args) (UExit 0))"

section \<open>\<open>stressfs.c\<close>, \<open>forktest.c\<close>, \<open>sysinfotest.c\<close>\<close>

definition stressfs_rest :: "nat \<Rightarrow> uproc" where
  "stressfs_rest i =
     (let path = str ''stressfs'' @ [48 + of_nat i]; data = replicate 512 (of_char (CHR ''a'')) in
      printf (line ''write %d'') [VInt (of_nat i)] (
      USys (Open path (O_CREATE OR O_RDWR)) (\<lambda>fd.
      (sys_do (Write (res_val fd) data) ^^ 20) (
      sys_do (Close (res_val fd)) (
      printf (line ''read'') [] (
      USys (Open path O_RDONLY) (\<lambda>fd.
      (sys_do (Read (res_val fd) 512) ^^ 20) (
      sys_do (Close (res_val fd)) (
      sys_do Wait (UExit 0))))))))))"

text \<open>The loop with \<open>n\<close> rounds to go: the child of a \<open>fork\<close> goes on with the next round.\<close>

primrec stressfs_fork :: "nat \<Rightarrow> nat \<Rightarrow> uproc" where
  "stressfs_fork 0 i = stressfs_rest i"
| "stressfs_fork (Suc n) i =
     UFork (stressfs_fork n (i + 1)) (\<lambda>pid. if pid > 0 then stressfs_rest i else stressfs_fork n (i + 1))"

definition stressfs_main :: uproc where
  "stressfs_main = printf (line ''stressfs starting'') [] (stressfs_fork 4 0)"

definition print :: "u8 list \<Rightarrow> uproc \<Rightarrow> uproc" where
  "print s k = sys_do (Write 1 s) k"

text \<open>The loop with \<open>m\<close> rounds to go after \<open>n\<close> processes were made.\<close>

primrec forktest_forks :: "nat \<Rightarrow> nat \<Rightarrow> (nat \<Rightarrow> uproc) \<Rightarrow> uproc" where
  "forktest_forks 0 n k = k n"
| "forktest_forks (Suc m) n k =
     UFork (UExit 0) (\<lambda>pid. if pid < 0 then k n else if pid = 0 then UExit 0 else forktest_forks m (n + 1) k)"

primrec forktest_waits :: "nat \<Rightarrow> uproc \<Rightarrow> uproc" where
  "forktest_waits 0 k = k"
| "forktest_waits (Suc n) k = USys Wait (\<lambda>r.
     if res_val r < 0 then print (line ''wait stopped early'') (UExit 1) else forktest_waits n k)"

definition forktest :: "uproc \<Rightarrow> uproc" where
  "forktest k = print (line ''fork test'') (forktest_forks 1000 0 (\<lambda>n.
     if n = 1000 then print (line ''fork claimed to work N times!'') (UExit 1)
     else forktest_waits n (USys Wait (\<lambda>r.
       if res_val r \<noteq> - 1 then print (line ''wait got too many'') (UExit 1)
       else print (line ''fork test OK'') k))))"

definition forktest_main :: uproc where
  "forktest_main = forktest (UExit 0)"

text \<open>\<open>main\<close> returns to \<open>start\<close>, with the three numbers of \<open>struct sysinfo\<close> printed.\<close>

definition sysinfotest_main :: "uproc \<Rightarrow> uproc" where
  "sysinfotest_main k = USys Sysinfo (\<lambda>r.
     let info = res_bytes r; field = (\<lambda>i. VInt (scast (get32 info i :: u32))) in
     if res_val r < 0 then printf (line ''sysinfo syscall failed'') [] k
     else if length info \<noteq> 12 then UStuck
     else
       printf (line ''Free memory: %d bytes'') [field 0] (
       printf (line ''Number of processes: %d'') [field 4] (
       printf (line ''Number of openfile: %d'') [field 8] k)))"

section \<open>\<open>attacktest.c\<close>\<close>

definition do_rand :: "u64 \<Rightarrow> int \<times> u64" where
  "do_rand ctx =
     (let x = uint (ctx mod 0x7ffffffe) + 1;
          hi = x div 127773;
          lo = x mod 127773;
          x = 16807 * lo - 2836 * hi;
          x = (if x < 0 then x + 0x7fffffff else x) - 1 in
      (x, of_int x))"

primrec randchars :: "nat \<Rightarrow> u64 \<Rightarrow> u8 list \<times> u64" where
  "randchars 0 ctx = ([], ctx)"
| "randchars (Suc n) ctx =
     (let (r, ctx) = do_rand ctx; (s, ctx) = randchars n ctx in
      (str ''./abcdef'' ! nat (r div 128 mod 8) # s, ctx))"

text \<open>\<open>randstring(secret, 8)\<close> gives seven characters and a NUL.\<close>

definition attacktest_main :: "uproc \<Rightarrow> uproc" where
  "attacktest_main k = USys Uptime (\<lambda>r.
     let secret = fst (randchars 7 (of_int (res_val r)));
         failed = (\<lambda>name. printf (line ''exec %s failed'') [VStr (Some name)] (UExit 1)) in
     UFork (UExec (str ''secret'') [str ''secret'', secret] (failed (str ''secret''))) (\<lambda>pid.
     if pid < 0 then printf (line ''fork failed'') [] (UExit 1)
     else sys_do Wait (USys Pipe (\<lambda>r.
       if res_val r < 0 then printf (line ''pipe failed'') [] (UExit 1)
       else
         let fd0 = sint (get32 (res_bytes r) 0 :: u32); fd1 = sint (get32 (res_bytes r) 4 :: u32) in
         UFork (sys_do (Close fd0) (sys_do (Close 2) (sys_do (Dup fd1)
           (UExec (str ''attack'') [str ''attack''] (failed (str ''attack'')))))) (\<lambda>pid.
         if pid < 0 then printf (line ''fork failed'') [] (UExit 1)
         else sys_do (Close fd1) (Ulib.sys_read fd0 64 (\<lambda>n bs.
           if n < 0 then printf (line ''FAIL; read failed; no secret'') [] (UExit 1)
           else
             let out = bs @ replicate (64 - length bs) 0 in
             case strcmp (secret @ [0]) out of
               None \<Rightarrow> UStuck
             | Some d \<Rightarrow>
                 if d = 0 then printf (line ''OK: secret is %s'') [VStr (Some (cstr out))] k
                 else printf (line ''FAIL: no/incorrect secret'') [] k)))))))"

section \<open>What the programs do\<close>

text \<open>\<open>cat\<close> writes what it reads, however the kernel divides it.\<close>

lemma cat_copies:
  assumes "[] \<notin> set cs" and "length (concat cs) < fuel"
  shows "urun stream_os (cat fuel fd k) (cs, out) = urun stream_os k ([], out @ concat cs)"
  using assms
proof (induction fuel arbitrary: cs out)
  case (Suc fuel)
  have pos: "0 < (512 :: nat)" by simp
  show ?case
  proof (cases rule: stream_read [OF Suc.prems(1) pos, of fd out, case_names eof data])
    case eof
    then show ?thesis by (simp add: Ulib.sys_read_def read_ok_def)
  next
    case (data bs cs')
    have "length (concat cs') < fuel" using Suc.prems(2) data(1,3) by (cases bs) auto
    then have "urun stream_os (cat fuel fd k) (cs', out @ bs) = urun stream_os k ([], out @ concat cs)"
      using Suc.IH [OF data(2), of "out @ bs"] data(3) by simp
    then show ?thesis using data(1,4,5) by (simp add: Ulib.sys_read_def)
  qed
qed simp

text \<open>\<open>echo\<close> writes its arguments, with a space between them and a newline at the end.\<close>

fun echoed :: "u8 list list \<Rightarrow> u8 list" where
  "echoed [] = []"
| "echoed [a] = a @ [10]"
| "echoed (a # b # args) = a @ str '' '' @ echoed (b # args)"

lemma echo_writes: "urun stream_os (echo_main (name # args)) (cs, out) = Some (0, cs, out @ echoed args)"
proof -
  have "urun stream_os (echo_args args) (cs, out) = Some (0, cs, out @ echoed args)"
  proof (induction args arbitrary: out rule: echoed.induct)
    case (3 a b args)
    have "urun stream_os (echo_args (a # b # args)) (cs, out) = urun stream_os (echo_args (b # args)) (cs, (out @ a) @ str '' '')"
      by (subst echo_args.simps(2)) (simp add: sys_do_def del: echo_args.simps)
    then show ?case using "3.IH" by simp
  qed (simp_all add: sys_do_def)
  then show ?thesis by (simp add: echo_main_def)
qed

text \<open>The words of a text are its longest runs of characters that are not blank.\<close>

definition blank :: "u8 \<Rightarrow> bool" where
  "blank c \<longleftrightarrow> c \<in> {32, 13, 9, 10, 11}"

fun word_starts :: "bool \<Rightarrow> u8 list \<Rightarrow> nat" where
  "word_starts inword [] = 0"
| "word_starts inword (c # t) = (if \<not> blank c \<and> \<not> inword then 1 else 0) + word_starts (\<not> blank c) t"

lemma wc_char_blank:
  "wc_char ch (l, w, c, inword) =
     (if ch = 10 then l + 1 else l, if \<not> blank ch \<and> \<not> inword then w + 1 else w, c + 1, \<not> blank ch)"
  by (auto simp: wc_char_def blank_def str_def Let_def)

lemma wc_fold:
  "fold wc_char t (l, w, c, inword) = (l + of_nat (count_list t 10), w + of_nat (word_starts inword t),
     c + of_nat (length t), if t = [] then inword else \<not> blank (last t))"
  by (induction t arbitrary: l w c inword) (auto simp: wc_char_blank)

text \<open>\<open>wc\<close>, on a file that the kernel delivers in pieces of any sizes, ends its loop with the number of newlines,
  the number of words (the places where a character that is not blank begins the file or follows a blank) and the
  number of characters of the whole file, each modulo \<open>2^32\<close>; it has then read the whole file and written nothing.\<close>

lemma wc_counts:
  assumes "[] \<notin> set cs" and "length (concat cs) < fuel"
  shows "urun stream_os (wc_loop fuel fd (0, 0, 0, False) k) (cs, out) =
    urun stream_os (k (of_nat (count_list (concat cs) 10), of_nat (word_starts False (concat cs)),
      of_nat (length (concat cs)), concat cs \<noteq> [] \<and> \<not> blank (last (concat cs)))) ([], out)"
proof -
  have "urun stream_os (wc_loop fuel fd st k) (cs, out) = urun stream_os (k (fold wc_char (concat cs) st)) ([], out)" for st
    using assms
  proof (induction fuel arbitrary: cs st)
    case (Suc fuel)
    have pos: "0 < (512 :: nat)" by simp
    show ?case
    proof (cases rule: stream_read [OF Suc.prems(1) pos, of fd out, case_names eof data])
      case eof
      then show ?thesis by (simp add: Ulib.sys_read_def read_ok_def)
    next
      case (data bs cs')
      have "length (concat cs') < fuel" using Suc.prems(2) data(1,3) by (cases bs) auto
      then show ?thesis using Suc.IH [OF data(2)] data(1,3-5) by (simp add: Ulib.sys_read_def)
    qed
  qed simp
  then show ?thesis by (simp add: wc_fold)
qed

text \<open>The generator of Park and Miller, \<open>7^5 x mod (2^31 - 1)\<close>, computed without leaving 31 bits.\<close>

lemma park_miller_nonzero:
  fixes y :: int
  assumes "0 < y" and "y < 0x7fffffff"
  shows "16807 * y mod 0x7fffffff \<noteq> 0"
proof
  assume "16807 * y mod 0x7fffffff = 0"
  then have "1407677000 * (16807 * y) mod 0x7fffffff = 0" by (metis mod_mult_right_eq mult_zero_right mod_0)
  moreover have "1407677000 * (16807 * y) mod 0x7fffffff = (y + 0x7fffffff * (11017 * y)) mod 0x7fffffff" by simp
  moreover have "(y + 0x7fffffff * (11017 * y)) mod 0x7fffffff = y" using assms by (subst mod_mult_self2) simp
  ultimately show False using assms(1) by linarith
qed

lemma do_rand_park_miller:
  assumes "do_rand ctx = (x, c)"
  shows "x + 1 = 16807 * (uint ctx mod 0x7ffffffe + 1) mod 0x7fffffff \<and> 0 \<le> x \<and> x < 0x7ffffffe \<and> c = of_int x"
proof -
  define y where "y = uint ctx mod 0x7ffffffe + 1"
  define z where "z = 16807 * (y mod 127773) - 2836 * (y div 127773)"
  have y: "0 < y" "y < 0x7fffffff" unfolding y_def by (simp_all add: pos_mod_bound [of "0x7ffffffe", THEN order_less_trans] add_pos_nonneg)
  have x: "x = (if z < 0 then z + 0x7fffffff else z) - 1" "c = of_int x"
    using assms by (auto simp: do_rand_def Let_def y_def z_def uint_mod)
  have "16807 * y = z + 0x7fffffff * (y div 127773)"
    using div_mult_mod_eq [of y 127773] unfolding z_def by linarith
  then have m: "16807 * y mod 0x7fffffff = z mod 0x7fffffff" by simp
  have b: "y mod 127773 \<ge> 0" "y mod 127773 < 127773" "y div 127773 \<ge> 0" "y div 127773 \<le> 16807" using y by auto
  have z: "z < 0x7fffffff" "- 0x7fffffff < z" unfolding z_def using b by linarith+
  have "z mod 0x7fffffff = (if z < 0 then z + 0x7fffffff else z)"
    using z by (auto simp: mod_pos_pos_trivial intro: mod_pos_pos_trivial [of "z + 0x7fffffff" "0x7fffffff", simplified])
  moreover have "z mod 0x7fffffff \<noteq> 0" using park_miller_nonzero [OF y] m by simp
  moreover have "0 \<le> z mod 0x7fffffff" "z mod 0x7fffffff < 0x7fffffff" by simp_all
  ultimately show ?thesis using x m unfolding y_def [symmetric] by linarith
qed

end
