(* ===== verification/Spec2Isabelle.thy ===== *)
theory Spec2Isabelle
  imports Spinlock Wakeup Pipes Balloc Vdisk Trap Grep ShellShow MkImage Sysinfo Umalloc Uprogs
begin

text \<open>
  A verification library for the xv6 kernel for RISC-V (the syscall lab variant: \<open>trace\<close> and
  \<open>sysinfo\<close> added), built with \<open>LAB_SYSCALL\<close> defined, so that the page-clearing \<open>memset\<close> calls of
  \<open>kalloc.c\<close> and \<open>vm.c\<close> that are under \<open>#ifndef LAB_SYSCALL\<close> are absent.

  \<^bold>\<open>The program.\<close> The kernel boots in \<open>start.c\<close> and \<open>main.c\<close>, takes traps in \<open>trap.c\<close>, and serves the system
  calls of \<open>syscall.c\<close>, which reach processes (\<open>proc.c\<close>, \<open>exec.c\<close>), memory (\<open>kalloc.c\<close>, \<open>vm.c\<close>) and files
  (\<open>sysfile.c\<close>, \<open>file.c\<close>, \<open>pipe.c\<close>, \<open>fs.c\<close>). The file system runs on the log (\<open>log.c\<close>), that on the buffer cache
  (\<open>bio.c\<close>), and that on the disk driver (\<open>virtio_disk.c\<close>). The programs of \<open>user/\<close> make the system calls, and \<open>mkfs\<close>
  builds the disk image the kernel boots from.

  \<^bold>\<open>How the kernel is modelled.\<close> Kernel memory is a function from 64-bit addresses to bytes. Each C module adds its
  static data to one extensible record: \<open>machine\<close>, \<open>kmem\<close>, \<open>vm\<close>, \<open>ptable\<close>, \<open>mmio\<close>, \<open>uart\<close>, \<open>printfst\<close>, \<open>console\<close>,
  \<open>slocks\<close>, \<open>bcache\<close>, \<open>logst\<close>, \<open>fsst\<close>, \<open>pipest\<close>, \<open>filest\<close>, \<open>vdisk\<close>, \<open>sysst\<close>, \<open>trapst\<close>. A C function is a function
  from that record to a result: it returns (\<open>Ok\<close>), panics (\<open>Panic\<close>), sleeps on a channel (\<open>Block\<close>), gives up the hart
  (\<open>Switch\<close>), never returns (\<open>Spin\<close>), or is undefined (\<open>Undef\<close>). What a thread does after it slept is a definition of
  its own (\<open>sleep_resume\<close>, \<open>virtio_wait\<close>, \<open>sys_sleep_loop\<close>). Locks are a list of those held by the running kernel
  thread; \<open>acquire\<close> and \<open>release\<close> panic as the C code does. Each function is modelled as one thread runs it;
  interleavings of harts are step relations of their own (\<open>Spinlock\<close>, \<open>Wakeup\<close>, \<open>Txn\<close>).

  \<^bold>\<open>How user programs are modelled.\<close> A program is a tree of system calls with a subtree for each answer (\<open>uproc\<close>), so
  that what is proved holds for the answers of any kernel that the theorem names: \<open>stream_os\<close> delivers a file in pieces
  of any sizes, \<open>brk_os\<close> grants memory as it likes. \<open>mkfs\<close> is written in the kernel's result monad over a state of its
  own.

  \<^bold>\<open>Theories of the kernel.\<close>
  \<^item> \<open>Prelude\<close>, \<open>Bytes\<close>, \<open>Frame\<close>, \<open>Ring\<close>: words and little-endian bytes, memory, the result monad and the lemmas
    that run it, what an operation keeps, step systems, and bounded queues.
  \<^item> \<open>Kstring\<close>: \<open>string.c\<close>, with \<open>memmove\<close> on overlapping regions.
  \<^item> \<open>Spinlock\<close>: \<open>spinlock.c\<close> at the level of harts: mutual exclusion, and that it implements the list of locks.
  \<^item> \<open>Kalloc\<close>: \<open>kalloc.c\<close>, with the free list threaded through the pages; no page is handed out twice.
  \<^item> \<open>Vm\<close>: \<open>vm.c\<close>. \<open>PageTable\<close> (tables as trees in memory), \<open>Uvm\<close> (growing and shrinking an address space), \<open>Ucopy\<close>
    (copies across the user boundary), \<open>Ufork\<close> and \<open>Ufree\<close> (duplicating and freeing one) hold its properties.
  \<^item> \<open>Proc\<close>: \<open>proc.c\<close>; \<open>Sched\<close>: \<open>wakeup\<close>, \<open>kill\<close>, the scheduler among other harts, and process identifiers; \<open>Wakeup\<close>: no wakeup is
    lost in any interleaving. \<open>Lifecycle\<close>: \<open>userinit\<close>, \<open>fork\<close> and \<open>exit\<close>. \<open>Exec\<close>: \<open>exec.c\<close>.
  \<^item> \<open>Uart\<close>, \<open>Printf\<close>, \<open>Console\<close>: \<open>uart.c\<close>, \<open>printf.c\<close>, \<open>console.c\<close>: what is sent, what is printed reads back, and
    when the buffer of \<open>printint\<close> is too small.
  \<^item> \<open>Sleeplock\<close>, \<open>Bio\<close>, \<open>Log\<close>, \<open>Fs\<close>: \<open>sleeplock.c\<close>, \<open>bio.c\<close>, \<open>log.c\<close>, \<open>fs.c\<close>. \<open>Bcache\<close>: the cache implements a
    store of blocks. \<open>Crash\<close>: a commit is atomic under crashes, for a log of any size. \<open>Txn\<close>: operations and their reservations of log space.
    \<open>Balloc\<close> and \<open>Inode\<close>: block allocation, inodes on disk and path names.
  \<^item> \<open>Virtio\<close>: \<open>virtio_disk.c\<close>; \<open>Vdisk\<close>: with a device that obeys the specification it implements the disk of \<open>Bio\<close>.
  \<^item> \<open>Pipe\<close> and \<open>Pipes\<close>: \<open>pipe.c\<close> and its properties. \<open>File\<close>: \<open>file.c\<close>. \<open>Args\<close>, \<open>Sysfile\<close>, \<open>Sysproc\<close>, \<open>Syscall\<close>: the
    system calls and their dispatch; \<open>Sysinfo\<close>: what the lab's \<open>sysinfo\<close> reports. \<open>Trap\<close>: \<open>trap.c\<close>, \<open>plic.c\<close>,
    \<open>start.c\<close>, \<open>main.c\<close>.

  \<^bold>\<open>Theories of \<open>user/\<close> and \<open>mkfs/\<close>.\<close>
  \<^item> \<open>Ulib\<close>, \<open>Uprintf\<close>, \<open>Umalloc\<close>: \<open>ulib.c\<close>, \<open>printf.c\<close>, \<open>umalloc.c\<close>; the allocator hands out blocks that are apart, and
    fails only when the kernel refuses the memory.
  \<^item> \<open>Shell\<close>: \<open>sh.c\<close>; \<open>ShellParse\<close>: what the parser returns; \<open>ShellShow\<close>: it reads back what is written.
  \<^item> \<open>Grep\<close>: \<open>grep.c\<close>, its matcher against languages and its loop against lines. \<open>Uprogs\<close>: the small programs; \<open>cat\<close>
    copies, \<open>echo\<close> and \<open>wc\<close> write what they should, and \<open>do_rand\<close> is the generator of Park and Miller.
  \<^item> \<open>Mkfs\<close>: \<open>mkfs.c\<close>; \<open>MkfsFiles\<close>: appending to a file; \<open>MkImage\<close>: the image it builds, block by block.

  \<^bold>\<open>Interfaces.\<close> \<open>page_allocator\<close> (\<open>Kalloc\<close>), \<open>block_store\<close> (\<open>Bcache\<close>, used by the log and the file system),
  \<open>cache_apart\<close> (what the cache keeps of the layers above it), \<open>bounded_queue\<close> (the pipe and the transmit buffer),
  \<open>mem_frame\<close> (what the memory operations keep) and \<open>step_system\<close> (invariants of the step relations) are locales, each
  interpreted on the definitions of the model.

  \<^bold>\<open>Bounds and fuel.\<close> A loop that ends by its data is structurally recursive or has a termination proof. A loop whose end
  depends on the state takes a bound, and running out of it is a result of its own (\<open>Spin\<close> in the kernel, \<open>UStuck\<close> in a
  program, \<open>Deep\<close> in the parser): the busy wait of the UART polls as often as a parameter of the state says, the
  parser's \<open>4 * length + 4\<close> and \<open>malloc\<close>'s \<open>2 * card F + 2\<close> rounds are proved to be enough, and \<open>iappend_loop\<close>'s rounds
  are as many as there are bytes. The search of \<open>free\<close> in \<open>umalloc.c\<close> is a partial function that is proved to return
  on every well-formed ring.

  \<^bold>\<open>Parameters.\<close> The devices are not part of the repository. The UART answers with arbitrary register values; the
  virtio device is a parameter of \<open>virtio_implements_disk\<close> with the hypothesis \<open>virtio_blk\<close>, which states what the
  specification says of a request that is in the next slot of the available ring, published by its index and notified, and
  which \<open>ram_disk\<close> satisfies. What the other harts do between the steps of the scheduler, and what a process does until it
  switches back, are parameters of \<open>scheduler_pass\<close>.

  \<^bold>\<open>Not modelled.\<close> The assembly (\<open>entry.S\<close>, \<open>swtch.S\<close>, \<open>kernelvec.S\<close>, \<open>trampoline.S\<close>, \<open>initcode.S\<close>, and the stubs of
  \<open>usys.pl\<close>): its effect appears as the result of a context switch and as the trapframe. Translation look-aside buffers
  and memory ordering, and interrupts in the middle of a function. \<open>secret.c\<close>, whose only effect is on its own memory. \<open>usertests.c\<close> and \<open>grind.c\<close>, which test the
  kernel by running it. That the shell's calls of \<open>malloc\<close> may fail, and the calls of the host that \<open>mkfs\<close> makes on its
  files.
\<close>

end
